(* ===== verification/Xv6_Prelude.thy ===== *)
theory Xv6_Prelude
  imports Main "HOL-Library.Word"
begin

text \<open>
  Shared vocabulary of the development: machine integers, the outcome of a
  kernel operation and its sequencing, byte-addressed memory, and the generic
  facts on lists and words that the component theories use.

  A kernel routine of the C sources becomes a HOL function from a state to an
  \<open>outcome\<close>. It returns normally (\<open>Ret\<close>), leaves the running
  process by switching to the scheduler (\<open>Swtch\<close>), spins for ever on a
  lock that another processor holds (\<open>Spin\<close>), stops the machine
  (\<open>Panic\<close>) or does something the C language leaves undefined, such as
  following a null or a wild pointer (\<open>Fault\<close>).
\<close>

unbundle bit_operations_syntax

named_theorems returns_intros \<open>introduction rules for the postcondition predicate\<close>
named_theorems outcome_simps \<open>equations that compute outcomes\<close>

type_synonym u8 = "8 word"
type_synonym u16 = "16 word"
type_synonym u32 = "32 word"

section \<open>Outcomes of kernel operations\<close>

datatype ('s, 'a) outcome =
    Ret 'a 's
  | Swtch 's
  | Spin
  | Panic string
  | Fault string

fun bnd :: "('s, 'a) outcome \<Rightarrow> ('a \<Rightarrow> 's \<Rightarrow> ('s, 'b) outcome) \<Rightarrow> ('s, 'b) outcome" where
  "bnd (Ret a s) f = f a s"
| "bnd (Swtch s) f = Swtch s"
| "bnd Spin f = Spin"
| "bnd (Panic m) f = Panic m"
| "bnd (Fault m) f = Fault m"

definition returns :: "('s, 'a) outcome \<Rightarrow> ('a \<Rightarrow> 's \<Rightarrow> bool) \<Rightarrow> bool" where
  "returns m Q = (case m of Ret a s \<Rightarrow> Q a s | _ \<Rightarrow> False)"

text \<open>Running an operation of a sub-state inside a larger state.\<close>

fun zoom :: "('s \<Rightarrow> 't \<Rightarrow> 't) \<Rightarrow> ('s, 'a) outcome \<Rightarrow> 't \<Rightarrow> ('t, 'a) outcome" where
  "zoom put (Ret a s) t = Ret a (put s t)"
| "zoom put (Swtch s) t = Swtch (put s t)"
| "zoom put Spin t = Spin"
| "zoom put (Panic m) t = Panic m"
| "zoom put (Fault m) t = Fault m"

lemma bnd_Ret_iff:
  "bnd m f = Ret b t \<longleftrightarrow> (\<exists>a s. m = Ret a s \<and> f a s = Ret b t)"
  by (cases m) auto

lemma bnd_assoc: "bnd (bnd m f) g = bnd m (\<lambda>a s. bnd (f a s) g)"
  by (cases m) auto

lemma returns_Ret [simp]: "returns (Ret a s) Q = Q a s"
  by (simp add: returns_def)

lemma returns_not [simp]:
  "\<not> returns (Swtch s) Q" "\<not> returns Spin Q" "\<not> returns (Panic m) Q" "\<not> returns (Fault m) Q"
  by (simp_all add: returns_def)

lemma returns_bnd: "returns (bnd m f) Q = returns m (\<lambda>a s. returns (f a s) Q)"
  by (cases m) auto

lemma returnsE:
  assumes "returns m Q"
  obtains a s where "m = Ret a s" "Q a s"
  using assms by (cases m) auto

lemma returns_iff: "returns m Q \<longleftrightarrow> (\<exists>a s. m = Ret a s \<and> Q a s)"
  by (cases m) auto

lemma returns_mono: "returns m Q \<Longrightarrow> (\<And>a s. Q a s \<Longrightarrow> R a s) \<Longrightarrow> returns m R"
  by (cases m) auto

lemma returns_bndI [returns_intros]:
  "returns m (\<lambda>a s. returns (f a s) Q) \<Longrightarrow> returns (bnd m f) Q"
  by (simp add: returns_bnd)

lemma returns_then: "returns m Q \<Longrightarrow> (\<And>a s. Q a s \<Longrightarrow> R (f a s)) \<Longrightarrow> R (bnd m f)"
  by (auto simp: returns_iff)

text \<open>
  A predicate that holds of the state an operation ends in, whether it returns or
  switches away. Facts of the form \<open>P s \<Longrightarrow> keeps (op s) P\<close> are
  collected in \<open>frame\<close>.
\<close>

definition keeps :: "('s, 'a) outcome \<Rightarrow> ('s \<Rightarrow> bool) \<Rightarrow> bool" where
  "keeps m P = (case m of Ret a s \<Rightarrow> P s | Swtch s \<Rightarrow> P s | _ \<Rightarrow> True)"

lemma keeps_simps [simp]:
  "keeps (Ret a s) P = P s" "keeps (Swtch s) P = P s" "keeps Spin P" "keeps (Panic m) P" "keeps (Fault m) P"
  by (simp_all add: keeps_def)

named_theorems frame

lemma keeps_bnd [frame]:
  "keeps m P \<Longrightarrow> (\<And>a s. P s \<Longrightarrow> keeps (f a s) P) \<Longrightarrow> keeps (bnd m f) P"
  by (cases m) auto

lemma keeps_mono: "keeps m P \<Longrightarrow> (\<And>s. P s \<Longrightarrow> Q s) \<Longrightarrow> keeps m Q"
  by (cases m) auto

lemma keeps_zoom:
  "(\<And>h. P (put h s)) \<Longrightarrow> keeps (zoom put m s) P"
  by (cases m) auto

text \<open>A loop over a list of values, and its invariant rule.\<close>

fun for_each :: "('x \<Rightarrow> 's \<Rightarrow> ('s, unit) outcome) \<Rightarrow> 'x list \<Rightarrow> 's \<Rightarrow> ('s, unit) outcome" where
  "for_each f [] s = Ret () s"
| "for_each f (x # xs) s = bnd (f x s) (\<lambda>_ s. for_each f xs s)"

lemma for_each_append: "for_each f (xs @ ys) s = bnd (for_each f xs s) (\<lambda>_ s. for_each f ys s)"
proof (induction xs arbitrary: s)
  case (Cons x xs)
  then show ?case by (cases "f x s") simp_all
qed simp

lemma for_each_upto:
  assumes "I 0 s" "\<And>k s. k < n \<Longrightarrow> I k s \<Longrightarrow> returns (f k s) (\<lambda>_ t. I (Suc k) t)"
  shows "returns (for_each f [0..<n] s) (\<lambda>_ t. I n t)"
  using assms
proof (induction n)
  case (Suc n)
  then have "returns (for_each f [0..<n] s) (\<lambda>_ t. I n t)" by simp
  then show ?case using Suc.prems(2) [of n]
    by (auto simp: for_each_append returns_bnd elim!: returns_mono)
qed simp

lemma keeps_for_each [frame]:
  "P s \<Longrightarrow> (\<And>x s. x \<in> set xs \<Longrightarrow> P s \<Longrightarrow> keeps (f x s) P) \<Longrightarrow> keeps (for_each f xs s) P"
  by (induction xs arbitrary: s) (auto intro!: keeps_bnd)

text \<open>Operations that do not give up the processor.\<close>

definition stays :: "('s, 'a) outcome \<Rightarrow> bool" where
  "stays m = (case m of Swtch s \<Rightarrow> False | _ \<Rightarrow> True)"

lemma stays_simps [simp]:
  "stays (Ret a s)" "\<not> stays (Swtch s)" "stays Spin" "stays (Panic m)" "stays (Fault m)"
  by (simp_all add: stays_def)

lemma stays_bnd [frame]: "stays m \<Longrightarrow> (\<And>a s. stays (f a s)) \<Longrightarrow> stays (bnd m f)"
  by (cases m) auto

lemma stays_zoom [frame]: "stays m \<Longrightarrow> stays (zoom put m s)"
  by (cases m) auto

lemma bnd_Swtch_iff: "bnd m f = Swtch t \<longleftrightarrow> m = Swtch t \<or> (\<exists>a s. m = Ret a s \<and> f a s = Swtch t)"
  by (cases m) auto

lemma bnd_entered:
  "m = bnd pre g \<Longrightarrow> m = Ret r t \<or> m = Swtch t \<Longrightarrow> keeps pre P \<Longrightarrow> stays pre \<Longrightarrow> \<exists>a u. P u \<and> m = g a u"
  by (cases pre) auto

lemma keepsD: "keeps m P \<Longrightarrow> m = Ret a t \<Longrightarrow> P t" "keeps m P \<Longrightarrow> m = Swtch t \<Longrightarrow> P t"
  by simp_all

section \<open>C integers\<close>

text \<open>The value a 32-bit two's complement \<open>int\<close> holds after a computation.\<close>

definition i32 :: "int \<Rightarrow> int" where
  "i32 x = signed_take_bit 31 x"

lemma i32_id: "- (2 ^ 31) \<le> x \<Longrightarrow> x < 2 ^ 31 \<Longrightarrow> i32 x = x"
  by (simp add: i32_def signed_take_bit_int_eq_self_iff)

lemma i32_range: "- (2 ^ 31) \<le> i32 x \<and> i32 x < 2 ^ 31"
  using signed_take_bit_int_greater_eq_minus_exp [of 31 x]
    signed_take_bit_int_less_exp [of 31 x]
  by (simp add: i32_def)

text \<open>C's division and remainder truncate towards zero.\<close>

definition cdiv :: "int \<Rightarrow> int \<Rightarrow> int" where
  "cdiv a b = sgn a * sgn b * (\<bar>a\<bar> div \<bar>b\<bar>)"

definition crem :: "int \<Rightarrow> int \<Rightarrow> int" where
  "crem a b = a - cdiv a b * b"

lemma cdiv_nonneg: "0 \<le> a \<Longrightarrow> 0 < b \<Longrightarrow> cdiv a b = a div b"
  by (auto simp: cdiv_def sgn_if)

lemma crem_nonneg: "0 \<le> a \<Longrightarrow> 0 < b \<Longrightarrow> crem a b = a mod b"
  by (simp add: crem_def cdiv_nonneg minus_div_mult_eq_mod)

lemma crem_minus_one: "1 < b \<Longrightarrow> crem (-1) b = -1"
  by (simp add: crem_def cdiv_def sgn_if)

lemma u32_lt: "unat (x :: u32) < 2 ^ 32"
  using unsigned_less [of x] by simp

section \<open>First index with a property\<close>

text \<open>The shape of every table scan of the kernel: the first slot that satisfies a test.\<close>

fun findi :: "('a \<Rightarrow> bool) \<Rightarrow> 'a list \<Rightarrow> nat option" where
  "findi P [] = None"
| "findi P (x # xs) = (if P x then Some 0 else map_option Suc (findi P xs))"

lemma findi_None_iff: "findi P xs = None \<longleftrightarrow> (\<forall>x\<in>set xs. \<not> P x)"
  by (induction xs) auto

lemma findi_Some_iff:
  "findi P xs = Some i \<longleftrightarrow> i < length xs \<and> P (xs ! i) \<and> (\<forall>j<i. \<not> P (xs ! j))"
proof (induction xs arbitrary: i)
  case Nil
  then show ?case by simp
next
  case (Cons x xs)
  show ?case
    by (cases i) (auto simp: Cons.IH less_Suc_eq_0_disj nth_Cons')
qed

lemma findi_SomeD:
  assumes "findi P xs = Some i"
  shows "i < length xs" "P (xs ! i)"
  using assms by (auto simp: findi_Some_iff)

lemma findi_exists: "x \<in> set xs \<Longrightarrow> P x \<Longrightarrow> \<exists>i. findi P xs = Some i"
  by (cases "findi P xs") (auto simp: findi_None_iff)

lemma findi_cong_upd:
  "(\<And>x. P (f x) = P x) \<Longrightarrow> i < length xs \<Longrightarrow> findi P (xs[i := f (xs ! i)]) = findi P xs"
proof (induction xs arbitrary: i)
  case Nil
  then show ?case by simp
next
  case (Cons x xs)
  then show ?case by (cases i) auto
qed

section \<open>Byte-addressed memory\<close>

type_synonym memory = "u32 \<Rightarrow> u8"

definition read32 :: "memory \<Rightarrow> u32 \<Rightarrow> u32" where
  "read32 m a = ucast (m a) OR push_bit 8 (ucast (m (a + 1)))
     OR push_bit 16 (ucast (m (a + 2))) OR push_bit 24 (ucast (m (a + 3)))"

definition write32 :: "memory \<Rightarrow> u32 \<Rightarrow> u32 \<Rightarrow> memory" where
  "write32 m a v = m(a := ucast v, a + 1 := ucast (drop_bit 8 v),
     a + 2 := ucast (drop_bit 16 v), a + 3 := ucast (drop_bit 24 v))"

text \<open>\<open>fill m a c n\<close> holds byte \<open>c\<close> at the \<open>n\<close> addresses from \<open>a\<close> on.\<close>

definition fill :: "memory \<Rightarrow> u32 \<Rightarrow> u8 \<Rightarrow> u32 \<Rightarrow> memory" where
  "fill m a c n = (\<lambda>x. if x - a < n then c else m x)"

lemma four_bytes:
  fixes v :: u32
  shows "ucast (ucast v :: u8) OR push_bit 8 (ucast (ucast (drop_bit 8 v) :: u8))
     OR push_bit 16 (ucast (ucast (drop_bit 16 v) :: u8))
     OR push_bit 24 (ucast (ucast (drop_bit 24 v) :: u8)) = v"
    (is "?l = v")
proof (rule bit_word_eqI)
  fix n assume "n < LENGTH(32)"
  then consider "n < 8" | "8 \<le> n" "n < 16" | "16 \<le> n" "n < 24" | "24 \<le> n" "n < 32"
    by force
  then show "bit ?l n = bit v n"
    by cases (auto simp: bit_simps)
qed

lemma less_4_iff: "(i :: u32) < 4 \<longleftrightarrow> i = 0 \<or> i = 1 \<or> i = 2 \<or> i = 3"
  by unat_arith

lemma no_overlap4:
  fixes a b i :: u32
  assumes "\<not> b - a < 4" "\<not> a - b < 4" "i < 4"
  shows "\<not> b + i - a < 4"
proof
  assume *: "b + i - a < 4"
  define d where "d = b - a"
  have d: "\<not> d < 4" "\<not> - d < 4" using assms(1,2) by (simp_all add: d_def)
  have "d + i < 4" using * by (simp add: d_def algebra_simps)
  then have "d = - i \<or> d = 1 - i \<or> d = 2 - i \<or> d = 3 - i"
    unfolding less_4_iff by (simp add: eq_diff_eq eq_neg_iff_add_eq_0)
  with d assms(3) show False unfolding less_4_iff by (elim disjE) simp_all
qed

lemma read32_write32 [simp]: "read32 (write32 m a v) a = v"
  by (simp add: read32_def write32_def four_bytes)

lemma write32_outside: "\<not> x - a < 4 \<Longrightarrow> write32 m a v x = m x"
  by (auto simp: write32_def)

lemma read32_write32_other:
  assumes "\<not> b - a < 4" "\<not> a - b < 4"
  shows "read32 (write32 m a v) b = read32 m b"
proof -
  have "write32 m a v (b + i) = m (b + i)" if "i < 4" for i
    using no_overlap4 [OF assms that] by (simp add: write32_outside)
  from this [of 0] this [of 1] this [of 2] this [of 3] show ?thesis
    by (simp add: read32_def)
qed

end
