(* ===== verification/Spinlock.thy ===== *)
theory Spinlock
  imports Xv6_Prelude
begin

text \<open>
  Spin locks and the interrupt-disable nesting they rest on: \<open>spinlock.c\<close>,
  \<open>mycpu\<close> and \<open>cpuid\<close> of \<open>proc.c\<close>, and the flag instructions
  of \<open>x86.h\<close>.

  The state is the part of the machine these routines touch: the table of
  processors, the local APIC id of the processor that is executing, the
  interrupt flag of every processor and the spin locks of the kernel, one per
  \<open>lockid\<close>. The debugging fields of a lock (its name and the call stack
  that took it) are left out.
\<close>

section \<open>State\<close>

datatype slid = Buf_sleeplock nat | Inode_sleeplock nat

datatype lockid =
    Ptable_lock | Kmem_lock | Bcache_lock | Icache_lock | Ftable_lock | Log_lock
  | Ide_lock | Ticks_lock | Cons_lock | Shared_memory_lock | Userlock_lk
  | Sleeplock_lk slid | Pipe_lock u32

record spinlock =
  locked :: bool
  holder :: "nat option"

record cpu =
  apicid :: u8
  ncli :: int
  intena :: bool
  cpu_proc :: "nat option"
  cpu_executed_syscalls :: int
  ts_esp0 :: u32
  ts_ss0 :: u16
  ts_iomb :: u16
  task_reg :: u16

record hw =
  cpus :: "cpu list"
  lapicid :: u8
  eflags_IF :: "u8 \<Rightarrow> bool"
  locks :: "lockid \<Rightarrow> spinlock"

definition free_lock :: spinlock where
  "free_lock = \<lparr>locked = False, holder = None\<rparr>"

section \<open>Operations\<close>

definition readeflags :: "hw \<Rightarrow> bool" where
  "readeflags s = eflags_IF s (lapicid s)"

definition cli :: "hw \<Rightarrow> hw" where
  "cli s = s\<lparr>eflags_IF := (eflags_IF s)(lapicid s := False)\<rparr>"

definition sti :: "hw \<Rightarrow> hw" where
  "sti s = s\<lparr>eflags_IF := (eflags_IF s)(lapicid s := True)\<rparr>"

definition mycpu :: "hw \<Rightarrow> (hw, nat) outcome" where
  "mycpu s =
     (if readeflags s then Panic ''mycpu called with interrupts enabled''
      else case findi (\<lambda>c. apicid c = lapicid s) (cpus s) of
             Some i \<Rightarrow> Ret i s
           | None \<Rightarrow> Panic ''unknown apicid'')"

definition cpuid :: "hw \<Rightarrow> (hw, nat) outcome" where
  "cpuid s = mycpu s"

definition upd_cpu :: "nat \<Rightarrow> (cpu \<Rightarrow> cpu) \<Rightarrow> hw \<Rightarrow> hw" where
  "upd_cpu i f s = s\<lparr>cpus := (cpus s)[i := f (cpus s ! i)]\<rparr>"

definition pushcli :: "hw \<Rightarrow> (hw, unit) outcome" where
  "pushcli s =
     (let eflags = readeflags s; s = cli s in
      bnd (mycpu s) (\<lambda>i s.
      bnd (if ncli (cpus s ! i) = 0
           then bnd (mycpu s) (\<lambda>i s. Ret () (upd_cpu i (\<lambda>c. c\<lparr>intena := eflags\<rparr>) s))
           else Ret () s) (\<lambda>_ s.
      bnd (mycpu s) (\<lambda>i s.
      Ret () (upd_cpu i (\<lambda>c. c\<lparr>ncli := ncli c + 1\<rparr>) s)))))"

definition popcli :: "hw \<Rightarrow> (hw, unit) outcome" where
  "popcli s =
     (if readeflags s then Panic ''popcli - interruptible''
      else bnd (mycpu s) (\<lambda>i s.
        let s = upd_cpu i (\<lambda>c. c\<lparr>ncli := ncli c - 1\<rparr>) s in
        if ncli (cpus s ! i) < 0 then Panic ''popcli''
        else bnd (mycpu s) (\<lambda>i s.
          if ncli (cpus s ! i) = 0 \<and> intena (cpus s ! i) then Ret () (sti s)
          else Ret () s)))"

definition holding :: "lockid \<Rightarrow> hw \<Rightarrow> (hw, bool) outcome" where
  "holding l s =
     bnd (pushcli s) (\<lambda>_ s.
     bnd (if locked (locks s l)
          then bnd (mycpu s) (\<lambda>i s. Ret (holder (locks s l) = Some i) s)
          else Ret False s) (\<lambda>r s.
     bnd (popcli s) (\<lambda>_ s.
     Ret r s)))"

definition initlock :: "lockid \<Rightarrow> hw \<Rightarrow> hw" where
  "initlock l s = s\<lparr>locks := (locks s)(l := \<lparr>locked = False, holder = None\<rparr>)\<rparr>"

text \<open>
  The whole call of one processor, with no other running in between: the \<open>xchg\<close>
  loop takes a free lock at once, and on a lock that another processor holds it does not
  come back (\<open>Spin\<close>) in this state. The theory Spin_Steps has the same code cut at
  every access to a lock, for processors that run at the same time.
\<close>

definition acquire :: "lockid \<Rightarrow> hw \<Rightarrow> (hw, unit) outcome" where
  "acquire l s =
     bnd (pushcli s) (\<lambda>_ s.
     bnd (holding l s) (\<lambda>h s.
     if h then Panic ''acquire''
     else if locked (locks s l) then Spin
     else let s = s\<lparr>locks := (locks s)(l := (locks s l)\<lparr>locked := True\<rparr>)\<rparr> in
       bnd (mycpu s) (\<lambda>i s.
       Ret () (s\<lparr>locks := (locks s)(l := (locks s l)\<lparr>holder := Some i\<rparr>)\<rparr>))))"

definition release :: "lockid \<Rightarrow> hw \<Rightarrow> (hw, unit) outcome" where
  "release l s =
     bnd (holding l s) (\<lambda>h s.
     if \<not> h then Panic ''release''
     else let s = s\<lparr>locks := (locks s)(l := (locks s l)\<lparr>holder := None\<rparr>)\<rparr>;
              s = s\<lparr>locks := (locks s)(l := (locks s l)\<lparr>locked := False\<rparr>)\<rparr>
          in popcli s)"

lemma stays_spin [frame]:
  "stays (mycpu s)" "stays (pushcli s)" "stays (popcli s)" "stays (holding l s)" "stays (acquire l s)"
  "stays (release l s)"
proof -
  show *: "stays (mycpu s)" for s by (simp add: mycpu_def split: option.split)
  show p: "stays (pushcli s)" for s by (auto simp: pushcli_def Let_def intro!: frame *)
  show q: "stays (popcli s)" for s by (auto simp: popcli_def Let_def intro!: frame *)
  show h: "stays (holding l s)" for s by (auto simp: holding_def intro!: frame * p q)
  show "stays (acquire l s)" by (auto simp: acquire_def Let_def intro!: frame * p h)
  show "stays (release l s)" by (auto simp: release_def Let_def intro!: frame h q)
qed

section \<open>A processor in good standing\<close>

text \<open>
  The executing processor is in the table, its nesting depth is not negative,
  and its interrupts are off while the depth is positive.
\<close>

definition me :: "hw \<Rightarrow> nat" where
  "me s = (case findi (\<lambda>c. apicid c = lapicid s) (cpus s) of Some i \<Rightarrow> i | None \<Rightarrow> length (cpus s))"

definition cpu_ok :: "hw \<Rightarrow> bool" where
  "cpu_ok s \<longleftrightarrow> me s < length (cpus s) \<and> 0 \<le> ncli (cpus s ! me s)
     \<and> (0 < ncli (cpus s ! me s) \<longrightarrow> \<not> readeflags s)"

lemma me_lookup:
  "me s < length (cpus s) \<Longrightarrow> findi (\<lambda>c. apicid c = lapicid s) (cpus s) = Some (me s)"
  by (auto simp: me_def split: option.splits)

lemma mycpu_off:
  "me s < length (cpus s) \<Longrightarrow> \<not> readeflags s \<Longrightarrow> mycpu s = Ret (me s) s"
  by (simp add: mycpu_def me_lookup)

lemma readeflags_cli [simp]: "\<not> readeflags (cli s)"
  by (simp add: readeflags_def cli_def)

lemma cli_sel [simp]:
  "cpus (cli s) = cpus s" "lapicid (cli s) = lapicid s" "locks (cli s) = locks s" "me (cli s) = me s"
  by (simp_all add: cli_def me_def split: option.split)

lemma sti_sel [simp]:
  "cpus (sti s) = cpus s" "lapicid (sti s) = lapicid s" "locks (sti s) = locks s" "me (sti s) = me s"
  "readeflags (sti s)"
  by (simp_all add: sti_def me_def readeflags_def split: option.split)

lemma me_locks [simp]: "me (s\<lparr>locks := L\<rparr>) = me s" "readeflags (s\<lparr>locks := L\<rparr>) = readeflags s"
  by (simp_all add: me_def readeflags_def split: option.split)

lemma upd_cpu_sel [simp]:
  "lapicid (upd_cpu i f s) = lapicid s" "locks (upd_cpu i f s) = locks s"
  "eflags_IF (upd_cpu i f s) = eflags_IF s" "readeflags (upd_cpu i f s) = readeflags s"
  "length (cpus (upd_cpu i f s)) = length (cpus s)"
  "i < length (cpus s) \<Longrightarrow> cpus (upd_cpu i f s) ! i = f (cpus s ! i)"
  by (simp_all add: upd_cpu_def readeflags_def)

lemma me_upd_cpu [simp]:
  assumes "\<And>c. apicid (f c) = apicid c"
  shows "me (upd_cpu i f s) = me s"
proof (cases "i < length (cpus s)")
  case True
  then show ?thesis
    using findi_cong_upd [of "\<lambda>c. apicid c = lapicid s" f i "cpus s"] assms
    by (simp add: me_def upd_cpu_def split: option.split)
next
  case False
  then show ?thesis by (simp add: upd_cpu_def list_update_beyond)
qed

section \<open>Closed forms\<close>

text \<open>
  What the routines compute on a processor in good standing. \<open>touch\<close> is the
  net effect of a matched \<open>pushcli\<close>/\<open>popcli\<close> pair: it only refreshes the
  \<open>intena\<close> field when the depth is zero, where nothing reads it.
\<close>

definition push :: "hw \<Rightarrow> hw" where
  "push s = upd_cpu (me s)
     (\<lambda>c. c\<lparr>ncli := ncli c + 1, intena := (if ncli c = 0 then readeflags s else intena c)\<rparr>) (cli s)"

definition pop :: "hw \<Rightarrow> hw" where
  "pop s = (let s' = upd_cpu (me s) (\<lambda>c. c\<lparr>ncli := ncli c - 1\<rparr>) s in
     if ncli (cpus s' ! me s) = 0 \<and> intena (cpus s' ! me s) then sti s' else s')"

definition touch :: "hw \<Rightarrow> hw" where
  "touch s = upd_cpu (me s)
     (\<lambda>c. c\<lparr>intena := (if ncli c = 0 then readeflags s else intena c)\<rparr>) s"

definition lock_in :: "lockid \<Rightarrow> hw \<Rightarrow> hw" where
  "lock_in l s = (push s)\<lparr>locks := (locks s)(l := \<lparr>locked = True, holder = Some (me s)\<rparr>)\<rparr>"

definition lock_out :: "lockid \<Rightarrow> hw \<Rightarrow> hw" where
  "lock_out l s = pop (s\<lparr>locks := (locks s)(l := free_lock)\<rparr>)"

lemma cpu_okD:
  assumes "cpu_ok s"
  shows "me s < length (cpus s)" "0 \<le> ncli (cpus s ! me s)"
    "0 < ncli (cpus s ! me s) \<Longrightarrow> \<not> readeflags s"
  using assms by (auto simp: cpu_ok_def)

lemma upd_cpu_upd_cpu:
  "i < length (cpus s) \<Longrightarrow> upd_cpu i f (upd_cpu i g s) = upd_cpu i (\<lambda>c. f (g c)) s"
  by (simp add: upd_cpu_def)

lemma upd_cpu_cong:
  "f (cpus s ! i) = g (cpus s ! i) \<Longrightarrow> upd_cpu i f s = upd_cpu i g s"
  by (simp add: upd_cpu_def)

lemma upd_cpu_id: "f (cpus s ! i) = cpus s ! i \<Longrightarrow> upd_cpu i f s = s"
  by (simp add: upd_cpu_def)

lemma pushcli_ok: "cpu_ok s \<Longrightarrow> pushcli s = Ret () (push s)"
  by (auto simp: pushcli_def push_def mycpu_off cpu_ok_def upd_cpu_upd_cpu intro!: upd_cpu_cong)

lemma popcli_ok:
  "me s < length (cpus s) \<Longrightarrow> \<not> readeflags s \<Longrightarrow> 0 < ncli (cpus s ! me s) \<Longrightarrow>
   popcli s = Ret () (pop s)"
  by (auto simp: popcli_def pop_def mycpu_off Let_def)

lemma push_sel [simp]:
  "me (push s) = me s" "lapicid (push s) = lapicid s" "locks (push s) = locks s"
  "\<not> readeflags (push s)" "length (cpus (push s)) = length (cpus s)"
  "cpu_ok s \<Longrightarrow> j = me s \<Longrightarrow> ncli (cpus (push s) ! j) = ncli (cpus s ! j) + 1"
  by (auto simp: push_def cpu_ok_def)

lemma touch_sel [simp]:
  "me (touch s) = me s" "lapicid (touch s) = lapicid s" "locks (touch s) = locks s"
  "readeflags (touch s) = readeflags s" "length (cpus (touch s)) = length (cpus s)"
  "cpu_ok s \<Longrightarrow> j = me s \<Longrightarrow> ncli (cpus (touch s) ! j) = ncli (cpus s ! j)"
  by (auto simp: touch_def cpu_ok_def)

lemma cpu_ok_push [simp]: "cpu_ok s \<Longrightarrow> cpu_ok (push s)"
  by (simp add: cpu_ok_def)

lemma cpu_ok_touch [simp]: "cpu_ok s \<Longrightarrow> cpu_ok (touch s)"
  by (simp add: cpu_ok_def)

lemma touch_nested: "ncli (cpus s ! me s) \<noteq> 0 \<Longrightarrow> touch s = s"
  by (simp add: touch_def upd_cpu_id)

lemma touch_push [simp]: "cpu_ok s \<Longrightarrow> touch (push s) = push s"
  by (rule touch_nested) (auto dest: cpu_okD)

lemma sti_cli: "readeflags s \<Longrightarrow> sti (cli s) = s"
  by (simp add: sti_def cli_def readeflags_def fun_upd_idem)

lemma cli_off: "\<not> readeflags s \<Longrightarrow> cli s = s"
  by (simp add: cli_def readeflags_def fun_upd_idem)

lemma sti_upd_cpu: "sti (upd_cpu i f s) = upd_cpu i f (sti s)"
  by (simp add: sti_def upd_cpu_def)

lemma pop_push: assumes "cpu_ok s" shows "pop (push s) = touch s"
proof -
  let ?f = "\<lambda>c. c\<lparr>intena := (if ncli c = 0 then readeflags s else intena c)\<rparr>"
  have eq: "upd_cpu (me s) (\<lambda>c. c\<lparr>ncli := ncli c - 1\<rparr>) (push s) = upd_cpu (me s) ?f (cli s)"
    using assms by (auto simp: push_def upd_cpu_upd_cpu cpu_ok_def intro!: upd_cpu_cong)
  show ?thesis
  proof (cases "ncli (cpus s ! me s) = 0 \<and> readeflags s")
    case True
    with assms show ?thesis
      by (simp add: pop_def Let_def eq touch_def cpu_ok_def sti_upd_cpu sti_cli)
  next
    case False
    with assms have "\<not> readeflags s" by (auto simp: cpu_ok_def)
    with assms show ?thesis
      by (simp add: pop_def Let_def eq touch_def cpu_ok_def cli_off)
  qed
qed

lemma holding_ok:
  assumes "cpu_ok s"
  shows "holding l s = Ret (locked (locks s l) \<and> holder (locks s l) = Some (me s)) (touch s)"
proof -
  have "popcli (push s) = Ret () (touch s)"
    using assms by (subst popcli_ok) (auto simp: pop_push dest: cpu_okD)
  then show ?thesis
    using assms by (auto simp: holding_def pushcli_ok mycpu_off cpu_okD)
qed

lemma locks_free_upd: "x\<lparr>locked := True\<rparr>\<lparr>holder := h\<rparr> = \<lparr>locked = True, holder = h\<rparr>"
  by (cases x) simp

lemma acquire_free:
  assumes "cpu_ok s" "\<not> locked (locks s l)"
  shows "acquire l s = Ret () (lock_in l s)"
  using assms
  by (simp add: acquire_def pushcli_ok holding_ok mycpu_off lock_in_def locks_free_upd cpu_okD)

lemma acquire_held:
  assumes "cpu_ok s" "locked (locks s l)"
  shows "acquire l s = (if holder (locks s l) = Some (me s) then Panic ''acquire'' else Spin)"
  using assms by (simp add: acquire_def pushcli_ok holding_ok)

lemma lock_in_sel [simp]:
  "me (lock_in l s) = me s" "lapicid (lock_in l s) = lapicid s"
  "locks (lock_in l s) = (locks s)(l := \<lparr>locked = True, holder = Some (me s)\<rparr>)"
  "\<not> readeflags (lock_in l s)" "length (cpus (lock_in l s)) = length (cpus s)"
  "cpu_ok s \<Longrightarrow> j = me s \<Longrightarrow> ncli (cpus (lock_in l s) ! j) = ncli (cpus s ! j) + 1"
  by (simp_all add: lock_in_def)

lemma cpu_ok_lock_in [simp]: "cpu_ok s \<Longrightarrow> cpu_ok (lock_in l s)"
  by (simp add: cpu_ok_def)

lemma touch_lock_in [simp]: "cpu_ok s \<Longrightarrow> touch (lock_in l s) = lock_in l s"
  by (rule touch_nested) (auto dest: cpu_okD)

lemma touch_touch [simp]: "cpu_ok s \<Longrightarrow> touch (touch s) = touch s"
  by (auto simp: touch_def upd_cpu_upd_cpu cpu_ok_def intro!: upd_cpu_cong)

lemma release_held:
  assumes "cpu_ok s" "locked (locks s l)" "holder (locks s l) = Some (me s)" "0 < ncli (cpus s ! me s)"
  shows "release l s = Ret () (lock_out l s)"
proof -
  have "\<not> readeflags s" "touch s = s"
    using assms by (auto simp: cpu_ok_def intro: touch_nested)
  moreover have "(locks s l)\<lparr>holder := None\<rparr>\<lparr>locked := False\<rparr> = free_lock"
    by (cases "locks s l") (simp add: free_lock_def)
  ultimately show ?thesis
    using assms by (simp add: release_def holding_ok lock_out_def popcli_ok cpu_ok_def)
qed

lemma release_not_held:
  assumes "cpu_ok s" "\<not> (locked (locks s l) \<and> holder (locks s l) = Some (me s))"
  shows "release l s = Panic ''release''"
  using assms by (auto simp: release_def holding_ok)

lemma pop_locks: "pop (s\<lparr>locks := L\<rparr>) = (pop s)\<lparr>locks := L\<rparr>"
  by (simp add: pop_def upd_cpu_def Let_def sti_def)

lemma lock_out_in:
  assumes "cpu_ok s" "locks s l = free_lock"
  shows "lock_out l (lock_in l s) = touch s"
proof -
  have "lock_out l (lock_in l s) = (pop (push s))\<lparr>locks := (locks s)(l := free_lock)\<rparr>"
    by (simp add: lock_out_def lock_in_def pop_locks)
  also have "\<dots> = (touch s)\<lparr>locks := locks (touch s)\<rparr>"
    using assms by (simp add: pop_push fun_upd_idem)
  finally show ?thesis by simp
qed

lemma release_lock_in:
  assumes "cpu_ok s" "locks s l = free_lock"
  shows "release l (lock_in l s) = Ret () (touch s)"
  using assms by (subst release_held) (auto simp: lock_out_in dest: cpu_okD)

lemma push_locks: "push (s\<lparr>locks := L\<rparr>) = (push s)\<lparr>locks := L\<rparr>"
  by (simp add: push_def upd_cpu_def cli_def)

lemma lock_out_under:
  assumes "cpu_ok s" "locks s l = free_lock" "l \<noteq> p"
  shows "lock_out l (lock_in p (lock_in l s)) = lock_in p s"
proof -
  have "lock_out l (lock_in p (lock_in l s)) = (pop (push (push s)))
      \<lparr>locks := (locks s)(p := \<lparr>locked = True, holder = Some (me s)\<rparr>, l := free_lock)\<rparr>"
    using assms(3) by (simp add: lock_out_def lock_in_def push_locks pop_locks fun_upd_twist)
  also have "pop (push (push s)) = push s" using assms(1) by (simp add: pop_push)
  also have "(locks s)(p := \<lparr>locked = True, holder = Some (me s)\<rparr>, l := free_lock)
      = (locks s)(p := \<lparr>locked = True, holder = Some (me s)\<rparr>)"
    using assms(2,3) by (simp add: fun_upd_idem)
  also have "(push s)\<lparr>locks := (locks s)(p := \<lparr>locked = True, holder = Some (me s)\<rparr>)\<rparr> = lock_in p s"
    by (simp add: lock_in_def)
  finally show ?thesis .
qed

lemma release_under:
  assumes "cpu_ok s" "locks s l = free_lock" "l \<noteq> p"
  shows "release l (lock_in p (lock_in l s)) = Ret () (lock_in p s)"
  using assms by (subst release_held) (auto simp: lock_out_under dest: cpu_okD)

text \<open>The process running on the executing processor.\<close>

definition cur :: "hw \<Rightarrow> nat option" where
  "cur s = cpu_proc (cpus s ! me s)"

lemma cpu_proc_upd: "(\<And>c. cpu_proc (f c) = cpu_proc c) \<Longrightarrow> cpu_proc (cpus (upd_cpu i f s) ! j) = cpu_proc (cpus s ! j)"
  by (cases "i < length (cpus s)") (simp_all add: upd_cpu_def nth_list_update list_update_beyond)

lemma cur_simps [simp]:
  "cur (push s) = cur s" "cur (touch s) = cur s" "cur (lock_in l s) = cur s"
  by (simp_all add: cur_def lock_in_def touch_def push_def cpu_proc_upd)

lemma cli_upd_cpu: "cli (upd_cpu i f s) = upd_cpu i f (cli s)"
  by (simp add: cli_def upd_cpu_def)

lemma upd_cpu_locks: "upd_cpu i f (s\<lparr>locks := L\<rparr>) = (upd_cpu i f s)\<lparr>locks := L\<rparr>"
  by (simp add: upd_cpu_def)

lemma upd_cpu_lock_in:
  assumes "me s < length (cpus s)"
  shows "upd_cpu (me s) (\<lambda>c. c\<lparr>cpu_proc := p\<rparr>) (lock_in l s)
    = lock_in l (upd_cpu (me s) (\<lambda>c. c\<lparr>cpu_proc := p\<rparr>) s)"
proof -
  have "upd_cpu (me s) (\<lambda>c. c\<lparr>cpu_proc := p\<rparr>) (push s) = push (upd_cpu (me s) (\<lambda>c. c\<lparr>cpu_proc := p\<rparr>) s)"
    using assms by (auto simp: push_def cli_upd_cpu upd_cpu_upd_cpu intro!: upd_cpu_cong)
  then show ?thesis by (simp add: lock_in_def upd_cpu_locks)
qed

text \<open>
  A processor that writes \<open>intena\<close> while it holds a lock is where it would be had it
  taken the lock with interrupts in that state.
\<close>

definition restore_intena :: "bool \<Rightarrow> hw \<Rightarrow> hw" where
  "restore_intena ie s = upd_cpu (me s) (\<lambda>c. c\<lparr>intena := ie\<rparr>)
     (if ncli (cpus s ! me s) = 0 then if ie then sti s else cli s else s)"

lemma restore_intena_sel [simp]:
  "me (restore_intena ie s) = me s" "locks (restore_intena ie s) = locks s" "cur (restore_intena ie s) = cur s"
  by (simp_all add: restore_intena_def cur_def cpu_proc_upd)

lemma cpu_ok_restore_intena [simp]: "cpu_ok s \<Longrightarrow> cpu_ok (restore_intena ie s)"
  by (auto simp: cpu_ok_def restore_intena_def)

lemma restore_intena_lock_in:
  assumes "cpu_ok s"
  shows "upd_cpu (me s) (\<lambda>c. c\<lparr>intena := ie\<rparr>) (lock_in l s) = lock_in l (restore_intena ie s)"
proof -
  have c: "cli (sti s) = cli s" "cli (cli s) = cli s" by (simp_all add: cli_def sti_def)
  have "upd_cpu (me s) (\<lambda>c. c\<lparr>intena := ie\<rparr>) (push s) = push (restore_intena ie s)"
    using assms by (auto simp: cpu_ok_def push_def restore_intena_def cli_upd_cpu upd_cpu_upd_cpu c intro!: upd_cpu_cong)
  then show ?thesis by (simp add: lock_in_def upd_cpu_locks)
qed

lemma cpu_ok_upd_proc [simp]: "cpu_ok (upd_cpu (me s) (\<lambda>c. c\<lparr>cpu_proc := p\<rparr>) s) = cpu_ok s"
  by (cases "me s < length (cpus s)") (simp_all add: cpu_ok_def)

section \<open>Processors competing for locks\<close>

text \<open>
  A state at boot, and what whole calls of \<open>acquire\<close> and \<open>release\<close> keep:
  the set \<open>C\<close> has the pairs of a processor and a lock it is inside of. The theory
  Spin_Steps interleaves the instructions of the calls.
\<close>

definition lock_init :: "hw \<Rightarrow> bool" where
  "lock_init s \<longleftrightarrow> cpu_ok s \<and> distinct (map apicid (cpus s))
     \<and> (\<forall>c\<in>set (cpus s). ncli c = 0) \<and> (\<forall>l. locks s l = free_lock)"

text \<open>
  A lock is taken exactly by the processor inside it; the nesting depth of a
  processor counts the locks it is inside of; interrupts are off while it is positive.
\<close>

definition lock_inv :: "hw \<Rightarrow> (nat \<times> lockid) set \<Rightarrow> bool" where
  "lock_inv s C \<longleftrightarrow> me s < length (cpus s) \<and> distinct (map apicid (cpus s)) \<and> finite C
     \<and> (\<forall>i l. (i, l) \<in> C \<longrightarrow> i < length (cpus s))
     \<and> (\<forall>i l. (i, l) \<in> C \<longleftrightarrow> locked (locks s l) \<and> holder (locks s l) = Some i)
     \<and> (\<forall>l. locked (locks s l) \<and> holder (locks s l) \<noteq> None \<or> locks s l = free_lock)
     \<and> (\<forall>i<length (cpus s). ncli (cpus s ! i) = int (card {l. (i, l) \<in> C})
          \<and> (ncli (cpus s ! i) \<noteq> 0 \<longrightarrow> \<not> eflags_IF s (apicid (cpus s ! i))))"

lemma apicid_me: "me s < length (cpus s) \<Longrightarrow> apicid (cpus s ! me s) = lapicid s"
  using me_lookup [of s] by (auto simp: findi_Some_iff)

lemma lock_inv_cpu_ok: "lock_inv s C \<Longrightarrow> cpu_ok s"
  by (auto simp: lock_inv_def cpu_ok_def readeflags_def apicid_me)

lemma me_turn:
  assumes "distinct (map apicid (cpus s))" "i < length (cpus s)"
  shows "me (s\<lparr>lapicid := apicid (cpus s ! i)\<rparr>) = i"
proof -
  have "findi (\<lambda>c. apicid c = apicid (cpus s ! i)) (cpus s) = Some i"
    using assms by (auto simp: findi_Some_iff distinct_conv_nth)
  then show ?thesis by (simp add: me_def)
qed

lemma cpus_push_other: "i \<noteq> me s \<Longrightarrow> cpus (push s) ! i = cpus s ! i"
  by (simp add: push_def upd_cpu_def)

lemma apicids_push: "map apicid (cpus (push s)) = map apicid (cpus s)"
  by (simp add: push_def upd_cpu_def map_update) (metis list_update_id map_update)

lemma cpus_push_me:
  "cpu_ok s \<Longrightarrow> ncli (cpus (push s) ! me s) = ncli (cpus s ! me s) + 1 \<and> apicid (cpus (push s) ! me s) = apicid (cpus s ! me s)"
  by (simp add: push_def cpu_ok_def)

lemma eflags_push: "eflags_IF (push s) = (eflags_IF s)(lapicid s := False)"
  by (simp add: push_def cli_def)

lemma inside_card_insert:
  "finite C \<Longrightarrow> (i, l) \<notin> C \<Longrightarrow> card {k. (j, k) \<in> insert (i, l) C} = card {k. (j, k) \<in> C} + (if j = i then 1 else 0)"
proof -
  assume *: "finite C" "(i, l) \<notin> C"
  have f: "finite {k. (j, k) \<in> C}"
    using finite_imageI [OF *(1), of snd] by (rule finite_subset [rotated]) force
  have "{k. (j, k) \<in> insert (i, l) C} = (if j = i then insert l {k. (j, k) \<in> C} else {k. (j, k) \<in> C})"
    by auto
  with * f show ?thesis by auto
qed

lemma lock_inv_acquire:
  assumes inv: "lock_inv s C" and acq: "acquire l s = Ret () t"
  shows "lock_inv t (insert (me s, l) C)"
proof -
  have ok: "cpu_ok s" using inv by (rule lock_inv_cpu_ok)
  have nl: "\<not> locked (locks s l)" using acq acquire_held [OF ok, of l] by (auto split: if_splits)
  then have t: "t = lock_in l s" using acq acquire_free [OF ok] by simp
  have notin: "(me s, l) \<notin> C" using inv nl by (auto simp: lock_inv_def)
  have cpus: "\<forall>i<length (cpus s). ncli (cpus (push s) ! i) = int (card {k. (i, k) \<in> insert (me s, l) C})
      \<and> apicid (cpus (push s) ! i) = apicid (cpus s ! i)"
    using inv ok inside_card_insert [OF _ notin]
    by (auto simp: lock_inv_def cpus_push_me cpus_push_other split: if_splits)
  have dist: "distinct (map apicid (cpus (push s)))"
    using inv by (simp add: lock_inv_def apicids_push)
  have "apicid (cpus s ! me s) = lapicid s" using inv by (simp add: lock_inv_def apicid_me)
  then have flags: "\<not> eflags_IF (push s) (apicid (cpus (push s) ! i))"
    if "i < length (cpus s)" "ncli (cpus (push s) ! i) \<noteq> 0" for i
    using inv ok cpus that by (cases "i = me s") (auto simp: lock_inv_def eflags_push cpus_push_other)
  show ?thesis
    using inv nl dist cpus flags unfolding t lock_inv_def
    by (auto simp: lock_in_def free_lock_def)
qed

lemma apicids_upd_cpu:
  "(\<And>c. apicid (f c) = apicid c) \<Longrightarrow> map apicid (cpus (upd_cpu i f s)) = map apicid (cpus s)"
  by (cases "i < length (cpus s)") (simp_all add: upd_cpu_def map_update list_update_beyond list_update_same_conv)

lemma pop_sel:
  "me (pop s) = me s" "locks (pop s) = locks s" "length (cpus (pop s)) = length (cpus s)"
  "map apicid (cpus (pop s)) = map apicid (cpus s)"
  by (simp_all add: pop_def Let_def apicids_upd_cpu)

lemma pop_cpus:
  "j \<noteq> me s \<Longrightarrow> cpus (pop s) ! j = cpus s ! j"
  "me s < length (cpus s) \<Longrightarrow> ncli (cpus (pop s) ! me s) = ncli (cpus s ! me s) - 1"
  "me s < length (cpus s) \<Longrightarrow> apicid (cpus (pop s) ! me s) = apicid (cpus s ! me s)"
  by (simp_all add: pop_def Let_def upd_cpu_def)

lemma pop_eflags:
  "a \<noteq> lapicid s \<Longrightarrow> eflags_IF (pop s) a = eflags_IF s a"
  "me s < length (cpus s) \<Longrightarrow> ncli (cpus s ! me s) \<noteq> 1 \<Longrightarrow> eflags_IF (pop s) = eflags_IF s"
  by (simp_all add: pop_def Let_def sti_def)

lemma inside_card_remove:
  assumes "finite C" "(i, l) \<in> C"
  shows "card {k. (j, k) \<in> C - {(i, l)}} = card {k. (j, k) \<in> C} - (if j = i then 1 else 0)"
    and "0 < card {k. (i, k) \<in> C}"
proof -
  have f: "finite {k. (j, k) \<in> C}" for j
    using finite_imageI [OF assms(1), of snd] by (rule finite_subset [rotated]) force
  have "{k. (j, k) \<in> C - {(i, l)}} = (if j = i then {k. (j, k) \<in> C} - {l} else {k. (j, k) \<in> C})"
    by auto
  with assms f show "card {k. (j, k) \<in> C - {(i, l)}} = card {k. (j, k) \<in> C} - (if j = i then 1 else 0)"
    by auto
  from assms f show "0 < card {k. (i, k) \<in> C}" by (auto simp: card_gt_0_iff)
qed

lemma release_RetD:
  assumes "cpu_ok s" "release l s = Ret () t"
  shows "locked (locks s l) \<and> holder (locks s l) = Some (me s)"
  using assms release_not_held [of s l] by fastforce

lemma lock_inv_release:
  assumes inv: "lock_inv s C" and rel: "release l s = Ret () t"
  shows "lock_inv t (C - {(me s, l)})"
proof -
  have ok: "cpu_ok s" using inv by (rule lock_inv_cpu_ok)
  have held: "locked (locks s l)" "holder (locks s l) = Some (me s)"
    using release_RetD [OF ok rel] by auto
  then have mem: "(me s, l) \<in> C" and fin: "finite C" and len: "me s < length (cpus s)"
    using inv by (auto simp: lock_inv_def)
  have pos: "0 < ncli (cpus s ! me s)"
    using inv inside_card_remove(2) [OF fin mem] len by (simp add: lock_inv_def)
  let ?s = "s\<lparr>locks := (locks s)(l := free_lock)\<rparr>"
  have t: "t = pop ?s" using rel release_held [OF ok held pos] by (simp add: lock_out_def)
  have ncli: "ncli (cpus t ! i) = int (card {k. (i, k) \<in> C - {(me s, l)}})"
    if "i < length (cpus s)" for i
  proof -
    have "ncli (cpus t ! i) = ncli (cpus s ! i) - (if i = me s then 1 else 0)"
      using len pop_cpus(1) [of i ?s] pop_cpus(2) [of ?s] by (simp add: t)
    moreover have "ncli (cpus s ! i) = int (card {k. (i, k) \<in> C})"
      using inv that by (simp add: lock_inv_def)
    ultimately show ?thesis
      using inside_card_remove(1) [OF fin mem, of i] inside_card_remove(2) [OF fin mem] by simp
  qed
  have dist: "distinct (map apicid (cpus s))" using inv by (simp add: lock_inv_def)
  have flags: "\<not> eflags_IF t (apicid (cpus t ! i))"
    if "i < length (cpus s)" "ncli (cpus t ! i) \<noteq> 0" for i
  proof (cases "i = me s")
    case True
    with that len have "eflags_IF t = eflags_IF s"
      using pop_cpus(2) [of ?s] pop_eflags(2) [of ?s] by (simp add: t)
    moreover have "apicid (cpus t ! i) = apicid (cpus s ! i)"
      using True len pop_cpus(3) [of ?s] by (simp add: t)
    ultimately show ?thesis using inv pos True len by (simp add: lock_inv_def)
  next
    case False
    then have c: "cpus t ! i = cpus s ! i" unfolding t by (simp add: pop_cpus)
    have "apicid (cpus s ! i) \<noteq> lapicid s"
      using nth_eq_iff_index_eq [OF dist, of i "me s"] that(1) False len apicid_me [OF len] by simp
    then show ?thesis using inv that c unfolding t by (simp add: lock_inv_def pop_eflags)
  qed
  have sel: "me t = me s" "locks t = (locks s)(l := free_lock)" "length (cpus t) = length (cpus s)"
    "map apicid (cpus t) = map apicid (cpus s)"
    using pop_sel [of ?s] by (simp_all add: t)
  have "\<forall>i k. (i, k) \<in> C - {(me s, l)} \<longleftrightarrow> locked (locks t k) \<and> holder (locks t k) = Some i"
    using inv held unfolding sel lock_inv_def by (auto simp: free_lock_def)
  moreover have "\<forall>k. locked (locks t k) \<and> holder (locks t k) \<noteq> None \<or> locks t k = free_lock"
    using inv unfolding sel lock_inv_def by simp
  moreover have "\<forall>i k. (i, k) \<in> C - {(me s, l)} \<longrightarrow> i < length (cpus t)"
    using inv unfolding sel lock_inv_def by blast
  ultimately show ?thesis
    using ncli flags dist fin len by (simp add: lock_inv_def sel)
qed

lemma lock_inv_turn:
  "lock_inv s C \<Longrightarrow> i < length (cpus s) \<Longrightarrow> lock_inv (s\<lparr>lapicid := apicid (cpus s ! i)\<rparr>) C"
  using me_turn [of s i] by (simp add: lock_inv_def)

lemma lock_inv_init: "lock_init s \<Longrightarrow> lock_inv s {}"
  by (auto simp: lock_init_def lock_inv_def cpu_ok_def free_lock_def)

section \<open>Properties\<close>

definition demo_cpu :: "u8 \<Rightarrow> cpu" where
  "demo_cpu a = \<lparr>apicid = a, ncli = 0, intena = False, cpu_proc = None, cpu_executed_syscalls = 0,
     ts_esp0 = 0, ts_ss0 = 0, ts_iomb = 0, task_reg = 0\<rparr>"

definition demo_hw :: hw where
  "demo_hw = \<lparr>cpus = [demo_cpu 0, demo_cpu 1], lapicid = 0, eflags_IF = (\<lambda>_. True), locks = (\<lambda>_. free_lock)\<rparr>"

lemma demo_hw_me: "me demo_hw = 0" "me (demo_hw\<lparr>lapicid := 1\<rparr>) = 1"
  by (simp_all add: me_def demo_hw_def demo_cpu_def)

lemma demo_hw_init: "lock_init demo_hw"
  by (simp add: lock_init_def cpu_ok_def demo_hw_me) (simp add: demo_hw_def demo_cpu_def)

text \<open>
  \<open>release\<close> undoes \<open>acquire\<close>: on a processor in good standing a free
  lock is taken at once, and releasing it gives back the locks, the nesting depth and
  the interrupt flag that were there before, at any nesting depth.
\<close>

theorem acquire_release_restores:
  assumes "cpu_ok s" "locks s l = free_lock"
  shows "bnd (acquire l s) (\<lambda>_. release l) = Ret () (touch s)
    \<and> locks (touch s) = locks s \<and> eflags_IF (touch s) = eflags_IF s
    \<and> map ncli (cpus (touch s)) = map ncli (cpus s)"
proof -
  have "acquire l s = Ret () (lock_in l s)"
    using assms by (intro acquire_free) (auto simp: free_lock_def)
  moreover have "map ncli (cpus (touch s)) = map ncli (cpus s)"
    using assms(1) by (simp add: touch_def upd_cpu_def map_update list_update_same_conv cpu_ok_def)
  ultimately show ?thesis
    using assms by (simp add: release_lock_in touch_def)
qed

lemma acquire_release_restores_witness:
  "bnd (acquire Kmem_lock demo_hw) (\<lambda>_. release Kmem_lock) = Ret () (touch demo_hw)"
  using acquire_release_restores [of demo_hw Kmem_lock] demo_hw_init by (simp add: lock_init_def)

end
