(* ===== verification/Kernel_State.thy ===== *)
theory Kernel_State
  imports Spinlock Complex_Main
begin

text \<open>
  The data of the kernel: one record per \<open>struct\<close> of the headers and one
  record \<open>kstate\<close> for the global variables of the kernel's source files.

  Pointers into the fixed tables of the kernel (\<open>ptable\<close>, \<open>bcache\<close>,
  \<open>icache\<close>, \<open>ftable\<close>, \<open>cpus\<close>) are indices, with \<open>None\<close> for a null
  pointer; addresses of pages that the page allocator hands out are words, with
  \<open>0\<close> for a null pointer. A C \<open>int\<close> that only ever holds 0 or 1 is a
  \<open>bool\<close>; other C integers are \<open>int\<close> or words. A C \<open>float\<close> is
  the rational it denotes, and rounding is the function \<open>fround\<close> of
  the \<open>arch\<close> record, since the precision of intermediate results depends on
  the compiler.
\<close>

section \<open>Constants of \<open>param.h\<close>, \<open>mmu.h\<close>, \<open>memlayout.h\<close>, \<open>fs.h\<close>\<close>

abbreviation (input) NPROC :: nat where "NPROC \<equiv> 64"
abbreviation (input) NCPU :: nat where "NCPU \<equiv> 8"
abbreviation (input) NOFILE :: nat where "NOFILE \<equiv> 16"
abbreviation (input) NFILE :: nat where "NFILE \<equiv> 100"
abbreviation (input) NINODE :: nat where "NINODE \<equiv> 50"
abbreviation (input) NDEV :: nat where "NDEV \<equiv> 10"
abbreviation (input) ROOTDEV :: u32 where "ROOTDEV \<equiv> 1"
abbreviation (input) ROOTINO :: u32 where "ROOTINO \<equiv> 1"
abbreviation (input) MAXARG :: nat where "MAXARG \<equiv> 32"
abbreviation (input) MAXOPBLOCKS :: int where "MAXOPBLOCKS \<equiv> 10"
abbreviation (input) LOGSIZE :: int where "LOGSIZE \<equiv> 30"
abbreviation (input) NBUF :: nat where "NBUF \<equiv> 30"
abbreviation (input) FSSIZE :: u32 where "FSSIZE \<equiv> 1000"
abbreviation (input) BSIZE :: nat where "BSIZE \<equiv> 512"
abbreviation (input) NDIRECT :: nat where "NDIRECT \<equiv> 12"
abbreviation (input) NINDIRECT :: nat where "NINDIRECT \<equiv> 128"
abbreviation (input) DIRSIZ :: nat where "DIRSIZ \<equiv> 14"
abbreviation (input) PGSIZE :: u32 where "PGSIZE \<equiv> 4096"
abbreviation (input) KSTACKSIZE :: u32 where "KSTACKSIZE \<equiv> 4096"
abbreviation (input) KERNBASE :: u32 where "KERNBASE \<equiv> 0x80000000"
abbreviation (input) EXTMEM :: u32 where "EXTMEM \<equiv> 0x100000"
abbreviation (input) PHYSTOP :: u32 where "PHYSTOP \<equiv> 0xE000000"
abbreviation (input) DEVSPACE :: u32 where "DEVSPACE \<equiv> 0xFE000000"

section \<open>Addresses\<close>

definition V2P :: "u32 \<Rightarrow> u32" where "V2P a = a - KERNBASE"
definition P2V :: "u32 \<Rightarrow> u32" where "P2V a = a + KERNBASE"
definition PGROUNDUP :: "u32 \<Rightarrow> u32" where "PGROUNDUP sz = (sz + PGSIZE - 1) AND NOT (PGSIZE - 1)"
definition PGROUNDDOWN :: "u32 \<Rightarrow> u32" where "PGROUNDDOWN a = a AND NOT (PGSIZE - 1)"

section \<open>Processes\<close>

datatype procstate = UNUSED | EMBRYO | SLEEPING | RUNNABLE | RUNNING | ZOMBIE

text \<open>
  \<open>change_process_queue\<close> stores any integer into the queue field, so the
  enumeration \<open>scheduling_queue\<close> is the type of integers with three names.
\<close>

abbreviation (input) RR :: int where "RR \<equiv> 1"
abbreviation (input) LCFS :: int where "LCFS \<equiv> 2"
abbreviation (input) BJF :: int where "BJF \<equiv> 3"

record bjf_info =
  priority_ratio :: rat
  arrival_time_ratio :: rat
  executed_cycles_ratio :: rat
  process_size_ratio :: rat

record scheduling_info =
  queue :: int
  last_run :: int
  priority :: int
  executed_cycles :: rat
  arrival_time :: int
  bjf_coeffs :: bjf_info

record trapframe =
  tf_edi :: u32
  tf_esi :: u32
  tf_ebp :: u32
  tf_ebx :: u32
  tf_edx :: u32
  tf_ecx :: u32
  tf_eax :: u32
  tf_gs :: u16
  tf_fs :: u16
  tf_es :: u16
  tf_ds :: u16
  tf_trapno :: u32
  tf_err :: u32
  tf_eip :: u32
  tf_cs :: u16
  tf_eflags :: u32
  tf_esp :: u32
  tf_ss :: u16

record context_regs =
  ctx_edi :: u32
  ctx_esi :: u32
  ctx_ebx :: u32
  ctx_ebp :: u32
  ctx_eip :: u32

text \<open>The addresses a process sleeps on.\<close>

datatype chan =
    Chan_proc nat | Chan_ticks | Chan_log | Chan_sleeplock slid | Chan_userlock
  | Chan_buf nat | Chan_pipe_nread u32 | Chan_pipe_nwrite u32 | Chan_input

record proc =
  sz :: u32
  pgdir :: u32
  kstack :: u32
  state :: procstate
  pid :: int
  parent :: "nat option"
  tf :: trapframe
  tf_ptr :: u32
  ctxt :: context_regs
  ctxt_ptr :: u32
  chan :: "chan option"
  killed :: bool
  ofile :: "nat option list"
  cwd :: "nat option"
  name :: "u8 list"
  start_time :: u32
  sched_info :: scheduling_info
  shm :: u32
  shm_id :: int

section \<open>Locks of the upper layers\<close>

record sleeplock =
  sl_locked :: bool
  sl_pid :: int

record prioritylock =
  pl_locked :: bool
  pl_queue :: "int list"
  queue_front :: int
  queue_size :: int
  pl_pid :: int

section \<open>Disk blocks, log, inodes, files, pipes\<close>

type_synonym block = "u8 list"

record buf =
  b_valid :: bool
  b_dirty :: bool
  b_dev :: u32
  b_blockno :: u32
  b_refcnt :: u32
  b_prev :: nat
  b_next :: nat
  b_data :: block

record logheader =
  lh_n :: int
  lh_block :: "int list"

record logstate =
  log_start :: int
  log_size :: int
  outstanding :: int
  committing :: bool
  log_dev :: u32
  lh :: logheader

record superblock =
  sb_size :: u32
  sb_nblocks :: u32
  sb_ninodes :: u32
  sb_nlog :: u32
  sb_logstart :: u32
  sb_inodestart :: u32
  sb_bmapstart :: u32

record inode =
  i_dev :: u32
  i_inum :: u32
  i_ref :: int
  i_valid :: bool
  i_type :: int
  i_major :: int
  i_minor :: int
  i_nlink :: int
  i_size :: u32
  i_addrs :: "u32 list"

datatype filetype = FD_NONE | FD_PIPE | FD_INODE

record file_rec =
  f_type :: filetype
  f_ref :: int
  f_readable :: bool
  f_writable :: bool
  f_pipe :: u32
  f_ip :: "nat option"
  f_off :: u32

record pipe =
  p_data :: "u8 list"
  p_nread :: u32
  p_nwrite :: u32
  p_readopen :: bool
  p_writeopen :: bool

record shared_page =
  sp_id :: int
  num_of_refs :: int
  frame :: u32

text \<open>The pair of functions that a device registers; the console is the only device.\<close>

datatype devops = Console_ops

section \<open>Console\<close>

record input_buf =
  in_buf :: "u8 list"
  in_r :: u32
  in_w :: u32
  in_e :: u32
  in_end :: u32

record history =
  recent_cmds :: "u8 list list"
  h_first :: u16
  h_cur :: u16
  h_size :: u16

section \<open>The kernel\<close>

text \<open>
  \<open>arch\<close> is fixed at build time: the addresses the linker assigns, and the
  rounding of single-precision arithmetic. No operation writes it.
\<close>

record arch =
  l_end :: u32
  l_data :: u32
  l_forkret :: u32
  l_trapret :: u32
  fround :: "rat \<Rightarrow> rat"

record kstate =
  arch :: arch
  hw :: hw
  mem :: memory
  use_lock :: bool
  freelist :: u32
  kpgdir :: u32
  cr3 :: u32
  ptable :: "proc list"
  nextpid :: int
  initproc :: "nat option"
  ticks :: u32
  executed_syscalls :: int
  sleeplocks :: "slid \<Rightarrow> sleeplock"
  userlock :: prioritylock
  bcache :: "buf list"
  memdisk :: "u32 \<Rightarrow> block"
  disksize :: nat
  disk_writes :: "(u32 \<times> block) list"
  log :: logstate
  sb :: superblock
  icache :: "inode list"
  ftable :: "file_rec list"
  pipes :: "u32 \<Rightarrow> pipe"
  shared_table :: "shared_page list"
  input :: input_buf
  cmd_history :: history
  cons_locking :: bool
  panicked :: bool
  crt :: "int \<Rightarrow> u16"
  crt_pos :: u16
  uart :: bool
  uart_out :: "u8 list"
  devsw :: "devops option list"
  forkret_first :: bool

section \<open>The state at boot\<close>

text \<open>
  The variables of the kernel before any code has run: all of them are zero but
  \<open>nextpid\<close> and the flag of \<open>forkret\<close>. The machine, the linker's addresses and the disk image are
  parameters.
\<close>

definition zero_bjf :: bjf_info where
  "zero_bjf = \<lparr>priority_ratio = 0, arrival_time_ratio = 0, executed_cycles_ratio = 0, process_size_ratio = 0\<rparr>"

definition zero_sched :: scheduling_info where
  "zero_sched = \<lparr>queue = 0, last_run = 0, priority = 0, executed_cycles = 0, arrival_time = 0, bjf_coeffs = zero_bjf\<rparr>"

definition zero_tf :: trapframe where
  "zero_tf = \<lparr>tf_edi = 0, tf_esi = 0, tf_ebp = 0, tf_ebx = 0, tf_edx = 0, tf_ecx = 0, tf_eax = 0, tf_gs = 0,
     tf_fs = 0, tf_es = 0, tf_ds = 0, tf_trapno = 0, tf_err = 0, tf_eip = 0, tf_cs = 0, tf_eflags = 0,
     tf_esp = 0, tf_ss = 0\<rparr>"

definition zero_ctxt :: context_regs where
  "zero_ctxt = \<lparr>ctx_edi = 0, ctx_esi = 0, ctx_ebx = 0, ctx_ebp = 0, ctx_eip = 0\<rparr>"

definition zero_proc :: proc where
  "zero_proc = \<lparr>sz = 0, pgdir = 0, kstack = 0, state = UNUSED, pid = 0, parent = None, tf = zero_tf, tf_ptr = 0,
     ctxt = zero_ctxt, ctxt_ptr = 0, chan = None, killed = False, ofile = replicate NOFILE None, cwd = None,
     name = replicate 16 0, start_time = 0, sched_info = zero_sched, shm = 0, shm_id = 0\<rparr>"

definition zero_buf :: buf where
  "zero_buf = \<lparr>b_valid = False, b_dirty = False, b_dev = 0, b_blockno = 0, b_refcnt = 0, b_prev = 0, b_next = 0,
     b_data = replicate BSIZE 0\<rparr>"

definition zero_inode :: inode where
  "zero_inode = \<lparr>i_dev = 0, i_inum = 0, i_ref = 0, i_valid = False, i_type = 0, i_major = 0, i_minor = 0,
     i_nlink = 0, i_size = 0, i_addrs = replicate (NDIRECT + 1) 0\<rparr>"

definition zero_file :: file_rec where
  "zero_file = \<lparr>f_type = FD_NONE, f_ref = 0, f_readable = False, f_writable = False, f_pipe = 0, f_ip = None, f_off = 0\<rparr>"

definition zero_pipe :: pipe where
  "zero_pipe = \<lparr>p_data = replicate 512 0, p_nread = 0, p_nwrite = 0, p_readopen = False, p_writeopen = False\<rparr>"

definition boot_state :: "arch \<Rightarrow> hw \<Rightarrow> (u32 \<Rightarrow> block) \<Rightarrow> nat \<Rightarrow> kstate" where
  "boot_state a h d n =
     \<lparr>arch = a, hw = h, mem = (\<lambda>_. 0), use_lock = False, freelist = 0, kpgdir = 0, cr3 = 0,
      ptable = replicate NPROC zero_proc, nextpid = 1, initproc = None, ticks = 0, executed_syscalls = 0,
      sleeplocks = (\<lambda>_. \<lparr>sl_locked = False, sl_pid = 0\<rparr>),
      userlock = \<lparr>pl_locked = False, pl_queue = replicate NPROC 0, queue_front = 0, queue_size = 0, pl_pid = 0\<rparr>,
      bcache = replicate (NBUF + 1) zero_buf, memdisk = d, disksize = n, disk_writes = [],
      log = \<lparr>log_start = 0, log_size = 0, outstanding = 0, committing = False, log_dev = 0,
             lh = \<lparr>lh_n = 0, lh_block = replicate (nat LOGSIZE) 0\<rparr>\<rparr>,
      sb = \<lparr>sb_size = 0, sb_nblocks = 0, sb_ninodes = 0, sb_nlog = 0, sb_logstart = 0, sb_inodestart = 0,
            sb_bmapstart = 0\<rparr>,
      icache = replicate NINODE zero_inode, ftable = replicate NFILE zero_file, pipes = (\<lambda>_. zero_pipe),
      shared_table = replicate 8 \<lparr>sp_id = 0, num_of_refs = 0, frame = 0\<rparr>,
      input = \<lparr>in_buf = replicate 128 0, in_r = 0, in_w = 0, in_e = 0, in_end = 0\<rparr>,
      cmd_history = \<lparr>recent_cmds = replicate 11 (replicate 128 0), h_first = 0, h_cur = 0, h_size = 0\<rparr>,
      cons_locking = False, panicked = False, crt = (\<lambda>_. 0), crt_pos = 0, uart = False, uart_out = [],
      devsw = replicate NDEV None, forkret_first = True\<rparr>"

text \<open>A machine with two processors, for examples; its rounding is exact.\<close>

definition demo_arch :: arch where
  "demo_arch = \<lparr>l_end = 0x80116000, l_data = 0x80109000, l_forkret = 0x80103000, l_trapret = 0x80106000,
     fround = (\<lambda>x. x)\<rparr>"

definition demo_state :: kstate where
  "demo_state = boot_state demo_arch demo_hw (\<lambda>_. replicate BSIZE 0) 1000"

lemma demo_hw_ok [simp]: "cpu_ok demo_hw" "locks demo_hw l = free_lock" "me demo_hw = 0"
  using demo_hw_init by (simp_all add: lock_init_def demo_hw_me)

lemma demo_hw_sel [simp]: "length (cpus demo_hw) = 2" "readeflags demo_hw" "lapicid demo_hw = 0"
  by (simp_all add: demo_hw_def readeflags_def)

section \<open>Spin locks in the kernel state\<close>

definition kacquire :: "lockid \<Rightarrow> kstate \<Rightarrow> (kstate, unit) outcome" where
  "kacquire l s = zoom (\<lambda>h s. s\<lparr>hw := h\<rparr>) (acquire l (hw s)) s"

definition krelease :: "lockid \<Rightarrow> kstate \<Rightarrow> (kstate, unit) outcome" where
  "krelease l s = zoom (\<lambda>h s. s\<lparr>hw := h\<rparr>) (release l (hw s)) s"

definition kholding :: "lockid \<Rightarrow> kstate \<Rightarrow> (kstate, bool) outcome" where
  "kholding l s = zoom (\<lambda>h s. s\<lparr>hw := h\<rparr>) (holding l (hw s)) s"

text \<open>A state in which the executing processor may take the lock.\<close>

definition can_lock :: "lockid \<Rightarrow> kstate \<Rightarrow> bool" where
  "can_lock l s \<longleftrightarrow> cpu_ok (hw s) \<and> locks (hw s) l = free_lock"

lemma kacquire_free:
  "cpu_ok (hw s) \<Longrightarrow> locks (hw s) l = free_lock \<Longrightarrow>
   kacquire l s = Ret () (s\<lparr>hw := lock_in l (hw s)\<rparr>)"
  by (simp add: kacquire_def acquire_free free_lock_def)

lemma krelease_lock_in:
  "hw s = lock_in l h \<Longrightarrow> cpu_ok h \<Longrightarrow> locks h l = free_lock \<Longrightarrow>
   krelease l s = Ret () (s\<lparr>hw := touch h\<rparr>)"
  by (simp add: krelease_def release_lock_in)

lemmas lock_simps = kacquire_free krelease_lock_in

lemma kacquire_held:
  assumes "cpu_ok (hw s)" "locked (locks (hw s) l)"
  shows "kacquire l s = (if holder (locks (hw s) l) = Some (me (hw s)) then Panic ''acquire'' else Spin)"
  using assms by (simp add: kacquire_def acquire_held)

lemma kholding_ok:
  "cpu_ok (hw s) \<Longrightarrow> kholding l s =
     Ret (locked (locks (hw s) l) \<and> holder (locks (hw s) l) = Some (me (hw s))) (s\<lparr>hw := touch (hw s)\<rparr>)"
  by (simp add: kholding_def holding_ok)

end
