(* ===== verification/Pages.thy ===== *)
theory Pages
  imports Kernel_State
begin

text \<open>
  Page arithmetic: the macros of \<open>mmu.h\<close> and \<open>memlayout.h\<close> that split
  and round addresses, read back as arithmetic on natural numbers, and the
  division of memory into 4096-byte pages.
\<close>

section \<open>Macros\<close>

definition PDX :: "u32 \<Rightarrow> u32" where "PDX va = drop_bit 22 va AND 0x3FF"
definition PTX :: "u32 \<Rightarrow> u32" where "PTX va = drop_bit 12 va AND 0x3FF"
definition PGADDR :: "u32 \<Rightarrow> u32 \<Rightarrow> u32 \<Rightarrow> u32" where
  "PGADDR d t off = push_bit 22 d OR push_bit 12 t OR off"
definition PTE_ADDR :: "u32 \<Rightarrow> u32" where "PTE_ADDR pte = pte AND NOT 0xFFF"
definition PTE_FLAGS :: "u32 \<Rightarrow> u32" where "PTE_FLAGS pte = pte AND 0xFFF"

abbreviation (input) PTE_P :: u32 where "PTE_P \<equiv> 1"
abbreviation (input) PTE_W :: u32 where "PTE_W \<equiv> 2"
abbreviation (input) PTE_U :: u32 where "PTE_U \<equiv> 4"

section \<open>Their arithmetic\<close>

lemma mask_12: "(4095 :: u32) = mask 12"
  by (simp add: mask_eq_exp_minus_1)

lemma mask_10: "(1023 :: u32) = mask 10"
  by (simp add: mask_eq_exp_minus_1)

lemma and_not_mask_push: "(x :: u32) AND NOT (mask n) = push_bit n (drop_bit n x)"
  by (rule bit_word_eqI) (auto simp: bit_simps)

lemma unat_and_not_4095: "unat ((x :: u32) AND NOT 4095) = unat x div 4096 * 4096"
proof -
  have "x AND NOT 4095 = push_bit 12 (drop_bit 12 x)"
    unfolding mask_12 by (rule and_not_mask_push)
  then have "unat (x AND NOT 4095) = (unat x div 4096 * 4096) mod 2 ^ 32"
    by (simp add: drop_bit_eq_div push_bit_eq_mult unat_word_ariths unat_div mod_mult_left_eq)
  also have "\<dots> = unat x div 4096 * 4096"
    by (rule mod_less) (use u32_lt [of x] in simp)
  finally show ?thesis .
qed

lemma unat_PGROUNDDOWN: "unat (PGROUNDDOWN x) = unat x div 4096 * 4096"
  using unat_and_not_4095 [of x] by (simp add: PGROUNDDOWN_def)

lemma PGROUNDUP_eq: "PGROUNDUP x = PGROUNDDOWN (x + 4095)"
  by (simp add: PGROUNDUP_def PGROUNDDOWN_def add.commute)

lemma unat_PGROUNDUP: "unat (PGROUNDUP x) = (unat x + 4095) mod 2 ^ 32 div 4096 * 4096"
  by (simp add: PGROUNDUP_eq unat_PGROUNDDOWN unat_word_ariths)

lemma unat_PDX: "unat (PDX va) = unat va div 2 ^ 22"
proof -
  have "unat (PDX va) = unat va div 2 ^ 22 mod 2 ^ 10"
    unfolding PDX_def mask_10 take_bit_eq_mask [symmetric]
    by (simp add: drop_bit_eq_div take_bit_eq_mod unat_div unat_mod)
  then show ?thesis using u32_lt [of va] by simp
qed

lemma unat_PTX: "unat (PTX va) = unat va div 2 ^ 12 mod 1024"
  unfolding PTX_def mask_10 take_bit_eq_mask [symmetric]
  by (simp add: drop_bit_eq_div take_bit_eq_mod unat_div unat_mod)

lemma PGADDR_split: "PGADDR (PDX va) (PTX va) (va AND 0xFFF) = va"
proof (rule bit_word_eqI)
  fix n assume "n < LENGTH(32)"
  then consider "n < 12" | "12 \<le> n" "n < 22" | "22 \<le> n" "n < 32" by force
  then show "bit (PGADDR (PDX va) (PTX va) (va AND 0xFFF)) n = bit va n"
    unfolding PGADDR_def PDX_def PTX_def mask_12 mask_10
    by cases (auto simp: bit_simps)
qed

section \<open>Pages of memory\<close>

definition aligned :: "u32 \<Rightarrow> bool" where
  "aligned p \<longleftrightarrow> p mod PGSIZE = 0"

definition in_page :: "u32 \<Rightarrow> u32 \<Rightarrow> bool" where
  "in_page p x \<longleftrightarrow> x - p < PGSIZE"

lemma aligned_nat: "aligned p \<longleftrightarrow> 4096 dvd unat p"
proof -
  have "unat (p mod 4096) = unat p mod 4096" by (simp add: unat_mod)
  then show ?thesis
    unfolding aligned_def dvd_eq_mod_eq_0 by (simp add: word_unat_eq_iff)
qed

lemma block_arith:
  "4096 * k \<le> n \<Longrightarrow> n - 4096 * k < 4096 \<longleftrightarrow> n div 4096 = (k :: nat)"
  by (auto simp: le_iff_add div_eq_0_iff)

lemma in_page_nat:
  assumes "aligned p"
  shows "in_page p x \<longleftrightarrow> unat x div 4096 = unat p div 4096"
proof -
  obtain k where k: "unat p = 4096 * k" using assms by (auto simp: aligned_nat)
  with u32_lt [of p] have kk: "k < 1048576" by simp
  show ?thesis
  proof (cases "p \<le> x")
    case True
    then have "unat (x - p) = unat x - 4096 * k" "4096 * k \<le> unat x"
      using k by (simp_all add: unat_sub word_le_nat_alt)
    then show ?thesis
      using k block_arith [of k "unat x"] by (simp add: in_page_def word_less_nat_alt)
  next
    case False
    then have *: "unat x < 4096 * k" using k by (simp add: word_le_nat_alt)
    then have "unat (x - p) = 4294967296 + unat x - 4096 * k"
      using k unat_sub_if_size [of x p] by (simp add: word_size)
    then have "\<not> in_page p x" using kk by (simp add: in_page_def word_less_nat_alt)
    moreover have "unat x div 4096 < k" using * by (simp add: less_mult_imp_div_less mult.commute)
    ultimately show ?thesis using k by simp
  qed
qed

lemma in_page_disjoint: "aligned p \<Longrightarrow> aligned q \<Longrightarrow> in_page p x \<Longrightarrow> in_page q x \<Longrightarrow> p = q"
  unfolding word_unat_eq_iff using in_page_nat [of p x] in_page_nat [of q x]
  by (auto simp: aligned_nat)

lemma in_page_self [simp]: "in_page p p"
  by (simp add: in_page_def)

lemma in_page_PGROUNDDOWN: "in_page (PGROUNDDOWN x) x"
  by (subst in_page_nat) (simp_all add: aligned_nat unat_PGROUNDDOWN)

lemma aligned_PGROUNDDOWN [simp]: "aligned (PGROUNDDOWN x)"
  by (simp add: aligned_nat unat_PGROUNDDOWN)

lemma aligned_PGROUNDUP [simp]: "aligned (PGROUNDUP x)"
  by (simp add: PGROUNDUP_eq)

lemma in_page_offset: "i < PGSIZE \<Longrightarrow> in_page p (p + i)"
  by (simp add: in_page_def)

end
