(* ===== verification/Kalloc.thy ===== *)
theory Kalloc
  imports Pages "HOL-Library.Multiset"
begin

text \<open>
  The physical page allocator, \<open>kalloc.c\<close>. The free pages form a linked
  list whose links are stored in the first word of each free page; the model
  keeps those links where the code keeps them, in the byte memory of the
  machine. The invariant relates the list in memory to the list of its pages.
\<close>

section \<open>Operations\<close>

definition kfree :: "u32 \<Rightarrow> kstate \<Rightarrow> (kstate, unit) outcome" where
  "kfree v s =
     (if v mod PGSIZE \<noteq> 0 \<or> v < l_end (arch s) \<or> V2P v \<ge> PHYSTOP then Panic ''kfree''
      else
        let s = s\<lparr>mem := fill (mem s) v 1 PGSIZE\<rparr> in
        bnd (if use_lock s then kacquire Kmem_lock s else Ret () s) (\<lambda>_ s.
        let s = s\<lparr>mem := write32 (mem s) v (freelist s)\<rparr>;
            s = s\<lparr>freelist := v\<rparr>
        in if use_lock s then krelease Kmem_lock s else Ret () s))"

definition kalloc :: "kstate \<Rightarrow> (kstate, u32) outcome" where
  "kalloc s =
     bnd (if use_lock s then kacquire Kmem_lock s else Ret () s) (\<lambda>_ s.
     let r = freelist s;
         s = (if r \<noteq> 0 then s\<lparr>freelist := read32 (mem s) r\<rparr> else s)
     in bnd (if use_lock s then krelease Kmem_lock s else Ret () s) (\<lambda>_ s.
        Ret r s))"

text \<open>
  The loop of \<open>freerange\<close>. The addresses grow, and \<open>kfree\<close> stops the
  machine before they can wrap around.
\<close>

lemma bnd_cong [fundef_cong]:
  "m = m' \<Longrightarrow> (\<And>a s. m' = Ret a s \<Longrightarrow> f a s = g a s) \<Longrightarrow> bnd m f = bnd m' g"
  by (cases m') auto

lemma kfree_Ret_range:
  assumes "kfree v s = Ret r t"
  shows "unat v < 2 ^ 32 - 4096"
proof -
  from assms have "v - 0x80000000 < 0xE000000"
    by (auto simp: kfree_def V2P_def split: if_splits)
  then show ?thesis by (simp add: word_less_nat_alt unat_sub_if_size word_size split: if_splits)
qed

function freerange_loop :: "u32 \<Rightarrow> u32 \<Rightarrow> kstate \<Rightarrow> (kstate, unit) outcome" where
  "freerange_loop p vend s =
     (if p + PGSIZE \<le> vend
      then bnd (kfree p s) (\<lambda>_ s. freerange_loop (p + PGSIZE) vend s)
      else Ret () s)"
  by pat_completeness auto
termination
proof (relation "measure (\<lambda>(p, vend, s). 2 ^ 32 - unat p)")
  fix p vend :: u32 and s a t
  assume "kfree p s = Ret a t"
  from kfree_Ret_range [OF this] have "unat p < 2 ^ 32 - 4096" .
  then have "unat (p + PGSIZE) = unat p + 4096"
    by (simp add: unat_word_ariths)
  with \<open>unat p < 2 ^ 32 - 4096\<close>
  show "((p + PGSIZE, vend, t), (p, vend, s)) \<in> measure (\<lambda>(p, vend, s). 2 ^ 32 - unat p)"
    by simp
qed simp

declare freerange_loop.simps [simp del]

definition freerange :: "u32 \<Rightarrow> u32 \<Rightarrow> kstate \<Rightarrow> (kstate, unit) outcome" where
  "freerange vstart vend s = freerange_loop (PGROUNDUP vstart) vend s"

definition kinit1 :: "u32 \<Rightarrow> u32 \<Rightarrow> kstate \<Rightarrow> (kstate, unit) outcome" where
  "kinit1 vstart vend s =
     (let s = s\<lparr>hw := initlock Kmem_lock (hw s)\<rparr>; s = s\<lparr>use_lock := False\<rparr>
      in freerange vstart vend s)"

definition kinit2 :: "u32 \<Rightarrow> u32 \<Rightarrow> kstate \<Rightarrow> (kstate, unit) outcome" where
  "kinit2 vstart vend s =
     bnd (freerange vstart vend s) (\<lambda>_ s. Ret () (s\<lparr>use_lock := True\<rparr>))"

section \<open>Invariant\<close>

fun freechain :: "memory \<Rightarrow> u32 \<Rightarrow> u32 list \<Rightarrow> bool" where
  "freechain m p [] = (p = 0)"
| "freechain m p (q # qs) = (p = q \<and> p \<noteq> 0 \<and> freechain m (read32 m p) qs)"

definition kpage :: "kstate \<Rightarrow> u32 \<Rightarrow> bool" where
  "kpage s v \<longleftrightarrow> aligned v \<and> l_end (arch s) \<le> v \<and> V2P v < PHYSTOP"

definition kmem_inv :: "kstate \<Rightarrow> u32 list \<Rightarrow> bool" where
  "kmem_inv s ps \<longleftrightarrow> freechain (mem s) (freelist s) ps \<and> distinct ps \<and> (\<forall>p\<in>set ps. kpage s p)"

text \<open>The allocator's lock can be taken, when it is in use.\<close>

definition kmem_ready :: "kstate \<Rightarrow> bool" where
  "kmem_ready s \<longleftrightarrow> (use_lock s \<longrightarrow> can_lock Kmem_lock s)"

lemma read32_in_page:
  assumes "aligned p" "\<And>x. in_page p x \<Longrightarrow> m' x = m x"
  shows "read32 m' p = read32 m p"
  using assms(2) [of p] assms(2) [of "p + 1"] assms(2) [of "p + 2"] assms(2) [of "p + 3"]
  by (simp add: read32_def in_page_def)

lemma freechain_frame:
  assumes "freechain m p ps" "\<And>q x. q \<in> set ps \<Longrightarrow> in_page q x \<Longrightarrow> m' x = m x"
    "\<And>q. q \<in> set ps \<Longrightarrow> aligned q"
  shows "freechain m' p ps"
  using assms
proof (induction ps arbitrary: p)
  case Nil
  then show ?case by simp
next
  case (Cons q qs)
  have "read32 m' q = read32 m q"
    using Cons.prems by (intro read32_in_page) auto
  with Cons show ?case by auto
qed

lemma kmem_inv_frame:
  assumes "kmem_inv s ps" "freelist t = freelist s" "arch t = arch s"
    "\<And>q x. q \<in> set ps \<Longrightarrow> in_page q x \<Longrightarrow> mem t x = mem s x"
  shows "kmem_inv t ps"
  using assms freechain_frame [of "mem s" "freelist s" ps "mem t"]
  by (auto simp: kmem_inv_def kpage_def)

lemma kpage_nonzero: "kpage s v \<Longrightarrow> v \<noteq> 0"
  by (auto simp: kpage_def V2P_def)

lemma kmem_inv_Nil: "kmem_inv s [] \<longleftrightarrow> freelist s = 0"
  by (simp add: kmem_inv_def)

lemma kmem_inv_Cons:
  "kmem_inv s (p # ps) \<longleftrightarrow> freelist s = p \<and> kpage s p \<and> p \<notin> set ps
     \<and> kmem_inv (s\<lparr>freelist := read32 (mem s) p\<rparr>) ps"
  by (auto simp: kmem_inv_def kpage_def V2P_def)

section \<open>Behaviour\<close>

definition kmem_hw :: "kstate \<Rightarrow> hw" where
  "kmem_hw s = (if use_lock s then touch (hw s) else hw s)"

lemma kalloc_eq:
  assumes "kmem_ready s"
  shows "kalloc s = Ret (freelist s)
     (s\<lparr>freelist := (if freelist s \<noteq> 0 then read32 (mem s) (freelist s) else 0), hw := kmem_hw s\<rparr>)"
  using assms
  by (auto simp: kalloc_def kmem_ready_def can_lock_def lock_simps kmem_hw_def Let_def)

lemma kfree_eq:
  assumes "kmem_ready s" "kpage s v"
  shows "kfree v s = Ret ()
     (s\<lparr>mem := write32 (fill (mem s) v 1 PGSIZE) v (freelist s), freelist := v, hw := kmem_hw s\<rparr>)"
  using assms
  by (auto simp: kfree_def kmem_ready_def can_lock_def lock_simps kmem_hw_def Let_def kpage_def
      aligned_def)

lemma kfree_panic:
  assumes "\<not> kpage s v"
  shows "kfree v s = Panic ''kfree''"
proof -
  from assms have "v mod PGSIZE \<noteq> 0 \<or> v < l_end (arch s) \<or> V2P v \<ge> PHYSTOP"
    unfolding kpage_def aligned_def by (simp only: de_Morgan_conj not_le not_less)
  then show ?thesis unfolding kfree_def by (simp only: if_True)
qed

lemma write32_fill_outside:
  "\<not> in_page v x \<Longrightarrow> write32 (fill m v c PGSIZE) v w x = m x"
proof -
  assume *: "\<not> in_page v x"
  then have "\<not> x - v < 4" by (auto simp: in_page_def dest: less_trans [of _ 4 4096])
  with * show ?thesis by (simp add: write32_outside fill_def in_page_def)
qed

lemma kmem_ready_step:
  assumes "kmem_ready s"
  shows "kmem_ready (s\<lparr>freelist := p, hw := kmem_hw s\<rparr>)"
    "kmem_ready (s\<lparr>mem := m, freelist := p, hw := kmem_hw s\<rparr>)"
  using assms by (auto simp: kmem_ready_def can_lock_def kmem_hw_def)

lemma kalloc_pop:
  assumes "kmem_ready s" "kmem_inv s (p # ps)"
  shows "returns (kalloc s) (\<lambda>r t. r = p \<and> kmem_inv t ps \<and> kmem_ready t \<and> mem t = mem s
     \<and> arch t = arch s)"
proof -
  from assms(2) have "freelist s = p" "p \<noteq> 0"
    and inv: "kmem_inv (s\<lparr>freelist := read32 (mem s) p\<rparr>) ps"
    by (auto simp: kmem_inv_Cons dest: kpage_nonzero)
  moreover have "kmem_inv (s\<lparr>freelist := read32 (mem s) p, hw := kmem_hw s\<rparr>) ps"
    by (rule kmem_inv_frame [OF inv]) simp_all
  ultimately show ?thesis
    using assms(1) by (simp add: kalloc_eq kmem_ready_step)
qed

lemma kalloc_empty:
  assumes "kmem_ready s" "kmem_inv s []"
  shows "returns (kalloc s) (\<lambda>r t. r = 0 \<and> kmem_inv t [] \<and> kmem_ready t \<and> mem t = mem s
     \<and> arch t = arch s)"
  using assms by (simp add: kalloc_eq kmem_ready_step kmem_inv_Nil)

lemma kfree_push:
  assumes "kmem_ready s" "kmem_inv s ps" "kpage s v" "v \<notin> set ps"
  shows "returns (kfree v s) (\<lambda>_ t. kmem_inv t (v # ps) \<and> kmem_ready t
     \<and> (\<forall>x. \<not> in_page v x \<longrightarrow> mem t x = mem s x) \<and> arch t = arch s)"
proof -
  let ?t = "s\<lparr>mem := write32 (fill (mem s) v 1 PGSIZE) v (freelist s), freelist := v, hw := kmem_hw s\<rparr>"
  have other: "\<not> in_page v x" if "q \<in> set ps" "in_page q x" for q x
  proof -
    from that(1) assms(2,3) have "aligned q" "aligned v" by (auto simp: kmem_inv_def kpage_def)
    with that assms(4) in_page_disjoint [of v q x] show ?thesis by auto
  qed
  have "kmem_inv (?t\<lparr>freelist := freelist s\<rparr>) ps"
    by (rule kmem_inv_frame [OF assms(2)]) (auto simp: write32_fill_outside dest: other)
  then have "kmem_inv ?t (v # ps)"
    using assms(3,4) by (simp add: kmem_inv_Cons kpage_def)
  then show ?thesis
    using assms(1,3) by (simp add: kfree_eq kmem_ready_step write32_fill_outside)
qed

text \<open>A write to a page in use, by whoever allocated it.\<close>

definition scribble_mem :: "u32 \<Rightarrow> kstate \<Rightarrow> kstate \<Rightarrow> bool" where
  "scribble_mem v s t \<longleftrightarrow> (\<exists>m. t = s\<lparr>mem := m\<rparr> \<and> (\<forall>x. \<not> in_page v x \<longrightarrow> m x = mem s x))"

lemma scribble_mem_inv:
  assumes "kmem_ready s" "kmem_inv s ps" "kpage s v" "v \<notin> set ps" "scribble_mem v s t"
  shows "kmem_ready t \<and> kmem_inv t ps"
proof -
  obtain m where t: "t = s\<lparr>mem := m\<rparr>" and m: "\<And>x. \<not> in_page v x \<Longrightarrow> m x = mem s x"
    using assms(5) by (auto simp: scribble_mem_def)
  have "\<not> in_page v x" if "q \<in> set ps" "in_page q x" for q x
    using that assms in_page_disjoint [of v q x] by (auto simp: kmem_inv_def kpage_def)
  then have "kmem_inv t ps"
    unfolding t using m by (intro kmem_inv_frame [OF assms(2)]) auto
  with assms(1) t show ?thesis by (simp add: kmem_ready_def can_lock_def)
qed

section \<open>The allocator as an interface\<close>

text \<open>
  What the clients of the allocator rely on: a pool of usable pages, from which
  allocation takes one and to which freeing returns one.
\<close>

fun allocs :: "('s \<Rightarrow> ('s, u32) outcome) \<Rightarrow> nat \<Rightarrow> 's \<Rightarrow> ('s, u32 list) outcome" where
  "allocs alloc 0 s = Ret [] s"
| "allocs alloc (Suc n) s = bnd (alloc s) (\<lambda>p s. bnd (allocs alloc n s) (\<lambda>ps s. Ret (p # ps) s))"

fun frees :: "(u32 \<Rightarrow> 's \<Rightarrow> ('s, unit) outcome) \<Rightarrow> u32 list \<Rightarrow> 's \<Rightarrow> ('s, unit) outcome" where
  "frees free [] s = Ret () s"
| "frees free (p # ps) s = bnd (free p s) (\<lambda>_ s. frees free ps s)"

text \<open>
  A history of the pool: pages are taken, the pages in use are written, and
  pages in use are given back. The second component lists the pages in use.
\<close>

inductive pool_run ::
  "('s \<Rightarrow> ('s, u32) outcome) \<Rightarrow> (u32 \<Rightarrow> 's \<Rightarrow> ('s, unit) outcome) \<Rightarrow> (u32 \<Rightarrow> 's \<Rightarrow> 's \<Rightarrow> bool)
   \<Rightarrow> 's \<Rightarrow> 's \<Rightarrow> u32 list \<Rightarrow> bool"
  for alloc free scribble s0 where
  start: "pool_run alloc free scribble s0 s0 []"
| take: "pool_run alloc free scribble s0 s own \<Longrightarrow> alloc s = Ret r t \<Longrightarrow>
    pool_run alloc free scribble s0 t (if r = 0 then own else r # own)"
| wr: "pool_run alloc free scribble s0 s own \<Longrightarrow> v \<in> set own \<Longrightarrow> scribble v s t \<Longrightarrow>
    pool_run alloc free scribble s0 t own"
| give: "pool_run alloc free scribble s0 s own \<Longrightarrow> v \<in> set own \<Longrightarrow> free v s = Ret () t \<Longrightarrow>
    pool_run alloc free scribble s0 t (remove1 v own)"

lemma mset_split:
  assumes "mset xs + mset ys = mset zs" "distinct zs"
  shows "set xs \<union> set ys = set zs \<and> set xs \<inter> set ys = {}"
proof -
  have *: "mset (xs @ ys) = mset zs" using assms(1) by simp
  show ?thesis
    using mset_eq_setD [OF *] mset_eq_imp_distinct_iff [OF *] assms(2) by simp
qed

locale page_pool =
  fixes alloc :: "'s \<Rightarrow> ('s, u32) outcome"
    and free :: "u32 \<Rightarrow> 's \<Rightarrow> ('s, unit) outcome"
    and pool :: "'s \<Rightarrow> u32 list \<Rightarrow> bool"
    and usable :: "'s \<Rightarrow> u32 \<Rightarrow> bool"
    and scribble :: "u32 \<Rightarrow> 's \<Rightarrow> 's \<Rightarrow> bool"
  assumes pool_distinct: "pool s ps \<Longrightarrow> distinct ps"
    and pool_usable: "pool s ps \<Longrightarrow> p \<in> set ps \<Longrightarrow> usable s p \<and> p \<noteq> 0"
    and alloc_some: "pool s (p # ps) \<Longrightarrow>
      returns (alloc s) (\<lambda>r t. r = p \<and> pool t ps \<and> usable t = usable s)"
    and alloc_none: "pool s [] \<Longrightarrow> returns (alloc s) (\<lambda>r t. r = 0 \<and> pool t [] \<and> usable t = usable s)"
    and free_page: "pool s ps \<Longrightarrow> usable s v \<Longrightarrow> v \<notin> set ps \<Longrightarrow>
      returns (free v s) (\<lambda>_ t. pool t (v # ps) \<and> usable t = usable s)"
    and scribble_page: "pool s ps \<Longrightarrow> usable s v \<Longrightarrow> v \<notin> set ps \<Longrightarrow> scribble v s t \<Longrightarrow>
      pool t ps \<and> usable t = usable s"
begin

lemma allocs_take:
  "pool s ps \<Longrightarrow> n \<le> length ps \<Longrightarrow>
   returns (allocs alloc n s) (\<lambda>rs t. rs = take n ps \<and> pool t (drop n ps) \<and> usable t = usable s)"
proof (induction n arbitrary: s ps)
  case 0
  then show ?case by simp
next
  case (Suc n)
  then obtain p qs where ps: "ps = p # qs" by (cases ps) auto
  show ?case
    unfolding allocs.simps ps
  proof (intro returns_bndI returns_mono [OF alloc_some])
    show "pool s (p # qs)" using Suc.prems ps by simp
  next
    fix a t assume *: "a = p \<and> pool t qs \<and> usable t = usable s"
    then have "returns (allocs alloc n t)
        (\<lambda>rs u. rs = take n qs \<and> pool u (drop n qs) \<and> usable u = usable t)"
      using Suc.IH [of t qs] Suc.prems ps by simp
    then show "returns (allocs alloc n t) (\<lambda>b u. returns (Ret (a # b) u)
        (\<lambda>rs t. rs = take (Suc n) (p # qs) \<and> pool t (drop (Suc n) (p # qs)) \<and> usable t = usable s))"
      using * by (auto elim!: returns_mono)
  qed
qed

lemma frees_push:
  "pool s ps \<Longrightarrow> distinct vs \<Longrightarrow> set vs \<inter> set ps = {} \<Longrightarrow> \<forall>v\<in>set vs. usable s v \<Longrightarrow>
   returns (frees free vs s) (\<lambda>_ t. pool t (rev vs @ ps) \<and> usable t = usable s)"
proof (induction vs arbitrary: s ps)
  case Nil
  then show ?case by simp
next
  case (Cons v vs)
  have "returns (free v s) (\<lambda>_ t. pool t (v # ps) \<and> usable t = usable s)"
    using Cons.prems by (intro free_page) auto
  then show ?case
    unfolding frees.simps
  proof (intro returns_bndI, elim returns_mono)
    fix a t assume "pool t (v # ps) \<and> usable t = usable s"
    then show "returns (frees free vs t) (\<lambda>_ t. pool t (rev (v # vs) @ ps) \<and> usable t = usable s)"
      using Cons.IH [of t "v # ps"] Cons.prems by auto
  qed
qed

lemma allocs_frees:
  assumes "pool s ps" "n \<le> length ps"
  shows "returns (bnd (allocs alloc n s) (\<lambda>rs. frees free (rev rs))) (\<lambda>_ t. pool t ps)"
proof (intro returns_bndI returns_mono [OF allocs_take [OF assms]])
  fix a t assume *: "a = take n ps \<and> pool t (drop n ps) \<and> usable t = usable s"
  have "distinct (take n ps @ drop n ps)" using pool_distinct [OF assms(1)] by simp
  then have d: "distinct (take n ps)" "set (take n ps) \<inter> set (drop n ps) = {}"
    by (simp_all only: distinct_append)
  have "returns (frees free (rev a) t) (\<lambda>_ u. pool u (rev (rev a) @ drop n ps) \<and> usable u = usable t)"
    using * d pool_usable [OF assms(1)] by (intro frees_push) (auto dest: in_set_takeD)
  then show "returns (frees free (rev a) t) (\<lambda>_ t. pool t ps)"
    using * by (auto elim!: returns_mono)
qed

lemma run_conserves:
  assumes "pool_run alloc free scribble s0 s own" "pool s0 ps0"
  shows "\<exists>ps. pool s ps \<and> mset own + mset ps = mset ps0 \<and> usable s = usable s0"
  using assms
proof (induction rule: pool_run.induct)
  case start
  then show ?case by auto
next
  case (take s own r t)
  then obtain ps where ps: "pool s ps" "mset own + mset ps = mset ps0" "usable s = usable s0" by auto
  show ?case
  proof (cases ps)
    case Nil
    with ps(1) alloc_none [of s] take.hyps(2) have "r = 0" "pool t []" "usable t = usable s" by auto
    with Nil ps show ?thesis by auto
  next
    case (Cons p qs)
    with ps(1) alloc_some [of s p qs] take.hyps(2) have "r = p" "pool t qs" "usable t = usable s" by auto
    moreover have "p \<noteq> 0" using pool_usable [OF ps(1)] Cons by auto
    ultimately show ?thesis using Cons ps(2,3) by (intro exI [of _ qs]) simp
  qed
next
  case (wr s own v t)
  then obtain ps where ps: "pool s ps" "mset own + mset ps = mset ps0" "usable s = usable s0" by auto
  have "v \<in> set ps0" "v \<notin> set ps"
    using mset_split [OF ps(2) pool_distinct [OF wr.prems]] wr.hyps(2) by auto
  then have "pool t ps \<and> usable t = usable s"
    using wr ps pool_usable [OF wr.prems] by (intro scribble_page) auto
  with ps show ?case by auto
next
  case (give s own v t)
  then obtain ps where ps: "pool s ps" "mset own + mset ps = mset ps0" "usable s = usable s0" by auto
  have "v \<in> set ps0" "v \<notin> set ps"
    using mset_split [OF ps(2) pool_distinct [OF give.prems]] give.hyps(2) by auto
  then have "returns (free v s) (\<lambda>_ t. pool t (v # ps) \<and> usable t = usable s)"
    using give ps pool_usable [OF give.prems] by (intro free_page) auto
  then have "pool t (v # ps)" "usable t = usable s0" using give.hyps(3) ps(3) by simp_all
  moreover have "mset (remove1 v own) + mset (v # ps) = mset ps0"
    using give.hyps(2) unfolding ps(2) [symmetric] by simp
  ultimately show ?case by (intro exI [of _ "v # ps"] conjI)
qed

end

interpretation kmem: page_pool kalloc kfree "\<lambda>s ps. kmem_ready s \<and> kmem_inv s ps" kpage scribble_mem
proof
  fix s ps p v
  show "distinct ps" if "kmem_ready s \<and> kmem_inv s ps"
    using that by (simp add: kmem_inv_def)
  show "kpage s p \<and> p \<noteq> 0" if "kmem_ready s \<and> kmem_inv s ps" "p \<in> set ps"
    using that by (auto simp: kmem_inv_def dest: kpage_nonzero)
  show "returns (kalloc s) (\<lambda>r t. r = p \<and> (kmem_ready t \<and> kmem_inv t ps) \<and> kpage t = kpage s)"
    if "kmem_ready s \<and> kmem_inv s (p # ps)"
    using that by (auto simp: kpage_def fun_eq_iff elim!: returns_mono [OF kalloc_pop])
  show "returns (kalloc s) (\<lambda>r t. r = 0 \<and> (kmem_ready t \<and> kmem_inv t []) \<and> kpage t = kpage s)"
    if "kmem_ready s \<and> kmem_inv s []"
    using that by (auto simp: kpage_def fun_eq_iff elim!: returns_mono [OF kalloc_empty])
  show "returns (kfree v s) (\<lambda>_ t. (kmem_ready t \<and> kmem_inv t (v # ps)) \<and> kpage t = kpage s)"
    if "kmem_ready s \<and> kmem_inv s ps" "kpage s v" "v \<notin> set ps"
    using that by (auto simp: kpage_def fun_eq_iff elim!: returns_mono [OF kfree_push])
  fix t
  show "(kmem_ready t \<and> kmem_inv t ps) \<and> kpage t = kpage s"
    if "kmem_ready s \<and> kmem_inv s ps" "kpage s v" "v \<notin> set ps" "scribble_mem v s t"
    using that scribble_mem_inv [of s ps v t] by (auto simp: scribble_mem_def kpage_def)
qed

section \<open>Filling the pool\<close>

fun pages_from :: "u32 \<Rightarrow> nat \<Rightarrow> u32 list" where
  "pages_from p 0 = []"
| "pages_from p (Suc n) = p # pages_from (p + PGSIZE) n"

lemma unat_plus_page: "unat p + 4096 < 2 ^ 32 \<Longrightarrow> unat (p + 4096 :: u32) = unat p + 4096"
  by (simp add: unat_word_ariths)

lemma kpage_between:
  assumes "aligned p" "l_end (arch s) \<le> p" "KERNBASE \<le> p" "unat p < unat (KERNBASE + PHYSTOP)"
  shows "kpage s p"
  using assms by (simp add: kpage_def V2P_def word_less_nat_alt word_le_nat_alt unat_sub)

lemma freerange_loop_pages:
  assumes "kmem_ready s" "kmem_inv s ps" "aligned p" "l_end (arch s) \<le> p" "KERNBASE \<le> p"
    "vend \<le> KERNBASE + PHYSTOP" "unat p + 4096 * n \<le> unat vend" "unat vend < unat p + 4096 * n + 4096"
    "\<forall>q\<in>set ps. q < p"
  shows "returns (freerange_loop p vend s) (\<lambda>_ t. kmem_inv t (rev (pages_from p n) @ ps) \<and> kmem_ready t
    \<and> arch t = arch s)"
  using assms
proof (induction n arbitrary: p s ps)
  case 0
  have "\<not> p + PGSIZE \<le> vend"
    using 0 unat_plus_page [of p] by (simp add: word_le_nat_alt)
  then show ?case using 0 by (simp add: freerange_loop.simps)
next
  case (Suc n)
  have top: "unat vend \<le> 0x8E000000" using Suc.prems(6) by (simp add: word_le_nat_alt)
  have up: "unat (p + PGSIZE) = unat p + 4096" using Suc.prems(7) top by (intro unat_plus_page) simp
  have go: "p + PGSIZE \<le> vend" using up Suc.prems(7) by (simp add: word_le_nat_alt)
  have page: "kpage s p" using Suc.prems top by (intro kpage_between) auto
  have next_page: "aligned (p + PGSIZE)" "l_end (arch s) \<le> p + PGSIZE" "KERNBASE \<le> p + PGSIZE"
    "\<forall>q\<in>set (p # ps). q < p + PGSIZE"
    using Suc.prems up by (auto simp: aligned_nat word_le_nat_alt word_less_nat_alt)
  have "returns (kfree p s) (\<lambda>_ t. kmem_inv t (p # ps) \<and> kmem_ready t
     \<and> (\<forall>x. \<not> in_page p x \<longrightarrow> mem t x = mem s x) \<and> arch t = arch s)"
    using Suc.prems page by (intro kfree_push) auto
  then obtain u where u: "kfree p s = Ret () u" "kmem_inv u (p # ps)" "kmem_ready u" "arch u = arch s"
    by (elim returnsE) auto
  have "returns (freerange_loop (p + PGSIZE) vend u)
     (\<lambda>_ t. kmem_inv t (rev (pages_from (p + PGSIZE) n) @ p # ps) \<and> kmem_ready t \<and> arch t = arch u)"
    using next_page up Suc.prems u by (intro Suc.IH) simp_all
  then show ?case
    unfolding freerange_loop.simps [of p] using go u by simp
qed

text \<open>The pages that lie wholly between two addresses.\<close>

definition whole_pages :: "u32 \<Rightarrow> u32 \<Rightarrow> u32 set" where
  "whole_pages vstart vend = {p. aligned p \<and> vstart \<le> p \<and> unat p + 4096 \<le> unat vend}"

lemma set_pages_from:
  "aligned p \<Longrightarrow> unat p + 4096 * n < 2 ^ 32 \<Longrightarrow>
   set (pages_from p n) = {q. aligned q \<and> unat p \<le> unat q \<and> unat q < unat p + 4096 * n}"
proof (induction n arbitrary: p)
  case 0
  then show ?case by auto
next
  case (Suc n)
  then have up: "unat (p + PGSIZE) = unat p + 4096" by (intro unat_plus_page) simp
  have al: "aligned (p + PGSIZE)" using Suc.prems up by (simp add: aligned_nat)
  have eq: "q = p" if q: "aligned q" "unat p \<le> unat q" "unat q < unat p + 4096" for q
  proof -
    obtain j where "unat p = 4096 * j" using Suc.prems(1) unfolding aligned_nat by (rule dvdE)
    moreover obtain k where "unat q = 4096 * k" using q(1) unfolding aligned_nat by (rule dvdE)
    ultimately show ?thesis using q(2,3) by (simp add: word_unat_eq_iff)
  qed
  have "set (pages_from (p + PGSIZE) n) = {q. aligned q \<and> unat p + 4096 \<le> unat q \<and> unat q < unat p + 4096 + 4096 * n}"
    using Suc.IH [OF al] up Suc.prems by simp
  moreover have "{q. aligned q \<and> unat p \<le> unat q \<and> unat q < unat p + 4096 * Suc n} =
      insert p {q. aligned q \<and> unat p + 4096 \<le> unat q \<and> unat q < unat p + 4096 + 4096 * n}"
  proof (rule set_eqI)
    fix q
    show "q \<in> {q. aligned q \<and> unat p \<le> unat q \<and> unat q < unat p + 4096 * Suc n} \<longleftrightarrow>
      q \<in> insert p {q. aligned q \<and> unat p + 4096 \<le> unat q \<and> unat q < unat p + 4096 + 4096 * n}"
    proof (cases "aligned q \<and> unat p \<le> unat q \<and> unat q < unat p + 4096")
      case True
      then have "q = p" using eq by blast
      then show ?thesis using Suc.prems(1) by simp
    next
      case False
      then have "q \<noteq> p" using Suc.prems(1) by auto
      then show ?thesis using False by auto
    qed
  qed
  ultimately show ?case by simp
qed

lemma unat_PGROUNDUP_small: "unat x + 4096 \<le> 2 ^ 32 \<Longrightarrow> unat (PGROUNDUP x) = (unat x + 4095) div 4096 * 4096"
  by (simp add: unat_PGROUNDUP)

lemma page_bounds:
  fixes q :: nat
  assumes "4096 dvd q" "p = (v + 4095) div 4096 * 4096" "p + 4096 * n \<le> e" "e < p + 4096 * n + 4096"
  shows "(p \<le> q \<and> q < p + 4096 * n) = (v \<le> q \<and> q + 4096 \<le> e)"
proof -
  obtain k where k: "q = 4096 * k" using assms(1) by (rule dvdE)
  define j where "j = (v + 4095) div 4096"
  have j: "4096 * j \<le> v + 4095" "v + 4095 < 4096 * j + 4096" unfolding j_def by simp_all
  have p: "p = 4096 * j" using assms(2) by (simp add: j_def)
  have "p \<le> q \<longleftrightarrow> v \<le> q" using j unfolding p k by (cases "j \<le> k") auto
  moreover have "q < p + 4096 * n \<longleftrightarrow> q + 4096 \<le> e"
    using assms(3,4) unfolding p k by (cases "k < j + n") auto
  ultimately show ?thesis by simp
qed

lemma freerange_pages:
  assumes "kmem_ready s" "kmem_inv s []" "l_end (arch s) \<le> vstart" "KERNBASE \<le> vstart"
    "vend \<le> KERNBASE + PHYSTOP" "PGROUNDUP vstart \<le> vend"
    "vstart \<le> vend"
  shows "returns (freerange vstart vend s) (\<lambda>_ t. kmem_ready t \<and> arch t = arch s
    \<and> (\<exists>ps. kmem_inv t ps \<and> set ps = whole_pages vstart vend))"
proof -
  let ?p = "PGROUNDUP vstart" let ?n = "(unat vend - unat (PGROUNDUP vstart)) div 4096"
  have top: "unat vend \<le> 0x8E000000" "unat vstart \<le> unat vend" "unat ?p \<le> unat vend"
    using assms(5-7) by (simp_all add: word_le_nat_alt)
  then have p: "unat ?p = (unat vstart + 4095) div 4096 * 4096" by (intro unat_PGROUNDUP_small) simp
  then have le: "vstart \<le> ?p" by (simp add: word_le_nat_alt)
  have "4096 * ?n \<le> unat vend - unat ?p" "unat vend - unat ?p < 4096 * ?n + 4096" by simp_all
  then have n: "unat ?p + 4096 * ?n \<le> unat vend" "unat vend < unat ?p + 4096 * ?n + 4096"
    using top(3) by linarith+
  have run: "returns (freerange_loop ?p vend s) (\<lambda>_ t. kmem_inv t (rev (pages_from ?p ?n) @ []) \<and> kmem_ready t \<and> arch t = arch s)"
    using assms le n by (intro freerange_loop_pages) auto
  have "set (pages_from ?p ?n) = whole_pages vstart vend"
  proof -
    have "set (pages_from ?p ?n) = {q. aligned q \<and> unat ?p \<le> unat q \<and> unat q < unat ?p + 4096 * ?n}"
      using n top by (intro set_pages_from) auto
    moreover have "(unat ?p \<le> unat q \<and> unat q < unat ?p + 4096 * ?n) =
        (vstart \<le> q \<and> unat q + 4096 \<le> unat vend)" if "aligned q" for q
      using that page_bounds [OF _ p n, of "unat q"] by (simp add: aligned_nat word_le_nat_alt)
    ultimately show ?thesis unfolding whole_pages_def by (simp only: cong: conj_cong)
  qed
  then show ?thesis
    unfolding freerange_def by (intro returns_mono [OF run]) auto
qed

text \<open>
  C18: \<open>kinit1\<close> (and \<open>freerange\<close>) puts on the free list exactly the
  pages that lie wholly inside the range it is given, each once, and never stops the
  machine on a range inside the kernel's mapping of physical memory.
\<close>

theorem kinit1_fills_pool:
  assumes "freelist s = 0" "l_end (arch s) \<le> vstart" "KERNBASE \<le> vstart"
    "vend \<le> KERNBASE + PHYSTOP" "PGROUNDUP vstart \<le> vend" "vstart \<le> vend"
  shows "returns (kinit1 vstart vend s) (\<lambda>_ t. kmem_ready t
    \<and> (\<exists>ps. kmem_inv t ps \<and> set ps = whole_pages vstart vend))"
  unfolding kinit1_def Let_def
  using assms by (intro returns_mono [OF freerange_pages]) (auto simp: kmem_ready_def kmem_inv_Nil)

lemma kinit1_fills_pool_witness:
  "returns (kinit1 0x80116000 0x80400000 demo_state) (\<lambda>_ t. kmem_ready t
    \<and> (\<exists>ps. kmem_inv t ps \<and> set ps = whole_pages 0x80116000 0x80400000))"
  by (rule kinit1_fills_pool)
    (simp_all add: demo_state_def boot_state_def demo_arch_def PGROUNDUP_def)

text \<open>
  C5: Whatever sequence of allocations, writes to allocated pages and frees of
  allocated pages the kernel performs, no page is ever handed out twice or lost:
  the pages in use are distinct pages of the initial pool, freeing any of them
  succeeds, and the next \<open>kalloc\<close> returns a page of the pool that is not in use,
  or 0 exactly when all of them are.
\<close>

theorem kalloc_history:
  assumes "pool_run kalloc kfree scribble_mem s0 s own" "kmem_ready s0" "kmem_inv s0 ps0"
  shows "distinct own \<and> set own \<subseteq> set ps0
    \<and> (\<forall>v\<in>set own. kpage s v \<and> returns (kfree v s) (\<lambda>_ _. True))
    \<and> returns (kalloc s) (\<lambda>r _. if set own = set ps0 then r = 0 else r \<in> set ps0 - set own)"
proof -
  obtain ps where ps: "kmem_ready s" "kmem_inv s ps" "mset own + mset ps = mset ps0" "kpage s = kpage s0"
    using kmem.run_conserves [OF assms(1)] assms(2,3) by auto
  have d0: "distinct ps0" using assms(3) by (simp add: kmem_inv_def)
  have "distinct (own @ ps)"
    using mset_eq_imp_distinct_iff [of "own @ ps" ps0] ps(3) d0 by simp
  moreover have split: "set own \<union> set ps = set ps0" "set own \<inter> set ps = {}"
    using mset_split [OF ps(3) d0] by auto
  moreover have page: "kpage s v" if "v \<in> set ps0" for v
    using that assms(3) by (simp add: ps(4) kmem_inv_def)
  moreover have "returns (kfree v s) (\<lambda>_ _. True)" if "v \<in> set own" for v
    using that split page by (intro returns_mono [OF kfree_push [OF ps(1,2)]]) auto
  moreover have "returns (kalloc s) (\<lambda>r _. if set own = set ps0 then r = 0 else r \<in> set ps0 - set own)"
  proof (cases ps)
    case Nil
    with split ps kalloc_empty [of s] show ?thesis by (auto elim!: returns_mono)
  next
    case (Cons p qs)
    with split have "p \<in> set ps0 - set own" "set own \<noteq> set ps0" by auto
    with Cons ps(1,2) kalloc_pop [of s p qs] show ?thesis by (auto elim!: returns_mono)
  qed
  ultimately show ?thesis by auto
qed

definition demo_pool :: kstate where
  "demo_pool = demo_state\<lparr>freelist := 0x80200000\<rparr>"

lemma demo_pool_ok: "kmem_ready demo_pool" "kmem_inv demo_pool [0x80200000]"
  by (simp_all add: demo_pool_def demo_state_def boot_state_def demo_arch_def kmem_ready_def
      kmem_inv_def kpage_def aligned_def V2P_def read32_def)

lemma demo_pool_run:
  "pool_run kalloc kfree scribble_mem demo_pool (demo_pool\<lparr>freelist := 0\<rparr>) [0x80200000]"
proof -
  have "kalloc demo_pool = Ret 0x80200000 (demo_pool\<lparr>freelist := 0\<rparr>)"
    using demo_pool_ok(1)
    by (subst kalloc_eq) (auto simp: kmem_hw_def demo_pool_def demo_state_def boot_state_def read32_def)
  from pool_run.take [where alloc = kalloc, OF pool_run.start this, of kfree scribble_mem]
  show ?thesis by simp
qed

lemma kalloc_history_witness:
  "returns (kalloc (demo_pool\<lparr>freelist := 0\<rparr>)) (\<lambda>r _. r = 0)
   \<and> returns (kfree 0x80200000 (demo_pool\<lparr>freelist := 0\<rparr>)) (\<lambda>_ _. True)"
  using kalloc_history [OF demo_pool_run demo_pool_ok] by simp

end
