(* ===== verification/Sched.thy ===== *)
theory Sched
  imports Kalloc
begin

text \<open>
  The process table and the scheduler: the parts of \<open>proc.c\<close> that choose,
  dispatch, block and wake processes, the system calls that tune the three
  scheduling queues, and the two routines of \<open>vm.c\<close> that the dispatcher
  calls.

  A process that gives up the processor ends in \<open>Swtch\<close>: the state handed
  to the scheduler. The code after the call of \<open>swtch\<close> runs when the
  process is dispatched again and is modelled by the \<open>_resume\<close> operations.
\<close>

abbreviation (input) TICKS_PER_SECOND :: u32 where "TICKS_PER_SECOND \<equiv> 100"
abbreviation (input) DEFAULT_PRIORITY :: int where "DEFAULT_PRIORITY \<equiv> 3"
abbreviation (input) AGING_THRESHOLD :: u32 where "AGING_THRESHOLD \<equiv> 8000"

section \<open>The running process\<close>

definition deref :: "nat option \<Rightarrow> (nat \<Rightarrow> ('s, 'a) outcome) \<Rightarrow> ('s, 'a) outcome" where
  "deref p f = (case p of None \<Rightarrow> Fault ''null pointer'' | Some i \<Rightarrow> f i)"

definition upd_proc :: "nat \<Rightarrow> (proc \<Rightarrow> proc) \<Rightarrow> kstate \<Rightarrow> kstate" where
  "upd_proc i f s = s\<lparr>ptable := (ptable s)[i := f (ptable s ! i)]\<rparr>"

definition kmycpu :: "kstate \<Rightarrow> (kstate, nat) outcome" where
  "kmycpu s = zoom (\<lambda>h s. s\<lparr>hw := h\<rparr>) (mycpu (hw s)) s"

definition kupd_cpu :: "nat \<Rightarrow> (cpu \<Rightarrow> cpu) \<Rightarrow> kstate \<Rightarrow> kstate" where
  "kupd_cpu i f s = s\<lparr>hw := upd_cpu i f (hw s)\<rparr>"

definition myproc :: "kstate \<Rightarrow> (kstate, nat option) outcome" where
  "myproc s = zoom (\<lambda>h s. s\<lparr>hw := h\<rparr>)
     (bnd (pushcli (hw s)) (\<lambda>_ h.
      bnd (mycpu h) (\<lambda>c h.
      let p = cpu_proc (cpus h ! c) in
      bnd (popcli h) (\<lambda>_ h.
      Ret p h)))) s"

section \<open>Choosing a process\<close>

text \<open>The do-while loop of the round-robin search, from a pointer into the table.\<close>

partial_function (option) rr_loop :: "nat \<Rightarrow> nat \<Rightarrow> proc list \<Rightarrow> nat option option" where
  "rr_loop p last_scheduled pt =
     (let p = (if p + 1 = length pt then 0 else p + 1) in
      if state (pt ! p) = RUNNABLE \<and> queue (sched_info (pt ! p)) = RR then Some (Some p)
      else if p \<noteq> last_scheduled then rr_loop p last_scheduled pt
      else Some None)"

definition find_next_round_robin :: "nat \<Rightarrow> kstate \<Rightarrow> nat option option" where
  "find_next_round_robin last_scheduled s = rr_loop last_scheduled last_scheduled (ptable s)"

fun lcfs_loop :: "nat \<Rightarrow> proc list \<Rightarrow> nat option \<Rightarrow> int \<Rightarrow> nat option" where
  "lcfs_loop i [] last_process max_arrival_time = last_process"
| "lcfs_loop i (p # ps) last_process max_arrival_time =
     (if state p \<noteq> RUNNABLE \<or> queue (sched_info p) \<noteq> LCFS
      then lcfs_loop (i + 1) ps last_process max_arrival_time
      else if arrival_time (sched_info p) > max_arrival_time
      then lcfs_loop (i + 1) ps (Some i) (arrival_time (sched_info p))
      else lcfs_loop (i + 1) ps last_process max_arrival_time)"

definition find_next_lcfs :: "kstate \<Rightarrow> nat option" where
  "find_next_lcfs s = lcfs_loop 0 (ptable s) None (- 1)"

definition calc_process_bjf_rank :: "(rat \<Rightarrow> rat) \<Rightarrow> proc \<Rightarrow> rat" where
  "calc_process_bjf_rank rnd p =
     (let i = sched_info p; c = bjf_coeffs i in
      rnd (rnd (rnd (rnd (rnd (of_int (arrival_time i)) * arrival_time_ratio c)
                   + rnd (executed_cycles i * executed_cycles_ratio c))
              + rnd (rnd (of_int (priority i)) * priority_ratio c))
         + rnd (rnd (of_nat (unat (sz p))) * process_size_ratio c)))"

fun bjf_loop :: "(proc \<Rightarrow> rat) \<Rightarrow> nat \<Rightarrow> proc list \<Rightarrow> nat option \<Rightarrow> rat \<Rightarrow> nat option" where
  "bjf_loop rank i [] best_job_process best_job_rank = best_job_process"
| "bjf_loop rank i (p # ps) best_job_process best_job_rank =
     (if state p \<noteq> RUNNABLE \<or> queue (sched_info p) \<noteq> BJF
      then bjf_loop rank (i + 1) ps best_job_process best_job_rank
      else if best_job_process = None \<or> rank p < best_job_rank
      then bjf_loop rank (i + 1) ps (Some i) (rank p)
      else bjf_loop rank (i + 1) ps best_job_process best_job_rank)"

text \<open>
  The initial value of \<open>best_job_rank\<close> is not set by the code; it is not read
  before the first assignment, and the model starts it at 0.
\<close>

definition find_next_bjf :: "kstate \<Rightarrow> nat option" where
  "find_next_bjf s = bjf_loop (calc_process_bjf_rank (fround (arch s))) 0 (ptable s) None 0"

section \<open>Dispatching\<close>

definition switchkvm :: "kstate \<Rightarrow> kstate" where
  "switchkvm s = s\<lparr>cr3 := V2P (kpgdir s)\<rparr>"

text \<open>
  Of the task state the fields that \<open>switchuvm\<close> sets are kept, and the task
  register; the segment descriptor that holds the address of the task state is not.
\<close>

abbreviation (input) SEG_KDATA :: u16 where "SEG_KDATA \<equiv> 2"
abbreviation (input) SEG_TSS :: u16 where "SEG_TSS \<equiv> 5"

definition switchuvm :: "nat option \<Rightarrow> kstate \<Rightarrow> (kstate, unit) outcome" where
  "switchuvm p s =
     (case p of None \<Rightarrow> Panic ''switchuvm: no process''
      | Some i \<Rightarrow>
        if kstack (ptable s ! i) = 0 then Panic ''switchuvm: no kstack''
        else if pgdir (ptable s ! i) = 0 then Panic ''switchuvm: no pgdir''
        else
          bnd (zoom (\<lambda>h s. s\<lparr>hw := h\<rparr>) (pushcli (hw s)) s) (\<lambda>_ s.
          bnd (kmycpu s) (\<lambda>c s.
          let s = kupd_cpu c (\<lambda>c. c\<lparr>ts_ss0 := SEG_KDATA * 8\<rparr>) s;
              s = kupd_cpu c (\<lambda>c. c\<lparr>ts_esp0 := kstack (ptable s ! i) + KSTACKSIZE\<rparr>) s;
              s = kupd_cpu c (\<lambda>c. c\<lparr>ts_iomb := 0xFFFF\<rparr>) s;
              s = kupd_cpu c (\<lambda>c. c\<lparr>task_reg := SEG_TSS * 8\<rparr>) s;
              s = s\<lparr>cr3 := V2P (pgdir (ptable s ! i))\<rparr>
          in zoom (\<lambda>h s. s\<lparr>hw := h\<rparr>) (popcli (hw s)) s)))"

text \<open>
  One round of the scheduler's loop up to the switch: the new value of
  \<open>last_rr_scheduled\<close> and the process dispatched, if there is one. When a
  process is dispatched the table's lock stays taken; the process releases it.
\<close>

definition scheduler_pick :: "nat \<Rightarrow> kstate \<Rightarrow> (nat \<times> nat option) option" where
  "scheduler_pick last_rr_scheduled s =
     (case find_next_round_robin last_rr_scheduled s of
        None \<Rightarrow> None
      | Some (Some p) \<Rightarrow> Some (p, Some p)
      | Some None \<Rightarrow>
         (case find_next_lcfs s of
            Some p \<Rightarrow> Some (last_rr_scheduled, Some p)
          | None \<Rightarrow> Some (last_rr_scheduled, find_next_bjf s)))"

definition scheduler_round :: "nat \<Rightarrow> kstate \<Rightarrow> (kstate, nat \<times> nat option) outcome" where
  "scheduler_round last_rr_scheduled s =
     (let s = s\<lparr>hw := sti (hw s)\<rparr> in
      bnd (kacquire Ptable_lock s) (\<lambda>_ s.
      case scheduler_pick last_rr_scheduled s of
        None \<Rightarrow> Spin
      | Some (last_rr, None) \<Rightarrow> bnd (krelease Ptable_lock s) (\<lambda>_ s. Ret (last_rr, None) s)
      | Some (last_rr, Some p) \<Rightarrow>
          bnd (kmycpu s) (\<lambda>c s.
          let s = kupd_cpu c (\<lambda>c. c\<lparr>cpu_proc := Some p\<rparr>) s in
          bnd (switchuvm (Some p) s) (\<lambda>_ s.
          let s = upd_proc p (\<lambda>q. q\<lparr>state := RUNNING\<rparr>) s;
              rnd = fround (arch s);
              s = upd_proc p (\<lambda>q. q\<lparr>sched_info := (sched_info q)
                    \<lparr>executed_cycles := rnd (executed_cycles (sched_info q) + rnd (1 / 10))\<rparr>\<rparr>) s
          in Ret (last_rr, Some p) s))))"

definition scheduler_round_resume :: "kstate \<Rightarrow> (kstate, unit) outcome" where
  "scheduler_round_resume s =
     (let s = switchkvm s in
      bnd (kmycpu s) (\<lambda>c s.
      let s = kupd_cpu c (\<lambda>c. c\<lparr>cpu_proc := None\<rparr>) s in
      krelease Ptable_lock s))"

section \<open>Giving up the processor\<close>

definition sched :: "kstate \<Rightarrow> (kstate, 'a) outcome" where
  "sched s =
     bnd (myproc s) (\<lambda>p s.
     bnd (kholding Ptable_lock s) (\<lambda>h s.
     if \<not> h then Panic ''sched ptable.lock''
     else bnd (kmycpu s) (\<lambda>c s.
     if ncli (cpus (hw s) ! c) \<noteq> 1 then Panic ''sched locks''
     else deref p (\<lambda>i.
     if state (ptable s ! i) = RUNNING then Panic ''sched running''
     else if readeflags (hw s) then Panic ''sched interruptible''
     else Swtch s))))"

text \<open>
  What \<open>sched\<close> does once its process runs again: \<open>ie\<close> is the local variable in which
  the process kept \<open>intena\<close> across the switch.
\<close>

definition sched_resume :: "bool \<Rightarrow> kstate \<Rightarrow> (kstate, unit) outcome" where
  "sched_resume ie s = bnd (kmycpu s) (\<lambda>c s. Ret () (kupd_cpu c (\<lambda>c. c\<lparr>intena := ie\<rparr>) s))"

definition yield :: "kstate \<Rightarrow> (kstate, unit) outcome" where
  "yield s =
     bnd (kacquire Ptable_lock s) (\<lambda>_ s.
     bnd (myproc s) (\<lambda>p s. deref p (\<lambda>i.
     let s = upd_proc i (\<lambda>q. q\<lparr>state := RUNNABLE\<rparr>) s in
     bnd (myproc s) (\<lambda>p s. deref p (\<lambda>i.
     let s = upd_proc i (\<lambda>q. q\<lparr>sched_info := (sched_info q)\<lparr>last_run := sint (ticks s)\<rparr>\<rparr>) s in
     bnd (sched s :: (kstate, unit) outcome) (\<lambda>_ s. krelease Ptable_lock s))))))"

definition yield_resume :: "bool \<Rightarrow> kstate \<Rightarrow> (kstate, unit) outcome" where
  "yield_resume ie s = bnd (sched_resume ie s) (\<lambda>_ s. krelease Ptable_lock s)"

definition sleep :: "chan option \<Rightarrow> lockid \<Rightarrow> kstate \<Rightarrow> (kstate, 'a) outcome" where
  "sleep ch lk s =
     bnd (myproc s) (\<lambda>p s.
     case p of None \<Rightarrow> Panic ''sleep''
     | Some i \<Rightarrow>
       bnd (if lk \<noteq> Ptable_lock
            then bnd (kacquire Ptable_lock s) (\<lambda>_ s. krelease lk s)
            else Ret () s) (\<lambda>_ s.
       let s = upd_proc i (\<lambda>q. q\<lparr>chan := ch\<rparr>) s;
           s = upd_proc i (\<lambda>q. q\<lparr>state := SLEEPING\<rparr>) s
       in sched s))"

text \<open>What \<open>sleep\<close> does once its process runs again.\<close>

definition sleep_resume :: "nat \<Rightarrow> bool \<Rightarrow> lockid \<Rightarrow> kstate \<Rightarrow> (kstate, unit) outcome" where
  "sleep_resume i ie lk s =
     bnd (sched_resume ie s) (\<lambda>_ s.
     let s = upd_proc i (\<lambda>q. q\<lparr>chan := None\<rparr>) s in
     if lk \<noteq> Ptable_lock
     then bnd (krelease Ptable_lock s) (\<lambda>_ s. kacquire lk s)
     else Ret () s)"

definition wakeup1 :: "chan option \<Rightarrow> kstate \<Rightarrow> kstate" where
  "wakeup1 ch s = s\<lparr>ptable := map (\<lambda>p. if state p = SLEEPING \<and> chan p = ch
     then p\<lparr>state := RUNNABLE\<rparr> else p) (ptable s)\<rparr>"

definition wakeup :: "chan option \<Rightarrow> kstate \<Rightarrow> (kstate, unit) outcome" where
  "wakeup ch s =
     bnd (kacquire Ptable_lock s) (\<lambda>_ s.
     krelease Ptable_lock (wakeup1 ch s))"

definition kill :: "int \<Rightarrow> kstate \<Rightarrow> (kstate, int) outcome" where
  "kill n s =
     bnd (kacquire Ptable_lock s) (\<lambda>_ s.
     case findi (\<lambda>p. pid p = n) (ptable s) of
       Some i \<Rightarrow>
         let s = upd_proc i (\<lambda>q. q\<lparr>killed := True\<rparr>) s;
             s = (if state (ptable s ! i) = SLEEPING
                  then upd_proc i (\<lambda>q. q\<lparr>state := RUNNABLE\<rparr>) s else s)
         in bnd (krelease Ptable_lock s) (\<lambda>_ s. Ret 0 s)
     | None \<Rightarrow> bnd (krelease Ptable_lock s) (\<lambda>_ s. Ret (- 1) s))"

section \<open>Queues and ageing\<close>

text \<open>A pointer one past the table, where the searches below stop, may not be followed.\<close>

definition change_queue :: "nat \<Rightarrow> int \<Rightarrow> kstate \<Rightarrow> (kstate, int) outcome" where
  "change_queue i new_queue s =
     (if length (ptable s) \<le> i then Fault ''process table overrun''
      else let old_queue = queue (sched_info (ptable s ! i));
               s = upd_proc i (\<lambda>q. q\<lparr>sched_info := (sched_info q)\<lparr>queue := new_queue\<rparr>\<rparr>) s;
               s = upd_proc i (\<lambda>q. q\<lparr>sched_info := (sched_info q)\<lparr>last_run := sint (ticks s)\<rparr>\<rparr>) s
           in Ret old_queue s)"

fun age_loop :: "nat list \<Rightarrow> kstate \<Rightarrow> (kstate, unit) outcome" where
  "age_loop [] s = Ret () s"
| "age_loop (i # is) s =
     (let p = ptable s ! i in
      if state p \<noteq> RUNNABLE \<or> queue (sched_info p) = RR then age_loop is s
      else if ticks s - word_of_int (last_run (sched_info p)) > AGING_THRESHOLD
      then bnd (change_queue i RR s) (\<lambda>_ s. age_loop is s)
      else age_loop is s)"

definition age_processes :: "kstate \<Rightarrow> (kstate, unit) outcome" where
  "age_processes s =
     bnd (kacquire Ptable_lock s) (\<lambda>_ s.
     bnd (age_loop [0..<length (ptable s)] s) (\<lambda>_ s.
     krelease Ptable_lock s))"

definition find_pid :: "int \<Rightarrow> kstate \<Rightarrow> nat" where
  "find_pid n s = (case findi (\<lambda>p. pid p = n) (ptable s) of Some i \<Rightarrow> i | None \<Rightarrow> length (ptable s))"

definition change_process_queue :: "int \<Rightarrow> int \<Rightarrow> kstate \<Rightarrow> (kstate, int) outcome" where
  "change_process_queue n queue_num s =
     bnd (kacquire Ptable_lock s) (\<lambda>_ s.
     let p = find_pid n s in
     bnd (krelease Ptable_lock s) (\<lambda>_ s.
     change_queue p queue_num s))"

definition find_process_lifetime :: "int \<Rightarrow> kstate \<Rightarrow> (kstate, int) outcome" where
  "find_process_lifetime n s =
     (let p = find_pid n s; current_time = ticks s div TICKS_PER_SECOND in
      if length (ptable s) \<le> p then Fault ''process table overrun''
      else Ret (sint (current_time - start_time (ptable s ! p))) s)"

definition set_ratios :: "int \<Rightarrow> int \<Rightarrow> int \<Rightarrow> (rat \<Rightarrow> rat) \<Rightarrow> proc \<Rightarrow> proc" where
  "set_ratios pr atr ec rnd p =
     (let i = sched_info p; c = bjf_coeffs i;
          c = c\<lparr>priority_ratio := rnd (of_int pr), arrival_time_ratio := rnd (of_int atr),
                executed_cycles_ratio := rnd (of_int ec)\<rparr>
      in p\<lparr>sched_info := i\<lparr>bjf_coeffs := c\<rparr>\<rparr>)"

definition set_bjf_system :: "int \<Rightarrow> int \<Rightarrow> int \<Rightarrow> kstate \<Rightarrow> (kstate, unit) outcome" where
  "set_bjf_system pr atr ec s =
     bnd (kacquire Ptable_lock s) (\<lambda>_ s.
     let s = s\<lparr>ptable := map (set_ratios pr atr ec (fround (arch s))) (ptable s)\<rparr> in
     krelease Ptable_lock s)"

definition set_bjf_process :: "int \<Rightarrow> int \<Rightarrow> int \<Rightarrow> int \<Rightarrow> kstate \<Rightarrow> (kstate, int) outcome" where
  "set_bjf_process n pr atr ec s =
     bnd (kacquire Ptable_lock s) (\<lambda>_ s.
     case findi (\<lambda>p. pid p = n) (ptable s) of
       Some i \<Rightarrow>
         let s = upd_proc i (set_ratios pr atr ec (fround (arch s))) s
         in bnd (krelease Ptable_lock s) (\<lambda>_ s. Ret 0 s)
     | None \<Rightarrow> bnd (krelease Ptable_lock s) (\<lambda>_ s. Ret (- 1) s))"

section \<open>Counting uncles\<close>

text \<open>The first loop has no \<open>break\<close>: the last process with the identifier decides.\<close>

fun uncle_grandfather :: "int \<Rightarrow> proc list \<Rightarrow> int \<Rightarrow> kstate \<Rightarrow> (kstate, int) outcome" where
  "uncle_grandfather n [] g s = Ret g s"
| "uncle_grandfather n (p # ps) g s =
     (if pid p = n
      then deref (parent p) (\<lambda>q. deref (parent (ptable s ! q)) (\<lambda>r.
             uncle_grandfather n ps (pid (ptable s ! r)) s))
      else uncle_grandfather n ps g s)"

fun uncle_loop :: "int \<Rightarrow> proc list \<Rightarrow> int \<Rightarrow> kstate \<Rightarrow> (kstate, int) outcome" where
  "uncle_loop g [] num_of_uncles s = Ret num_of_uncles s"
| "uncle_loop g (p # ps) num_of_uncles s =
     deref (parent p) (\<lambda>q. uncle_loop g ps
       (if pid (ptable s ! q) = g then num_of_uncles + 1 else num_of_uncles) s)"

definition uncle_count :: "int \<Rightarrow> kstate \<Rightarrow> (kstate, int) outcome" where
  "uncle_count n s =
     bnd (kacquire Ptable_lock s) (\<lambda>_ s.
     bnd (uncle_grandfather n (ptable s) (- 1) s) (\<lambda>g s.
     if g < 0 then Ret (- 1) s
     else bnd (uncle_loop g (ptable s) 0 s) (\<lambda>num_of_uncles s.
     bnd (krelease Ptable_lock s) (\<lambda>_ s.
     Ret (num_of_uncles - 1) s))))"

section \<open>Round robin\<close>

definition rr_ready :: "proc \<Rightarrow> bool" where
  "rr_ready p \<longleftrightarrow> state p = RUNNABLE \<and> queue (sched_info p) = RR"

text \<open>The slots in the order a search that starts after \<open>p\<close> and stops at \<open>l\<close> visits them.\<close>

definition rr_order :: "nat \<Rightarrow> nat \<Rightarrow> nat \<Rightarrow> nat list" where
  "rr_order n p l = (if p < l then [p + 1..<l + 1] else [p + 1..<n] @ [0..<l + 1])"

lemma rr_order_step:
  assumes "p < n" "l < n"
  defines "p' \<equiv> (if p + 1 = n then 0 else p + 1)"
  shows "rr_order n p l = (if p' = l then [l] else p' # rr_order n p' l)"
  using assms by (auto simp: rr_order_def upt_rec [of "Suc p"] upt_rec [of 0])

lemma rr_loop_eq:
  "p < length pt \<Longrightarrow> l < length pt \<Longrightarrow>
   rr_loop p l pt = Some (find (\<lambda>i. rr_ready (pt ! i)) (rr_order (length pt) p l))"
proof (induction "length (rr_order (length pt) p l)" arbitrary: p rule: less_induct)
  case less
  let ?n = "length pt"
  define q where "q = (if p + 1 = ?n then 0 else p + 1)"
  have q: "q < ?n" using less.prems by (auto simp: q_def)
  have step: "rr_order ?n p l = (if q = l then [l] else q # rr_order ?n q l)"
    using rr_order_step [OF less.prems] by (simp add: q_def)
  have loop: "rr_loop p l pt = (if rr_ready (pt ! q) then Some (Some q)
      else if q \<noteq> l then rr_loop q l pt else Some None)"
    by (subst rr_loop.simps) (simp only: Let_def rr_ready_def q_def)
  show ?case
  proof (cases "q = l")
    case True
    with step loop show ?thesis by simp
  next
    case False
    with less.hyps [of q] q less.prems step
    have "rr_loop q l pt = Some (find (\<lambda>i. rr_ready (pt ! i)) (rr_order ?n q l))" by simp
    with False step loop show ?thesis by simp
  qed
qed

lemma set_rr_order: "l < n \<Longrightarrow> set (rr_order n l l) = {0..<n}"
  by (auto simp: rr_order_def)

text \<open>How many slots the search passes before it reaches \<open>p\<close>.\<close>

definition rr_dist :: "nat \<Rightarrow> nat \<Rightarrow> nat \<Rightarrow> nat" where
  "rr_dist n l p = (if l < p then p - l - 1 else p + n - l - 1)"

lemma rr_order_nth: "l < n \<Longrightarrow> k < n \<Longrightarrow> rr_order n l l ! k = (if l + 1 + k < n then l + 1 + k else l + 1 + k - n)"
  by (auto simp: rr_order_def nth_append)

lemma length_rr_order: "l < n \<Longrightarrow> length (rr_order n l l) = n"
  by (simp add: rr_order_def)

lemma rr_progress:
  assumes "find E (rr_order n l l) = Some q" "E p" "p < n" "l < n"
  shows "q < n \<and> E q \<and> (q = p \<or> rr_dist n q p < rr_dist n l p)"
proof -
  from assms(1) obtain k where k: "k < length (rr_order n l l)" "E (rr_order n l l ! k)"
      "q = rr_order n l l ! k" "\<forall>j<k. \<not> E (rr_order n l l ! j)"
    by (auto simp: find_Some_iff)
  define d where "d = rr_dist n l p"
  have d: "d < n" "rr_order n l l ! d = p"
    using assms(3,4) by (auto simp: d_def rr_dist_def rr_order_nth)
  with k(4) assms(2) have "k \<le> d" by (metis not_le)
  then show ?thesis
    using k d assms(3,4) by (auto simp: length_rr_order rr_order_nth d_def rr_dist_def split: if_splits)
qed

text \<open>The picks of successive searches over a sequence of tables.\<close>

fun rr_picks :: "nat \<Rightarrow> proc list list \<Rightarrow> nat option list" where
  "rr_picks l [] = []"
| "rr_picks l (pt # pts) =
     (case rr_loop l l pt of
        Some (Some q) \<Rightarrow> Some q # rr_picks q pts
      | _ \<Rightarrow> None # rr_picks l pts)"

lemma rr_picks_reaches:
  "l < n \<Longrightarrow> p < n \<Longrightarrow> rr_dist n l p < length pts \<Longrightarrow>
   \<forall>pt\<in>set pts. length pt = n \<and> rr_ready (pt ! p) \<Longrightarrow> Some p \<in> set (rr_picks l pts)"
proof (induction pts arbitrary: l)
  case Nil
  then show ?case by simp
next
  case (Cons pt pts)
  let ?E = "\<lambda>i. rr_ready (pt ! i)"
  from Cons.prems have n: "length pt = n" and E: "?E p" by auto
  have "p \<in> set (rr_order n l l)" using Cons.prems by (simp add: set_rr_order)
  with E obtain q where q: "find ?E (rr_order n l l) = Some q"
    by (cases "find ?E (rr_order n l l)") (auto simp: find_None_iff)
  have loop: "rr_loop l l pt = Some (Some q)" using rr_loop_eq [of l pt l] q n Cons.prems by simp
  from rr_progress [OF q E Cons.prems(2,1)] show ?case
    using Cons.IH [of q] Cons.prems loop by auto
qed

section \<open>Last come first served, and best job first\<close>

definition lcfs_ready :: "proc \<Rightarrow> bool" where
  "lcfs_ready p \<longleftrightarrow> state p = RUNNABLE \<and> queue (sched_info p) = LCFS"

definition bjf_ready :: "proc \<Rightarrow> bool" where
  "bjf_ready p \<longleftrightarrow> state p = RUNNABLE \<and> queue (sched_info p) = BJF"

text \<open>The first of the best: no later entry beats it and it beats every earlier one.\<close>

definition first_best :: "('a \<Rightarrow> bool) \<Rightarrow> ('a \<Rightarrow> 'b::linorder) \<Rightarrow> 'a list \<Rightarrow> nat \<Rightarrow> bool" where
  "first_best E f xs k \<longleftrightarrow> k < length xs \<and> E (xs ! k)
     \<and> (\<forall>j<length xs. E (xs ! j) \<longrightarrow> f (xs ! k) \<le> f (xs ! j))
     \<and> (\<forall>j<k. E (xs ! j) \<longrightarrow> f (xs ! k) < f (xs ! j))"

lemma first_best_unique:
  "first_best E f xs i \<Longrightarrow> first_best E f xs j \<Longrightarrow> i = j"
  by (metis first_best_def linorder_not_le nat_neq_iff)

lemma first_best_here:
  "E x \<Longrightarrow> \<forall>y\<in>set xs. E y \<longrightarrow> f x \<le> f y \<Longrightarrow> first_best E f (x # xs) 0"
  by (auto simp: first_best_def nth_Cons')

lemma first_best_later:
  "first_best E f xs k \<Longrightarrow> (E x \<Longrightarrow> f (xs ! k) < f x) \<Longrightarrow> first_best E f (x # xs) (Suc k)"
  by (auto simp: first_best_def nth_Cons' less_Suc_eq_0_disj)

lemma lcfs_loop_cases:
  "(lcfs_loop i ps b m = b \<and> (\<forall>p\<in>set ps. lcfs_ready p \<longrightarrow> arrival_time (sched_info p) \<le> m))
   \<or> (\<exists>k. lcfs_loop i ps b m = Some (i + k) \<and> m < arrival_time (sched_info (ps ! k))
        \<and> first_best lcfs_ready (\<lambda>p. - arrival_time (sched_info p)) ps k)"
proof (induction ps arbitrary: i b m)
  case Nil
  then show ?case by simp
next
  case (Cons p ps)
  let ?f = "\<lambda>p. - arrival_time (sched_info p)"
  show ?case
  proof (cases "lcfs_ready p \<and> m < arrival_time (sched_info p)")
    case True
    then have eq: "lcfs_loop i (p # ps) b m = lcfs_loop (i + 1) ps (Some i) (arrival_time (sched_info p))"
      by (simp add: lcfs_ready_def)
    from Cons.IH [of "i + 1" "Some i" "arrival_time (sched_info p)"] show ?thesis
    proof (elim disjE exE conjE)
      assume *: "lcfs_loop (i + 1) ps (Some i) (arrival_time (sched_info p)) = Some i"
        "\<forall>q\<in>set ps. lcfs_ready q \<longrightarrow> arrival_time (sched_info q) \<le> arrival_time (sched_info p)"
      then have "first_best lcfs_ready ?f (p # ps) 0" using True by (intro first_best_here) auto
      with * eq True show ?thesis by (intro disjI2 exI [of _ 0]) auto
    next
      fix k assume *: "lcfs_loop (i + 1) ps (Some i) (arrival_time (sched_info p)) = Some (i + 1 + k)"
        "arrival_time (sched_info p) < arrival_time (sched_info (ps ! k))" "first_best lcfs_ready ?f ps k"
      then have "first_best lcfs_ready ?f (p # ps) (Suc k)" by (intro first_best_later) auto
      with * eq True show ?thesis by (intro disjI2 exI [of _ "Suc k"]) auto
    qed
  next
    case False
    then have eq: "lcfs_loop i (p # ps) b m = lcfs_loop (i + 1) ps b m"
      by (auto simp: lcfs_ready_def)
    from Cons.IH [of "i + 1" b m] show ?thesis
    proof (elim disjE exE conjE)
      assume "lcfs_loop (i + 1) ps b m = b"
        "\<forall>q\<in>set ps. lcfs_ready q \<longrightarrow> arrival_time (sched_info q) \<le> m"
      with eq False show ?thesis by auto
    next
      fix k assume *: "lcfs_loop (i + 1) ps b m = Some (i + 1 + k)"
        "m < arrival_time (sched_info (ps ! k))" "first_best lcfs_ready ?f ps k"
      then have "first_best lcfs_ready ?f (p # ps) (Suc k)"
        using False by (intro first_best_later) auto
      with * eq show ?thesis by (intro disjI2 exI [of _ "Suc k"]) auto
    qed
  qed
qed

lemma bjf_loop_cases:
  "(bjf_loop f i ps b m = b \<and> (\<forall>p\<in>set ps. bjf_ready p \<longrightarrow> b \<noteq> None \<and> m \<le> f p))
   \<or> (\<exists>k. bjf_loop f i ps b m = Some (i + k) \<and> (b \<noteq> None \<longrightarrow> f (ps ! k) < m)
        \<and> first_best bjf_ready f ps k)"
proof (induction ps arbitrary: i b m)
  case Nil
  then show ?case by simp
next
  case (Cons p ps)
  show ?case
  proof (cases "bjf_ready p \<and> (b = None \<or> f p < m)")
    case True
    then have eq: "bjf_loop f i (p # ps) b m = bjf_loop f (i + 1) ps (Some i) (f p)"
      by (auto simp: bjf_ready_def)
    from Cons.IH [of "i + 1" "Some i" "f p"] show ?thesis
    proof (elim disjE exE conjE)
      assume *: "bjf_loop f (i + 1) ps (Some i) (f p) = Some i"
        "\<forall>q\<in>set ps. bjf_ready q \<longrightarrow> Some i \<noteq> None \<and> f p \<le> f q"
      then have "first_best bjf_ready f (p # ps) 0" using True by (intro first_best_here) auto
      with * eq True show ?thesis by (intro disjI2 exI [of _ 0]) auto
    next
      fix k assume *: "bjf_loop f (i + 1) ps (Some i) (f p) = Some (i + 1 + k)"
        "Some i \<noteq> None \<longrightarrow> f (ps ! k) < f p" "first_best bjf_ready f ps k"
      then have "first_best bjf_ready f (p # ps) (Suc k)" by (intro first_best_later) auto
      with * eq True show ?thesis by (intro disjI2 exI [of _ "Suc k"]) auto
    qed
  next
    case False
    then have eq: "bjf_loop f i (p # ps) b m = bjf_loop f (i + 1) ps b m"
      by (auto simp: bjf_ready_def)
    from Cons.IH [of "i + 1" b m] show ?thesis
    proof (elim disjE exE conjE)
      assume "bjf_loop f (i + 1) ps b m = b"
        "\<forall>q\<in>set ps. bjf_ready q \<longrightarrow> b \<noteq> None \<and> m \<le> f q"
      with eq False show ?thesis by auto
    next
      fix k assume *: "bjf_loop f (i + 1) ps b m = Some (i + 1 + k)"
        "b \<noteq> None \<longrightarrow> f (ps ! k) < m" "first_best bjf_ready f ps k"
      then have "first_best bjf_ready f (p # ps) (Suc k)"
        using False by (intro first_best_later) auto
      with * eq show ?thesis by (intro disjI2 exI [of _ "Suc k"]) auto
    qed
  qed
qed

lemma find_next_lcfs_None:
  "find_next_lcfs s = None \<longleftrightarrow> (\<forall>p\<in>set (ptable s). lcfs_ready p \<longrightarrow> arrival_time (sched_info p) < 0)"
  using lcfs_loop_cases [of 0 "ptable s" None "- 1"]
  by (fastforce simp: find_next_lcfs_def first_best_def)

lemma find_next_lcfs_Some:
  "find_next_lcfs s = Some i \<Longrightarrow> 0 \<le> arrival_time (sched_info (ptable s ! i))
     \<and> first_best lcfs_ready (\<lambda>p. - arrival_time (sched_info p)) (ptable s) i"
  using lcfs_loop_cases [of 0 "ptable s" None "- 1"]
  by (auto simp: find_next_lcfs_def)

lemma find_next_bjf_None:
  "find_next_bjf s = None \<longleftrightarrow> (\<forall>p\<in>set (ptable s). \<not> bjf_ready p)"
  using bjf_loop_cases [of "calc_process_bjf_rank (fround (arch s))" 0 "ptable s" None 0]
  by (fastforce simp: find_next_bjf_def first_best_def)

lemma find_next_bjf_Some:
  "find_next_bjf s = Some i \<Longrightarrow>
   first_best bjf_ready (calc_process_bjf_rank (fround (arch s))) (ptable s) i"
  using bjf_loop_cases [of "calc_process_bjf_rank (fround (arch s))" 0 "ptable s" None 0]
  by (auto simp: find_next_bjf_def)

lemma find_next_round_robin_eq:
  "l < length (ptable s) \<Longrightarrow> find_next_round_robin l s =
     Some (find (\<lambda>i. rr_ready (ptable s ! i)) (rr_order (length (ptable s)) l l))"
  by (simp add: find_next_round_robin_def rr_loop_eq)

end
