(* ===== verification/Sched_Policy.thy ===== *)
theory Sched_Policy
  imports Sched
begin

text \<open>
  What the scheduler, \<open>sleep\<close>, \<open>wakeup\<close>, \<open>kill\<close> and the ageing of
  \<open>proc.c\<close> do, as closed forms of the operations of \<open>Sched\<close>, and the
  properties that follow: the policy of the three queues, and the bound on the
  wait of a runnable process.
\<close>

section \<open>Closed forms\<close>

lemma upd_proc_sel [simp]:
  "hw (upd_proc i f s) = hw s" "arch (upd_proc i f s) = arch s" "ticks (upd_proc i f s) = ticks s"
  "length (ptable (upd_proc i f s)) = length (ptable s)"
  "i < length (ptable s) \<Longrightarrow> ptable (upd_proc i f s) ! i = f (ptable s ! i)"
  "j \<noteq> i \<Longrightarrow> ptable (upd_proc i f s) ! j = ptable s ! j"
  by (simp_all add: upd_proc_def)

lemma upd_proc_hw [simp]: "upd_proc i f (s\<lparr>hw := h\<rparr>) = (upd_proc i f s)\<lparr>hw := h\<rparr>"
  by (simp add: upd_proc_def)

lemma kmycpu_off:
  "me (hw s) < length (cpus (hw s)) \<Longrightarrow> \<not> readeflags (hw s) \<Longrightarrow> kmycpu s = Ret (me (hw s)) s"
  by (simp add: kmycpu_def mycpu_off)

lemma cur_push_nth: "cpu_proc (cpus (push h) ! me h) = cur h"
  using cur_simps(1) [of h] by (simp add: cur_def del: cur_simps)

lemma myproc_ok:
  assumes "cpu_ok (hw s)"
  shows "myproc s = Ret (cur (hw s)) (s\<lparr>hw := touch (hw s)\<rparr>)"
proof -
  have "popcli (push (hw s)) = Ret () (touch (hw s))"
    using assms by (subst popcli_ok) (auto simp: pop_push dest: cpu_okD)
  then show ?thesis
    using assms by (auto simp: myproc_def pushcli_ok mycpu_off cpu_okD cur_push_nth)
qed

lemma wakeup_ok:
  assumes "can_lock Ptable_lock s"
  shows "wakeup ch s = Ret () (wakeup1 ch s\<lparr>hw := touch (hw s)\<rparr>)"
  using assms by (simp add: wakeup_def can_lock_def lock_simps wakeup1_def)

text \<open>A process at depth zero that holds one lock and calls \<open>sched\<close> under the table's.\<close>

lemma sched_ok:
  assumes "cpu_ok h" "hw s = lock_in Ptable_lock h" "ncli (cpus h ! me h) = 0" "cur h = Some i"
    "state (ptable s ! i) \<noteq> RUNNING"
  shows "sched s = Swtch s"
  using assms
  by (simp add: sched_def myproc_ok kholding_ok kmycpu_off deref_def cpu_okD)

lemma sleep_ok:
  assumes "cpu_ok h" "hw s = lock_in lk h" "lk \<noteq> Ptable_lock" "locks h lk = free_lock"
    "locks h Ptable_lock = free_lock" "ncli (cpus h ! me h) = 0" "cur h = Some i" "i < length (ptable s)"
  shows "sleep ch lk s = Swtch (upd_proc i (\<lambda>q. q\<lparr>chan := ch, state := SLEEPING\<rparr>) s
    \<lparr>hw := lock_in Ptable_lock h\<rparr>)"
proof -
  have upd: "upd_proc i (\<lambda>q. q\<lparr>state := SLEEPING\<rparr>) (upd_proc i (\<lambda>q. q\<lparr>chan := ch\<rparr>) t)
      = upd_proc i (\<lambda>q. q\<lparr>chan := ch, state := SLEEPING\<rparr>) t" if "length (ptable t) = length (ptable s)" for t
    using that assms(8) by (simp add: upd_proc_def)
  let ?t = "upd_proc i (\<lambda>q. q\<lparr>chan := ch, state := SLEEPING\<rparr>) s\<lparr>hw := lock_in Ptable_lock h\<rparr>"
  have "kacquire Ptable_lock s = Ret () (s\<lparr>hw := lock_in Ptable_lock (lock_in lk h)\<rparr>)"
    using assms by (simp add: kacquire_free)
  moreover have "krelease lk (s\<lparr>hw := lock_in Ptable_lock (lock_in lk h)\<rparr>) = Ret () (s\<lparr>hw := lock_in Ptable_lock h\<rparr>)"
    using assms by (simp add: krelease_def release_under)
  moreover have "sched ?t = (Swtch ?t :: (kstate, 'a) outcome)"
    using assms by (intro sched_ok [of h _ i]) auto
  moreover have "myproc s = Ret (Some i) s"
    using myproc_ok [of s] assms by (cases s) simp
  ultimately show ?thesis
    using assms by (simp add: sleep_def upd)
qed

lemma scheduler_round_resume_ok:
  assumes "cpu_ok h" "hw s = lock_in Ptable_lock h" "locks h Ptable_lock = free_lock"
  shows "returns (scheduler_round_resume s) (\<lambda>_ t. ptable t = ptable s \<and> can_lock Ptable_lock t
    \<and> (\<forall>l. l \<noteq> Ptable_lock \<longrightarrow> locks (hw t) l = locks h l))"
  using assms cpu_okD(1) [OF assms(1)]
  by (simp add: scheduler_round_resume_def switchkvm_def kmycpu_off kupd_cpu_def upd_cpu_lock_in
      krelease_lock_in can_lock_def)

section \<open>What the operations leave alone\<close>

text \<open>
  A predicate of the state that does not read the processors survives the lock
  operations, and one that does not read the process table either survives
  \<open>sleep\<close> and \<open>wakeup\<close>.
\<close>

definition hw_free :: "(kstate \<Rightarrow> bool) \<Rightarrow> bool" where
  "hw_free P \<longleftrightarrow> (\<forall>s h. P (s\<lparr>hw := h\<rparr>) = P s)"

definition pt_free :: "(kstate \<Rightarrow> bool) \<Rightarrow> bool" where
  "pt_free P \<longleftrightarrow> (\<forall>s h pt. P (s\<lparr>hw := h, ptable := pt\<rparr>) = P s)"

lemma pt_freeD: "pt_free P \<Longrightarrow> P (s\<lparr>ptable := pt\<rparr>) = P s" "pt_free P \<Longrightarrow> hw_free P"
proof -
  assume *: "pt_free P"
  then have "P (s\<lparr>hw := hw s, ptable := pt\<rparr>) = P s" for s pt by (simp only: pt_free_def)
  then show 1: "P (s\<lparr>ptable := pt\<rparr>) = P s" for s pt by simp
  have "P (s\<lparr>hw := h, ptable := ptable s\<rparr>) = P s" for s h using * by (simp only: pt_free_def)
  then show "hw_free P" by (simp add: hw_free_def)
qed

lemma hw_free_keeps [frame]:
  "hw_free P \<Longrightarrow> P s \<Longrightarrow> keeps (kacquire l s) P"
  "hw_free P \<Longrightarrow> P s \<Longrightarrow> keeps (krelease l s) P"
  "hw_free P \<Longrightarrow> P s \<Longrightarrow> keeps (kholding l s) P"
  "hw_free P \<Longrightarrow> P s \<Longrightarrow> keeps (kmycpu s) P"
  "hw_free P \<Longrightarrow> P s \<Longrightarrow> keeps (myproc s) P"
  by (simp_all add: kacquire_def krelease_def kholding_def kmycpu_def myproc_def hw_free_def keeps_zoom)

lemma stays_kernel [frame]:
  "stays (kacquire l s)" "stays (krelease l s)" "stays (kholding l s)" "stays (kmycpu s)" "stays (myproc s)"
  by (auto simp: kacquire_def krelease_def kholding_def kmycpu_def myproc_def Let_def intro!: frame)

lemma stays_wakeup [frame]: "stays (wakeup ch s)"
  by (auto simp: wakeup_def intro!: frame)

lemma sched_keeps [frame]: "hw_free P \<Longrightarrow> P s \<Longrightarrow> keeps (sched s) P"
  by (auto simp: sched_def deref_def split: option.split intro!: frame)

lemma sleep_keeps [frame]: "pt_free P \<Longrightarrow> P s \<Longrightarrow> keeps (sleep ch lk s) P"
  by (auto simp: sleep_def upd_proc_def pt_freeD split: option.split intro!: frame)

lemma sched_resume_keeps [frame]: "hw_free P \<Longrightarrow> P s \<Longrightarrow> keeps (sched_resume ie s) P"
  by (auto simp: sched_resume_def kupd_cpu_def hw_free_def intro!: frame)

lemma sleep_resume_keeps [frame]: "pt_free P \<Longrightarrow> P s \<Longrightarrow> keeps (sleep_resume i ie lk s) P"
  by (auto simp: sleep_resume_def Let_def upd_proc_def pt_freeD intro!: frame)

lemma wakeup_keeps [frame]: "pt_free P \<Longrightarrow> P s \<Longrightarrow> keeps (wakeup ch s) P"
  by (auto simp: wakeup_def wakeup1_def pt_freeD intro!: frame)

section \<open>Ageing\<close>

definition age_proc :: "u32 \<Rightarrow> proc \<Rightarrow> proc" where
  "age_proc now p =
     (if state p = RUNNABLE \<and> queue (sched_info p) \<noteq> RR \<and> now - word_of_int (last_run (sched_info p)) > AGING_THRESHOLD
      then p\<lparr>sched_info := (sched_info p)\<lparr>queue := RR, last_run := sint now\<rparr>\<rparr> else p)"

lemma age_loop_step:
  assumes "i < length (ptable s)"
  shows "age_loop (i # is) s = age_loop is (upd_proc i (age_proc (ticks s)) s)"
  using assms
  by (auto simp: change_queue_def age_proc_def upd_proc_def Let_def)

lemma age_loop_eq:
  "set is \<subseteq> {..<length (ptable s)} \<Longrightarrow> distinct is \<Longrightarrow>
   age_loop is s = Ret () (s\<lparr>ptable := map (\<lambda>i. if i \<in> set is then age_proc (ticks s) (ptable s ! i)
     else ptable s ! i) [0..<length (ptable s)]\<rparr>)"
proof (induction "is" arbitrary: s)
  case Nil
  then show ?case by (simp add: map_nth)
next
  case (Cons i "is")
  let ?t = "upd_proc i (age_proc (ticks s)) s"
  have "age_loop (i # is) s = age_loop is ?t" using Cons.prems by (intro age_loop_step) auto
  also have "\<dots> = Ret () (?t\<lparr>ptable := map (\<lambda>j. if j \<in> set is then age_proc (ticks ?t) (ptable ?t ! j)
     else ptable ?t ! j) [0..<length (ptable ?t)]\<rparr>)"
    using Cons.prems by (intro Cons.IH) auto
  also have "\<dots> = Ret () (s\<lparr>ptable := map (\<lambda>j. if j \<in> set (i # is) then age_proc (ticks s) (ptable s ! j)
     else ptable s ! j) [0..<length (ptable s)]\<rparr>)"
    using Cons.prems by (auto simp: upd_proc_def nth_list_update intro!: nth_equalityI)
  finally show ?case .
qed

lemma age_processes_ok:
  assumes "can_lock Ptable_lock s"
  shows "age_processes s = Ret () (s\<lparr>ptable := map (age_proc (ticks s)) (ptable s), hw := touch (hw s)\<rparr>)"
proof -
  let ?s = "s\<lparr>hw := lock_in Ptable_lock (hw s)\<rparr>"
  have map: "map (\<lambda>i. if i < length xs then f (xs ! i) else xs ! i) [0..<length xs] = map f xs" for f and xs :: "proc list"
    by (intro nth_equalityI) auto
  have "age_loop [0..<length (ptable ?s)] ?s = Ret () (?s\<lparr>ptable := map (age_proc (ticks s)) (ptable s)\<rparr>)"
    by (subst age_loop_eq) (auto simp: map cong: if_cong)
  then show ?thesis
    using assms by (simp add: age_processes_def can_lock_def kacquire_free krelease_lock_in)
qed

section \<open>Properties\<close>

text \<open>
  The policy: round robin first, in cyclic order after the slot dispatched last;
  then the process of the second queue that arrived last; then the best job of the
  third. Ties go to the lower slot.
\<close>

definition policy :: "(proc \<Rightarrow> rat) \<Rightarrow> nat \<Rightarrow> proc list \<Rightarrow> nat \<Rightarrow> bool" where
  "policy rank l pt p \<longleftrightarrow>
     (if \<exists>q\<in>set pt. rr_ready q then find (\<lambda>i. rr_ready (pt ! i)) (rr_order (length pt) l l) = Some p
      else if \<exists>q\<in>set pt. lcfs_ready q then first_best lcfs_ready (\<lambda>q. - arrival_time (sched_info q)) pt p
      else first_best bjf_ready rank pt p)"

text \<open>
  C6: The search of the scheduler always ends, finds no process only when no
  process of the three queues is runnable, and otherwise picks the one the policy
  prescribes; the round-robin position moves exactly when the first queue was not empty.
\<close>

theorem scheduler_pick_policy:
  assumes "l < length (ptable s)" "\<forall>p\<in>set (ptable s). lcfs_ready p \<longrightarrow> 0 \<le> arrival_time (sched_info p)"
  shows "\<exists>l' r. scheduler_pick l s = Some (l', r)
    \<and> (r = None \<longleftrightarrow> (\<forall>p\<in>set (ptable s). \<not> rr_ready p \<and> \<not> lcfs_ready p \<and> \<not> bjf_ready p))
    \<and> (\<forall>p. r = Some p \<longrightarrow> policy (calc_process_bjf_rank (fround (arch s))) l (ptable s) p)
    \<and> l' = (if \<exists>q\<in>set (ptable s). rr_ready q then the r else l)"
proof -
  have ready: "(\<exists>i\<in>set (rr_order (length (ptable s)) l l). rr_ready (ptable s ! i)) \<longleftrightarrow> (\<exists>q\<in>set (ptable s). rr_ready q)"
    using assms(1) by (fastforce simp: set_rr_order in_set_conv_nth Bex_def)
  show ?thesis
  proof (cases "\<exists>q\<in>set (ptable s). rr_ready q")
    case True
    then obtain p where p: "find (\<lambda>i. rr_ready (ptable s ! i)) (rr_order (length (ptable s)) l l) = Some p"
      using ready by (cases "find (\<lambda>i. rr_ready (ptable s ! i)) (rr_order (length (ptable s)) l l)")
        (auto simp: find_None_iff)
    then show ?thesis
      using True assms(1) by (auto simp: scheduler_pick_def find_next_round_robin_eq policy_def)
  next
    case False
    then have none: "find_next_round_robin l s = Some None"
      using ready assms(1) by (auto simp: find_next_round_robin_eq find_None_iff)
    show ?thesis
    proof (cases "find_next_lcfs s")
      case None
      then have "\<forall>q\<in>set (ptable s). \<not> lcfs_ready q"
        using assms(2) by (fastforce simp: find_next_lcfs_None)
      then show ?thesis
        using none None False find_next_bjf_None [of s] find_next_bjf_Some [of s]
        by (auto simp: scheduler_pick_def policy_def)
    next
      case (Some p)
      then have "first_best lcfs_ready (\<lambda>q. - arrival_time (sched_info q)) (ptable s) p"
        using find_next_lcfs_Some by blast
      moreover from this have "\<exists>q\<in>set (ptable s). lcfs_ready q" by (auto simp: first_best_def)
      ultimately show ?thesis
        using none Some False by (auto simp: scheduler_pick_def policy_def)
    qed
  qed
qed

definition demo_proc :: "int \<Rightarrow> int \<Rightarrow> int \<Rightarrow> proc" where
  "demo_proc n q a = zero_proc\<lparr>pid := n, state := RUNNABLE, sched_info := zero_sched\<lparr>queue := q, arrival_time := a\<rparr>\<rparr>"

definition demo_procs :: kstate where
  "demo_procs = demo_state\<lparr>ptable := [demo_proc 1 LCFS 5, demo_proc 2 LCFS 9, demo_proc 3 BJF 7]\<rparr>"

lemma scheduler_pick_policy_witness:
  "\<exists>l' r. scheduler_pick 1 demo_procs = Some (l', r)
    \<and> (\<forall>p. r = Some p \<longrightarrow> policy (calc_process_bjf_rank (\<lambda>x. x)) 1 (ptable demo_procs) p) \<and> r \<noteq> None \<and> l' = 1"
proof -
  have "fround (arch demo_procs) = (\<lambda>x. x)" "1 < length (ptable demo_procs)"
    "\<forall>p\<in>set (ptable demo_procs). lcfs_ready p \<longrightarrow> 0 \<le> arrival_time (sched_info p)"
    "\<not> (\<exists>q\<in>set (ptable demo_procs). rr_ready q)" "\<exists>q\<in>set (ptable demo_procs). lcfs_ready q"
    by (simp_all add: demo_procs_def demo_proc_def demo_state_def boot_state_def demo_arch_def rr_ready_def
        lcfs_ready_def)
  then show ?thesis using scheduler_pick_policy [of 1 demo_procs] by auto
qed

text \<open>
  C7: No runnable process waits for ever. Once a process of the lower queues has
  waited more than the ageing threshold, the next \<open>age_processes\<close> moves it to the
  round-robin queue; from then on, whatever the other processes do, it is among the
  next \<open>NPROC\<close> processes the scheduler's round-robin search picks.
\<close>

theorem no_starvation:
  assumes "can_lock Ptable_lock s" "length (ptable s) = NPROC" "p < NPROC" "l < NPROC"
    and "state (ptable s ! p) = RUNNABLE" "queue (sched_info (ptable s ! p)) \<noteq> RR"
    and "ticks s - word_of_int (last_run (sched_info (ptable s ! p))) > AGING_THRESHOLD"
    and "length pts = NPROC - 1" "\<forall>pt\<in>set pts. length pt = NPROC \<and> rr_ready (pt ! p)"
  shows "returns (age_processes s) (\<lambda>_ t. rr_ready (ptable t ! p) \<and> Some p \<in> set (rr_picks l (ptable t # pts)))"
proof -
  have "rr_ready (map (age_proc (ticks s)) (ptable s) ! p)"
    using assms by (simp add: age_proc_def rr_ready_def)
  moreover from this have "Some p \<in> set (rr_picks l (map (age_proc (ticks s)) (ptable s) # pts))"
    using assms by (intro rr_picks_reaches [where n = NPROC]) (auto simp: rr_dist_def)
  ultimately show ?thesis using age_processes_ok [OF assms(1)] by simp
qed

definition demo_waiting :: kstate where
  "demo_waiting = demo_state\<lparr>ticks := 9000, ptable := (ptable demo_state)[3 := demo_proc 4 BJF 0]\<rparr>"

lemma demo_waiting_sel:
  "hw demo_waiting = demo_hw" "ticks demo_waiting = 9000" "length (ptable demo_waiting) = 64"
  "ptable demo_waiting ! 3 = demo_proc 4 BJF 0"
  by (simp_all add: demo_waiting_def demo_state_def boot_state_def)

lemma no_starvation_witness:
  "returns (age_processes demo_waiting) (\<lambda>_ t. rr_ready (ptable t ! 3)
     \<and> Some 3 \<in> set (rr_picks 9 (ptable t # replicate 63 (replicate 64 (demo_proc 5 RR 0)))))"
  by (rule no_starvation)
    (simp_all add: demo_waiting_sel can_lock_def demo_proc_def zero_sched_def rr_ready_def)

text \<open>The demonstration machine with a process on its first processor.\<close>

definition demo_running :: "nat \<Rightarrow> hw" where
  "demo_running p = demo_hw\<lparr>cpus := [(demo_cpu 0)\<lparr>cpu_proc := Some p\<rparr>, demo_cpu 1]\<rparr>"

lemma demo_running_me [simp]: "me (demo_running p) = 0"
  by (simp add: demo_running_def demo_hw_def me_def demo_cpu_def)

lemma demo_running_ok [simp]:
  "cpu_ok (demo_running p)" "cur (demo_running p) = Some p" "locks (demo_running p) l = free_lock"
  "ncli (cpus (demo_running p) ! 0) = 0"
  unfolding cpu_ok_def cur_def demo_running_me
  by (simp_all add: demo_running_def demo_hw_def demo_cpu_def)

text \<open>
  \<open>kill\<close> marks the process with the given identifier and, if it sleeps,
  makes it runnable so that it can notice; every other process keeps its entry and the
  table's lock is free again. Without such a process it returns -1 and changes nothing.
\<close>

theorem kill_marks:
  assumes "can_lock Ptable_lock s"
  shows "returns (kill n s) (\<lambda>r t. locks (hw t) = locks (hw s) \<and>
    (case findi (\<lambda>p. pid p = n) (ptable s) of
       None \<Rightarrow> r = - 1 \<and> ptable t = ptable s
     | Some i \<Rightarrow> r = 0 \<and> killed (ptable t ! i) \<and> state (ptable t ! i) \<noteq> SLEEPING
         \<and> (state (ptable s ! i) \<noteq> SLEEPING \<longrightarrow> state (ptable t ! i) = state (ptable s ! i))
         \<and> (\<forall>j. j \<noteq> i \<longrightarrow> ptable t ! j = ptable s ! j)))"
proof (cases "findi (\<lambda>p. pid p = n) (ptable s)")
  case None
  then show ?thesis using assms by (simp add: kill_def can_lock_def lock_simps)
next
  case (Some i)
  then have "i < length (ptable s)" by (auto simp: findi_Some_iff)
  with Some show ?thesis
    using assms by (auto simp: kill_def can_lock_def lock_simps Let_def)
qed

lemma kill_marks_witness:
  "returns (kill 2 demo_procs) (\<lambda>r t. r = 0 \<and> killed (ptable t ! 1) \<and> ptable t ! 0 = ptable demo_procs ! 0)"
proof -
  have "can_lock Ptable_lock demo_procs" "findi (\<lambda>p. pid p = 2) (ptable demo_procs) = Some 1"
    by (simp_all add: demo_procs_def demo_proc_def demo_state_def boot_state_def can_lock_def)
  then show ?thesis using kill_marks [of demo_procs 2] by (auto elim!: returns_mono)
qed

text \<open>
  C38: Both \<open>change_process_queue\<close> and \<open>find_process_lifetime\<close> follow a
  pointer past the end of the process table when no process has the given identifier,
  so a user program can make the kernel read, and with the former write, outside the
  table; with a known identifier the first moves the process to the queue and returns the old one.
\<close>

theorem change_process_queue_unchecked:
  assumes "can_lock Ptable_lock s"
  shows "(findi (\<lambda>p. pid p = n) (ptable s) = None \<longrightarrow>
       change_process_queue n q s = Fault ''process table overrun''
       \<and> find_process_lifetime n s = Fault ''process table overrun'')
    \<and> (\<forall>i. findi (\<lambda>p. pid p = n) (ptable s) = Some i \<longrightarrow>
       returns (change_process_queue n q s) (\<lambda>r t. r = queue (sched_info (ptable s ! i))
         \<and> queue (sched_info (ptable t ! i)) = q \<and> last_run (sched_info (ptable t ! i)) = sint (ticks s)
         \<and> (\<forall>j. j \<noteq> i \<longrightarrow> ptable t ! j = ptable s ! j)))"
proof (cases "findi (\<lambda>p. pid p = n) (ptable s)")
  case None
  then show ?thesis
    using assms by (simp add: change_process_queue_def find_process_lifetime_def find_pid_def can_lock_def
        lock_simps Let_def change_queue_def)
next
  case (Some i)
  then have "i < length (ptable s)" by (auto simp: findi_Some_iff)
  with Some show ?thesis
    using assms by (auto simp: change_process_queue_def find_pid_def can_lock_def lock_simps Let_def change_queue_def)
qed

lemma change_process_queue_unchecked_witness:
  "change_process_queue 77 LCFS demo_procs = Fault ''process table overrun''"
  using change_process_queue_unchecked [of demo_procs 77 LCFS]
  by (simp add: demo_procs_def demo_proc_def demo_state_def boot_state_def can_lock_def)

text \<open>
  C39: \<open>uncle_count\<close> leaves the lock of the process table taken when no
  process has the given identifier: it returns -1, and the next \<open>acquire\<close> of the
  lock on the same processor stops the machine.
\<close>

theorem uncle_count_keeps_lock:
  assumes "can_lock Ptable_lock s" "\<forall>p\<in>set (ptable s). pid p \<noteq> n"
  shows "returns (uncle_count n s) (\<lambda>r t. r = - 1 \<and> kacquire Ptable_lock t = Panic ''acquire'')"
proof -
  have "uncle_grandfather n ps g t = Ret g t" if "\<forall>p\<in>set ps. pid p \<noteq> n" for ps g t
    using that by (induction ps) auto
  then show ?thesis
    using assms by (simp add: uncle_count_def can_lock_def kacquire_free kacquire_held)
qed

lemma uncle_count_keeps_lock_witness:
  "returns (uncle_count 77 demo_procs) (\<lambda>r t. r = - 1 \<and> kacquire Ptable_lock t = Panic ''acquire'')"
  by (rule uncle_count_keeps_lock)
    (simp_all add: demo_procs_def demo_proc_def demo_state_def boot_state_def can_lock_def)

end
