(* ===== verification/Spin_Steps.thy ===== *)
theory Spin_Steps
  imports Spinlock
begin

text \<open>
  The spin locks of \<open>spinlock.c\<close> instruction by instruction. \<open>spin_step\<close>
  is the code of \<open>acquire\<close>, \<open>holding\<close> and \<open>release\<close> cut at every
  access to a lock: a step reads or writes one field of one lock once, together with the
  work on the processor's own entry and interrupt flag that no other processor touches.
  Between any two steps of a processor the others may make any number of steps. Memory
  is sequentially consistent, which the code enforces with the locked \<open>xchg\<close> and
  with \<open>__sync_synchronize\<close>.

  \<open>acquire_is_run\<close> and \<open>release_is_run\<close> relate the steps to
  \<open>acquire\<close> and \<open>release\<close> of the theory Spinlock, which the rest of the
  kernel calls: those are the uninterrupted runs of the steps.
\<close>

section \<open>The instructions\<close>

datatype spin_pc = Outside
  | Acq_push lockid | Acq_locked lockid | Acq_cpu lockid | Acq_xchg lockid | Acq_record lockid
  | Rel_locked lockid | Rel_cpu lockid | Rel_forget lockid | Rel_store lockid | Rel_pop

definition set_locked :: "lockid \<Rightarrow> bool \<Rightarrow> hw \<Rightarrow> hw" where
  "set_locked l v s = s\<lparr>locks := (locks s)(l := (locks s l)\<lparr>locked := v\<rparr>)\<rparr>"

definition set_holder :: "lockid \<Rightarrow> nat option \<Rightarrow> hw \<Rightarrow> hw" where
  "set_holder l c s = s\<lparr>locks := (locks s)(l := (locks s l)\<lparr>holder := c\<rparr>)\<rparr>"

definition xchg :: "lockid \<Rightarrow> bool \<Rightarrow> hw \<Rightarrow> bool \<times> hw" where
  "xchg l newval s = (locked (locks s l), set_locked l newval s)"

fun spin_step :: "spin_pc \<Rightarrow> hw \<Rightarrow> (hw, spin_pc) outcome" where
  "spin_step Outside s = Ret Outside s"
| "spin_step (Acq_push l) s = bnd (pushcli s) (\<lambda>_ s. Ret (Acq_locked l) s)"
| "spin_step (Acq_locked l) s =
     bnd (pushcli s) (\<lambda>_ s.
     if locked (locks s l) then Ret (Acq_cpu l) s
     else bnd (popcli s) (\<lambda>_ s. Ret (Acq_xchg l) s))"
| "spin_step (Acq_cpu l) s =
     bnd (mycpu s) (\<lambda>i s.
     let r = (holder (locks s l) = Some i) in
     bnd (popcli s) (\<lambda>_ s. if r then Panic ''acquire'' else Ret (Acq_xchg l) s))"
| "spin_step (Acq_xchg l) s =
     (case xchg l True s of (old, s) \<Rightarrow>
        if old then Ret (Acq_xchg l) s else Ret (Acq_record l) s)"
| "spin_step (Acq_record l) s =
     bnd (mycpu s) (\<lambda>i s. Ret Outside (set_holder l (Some i) s))"
| "spin_step (Rel_locked l) s =
     bnd (pushcli s) (\<lambda>_ s.
     if locked (locks s l) then Ret (Rel_cpu l) s
     else bnd (popcli s) (\<lambda>_ s. Panic ''release''))"
| "spin_step (Rel_cpu l) s =
     bnd (mycpu s) (\<lambda>i s.
     let r = (holder (locks s l) = Some i) in
     bnd (popcli s) (\<lambda>_ s. if r then Ret (Rel_forget l) s else Panic ''release''))"
| "spin_step (Rel_forget l) s = Ret (Rel_store l) (set_holder l None s)"
| "spin_step (Rel_store l) s = Ret Rel_pop (set_locked l False s)"
| "spin_step Rel_pop s = bnd (popcli s) (\<lambda>_ s. Ret Outside s)"

text \<open>One processor alone, for at most \<open>n\<close> steps; a lock it waits for never comes.\<close>

primrec run_alone :: "nat \<Rightarrow> spin_pc \<Rightarrow> hw \<Rightarrow> (hw, unit) outcome" where
  "run_alone 0 pc s = (if pc = Outside then Ret () s else Spin)"
| "run_alone (Suc n) pc s =
     (if pc = Outside then Ret () s else bnd (spin_step pc s) (run_alone n))"

lemma run_alone_Outside [simp]: "run_alone n Outside s = Ret () s"
  by (cases n) simp_all

lemma run_alone_spins: "locked (locks s l) \<Longrightarrow> run_alone n (Acq_xchg l) s = Spin"
proof (induction n)
  case (Suc n)
  then have "set_locked l True s = s" by (simp add: set_locked_def fun_upd_idem)
  with Suc show ?case by (simp add: xchg_def)
qed simp

lemma set_lock_sel [simp]:
  "locks (set_locked l v s) = (locks s)(l := (locks s l)\<lparr>locked := v\<rparr>)" "cpus (set_locked l v s) = cpus s"
  "lapicid (set_locked l v s) = lapicid s" "eflags_IF (set_locked l v s) = eflags_IF s"
  "locks (set_holder l c s) = (locks s)(l := (locks s l)\<lparr>holder := c\<rparr>)" "cpus (set_holder l c s) = cpus s"
  "lapicid (set_holder l c s) = lapicid s" "eflags_IF (set_holder l c s) = eflags_IF s"
  "me (set_locked l v s) = me s" "me (set_holder l c s) = me s"
  by (simp_all add: set_locked_def set_holder_def)

lemma run_alone_xchg:
  "run_alone (Suc (Suc n)) (Acq_xchg l) s =
     (if locked (locks s l) then Spin
      else bnd (mycpu (set_locked l True s)) (\<lambda>i s. Ret () (set_holder l (Some i) s)))"
  using run_alone_spins [of s l "Suc (Suc n)"] by (simp add: xchg_def bnd_assoc)

lemma bnd_cong_fun: "(\<And>a t. f a t = g a t) \<Longrightarrow> bnd m f = bnd m g"
  by (cases m) auto

lemma bnd_if: "bnd (if b then m else m') f = (if b then bnd m f else bnd m' f)"
  by simp

text \<open>
  Run without interruption the steps are \<open>acquire\<close> and \<open>release\<close>: five steps
  are enough, and any larger number gives the same.
\<close>

lemma bnd_Ret_right [simp]: "bnd m Ret = m"
  by (cases m) auto

lemma acquire_is_run: "run_alone (Suc (Suc (Suc (Suc (Suc n))))) (Acq_push l) s = acquire l s"
proof -
  have x: "run_alone m (Acq_xchg l) t =
      (if locked (locks t l) then Spin
       else let s = set_locked l True t in bnd (mycpu s) (\<lambda>i s. Ret () (set_holder l (Some i) s)))"
    if "m \<in> {Suc (Suc n), Suc (Suc (Suc n))}" for m t
    using that run_alone_xchg [of n l t] run_alone_xchg [of "Suc n" l t] by auto
  have c: "run_alone (Suc (Suc (Suc n))) (Acq_cpu l) t = bnd (mycpu t) (\<lambda>i s. bnd (popcli s) (\<lambda>_ u.
      if holder (locks s l) = Some i then Panic ''acquire'' else run_alone (Suc (Suc n)) (Acq_xchg l) u))" for t
    by (simp add: bnd_assoc Let_def bnd_if del: run_alone.simps add: run_alone.simps(2) [of "Suc (Suc n)" "Acq_cpu l"])
      (auto intro!: bnd_cong_fun simp del: run_alone.simps)
  have "bnd (pushcli t) (\<lambda>_ t. bnd (if locked (locks t l) then Ret (Acq_cpu l) t
        else bnd (popcli t) (\<lambda>_ s. Ret (Acq_xchg l) s)) (run_alone (Suc (Suc (Suc n)))))
    = bnd (holding l t) (\<lambda>h s. if h then Panic ''acquire''
        else if locked (locks s l) then Spin
        else let s = set_locked l True s in bnd (mycpu s) (\<lambda>i s. Ret () (set_holder l (Some i) s)))" for t
    unfolding holding_def bnd_assoc
    by (rule bnd_cong_fun) (auto simp: c x bnd_assoc Let_def simp del: run_alone.simps intro!: bnd_cong_fun)
  then show ?thesis
    by (simp add: acquire_def bnd_assoc) (unfold set_locked_def set_holder_def, rule refl)
qed

lemma release_is_run: "run_alone (Suc (Suc (Suc (Suc (Suc n))))) (Rel_locked l) s = release l s"
  unfolding release_def holding_def
  by (auto simp: bnd_assoc Let_def set_locked_def set_holder_def bnd_if intro!: bnd_cong_fun)

section \<open>All processors at once\<close>

text \<open>
  The state is the machine, the place of every processor in the lock code and the set of
  pairs of a processor and a lock it is inside of: from its return from \<open>acquire\<close>
  to the moment \<open>release\<close> has passed its check. A processor outside the lock code
  may call \<open>acquire\<close> or \<open>release\<close> of any lock, rightly or wrongly, may
  disable its interrupts, and may enable them while it has no \<open>pushcli\<close> open, as
  the scheduler does.
\<close>

definition on_cpu :: "nat \<Rightarrow> hw \<Rightarrow> hw" where
  "on_cpu i s = s\<lparr>lapicid := apicid (cpus s ! i)\<rparr>"

fun inside_after :: "nat \<Rightarrow> spin_pc \<Rightarrow> (nat \<times> lockid) set \<Rightarrow> (nat \<times> lockid) set" where
  "inside_after i (Acq_record l) C = insert (i, l) C"
| "inside_after i (Rel_cpu l) C = C - {(i, l)}"
| "inside_after i _ C = C"

type_synonym spin_state = "hw \<times> (nat \<Rightarrow> spin_pc) \<times> (nat \<times> lockid) set"

inductive spin_next :: "spin_state \<Rightarrow> spin_state \<Rightarrow> bool" where
  call_acquire: "i < length (cpus s) \<Longrightarrow> pcs i = Outside \<Longrightarrow> spin_next (s, pcs, C) (s, pcs(i := Acq_push l), C)"
| call_release: "i < length (cpus s) \<Longrightarrow> pcs i = Outside \<Longrightarrow> spin_next (s, pcs, C) (s, pcs(i := Rel_locked l), C)"
| disable: "i < length (cpus s) \<Longrightarrow> pcs i = Outside \<Longrightarrow> spin_next (s, pcs, C) (cli (on_cpu i s), pcs, C)"
| enable: "i < length (cpus s) \<Longrightarrow> pcs i = Outside \<Longrightarrow> ncli (cpus s ! i) = 0 \<Longrightarrow>
    spin_next (s, pcs, C) (sti (on_cpu i s), pcs, C)"
| instruction: "i < length (cpus s) \<Longrightarrow> spin_step (pcs i) (on_cpu i s) = Ret pc t \<Longrightarrow>
    spin_next (s, pcs, C) (t, pcs(i := pc), inside_after i (pcs i) C)"

inductive_cases spin_nextE: "spin_next (s, pcs, C) y"

inductive spin_reach :: "hw \<Rightarrow> spin_state \<Rightarrow> bool" for s0 where
  start: "lock_init s0 \<Longrightarrow> spin_reach s0 (s0, \<lambda>_. Outside, {})"
| step: "spin_reach s0 x \<Longrightarrow> spin_next x y \<Longrightarrow> spin_reach s0 y"

text \<open>
  The processor whose \<open>xchg\<close> took the lock and which has not yet stored 0 to it.
\<close>

definition owns :: "(nat \<Rightarrow> spin_pc) \<Rightarrow> (nat \<times> lockid) set \<Rightarrow> nat \<Rightarrow> lockid \<Rightarrow> bool" where
  "owns pcs C i l \<longleftrightarrow> (i, l) \<in> C \<or> pcs i \<in> {Acq_record l, Rel_forget l, Rel_store l}"

text \<open>The open \<open>pushcli\<close>s of a processor that belong to no lock it is inside of.\<close>

fun open_push :: "spin_pc \<Rightarrow> int" where
  "open_push Outside = 0" | "open_push (Acq_push l) = 0" | "open_push (Acq_locked l) = 1"
| "open_push (Acq_cpu l) = 2" | "open_push (Acq_xchg l) = 1" | "open_push (Acq_record l) = 1"
| "open_push (Rel_locked l) = 0" | "open_push (Rel_cpu l) = 1" | "open_push (Rel_forget l) = 1"
| "open_push (Rel_store l) = 1" | "open_push Rel_pop = 1"

text \<open>
  The invariant has two halves: the nesting depths, which each processor keeps for itself,
  and the lock words.
\<close>

definition depths :: "hw \<Rightarrow> (nat \<Rightarrow> int) \<Rightarrow> bool" where
  "depths s n \<longleftrightarrow> distinct (map apicid (cpus s)) \<and> (\<forall>i<length (cpus s). 0 \<le> n i
     \<and> ncli (cpus s ! i) = n i \<and> (n i \<noteq> 0 \<longrightarrow> \<not> eflags_IF s (apicid (cpus s ! i))))"

definition words :: "(lockid \<Rightarrow> spinlock) \<Rightarrow> (nat \<Rightarrow> spin_pc) \<Rightarrow> (nat \<times> lockid) set \<Rightarrow> bool" where
  "words L pcs C \<longleftrightarrow> (\<forall>l. locked (L l) \<longleftrightarrow> (\<exists>i. owns pcs C i l))
     \<and> (\<forall>i j l. owns pcs C i l \<longrightarrow> owns pcs C j l \<longrightarrow> i = j)
     \<and> (\<forall>i l. (i, l) \<in> C \<longrightarrow> holder (L l) = Some i \<and> pcs i \<notin> {Acq_xchg l, Acq_record l, Rel_forget l, Rel_store l})
     \<and> (\<forall>i l. holder (L l) = Some i \<longrightarrow> (i, l) \<in> C \<or> pcs i = Rel_forget l)"

definition spin_inv :: "spin_state \<Rightarrow> bool" where
  "spin_inv x \<longleftrightarrow> (case x of (s, pcs, C) \<Rightarrow>
     depths s (\<lambda>i. int (card {l. (i, l) \<in> C}) + open_push (pcs i)) \<and> words (locks s) pcs C
     \<and> finite C \<and> (\<forall>i l. owns pcs C i l \<longrightarrow> i < length (cpus s)))"

subsection \<open>The nesting depths\<close>

lemma on_cpu_sel [simp]:
  "cpus (on_cpu i s) = cpus s" "locks (on_cpu i s) = locks s" "eflags_IF (on_cpu i s) = eflags_IF s"
  "lapicid (on_cpu i s) = apicid (cpus s ! i)"
  by (simp_all add: on_cpu_def)

lemma depths_on_cpu: "depths s n \<Longrightarrow> depths (on_cpu i s) n"
  by (simp add: depths_def)

lemma depths_me: "depths s n \<Longrightarrow> i < length (cpus s) \<Longrightarrow> me (on_cpu i s) = i"
  by (simp add: depths_def on_cpu_def me_turn)

lemma depths_cpu_ok: "depths s n \<Longrightarrow> me s < length (cpus s) \<Longrightarrow> cpu_ok s"
  by (auto simp: depths_def cpu_ok_def readeflags_def apicid_me)

lemma apicid_other:
  assumes "depths s n" "me s < length (cpus s)" "i < length (cpus s)" "i \<noteq> me s"
  shows "apicid (cpus s ! i) \<noteq> lapicid s"
  using assms nth_eq_iff_index_eq [of "map apicid (cpus s)" i "me s"] apicid_me [of s]
  by (simp add: depths_def)

lemma depths_push:
  assumes "depths s n" "me s < length (cpus s)"
  shows "depths (push s) (n(me s := n (me s) + 1))"
proof -
  have ok: "cpu_ok s" using assms by (rule depths_cpu_ok)
  have "apicid (cpus (push s) ! i) = apicid (cpus s ! i)" if "i < length (cpus s)" for i
    using that cpus_push_me [OF ok] cpus_push_other [of i s] by (cases "i = me s") auto
  then show ?thesis
    using assms ok cpus_push_me [OF ok] cpus_push_other [of _ s] apicid_me [of s]
    by (auto simp: depths_def apicids_push eflags_push)
qed

lemma depths_pop:
  assumes "depths s n" "me s < length (cpus s)" "0 < n (me s)"
  shows "depths (pop s) (n(me s := n (me s) - 1))"
proof -
  have "apicid (cpus (pop s) ! i) = apicid (cpus s ! i)" if "i < length (cpus s)" for i
    using that assms(2) pop_cpus [where s = s] by (cases "i = me s") auto
  then show ?thesis
    using assms apicid_other [OF assms(1,2)] pop_cpus [where s = s] pop_eflags [where s = s]
    by (auto simp: depths_def pop_sel)
qed

lemma depths_locks [simp]: "depths (set_locked l v s) n = depths s n" "depths (set_holder l c s) n = depths s n"
  by (simp_all add: depths_def)

text \<open>
  What each instruction does on a processor whose depth is at least the number of
  \<open>pushcli\<close>s its place in the code has open.
\<close>

lemma spin_step_forms:
  assumes d: "depths s n" "i < length (cpus s)"
  defines "u \<equiv> on_cpu i s"
  shows "spin_step (Acq_push l) u = Ret (Acq_locked l) (push u)"
    "spin_step (Acq_locked l) u = (if locked (locks s l) then Ret (Acq_cpu l) (push u) else Ret (Acq_xchg l) (touch u))"
    "spin_step (Rel_locked l) u = (if locked (locks s l) then Ret (Rel_cpu l) (push u) else Panic ''release'')"
    "0 < n i \<Longrightarrow> spin_step (Acq_cpu l) u =
       (if holder (locks s l) = Some i then Panic ''acquire'' else Ret (Acq_xchg l) (pop u))"
    "0 < n i \<Longrightarrow> spin_step (Rel_cpu l) u =
       (if holder (locks s l) = Some i then Ret (Rel_forget l) (pop u) else Panic ''release'')"
    "0 < n i \<Longrightarrow> spin_step (Acq_record l) u = Ret Outside (set_holder l (Some i) u)"
    "0 < n i \<Longrightarrow> spin_step Rel_pop u = Ret Outside (pop u)"
    "depths u n" "depths (push u) (n(i := n i + 1))" "depths (touch u) n"
    "0 < n i \<Longrightarrow> depths (pop u) (n(i := n i - 1))"
proof -
  have me: "me u = i" unfolding u_def using d by (rule depths_me)
  show ds: "depths u n" unfolding u_def using d(1) by (rule depths_on_cpu)
  have sel: "locks u = locks s" "i < length (cpus u)" using d(2) by (simp_all add: u_def)
  have ok: "cpu_ok u" using ds sel me by (intro depths_cpu_ok) auto
  show push: "depths (push u) (n(i := n i + 1))" using depths_push [OF ds] me sel by auto
  have p: "pushcli u = Ret () (push u)" by (rule pushcli_ok [OF ok])
  have pp: "popcli (push u) = Ret () (touch u)"
    using ok popcli_ok [of "push u"] by (auto simp: pop_push dest: cpu_okD)
  show "depths (touch u) n"
    using ok ds push depths_pop [of "push u" "n(i := n i + 1)"] me sel
    by (auto simp: pop_push depths_def fun_upd_idem)
  have off: "\<not> readeflags u" "0 < ncli (cpus u ! i)" if "0 < n i"
    using that ds sel apicid_me [of u] me by (auto simp: depths_def readeflags_def)
  have pop: "popcli u = Ret () (pop u)" if "0 < n i"
    using that off popcli_ok [of u] me sel by auto
  show "0 < n i \<Longrightarrow> depths (pop u) (n(i := n i - 1))"
    using depths_pop [OF ds] me sel by auto
  have my: "mycpu u = Ret i u" if "0 < n i"
    using that off mycpu_off [of u] me sel by auto
  show "spin_step (Acq_push l) u = Ret (Acq_locked l) (push u)"
    "spin_step (Acq_locked l) u = (if locked (locks s l) then Ret (Acq_cpu l) (push u) else Ret (Acq_xchg l) (touch u))"
    "spin_step (Rel_locked l) u = (if locked (locks s l) then Ret (Rel_cpu l) (push u) else Panic ''release'')"
    by (simp_all add: p pp sel)
  show "0 < n i \<Longrightarrow> spin_step (Acq_cpu l) u =
       (if holder (locks s l) = Some i then Panic ''acquire'' else Ret (Acq_xchg l) (pop u))"
    "0 < n i \<Longrightarrow> spin_step (Rel_cpu l) u =
       (if holder (locks s l) = Some i then Ret (Rel_forget l) (pop u) else Panic ''release'')"
    "0 < n i \<Longrightarrow> spin_step (Acq_record l) u = Ret Outside (set_holder l (Some i) u)"
    "0 < n i \<Longrightarrow> spin_step Rel_pop u = Ret Outside (pop u)"
    by (simp_all add: pop my sel)
qed

fun spin_delta :: "spin_pc \<Rightarrow> int" where
  "spin_delta (Acq_record l) = 1" | "spin_delta (Rel_cpu l) = - 1" | "spin_delta _ = 0"

lemma spin_step_depths:
  assumes d: "depths s n" "i < length (cpus s)" and n: "open_push pc \<le> n i"
    and step: "spin_step pc (on_cpu i s) = Ret pc' t"
  shows "depths t (n(i := n i + open_push pc' - open_push pc + spin_delta pc)) \<and> length (cpus t) = length (cpus s)"
  using n step spin_step_forms [OF d]
  by (cases pc) (auto simp: xchg_def pop_sel fun_upd_idem add.commute [of 1 "n i"] simp del: spin_step.simps(2-4,6-8,11)
      split: if_splits)

lemma spin_step_locks:
  assumes d: "depths s n" "i < length (cpus s)" and n: "open_push pc \<le> n i"
    and step: "spin_step pc (on_cpu i s) = Ret pc' t"
  shows "(pc', locks t) = (case pc of
      Outside \<Rightarrow> (Outside, locks s)
    | Acq_push l \<Rightarrow> (Acq_locked l, locks s)
    | Acq_locked l \<Rightarrow> (if locked (locks s l) then Acq_cpu l else Acq_xchg l, locks s)
    | Acq_cpu l \<Rightarrow> (Acq_xchg l, locks s)
    | Acq_xchg l \<Rightarrow> (if locked (locks s l) then Acq_xchg l else Acq_record l, (locks s)(l := (locks s l)\<lparr>locked := True\<rparr>))
    | Acq_record l \<Rightarrow> (Outside, (locks s)(l := (locks s l)\<lparr>holder := Some i\<rparr>))
    | Rel_locked l \<Rightarrow> (Rel_cpu l, locks s)
    | Rel_cpu l \<Rightarrow> (Rel_forget l, locks s)
    | Rel_forget l \<Rightarrow> (Rel_store l, (locks s)(l := (locks s l)\<lparr>holder := None\<rparr>))
    | Rel_store l \<Rightarrow> (Rel_pop, (locks s)(l := (locks s l)\<lparr>locked := False\<rparr>))
    | Rel_pop \<Rightarrow> (Outside, locks s))
   \<and> (\<forall>l. pc = Acq_cpu l \<longrightarrow> holder (locks s l) \<noteq> Some i) \<and> (\<forall>l. pc = Rel_cpu l \<longrightarrow> holder (locks s l) = Some i)"
  using n step spin_step_forms [OF d]
  by (cases pc) (auto simp: xchg_def pop_sel simp del: spin_step.simps(2-4,6-8,11) split: if_splits)

subsection \<open>The lock words\<close>

definition window :: "spin_pc \<Rightarrow> bool" where
  "window pc \<longleftrightarrow> (\<exists>l. pc \<in> {Acq_record l, Rel_forget l, Rel_store l})"

lemma window_simps [simp]:
  "window (Acq_record l)" "window (Rel_forget l)" "window (Rel_store l)"
  "\<not> window Outside" "\<not> window (Acq_push l)" "\<not> window (Acq_locked l)" "\<not> window (Acq_cpu l)" "\<not> window (Acq_xchg l)"
  "\<not> window (Rel_locked l)" "\<not> window (Rel_cpu l)" "\<not> window Rel_pop"
  by (simp_all add: window_def)

lemma wordsD:
  assumes "words L pcs C"
  shows "locked (L l) \<longleftrightarrow> (\<exists>i. owns pcs C i l)" "owns pcs C i l \<Longrightarrow> owns pcs C j l \<Longrightarrow> i = j"
    "(i, l) \<in> C \<Longrightarrow> holder (L l) = Some i"
    "(i, l) \<in> C \<Longrightarrow> pcs i \<notin> {Acq_xchg l, Acq_record l, Rel_forget l, Rel_store l}"
    "holder (L l) = Some i \<Longrightarrow> (i, l) \<in> C \<or> pcs i = Rel_forget l"
  using assms unfolding words_def by blast+

lemma wordsI:
  assumes "\<And>l. locked (L l) \<longleftrightarrow> (\<exists>i. owns pcs C i l)" "\<And>i j l. owns pcs C i l \<Longrightarrow> owns pcs C j l \<Longrightarrow> i = j"
    "\<And>i l. (i, l) \<in> C \<Longrightarrow> holder (L l) = Some i"
    "\<And>i l. (i, l) \<in> C \<Longrightarrow> pcs i \<notin> {Acq_xchg l, Acq_record l, Rel_forget l, Rel_store l}"
    "\<And>i l. holder (L l) = Some i \<Longrightarrow> (i, l) \<in> C \<or> pcs i = Rel_forget l"
  shows "words L pcs C"
  using assms unfolding words_def by blast

text \<open>A step that changes no owner keeps the first two parts.\<close>

lemma words_same_owners:
  assumes "words L pcs C" "owns pcs' C' = owns pcs C" "\<And>l. locked (L' l) = locked (L l)"
    "\<And>i l. (i, l) \<in> C' \<Longrightarrow> holder (L' l) = Some i"
    "\<And>i l. (i, l) \<in> C' \<Longrightarrow> pcs' i \<notin> {Acq_xchg l, Acq_record l, Rel_forget l, Rel_store l}"
    "\<And>i l. holder (L' l) = Some i \<Longrightarrow> (i, l) \<in> C' \<or> pcs' i = Rel_forget l"
  shows "words L' pcs' C'"
  using assms(3-6) wordsD(1,2) [OF assms(1)] unfolding assms(2) [symmetric] by (rule_tac wordsI) blast+

lemma words_silent:
  assumes w: "words L pcs C" and pc: "\<not> window (pcs i)" "\<not> window pc" "\<And>l. pc = Acq_xchg l \<Longrightarrow> (i, l) \<notin> C"
  shows "words L (pcs(i := pc)) C"
proof (rule words_same_owners [OF w], goal_cases)
  case 1
  then show ?case using pc(1,2) by (auto simp: owns_def window_def fun_eq_iff)
next
  case (4 j k)
  then show ?case using wordsD(4) [OF w, of j k] pc(2,3) by (auto simp: window_def)
next
  case (5 j k)
  then show ?case using wordsD(5) [OF w, of k j] pc(1) by (auto simp: window_def)
qed (simp_all add: wordsD(3) [OF w])

lemma words_record:
  assumes w: "words L pcs C" and pc: "pcs i = Acq_record l"
  shows "words (L(l := (L l)\<lparr>holder := Some i\<rparr>)) (pcs(i := Outside)) (insert (i, l) C)"
proof (rule words_same_owners [OF w], goal_cases)
  case 1
  then show ?case using pc by (auto simp: owns_def fun_eq_iff)
next
  case (3 j k)
  then show ?case using wordsD(3) [OF w, of j k] wordsD(2) [OF w, of j l i] pc by (auto simp: owns_def)
next
  case (4 j k)
  then show ?case using wordsD(4) [OF w, of j k] by auto
next
  case (5 j k)
  then show ?case using wordsD(5) [OF w, of k j] pc by (auto split: if_splits)
qed auto

lemma words_pass:
  assumes w: "words L pcs C" and pc: "pcs i = Rel_cpu l" and h: "holder (L l) = Some i"
  shows "words L (pcs(i := Rel_forget l)) (C - {(i, l)})"
proof (rule words_same_owners [OF w], goal_cases)
  case 1
  have "(i, l) \<in> C" using wordsD(5) [OF w h] pc by simp
  then show ?case using pc by (auto simp: owns_def fun_eq_iff)
next
  case (4 j k)
  then show ?case using wordsD(4) [OF w, of j k] by auto
next
  case (5 j k)
  then show ?case using wordsD(5) [OF w, of k j] pc by auto
qed (simp_all add: wordsD(3) [OF w])

lemma words_forget:
  assumes w: "words L pcs C" and pc: "pcs i = Rel_forget l"
  shows "words (L(l := (L l)\<lparr>holder := None\<rparr>)) (pcs(i := Rel_store l)) C"
proof (rule words_same_owners [OF w], goal_cases)
  case 1
  then show ?case using pc by (auto simp: owns_def fun_eq_iff)
next
  case (3 j k)
  then show ?case using wordsD(2-4) [OF w, of j k] wordsD(2) [OF w, of j k i] pc by (auto simp: owns_def)
next
  case (4 j k)
  then show ?case using wordsD(4) [OF w, of j k] pc by auto
next
  case (5 j k)
  then show ?case using wordsD(5) [OF w, of k j] pc by (auto split: if_splits)
qed auto

lemma words_xchg:
  assumes w: "words L pcs C" and pc: "pcs i = Acq_xchg l" and free: "\<not> locked (L l)"
  shows "words (L(l := (L l)\<lparr>locked := True\<rparr>)) (pcs(i := Acq_record l)) C"
proof -
  have o: "owns (pcs(i := Acq_record l)) C j k \<longleftrightarrow> owns pcs C j k \<or> (j, k) = (i, l)" for j k
    using pc by (auto simp: owns_def)
  have no: "\<not> owns pcs C j l" for j using wordsD(1) [OF w] free by auto
  show ?thesis
  proof (rule wordsI, goal_cases)
    case (1 k)
    then show ?case using wordsD(1) [OF w, of k] by (auto simp: o)
  next
    case (2 j j' k)
    then show ?case using wordsD(2) [OF w, of j k j'] no by (auto simp: o)
  next
    case (3 j k)
    then show ?case using wordsD(3) [OF w 3] by auto
  next
    case (4 j k)
    then show ?case using wordsD(4) [OF w 4] no [of j] by (auto simp: owns_def)
  next
    case (5 j k)
    then show ?case using wordsD(5) [OF w, of k j] pc by (auto split: if_splits)
  qed
qed

lemma words_store:
  assumes w: "words L pcs C" and pc: "pcs i = Rel_store l"
  shows "words (L(l := (L l)\<lparr>locked := False\<rparr>)) (pcs(i := Rel_pop)) C"
proof -
  have o: "owns (pcs(i := Rel_pop)) C j k \<longleftrightarrow> owns pcs C j k \<and> (j, k) \<noteq> (i, l)" for j k
    using pc wordsD(4) [OF w, of i l] by (auto simp: owns_def)
  have u: "j = i" if "owns pcs C j l" for j
    using wordsD(2) [OF w that, of i] pc by (simp add: owns_def)
  show ?thesis
  proof (rule wordsI, goal_cases)
    case (1 k)
    then show ?case using wordsD(1) [OF w, of k] u by (auto simp: o)
  next
    case (2 j j' k)
    then show ?case using wordsD(2) [OF w, of j k j'] by (auto simp: o)
  next
    case (3 j k)
    then show ?case using wordsD(3) [OF w, of j k] by auto
  next
    case (4 j k)
    then show ?case using wordsD(4) [OF w, of j k] by auto
  next
    case (5 j k)
    then show ?case using wordsD(5) [OF w, of k j] pc by (auto split: if_splits)
  qed
qed

subsection \<open>The invariant\<close>

lemma inside_after_card:
  assumes "finite C" "\<And>l. pc = Acq_record l \<Longrightarrow> (i, l) \<notin> C" "\<And>l. pc = Rel_cpu l \<Longrightarrow> (i, l) \<in> C"
  shows "int (card {l. (j, l) \<in> inside_after i pc C})
    = int (card {l. (j, l) \<in> C}) + (if j = i then spin_delta pc else 0)"
proof (cases pc)
  case (Acq_record l)
  then show ?thesis using assms inside_card_insert [of C i l j] by simp
next
  case (Rel_cpu l)
  then show ?thesis
    using assms inside_card_remove(1) [of C i l j] inside_card_remove(2) [of C i l] by (auto simp: of_nat_diff Suc_le_eq)
qed auto

lemma words_step:
  assumes w: "words (locks s) pcs C" and d: "depths s n" "i < length (cpus s)" "open_push (pcs i) \<le> n i"
    and step: "spin_step (pcs i) (on_cpu i s) = Ret pc t"
  shows "words (locks t) (pcs(i := pc)) (inside_after i (pcs i) C)"
proof -
  note l = spin_step_locks [OF d step]
  have notin: "(i, l) \<notin> C" if "pc = Acq_xchg l" for l
  proof (cases "pcs i")
    case (Acq_locked k)
    then show ?thesis using that l wordsD(1) [OF w, of k] by (auto simp: owns_def split: if_splits)
  next
    case (Acq_cpu k)
    then show ?thesis using that l wordsD(3) [OF w, of i k] by auto
  next
    case (Acq_xchg k)
    then show ?thesis using that l wordsD(4) [OF w, of i k] by (auto split: if_splits)
  qed (use that l in auto)
  note silent = words_silent [OF w, of i pc, OF _ _ notin]
  show ?thesis
  proof (cases "pcs i")
    case (Acq_xchg k)
    show ?thesis
    proof (cases "locked (locks s k)")
      case True
      then have "locks t = locks s" "pc = Acq_xchg k" using l Acq_xchg by (auto simp: fun_upd_idem)
      then show ?thesis using silent Acq_xchg by simp
    qed (use l Acq_xchg words_xchg [OF w Acq_xchg] in simp)
  qed (use l silent words_record [OF w] words_pass [OF w] words_forget [OF w] words_store [OF w] in
      \<open>simp_all split: if_splits\<close>)
qed

lemma spin_inv_instruction:
  assumes inv: "spin_inv (s, pcs, C)" and i: "i < length (cpus s)"
    and step: "spin_step (pcs i) (on_cpu i s) = Ret pc t"
  shows "spin_inv (t, pcs(i := pc), inside_after i (pcs i) C)"
proof -
  let ?n = "\<lambda>i. int (card {l. (i, l) \<in> C}) + open_push (pcs i)"
  have d: "depths s ?n" and w: "words (locks s) pcs C" and f: "finite C"
    and o: "\<And>i l. owns pcs C i l \<Longrightarrow> i < length (cpus s)" using inv by (auto simp: spin_inv_def)
  note l = spin_step_locks [OF d i _ step] spin_step_depths [OF d i _ step]
  have mem: "pcs i = Acq_record l \<Longrightarrow> (i, l) \<notin> C" "pcs i = Rel_cpu l \<Longrightarrow> (i, l) \<in> C" for l
    using wordsD(4,5) [OF w] l(1) by fastforce+
  have "?n(i := ?n i + open_push pc - open_push (pcs i) + spin_delta (pcs i))
      = (\<lambda>j. int (card {l. (j, l) \<in> inside_after i (pcs i) C}) + open_push ((pcs(i := pc)) j))"
    using inside_after_card [OF f mem] by (auto simp: fun_eq_iff)
  moreover have "finite (inside_after i (pcs i) C)" using f by (cases "pcs i") auto
  moreover have "owns (pcs(i := pc)) (inside_after i (pcs i) C) j l \<Longrightarrow> owns pcs C j l \<or> j = i" for j l
    by (cases "pcs i") (auto simp: owns_def split: if_splits)
  ultimately show ?thesis
    using l(2) words_step [OF w d i _ step] o i by (auto simp: spin_inv_def)
qed

lemma spin_inv_call:
  "spin_inv (s, pcs, C) \<Longrightarrow> pcs i = Outside \<Longrightarrow> pc \<in> {Acq_push l, Rel_locked l} \<Longrightarrow> spin_inv (s, pcs(i := pc), C)"
proof -
  assume *: "spin_inv (s, pcs, C)" "pcs i = Outside" "pc \<in> {Acq_push l, Rel_locked l}"
  then have "(\<lambda>j. int (card {l. (j, l) \<in> C}) + open_push ((pcs(i := pc)) j))
      = (\<lambda>j. int (card {l. (j, l) \<in> C}) + open_push (pcs j))" by (auto simp: fun_eq_iff)
  moreover have "owns (pcs(i := pc)) C = owns pcs C" using * by (auto simp: owns_def fun_eq_iff)
  ultimately show ?thesis using * words_silent [of "locks s" pcs C i pc] by (auto simp: spin_inv_def)
qed

lemma spin_inv_flag:
  assumes "spin_inv (s, pcs, C)" "i < length (cpus s)"
  shows "spin_inv (cli (on_cpu i s), pcs, C)" "ncli (cpus s ! i) = 0 \<Longrightarrow> spin_inv (sti (on_cpu i s), pcs, C)"
proof -
  have "apicid (cpus s ! j) = apicid (cpus s ! i) \<longleftrightarrow> j = i" if "j < length (cpus s)" for j
    using assms that nth_eq_iff_index_eq [of "map apicid (cpus s)" j i] by (auto simp: spin_inv_def depths_def)
  then show "spin_inv (cli (on_cpu i s), pcs, C)" "ncli (cpus s ! i) = 0 \<Longrightarrow> spin_inv (sti (on_cpu i s), pcs, C)"
    using assms by (auto simp: spin_inv_def depths_def cli_def sti_def)
qed

lemma spin_inv_next: "spin_next x y \<Longrightarrow> spin_inv x \<Longrightarrow> spin_inv y"
  by (induction rule: spin_next.induct)
    (auto intro: spin_inv_call spin_inv_flag spin_inv_instruction)

lemma spin_inv_init: "lock_init s \<Longrightarrow> spin_inv (s, \<lambda>_. Outside, {})"
  by (auto simp: lock_init_def spin_inv_def depths_def words_def owns_def free_lock_def)

lemma spin_reach_inv: "spin_reach s0 x \<Longrightarrow> spin_inv x"
  by (induction rule: spin_reach.induct) (auto intro: spin_inv_init spin_inv_next)

lemma spin_inv_owner_off:
  assumes "spin_inv (s, pcs, C)" "owns pcs C i l"
  shows "\<not> eflags_IF s (apicid (cpus s ! i))"
proof -
  have f: "finite C" and i: "i < length (cpus s)" using assms by (auto simp: spin_inv_def)
  have "0 \<le> open_push (pcs i)" by (cases "pcs i") auto
  moreover have "0 < card {l. (i, l) \<in> C} \<or> 0 < open_push (pcs i)"
    using assms(2) inside_card_remove(2) [OF f, of i l] by (auto simp: owns_def)
  ultimately show ?thesis using assms(1) i by (auto simp: spin_inv_def depths_def)
qed

section \<open>Properties\<close>

text \<open>
  C3: Processors that run the lock code instruction by instruction, in any interleaving
  and with any calls, never break a lock. Two of them are never inside one lock. A lock's
  word is set exactly while one processor is between the \<open>xchg\<close> that took it and
  the store that frees it, there is only one such processor, and its interrupts stay off
  all that time. The racing reads of \<open>holding\<close> never mislead: a processor panics in
  \<open>acquire\<close> only on a lock it is inside of, in \<open>release\<close> only on one it is
  not, and in no other place, and it never spins on a lock it is inside of.
\<close>

theorem spinlock_mutual_exclusion:
  assumes "spin_reach s0 (s, pcs, C)"
  shows "(\<forall>i j l. (i, l) \<in> C \<and> (j, l) \<in> C \<longrightarrow> i = j)
    \<and> (\<forall>l. locked (locks s l) \<longleftrightarrow> (\<exists>i<length (cpus s). owns pcs C i l))
    \<and> (\<forall>i j l. owns pcs C i l \<and> owns pcs C j l \<longrightarrow> i = j)
    \<and> (\<forall>i l. owns pcs C i l \<longrightarrow> \<not> eflags_IF s (apicid (cpus s ! i)))
    \<and> (\<forall>i<length (cpus s). case spin_step (pcs i) (on_cpu i s) of
         Ret _ _ \<Rightarrow> (\<forall>l. pcs i \<noteq> Acq_xchg l \<or> (i, l) \<notin> C)
       | Panic m \<Rightarrow> (\<exists>l. pcs i = Acq_cpu l \<and> (i, l) \<in> C \<and> m = ''acquire'')
           \<or> (\<exists>l. pcs i \<in> {Rel_locked l, Rel_cpu l} \<and> (i, l) \<notin> C \<and> m = ''release'')
       | _ \<Rightarrow> False)"
proof -
  let ?n = "\<lambda>i. int (card {l. (i, l) \<in> C}) + open_push (pcs i)"
  have inv: "spin_inv (s, pcs, C)" using assms by (rule spin_reach_inv)
  then have w: "words (locks s) pcs C" and d: "depths s ?n"
    and o: "\<And>i l. owns pcs C i l \<Longrightarrow> i < length (cpus s)" by (auto simp: spin_inv_def)
  have "case spin_step (pcs i) (on_cpu i s) of
         Ret _ _ \<Rightarrow> (\<forall>l. pcs i \<noteq> Acq_xchg l \<or> (i, l) \<notin> C)
       | Panic m \<Rightarrow> (\<exists>l. pcs i = Acq_cpu l \<and> (i, l) \<in> C \<and> m = ''acquire'')
           \<or> (\<exists>l. pcs i \<in> {Rel_locked l, Rel_cpu l} \<and> (i, l) \<notin> C \<and> m = ''release'')
       | _ \<Rightarrow> False" if "i < length (cpus s)" for i
    using spin_step_forms [OF d that] wordsD(1) [OF w] wordsD(3,4) [OF w] wordsD(5) [OF w, of _ i]
    by (cases "pcs i") (auto simp: xchg_def owns_def simp del: spin_step.simps(2-4,6-8,11))
  moreover have "i = j" if "owns pcs C i l" "owns pcs C j l" for i j l using wordsD(2) [OF w] that .
  moreover have "owns pcs C i l" if "(i, l) \<in> C" for i l using that by (simp add: owns_def)
  ultimately show ?thesis using wordsD(1) [OF w] o spin_inv_owner_off [OF inv] by blast
qed

text \<open>
  A given interleaving can be run: the numbers say which processor makes the next step.
  Here two processors race for the lock of the process table.
\<close>

fun spin_run :: "nat list \<Rightarrow> spin_state \<Rightarrow> spin_state option" where
  "spin_run [] x = Some x"
| "spin_run (i # is) (s, pcs, C) =
     (if i < length (cpus s)
      then case spin_step (pcs i) (on_cpu i s) of
             Ret pc t \<Rightarrow> spin_run is (t, pcs(i := pc), inside_after i (pcs i) C)
           | _ \<Rightarrow> None
      else None)"

lemma spin_run_reach: "spin_reach s0 x \<Longrightarrow> spin_run is x = Some y \<Longrightarrow> spin_reach s0 y"
proof (induction "is" x rule: spin_run.induct)
  case (2 i "is" s pcs C)
  then show ?case
    by (auto split: if_splits outcome.splits intro: spin_reach.step spin_next.instruction)
qed simp

definition demo_race :: spin_state where
  "demo_race = (demo_hw, (\<lambda>_. Outside)(0 := Acq_push Ptable_lock, 1 := Acq_push Ptable_lock), {})"

lemma demo_race_reach: "spin_reach demo_hw demo_race"
proof -
  have l: "length (cpus demo_hw) = 2" by (simp add: demo_hw_def)
  have "spin_reach demo_hw (demo_hw, (\<lambda>_. Outside)(0 := Acq_push Ptable_lock), {})"
    by (rule spin_reach.step [OF spin_reach.start [OF demo_hw_init] spin_next.call_acquire]) (simp_all add: l)
  then show ?thesis unfolding demo_race_def
    by (rule spin_reach.step [OF _ spin_next.call_acquire]) (simp_all add: l)
qed

lemma demo_race_run:
  "case spin_run [1, 0, 0, 1, 0, 1, 0, 1] demo_race of
     Some (s, pcs, C) \<Rightarrow> C = {(0, Ptable_lock)} \<and> pcs 1 = Acq_xchg Ptable_lock \<and> map apicid (cpus s) = [0, 1]
   | None \<Rightarrow> False"
  by code_simp

lemma spinlock_mutual_exclusion_witness:
  "\<exists>s pcs. spin_run [1, 0, 0, 1, 0, 1, 0, 1] demo_race = Some (s, pcs, {(0, Ptable_lock)})
     \<and> pcs 1 = Acq_xchg Ptable_lock \<and> locked (locks s Ptable_lock) \<and> \<not> eflags_IF s 0"
proof -
  obtain s pcs where r: "spin_run [1, 0, 0, 1, 0, 1, 0, 1] demo_race = Some (s, pcs, {(0, Ptable_lock)})"
    "pcs 1 = Acq_xchg Ptable_lock" "map apicid (cpus s) = [0, 1]"
    using demo_race_run by (auto split: option.splits)
  then have c: "0 < length (cpus s)" "apicid (cpus s ! 0) = 0" by (auto simp: map_eq_Cons_conv)
  have "spin_reach demo_hw (s, pcs, {(0, Ptable_lock)})"
    using demo_race_reach r(1) by (rule spin_run_reach)
  note * = spinlock_mutual_exclusion [OF this]
  have "owns pcs {(0, Ptable_lock)} 0 Ptable_lock" by (simp add: owns_def)
  then have "locked (locks s Ptable_lock)" "\<not> eflags_IF s 0" using * c by (metis, metis)
  then show ?thesis using r(1,2) by blast
qed

end
