(* ===== verification/Sleep_Steps.thy ===== *)
theory Sleep_Steps
  imports Sched_Policy Spin_Steps
begin

text \<open>
  \<open>sleep\<close> and \<open>wakeup\<close> of \<open>proc.c\<close> on several processors at once. The
  code of both is cut between its lock operations: \<open>sleep_step\<close> makes one
  \<open>acquire\<close>, one \<open>release\<close> or the work between two of them, and any other
  processor may run before the next step. A whole call of \<open>acquire\<close> or
  \<open>release\<close> is one step here; the theory Spin_Steps shows that their instructions
  keep a lock to one processor in every interleaving. \<open>sleep_is_run\<close> and
  \<open>wakeup_is_run\<close> show that the uninterrupted runs of the steps are
  \<open>sleep\<close> and \<open>wakeup\<close>.
\<close>

section \<open>The steps\<close>

text \<open>
  Where a processor is: away from the lock \<open>lk\<close> of the condition, inside it, in
  \<open>sleep\<close>, in the scheduler that \<open>sleep\<close> switched to, or in \<open>wakeup\<close>.
\<close>

datatype sleep_pc = Away | Inside_lk
  | Sl_call | Sl_acquire nat | Sl_release nat | Sl_chan nat | Sl_state nat | Sl_scheduler
  | Wk_acquire | Wk_scan | Wk_release

primrec at_swtch :: "'b \<Rightarrow> (kstate, unit) outcome \<Rightarrow> (kstate, 'b) outcome" where
  "at_swtch pc (Swtch s) = Ret pc s"
| "at_swtch pc (Ret x s) = Ret pc s"
| "at_swtch pc Spin = Spin"
| "at_swtch pc (Panic m) = Panic m"
| "at_swtch pc (Fault m) = Fault m"

fun sleep_step :: "chan option \<Rightarrow> lockid \<Rightarrow> sleep_pc \<Rightarrow> kstate \<Rightarrow> (kstate, sleep_pc) outcome" where
  "sleep_step ch lk Sl_call s =
     bnd (myproc s) (\<lambda>p s.
     case p of None \<Rightarrow> Panic ''sleep''
     | Some i \<Rightarrow> Ret (if lk \<noteq> Ptable_lock then Sl_acquire i else Sl_chan i) s)"
| "sleep_step ch lk (Sl_acquire i) s = bnd (kacquire Ptable_lock s) (\<lambda>_ s. Ret (Sl_release i) s)"
| "sleep_step ch lk (Sl_release i) s = bnd (krelease lk s) (\<lambda>_ s. Ret (Sl_chan i) s)"
| "sleep_step ch lk (Sl_chan i) s = Ret (Sl_state i) (upd_proc i (\<lambda>q. q\<lparr>chan := ch\<rparr>) s)"
| "sleep_step ch lk (Sl_state i) s = at_swtch Sl_scheduler (sched (upd_proc i (\<lambda>q. q\<lparr>state := SLEEPING\<rparr>) s))"
| "sleep_step ch lk Sl_scheduler s = bnd (scheduler_round_resume s) (\<lambda>_ s. Ret Away s)"
| "sleep_step ch lk Wk_acquire s = bnd (kacquire Ptable_lock s) (\<lambda>_ s. Ret Wk_scan s)"
| "sleep_step ch lk Wk_scan s = Ret Wk_release (wakeup1 ch s)"
| "sleep_step ch lk Wk_release s = bnd (krelease Ptable_lock s) (\<lambda>_ s. Ret Inside_lk s)"
| "sleep_step ch lk Away s = Ret Away s"
| "sleep_step ch lk Inside_lk s = Ret Inside_lk s"

text \<open>One processor alone: \<open>sleep\<close> up to the switch, \<open>wakeup\<close> up to its return.\<close>

primrec sleep_alone :: "nat \<Rightarrow> chan option \<Rightarrow> lockid \<Rightarrow> sleep_pc \<Rightarrow> kstate \<Rightarrow> (kstate, unit) outcome" where
  "sleep_alone 0 ch lk pc s = Spin"
| "sleep_alone (Suc n) ch lk pc s =
     (if pc = Sl_scheduler then Swtch s else if pc = Inside_lk then Ret () s
      else bnd (sleep_step ch lk pc s) (sleep_alone n ch lk))"

lemma at_swtch_sched: "bnd (at_swtch Sl_scheduler (sched s)) (sleep_alone (Suc n) ch lk) = sched s"
proof -
  have "sched s \<noteq> Ret () t" for t :: kstate
    by (auto simp: sched_def deref_def bnd_Ret_iff split: if_splits option.splits)
  then show ?thesis by (cases "sched s :: (kstate, unit) outcome") auto
qed

lemma sleep_alone_chan:
  "sleep_alone (Suc (Suc (Suc n))) ch lk (Sl_chan i) s =
     sched (upd_proc i (\<lambda>q. q\<lparr>state := SLEEPING\<rparr>) (upd_proc i (\<lambda>q. q\<lparr>chan := ch\<rparr>) s))"
  using at_swtch_sched [where n = n and ch = ch and lk = lk] by (simp del: sleep_alone.simps(2) add: sleep_alone.simps(2) [of "Suc (Suc n)"]
    sleep_alone.simps(2) [of "Suc n" _ _ "Sl_state _"])

lemma sleep_is_run: "sleep_alone (Suc (Suc (Suc (Suc (Suc (Suc n)))))) ch lk Sl_call s = sleep ch lk s"
proof -
  note unf = sleep_alone.simps(2)
  have r: "sleep_alone (Suc (Suc (Suc (Suc (Suc n))))) ch lk (Sl_acquire i) t =
      bnd (bnd (kacquire Ptable_lock t) (\<lambda>_ s. krelease lk s))
        (\<lambda>_ s. sched (upd_proc i (\<lambda>q. q\<lparr>state := SLEEPING\<rparr>) (upd_proc i (\<lambda>q. q\<lparr>chan := ch\<rparr>) s)))" for i t
    by (simp add: unf [of "Suc (Suc (Suc (Suc n)))" _ _ "Sl_acquire _"] unf [of "Suc (Suc (Suc n))" _ _ "Sl_release _"]
        sleep_alone_chan bnd_assoc del: sleep_alone.simps)
  have "bnd (case p of None \<Rightarrow> Panic ''sleep''
     | Some i \<Rightarrow> Ret (if lk \<noteq> Ptable_lock then Sl_acquire i else Sl_chan i) t) (sleep_alone (Suc (Suc (Suc (Suc (Suc n))))) ch lk)
    = (case p of None \<Rightarrow> Panic ''sleep''
     | Some i \<Rightarrow>
       bnd (if lk \<noteq> Ptable_lock
            then bnd (kacquire Ptable_lock t) (\<lambda>_ s. krelease lk s)
            else Ret () t) (\<lambda>_ s.
       let s = upd_proc i (\<lambda>q. q\<lparr>chan := ch\<rparr>) s;
           s = upd_proc i (\<lambda>q. q\<lparr>state := SLEEPING\<rparr>) s
       in sched s))" for p t
    by (simp add: r sleep_alone_chan Let_def del: sleep_alone.simps split: option.split)
  then show ?thesis
    by (simp add: sleep_def bnd_assoc unf [of _ _ _ Sl_call] del: sleep_alone.simps)
qed

lemma wakeup_is_run: "sleep_alone (Suc (Suc (Suc (Suc n)))) ch lk Wk_acquire s = wakeup ch s"
  by (auto simp: wakeup_def bnd_assoc intro!: bnd_cong_fun)

section \<open>Sleepers and wakers on all processors\<close>

text \<open>
  A processor may take the lock \<open>lk\<close> of the condition, and inside it call
  \<open>sleep\<close> on the channel, if it runs a process, or \<open>wakeup\<close>, or release it
  again. Everything else in the kernel that is not the process table or a lock may change
  at any time. The last component has the processes whose last call of \<open>sleep\<close> no
  \<open>wakeup\<close> has followed: a process joins it when it calls \<open>sleep\<close>, and a
  \<open>wakeup\<close> that scans the table empties it.
\<close>

type_synonym sleep_sys = "kstate \<times> (nat \<Rightarrow> sleep_pc) \<times> nat set"

definition kon :: "nat \<Rightarrow> kstate \<Rightarrow> kstate" where
  "kon c s = s\<lparr>hw := on_cpu c (hw s)\<rparr>"

abbreviation ncpu :: "kstate \<Rightarrow> nat" where
  "ncpu s \<equiv> length (cpus (hw s))"

definition asleep_on :: "chan option \<Rightarrow> kstate \<Rightarrow> nat \<Rightarrow> bool" where
  "asleep_on ch s i \<longleftrightarrow> i < length (ptable s) \<and> state (ptable s ! i) = SLEEPING \<and> chan (ptable s ! i) = ch"

inductive sleep_next :: "chan option \<Rightarrow> lockid \<Rightarrow> sleep_sys \<Rightarrow> sleep_sys \<Rightarrow> bool" for ch lk where
  enter: "c < ncpu s \<Longrightarrow> pcs c = Away \<Longrightarrow> kacquire lk (kon c s) = Ret () t \<Longrightarrow>
    sleep_next ch lk (s, pcs, P) (t, pcs(c := Inside_lk), P)"
| leave: "c < ncpu s \<Longrightarrow> pcs c = Inside_lk \<Longrightarrow> krelease lk (kon c s) = Ret () t \<Longrightarrow>
    sleep_next ch lk (s, pcs, P) (t, pcs(c := Away), P)"
| call_sleep: "c < ncpu s \<Longrightarrow> pcs c = Inside_lk \<Longrightarrow> cpu_proc (cpus (hw s) ! c) = Some i \<Longrightarrow>
    sleep_next ch lk (s, pcs, P) (s, pcs(c := Sl_call), insert i P)"
| call_wakeup: "c < ncpu s \<Longrightarrow> pcs c = Inside_lk \<Longrightarrow>
    sleep_next ch lk (s, pcs, P) (s, pcs(c := Wk_acquire), P)"
| run: "c < ncpu s \<Longrightarrow> sleep_step ch lk (pcs c) (kon c s) = Ret pc t \<Longrightarrow>
    sleep_next ch lk (s, pcs, P) (t, pcs(c := pc), if pcs c = Wk_scan then {} else P)"
| work: "hw t = hw s \<Longrightarrow> ptable t = ptable s \<Longrightarrow> sleep_next ch lk (s, pcs, P) (t, pcs, P)"

definition sleep_start :: "kstate \<Rightarrow> bool" where
  "sleep_start s \<longleftrightarrow> lock_init (hw s)
     \<and> (\<forall>c<ncpu s. \<forall>i. cpu_proc (cpus (hw s) ! c) = Some i \<longrightarrow> i < length (ptable s))"

inductive sleep_reach :: "chan option \<Rightarrow> lockid \<Rightarrow> sleep_sys \<Rightarrow> bool" for ch lk where
  start: "sleep_start s \<Longrightarrow> sleep_reach ch lk (s, \<lambda>_. Away, {i. asleep_on ch s i})"
| step: "sleep_reach ch lk x \<Longrightarrow> sleep_next ch lk x y \<Longrightarrow> sleep_reach ch lk y"

section \<open>The invariant\<close>

fun held :: "lockid \<Rightarrow> sleep_pc \<Rightarrow> lockid set" where
  "held lk Away = {}" | "held lk Inside_lk = {lk}" | "held lk Sl_call = {lk}" | "held lk (Sl_acquire i) = {lk}"
| "held lk (Sl_release i) = {lk, Ptable_lock}" | "held lk (Sl_chan i) = {Ptable_lock}"
| "held lk (Sl_state i) = {Ptable_lock}" | "held lk Sl_scheduler = {Ptable_lock}"
| "held lk Wk_acquire = {lk}" | "held lk Wk_scan = {lk, Ptable_lock}" | "held lk Wk_release = {lk, Ptable_lock}"

definition held_by :: "lockid \<Rightarrow> (nat \<Rightarrow> sleep_pc) \<Rightarrow> (nat \<times> lockid) set" where
  "held_by lk pcs = {(c, l). l \<in> held lk (pcs c)}"

fun sleeper :: "sleep_pc \<Rightarrow> nat option \<Rightarrow> bool" where
  "sleeper Sl_call p \<longleftrightarrow> p \<noteq> None" | "sleeper (Sl_acquire i) p \<longleftrightarrow> p = Some i" | "sleeper (Sl_release i) p \<longleftrightarrow> p = Some i"
| "sleeper (Sl_chan i) p \<longleftrightarrow> p = Some i" | "sleeper (Sl_state i) p \<longleftrightarrow> p = Some i" | "sleeper _ p \<longleftrightarrow> False"

definition in_sleep :: "sleep_pc \<Rightarrow> bool" where
  "in_sleep pc \<longleftrightarrow> pc = Sl_call \<or> (\<exists>i. pc \<in> {Sl_acquire i, Sl_release i, Sl_chan i, Sl_state i})"

definition sleep_inv :: "chan option \<Rightarrow> lockid \<Rightarrow> sleep_sys \<Rightarrow> bool" where
  "sleep_inv ch lk x \<longleftrightarrow> (case x of (s, pcs, P) \<Rightarrow>
     lock_inv (hw s) (held_by lk pcs)
     \<and> (\<forall>c<ncpu s. \<forall>i. cpu_proc (cpus (hw s) ! c) = Some i \<longrightarrow> i < length (ptable s))
     \<and> (\<forall>c. in_sleep (pcs c) \<longrightarrow> sleeper (pcs c) (cpu_proc (cpus (hw s) ! c)) \<and> set_option (cpu_proc (cpus (hw s) ! c)) \<subseteq> P)
     \<and> (\<forall>i. asleep_on ch s i \<longrightarrow> i \<in> P)
     \<and> (\<forall>c i. pcs c = Wk_release \<longrightarrow> \<not> asleep_on ch s i))"

definition same_procs :: "kstate \<Rightarrow> kstate \<Rightarrow> bool" where
  "same_procs s t \<longleftrightarrow> ptable t = ptable s \<and> ncpu t = ncpu s
     \<and> (\<forall>d. cpu_proc (cpus (hw t) ! d) = cpu_proc (cpus (hw s) ! d))"

lemma cpu_proc_lock [simp]:
  "cpu_proc (cpus (push h) ! d) = cpu_proc (cpus h ! d)" "cpu_proc (cpus (pop h) ! d) = cpu_proc (cpus h ! d)"
  "cpu_proc (cpus (touch h) ! d) = cpu_proc (cpus h ! d)"
  by (simp_all add: push_def pop_def touch_def cpu_proc_upd Let_def)

lemma kon_sel [simp]: "hw (kon c s) = on_cpu c (hw s)" "ptable (kon c s) = ptable s" "(kon c s)\<lparr>hw := h\<rparr> = s\<lparr>hw := h\<rparr>"
  by (simp_all add: kon_def)

lemma lock_inv_on_cpu: "lock_inv h C \<Longrightarrow> c < length (cpus h) \<Longrightarrow> lock_inv (on_cpu c h) C"
  by (simp add: on_cpu_def lock_inv_turn)

lemma me_on_cpu: "lock_inv h C \<Longrightarrow> c < length (cpus h) \<Longrightarrow> me (on_cpu c h) = c"
  by (simp add: on_cpu_def me_turn lock_inv_def)

lemma lock_inv_depth:
  assumes "lock_inv h C" "(i, l) \<in> C"
  shows "0 < ncli (cpus h ! i)" "i < length (cpus h)" "\<not> eflags_IF h (apicid (cpus h ! i))"
proof -
  show i: "i < length (cpus h)" using assms by (auto simp: lock_inv_def)
  have "0 < card {k. (i, k) \<in> C}" using assms by (intro inside_card_remove(2)) (auto simp: lock_inv_def)
  then show "0 < ncli (cpus h ! i)" "\<not> eflags_IF h (apicid (cpus h ! i))"
    using assms(1) i by (auto simp: lock_inv_def)
qed

lemma lock_inv_unique: "lock_inv h C \<Longrightarrow> (i, l) \<in> C \<Longrightarrow> (j, l) \<in> C \<Longrightarrow> i = j"
  by (auto simp: lock_inv_def)

lemma lock_inv_locked:
  assumes "lock_inv h C" "locked (locks h l)"
  shows "\<exists>d. (d, l) \<in> C"
proof -
  have "\<forall>l. locked (locks h l) \<and> holder (locks h l) \<noteq> None \<or> locks h l = free_lock"
    and mem: "\<forall>i l. (i, l) \<in> C \<longleftrightarrow> locked (locks h l) \<and> holder (locks h l) = Some i"
    using assms(1) unfolding lock_inv_def by blast+
  then have "holder (locks h l) \<noteq> None" using assms(2) by (metis free_lock_def spinlock.select_convs(1))
  then show ?thesis using mem assms(2) by auto
qed

text \<open>Taking and giving back a lock on processor \<open>c\<close>.\<close>

lemma kacquire_cases:
  assumes inv: "lock_inv (hw s) C" and c: "c < ncpu s" and n: "(c, l) \<notin> C"
  shows "(\<exists>t. kacquire l (kon c s) = Ret () t \<and> lock_inv (hw t) (insert (c, l) C) \<and> same_procs s t)
    \<or> kacquire l (kon c s) = Spin \<and> (\<exists>d. (d, l) \<in> C)"
proof -
  let ?h = "on_cpu c (hw s)"
  have i: "lock_inv ?h C" using inv c by (rule lock_inv_on_cpu)
  have me: "me ?h = c" using inv c by (rule me_on_cpu)
  have ok: "cpu_ok ?h" using i by (rule lock_inv_cpu_ok)
  show ?thesis
  proof (cases "locked (locks ?h l)")
    case True
    have "holder (locks ?h l) \<noteq> Some c" using i n True by (auto simp: lock_inv_def)
    moreover obtain d where "(d, l) \<in> C" using lock_inv_locked [OF i True] by blast
    ultimately show ?thesis using acquire_held [OF ok True] me by (auto simp: kacquire_def)
  next
    case False
    then have a: "acquire l ?h = Ret () (lock_in l ?h)" by (rule acquire_free [OF ok])
    then show ?thesis using lock_inv_acquire [OF i a] me by (simp add: kacquire_def same_procs_def) (simp add: lock_in_def)
  qed
qed

lemma krelease_effect:
  assumes inv: "lock_inv (hw s) C" and c: "(c, l) \<in> C"
  shows "\<exists>t. krelease l (kon c s) = Ret () t \<and> lock_inv (hw t) (C - {(c, l)}) \<and> same_procs s t"
proof -
  let ?h = "on_cpu c (hw s)"
  note d = lock_inv_depth [OF inv c]
  have i: "lock_inv ?h C" using inv d(2) by (rule lock_inv_on_cpu)
  have me: "me ?h = c" using inv d(2) by (rule me_on_cpu)
  have ok: "cpu_ok ?h" using i by (rule lock_inv_cpu_ok)
  have "locked (locks ?h l)" "holder (locks ?h l) = Some (me ?h)" "0 < ncli (cpus ?h ! me ?h)"
    using i c d me by (auto simp: lock_inv_def)
  then have r: "release l ?h = Ret () (lock_out l ?h)" by (rule release_held [OF ok])
  then show ?thesis using lock_inv_release [OF i r] me
    by (simp add: krelease_def same_procs_def) (simp add: lock_out_def pop_sel)
qed

lemma held_by_upd:
  "held lk pc = insert l (held lk (pcs c)) \<Longrightarrow> held_by lk (pcs(c := pc)) = insert (c, l) (held_by lk pcs)"
  "held lk pc = held lk (pcs c) - {l} \<Longrightarrow> held_by lk (pcs(c := pc)) = held_by lk pcs - {(c, l)}"
  "held lk pc = held lk (pcs c) \<Longrightarrow> held_by lk (pcs(c := pc)) = held_by lk pcs"
proof -
  have m: "x \<in> held_by lk (pcs(c := pc)) \<longleftrightarrow> (if fst x = c then snd x \<in> held lk pc else x \<in> held_by lk pcs)"
    "x \<in> held_by lk pcs \<longleftrightarrow> snd x \<in> held lk (pcs (fst x))" for x
    by (auto simp: held_by_def)
  show "held lk pc = insert l (held lk (pcs c)) \<Longrightarrow> held_by lk (pcs(c := pc)) = insert (c, l) (held_by lk pcs)"
    "held lk pc = held lk (pcs c) - {l} \<Longrightarrow> held_by lk (pcs(c := pc)) = held_by lk pcs - {(c, l)}"
    "held lk pc = held lk (pcs c) \<Longrightarrow> held_by lk (pcs(c := pc)) = held_by lk pcs"
    unfolding set_eq_iff m by (auto simp: m)
qed

lemma same_procs_D:
  "same_procs s t \<Longrightarrow> ptable t = ptable s \<and> ncpu t = ncpu s \<and> cpu_proc (cpus (hw t) ! d) = cpu_proc (cpus (hw s) ! d)"
  "same_procs s t \<Longrightarrow> asleep_on ch t = asleep_on ch s"
  by (simp_all add: same_procs_def asleep_on_def fun_eq_iff)

lemma lock_inv_upd_proc:
  assumes "lock_inv h C" "c < length (cpus h)"
  shows "lock_inv (upd_cpu c (\<lambda>x. x\<lparr>cpu_proc := p\<rparr>) h) C"
proof -
  let ?h = "upd_cpu c (\<lambda>x. x\<lparr>cpu_proc := p\<rparr>) h"
  have "ncli (cpus ?h ! d) = ncli (cpus h ! d)" "apicid (cpus ?h ! d) = apicid (cpus h ! d)" for d
    using assms(2) by (cases "d = c"; simp add: upd_cpu_def)+
  then show ?thesis using assms by (simp add: lock_inv_def apicids_upd_cpu)
qed

text \<open>The two places where the process table is left to the scheduler and given back.\<close>

lemma sched_switches:
  assumes inv: "lock_inv (hw s) (held_by lk pcs)" and c: "c < ncpu s" "held lk (pcs c) = {Ptable_lock}"
    and p: "cpu_proc (cpus (hw s) ! c) = Some i" "state (ptable s ! i) \<noteq> RUNNING"
  shows "sched (kon c s) = Swtch (kon c s)"
proof -
  let ?h = "on_cpu c (hw s)"
  have i: "lock_inv ?h (held_by lk pcs)" and me: "me ?h = c"
    using inv c(1) by (rule lock_inv_on_cpu, rule me_on_cpu)
  have ok: "cpu_ok ?h" using i by (rule lock_inv_cpu_ok)
  have mem: "(c, Ptable_lock) \<in> held_by lk pcs" "{l. (c, l) \<in> held_by lk pcs} = {Ptable_lock}"
    using c(2) by (auto simp: held_by_def)
  then have n: "ncli (cpus ?h ! c) = 1" using i c(1) mem(2) by (simp add: lock_inv_def)
  have t: "touch ?h = ?h" using n me by (simp add: touch_nested)
  have off: "\<not> readeflags ?h" using ok n me by (simp add: cpu_ok_def)
  have held: "locked (locks ?h Ptable_lock)" "holder (locks ?h Ptable_lock) = Some c"
    using i mem(1) by (auto simp: lock_inv_def)
  have k: "s\<lparr>hw := ?h\<rparr> = kon c s" by (simp add: kon_def)
  have "cur ?h = Some i" using p me by (simp add: cur_def)
  then have "myproc (kon c s) = Ret (Some i) (kon c s)" using myproc_ok [of "kon c s"] ok by (simp add: t k)
  moreover have "kholding Ptable_lock (kon c s) = Ret True (kon c s)"
    using kholding_ok [of "kon c s" Ptable_lock] ok me held by (simp add: t k)
  moreover have "kmycpu (kon c s) = Ret c (kon c s)" using kmycpu_off [of "kon c s"] me off c(1) by simp
  ultimately show ?thesis using n off p by (simp add: sched_def deref_def)
qed

lemma scheduler_gives_back:
  assumes inv: "lock_inv (hw s) C" and c: "(c, Ptable_lock) \<in> C"
  shows "\<exists>t. scheduler_round_resume (kon c s) = Ret () t \<and> lock_inv (hw t) (C - {(c, Ptable_lock)})
    \<and> ptable t = ptable s \<and> ncpu t = ncpu s
    \<and> (\<forall>d. cpu_proc (cpus (hw t) ! d) = (if d = c then None else cpu_proc (cpus (hw s) ! d)))"
proof -
  note d = lock_inv_depth [OF inv c]
  let ?u = "\<lambda>x. x\<lparr>cpu_proc := None\<rparr>"
  let ?s = "(switchkvm s)\<lparr>hw := upd_cpu c ?u (hw s)\<rparr>"
  have me: "me (on_cpu c (hw s)) = c" using inv d(2) by (rule me_on_cpu)
  have "\<not> readeflags (on_cpu c (hw s))" using d(3) by (simp add: readeflags_def)
  then have m: "kmycpu (switchkvm (kon c s)) = Ret c (switchkvm (kon c s))"
    using me d(2) kmycpu_off [of "switchkvm (kon c s)"] by (simp add: switchkvm_def)
  have k: "kupd_cpu c ?u (switchkvm (kon c s)) = kon c ?s"
    using d(2) by (simp add: kupd_cpu_def switchkvm_def kon_def on_cpu_def upd_cpu_def)
  have "lock_inv (hw ?s) C" using inv d(2) by (simp add: lock_inv_upd_proc)
  from krelease_effect [OF this c] obtain t where
    "krelease Ptable_lock (kon c ?s) = Ret () t" "lock_inv (hw t) (C - {(c, Ptable_lock)})" "same_procs ?s t" by blast
  moreover have "scheduler_round_resume (kon c s) = krelease Ptable_lock (kon c ?s)"
    by (simp add: scheduler_round_resume_def m k Let_def)
  moreover have "cpu_proc (cpus (upd_cpu c ?u (hw s)) ! e) = (if e = c then None else cpu_proc (cpus (hw s) ! e))" for e
    using d(2) by (simp add: upd_cpu_def)
  ultimately show ?thesis by (simp add: same_procs_def switchkvm_def)
qed

lemma sleep_invD:
  assumes "sleep_inv ch lk (s, pcs, P)"
  shows "lock_inv (hw s) (held_by lk pcs)"
    "c < ncpu s \<Longrightarrow> cpu_proc (cpus (hw s) ! c) = Some i \<Longrightarrow> i < length (ptable s)"
    "in_sleep (pcs c) \<Longrightarrow> sleeper (pcs c) (cpu_proc (cpus (hw s) ! c)) \<and> set_option (cpu_proc (cpus (hw s) ! c)) \<subseteq> P"
    "asleep_on ch s i \<Longrightarrow> i \<in> P" "pcs c = Wk_release \<Longrightarrow> \<not> asleep_on ch s i"
  using assms unfolding sleep_inv_def by blast+

lemma sleep_inv_alone:
  assumes "sleep_inv ch lk (s, pcs, P)" "l \<in> held lk (pcs c)" "l \<in> held lk (pcs d)"
  shows "d = c"
  using lock_inv_unique [OF sleep_invD(1) [OF assms(1)], of d l c] assms(2,3) by (simp add: held_by_def)

text \<open>
  A step that changes the table at most in the entry of a process that is in \<open>sleep\<close>.
\<close>

lemma sleep_inv_move:
  assumes inv: "sleep_inv ch lk (s, pcs, P)"
    and t: "lock_inv (hw t) (held_by lk (pcs(c := pc)))" "length (ptable t) = length (ptable s)" "ncpu t = ncpu s"
    and p: "\<And>d. d \<noteq> c \<Longrightarrow> cpu_proc (cpus (hw t) ! d) = cpu_proc (cpus (hw s) ! d)"
      "cpu_proc (cpus (hw t) ! c) \<in> {None, cpu_proc (cpus (hw s) ! c)}"
    and a: "\<And>i. asleep_on ch t i \<Longrightarrow> asleep_on ch s i \<or> i \<in> P \<and> Ptable_lock \<in> held lk (pcs c)"
    and pc: "in_sleep pc \<Longrightarrow> sleeper pc (cpu_proc (cpus (hw t) ! c)) \<and> set_option (cpu_proc (cpus (hw t) ! c)) \<subseteq> P"
      "pc \<noteq> Wk_release"
  shows "sleep_inv ch lk (t, pcs(c := pc), P)"
proof -
  have "i < length (ptable t)" if "d < ncpu t" "cpu_proc (cpus (hw t) ! d) = Some i" for d i
    using that t(2,3) p(1) [of d] p(2) sleep_invD(2) [OF inv, of d i] by (cases "d = c") auto
  moreover have "sleeper ((pcs(c := pc)) d) (cpu_proc (cpus (hw t) ! d)) \<and> set_option (cpu_proc (cpus (hw t) ! d)) \<subseteq> P"
    if "in_sleep ((pcs(c := pc)) d)" for d
    using that pc(1) p(1) [of d] sleep_invD(3) [OF inv, of d] by (cases "d = c") simp_all
  moreover have "i \<in> P" if "asleep_on ch t i" for i using a [OF that] sleep_invD(4) [OF inv] by blast
  moreover have "\<not> asleep_on ch t i" if "(pcs(c := pc)) d = Wk_release" for d i
    using a [of i] sleep_invD(5) [OF inv, of d i] sleep_inv_alone [OF inv, of Ptable_lock c d] that pc(2)
    by (cases "d = c") auto
  ultimately show ?thesis using t(1) unfolding sleep_inv_def by blast
qed

lemma sleep_inv_locks:
  assumes "sleep_inv ch lk (s, pcs, P)" "same_procs s t" "lock_inv (hw t) (held_by lk (pcs(c := pc)))"
    "in_sleep pc \<Longrightarrow> sleeper pc (cpu_proc (cpus (hw s) ! c)) \<and> set_option (cpu_proc (cpus (hw s) ! c)) \<subseteq> P"
    "pc \<noteq> Wk_release"
  shows "sleep_inv ch lk (t, pcs(c := pc), P)"
  using assms by (intro sleep_inv_move [OF assms(1,3)]) (simp_all add: same_procs_D)

subsection \<open>Each step keeps it\<close>

definition step_good :: "chan option \<Rightarrow> lockid \<Rightarrow> sleep_sys \<Rightarrow> nat \<Rightarrow> (kstate, sleep_pc) outcome \<Rightarrow> bool" where
  "step_good ch lk x c m \<longleftrightarrow> (case x of (s, pcs, P) \<Rightarrow>
     (\<exists>pc t. m = Ret pc t \<and> sleep_inv ch lk (t, pcs(c := pc), if pcs c = Wk_scan then {} else P))
   \<or> m = Spin \<and> (pcs c = Wk_acquire \<or> (\<exists>i. pcs c = Sl_acquire i)) \<and> (\<exists>d. (d, Ptable_lock) \<in> held_by lk pcs))"

lemma step_good_Ret:
  "sleep_inv ch lk (t, pcs(c := pc), P) \<Longrightarrow> pcs c \<noteq> Wk_scan \<Longrightarrow> step_good ch lk (s, pcs, P) c (Ret pc t)"
  by (simp add: step_good_def)

lemma same_procs_kon: "same_procs s (kon c s)"
  by (simp add: same_procs_def)

lemma in_sleep_simps [simp]:
  "in_sleep Sl_call" "in_sleep (Sl_acquire i)" "in_sleep (Sl_release i)" "in_sleep (Sl_chan i)" "in_sleep (Sl_state i)"
  "\<not> in_sleep Away" "\<not> in_sleep Inside_lk" "\<not> in_sleep Sl_scheduler" "\<not> in_sleep Wk_acquire" "\<not> in_sleep Wk_scan"
  "\<not> in_sleep Wk_release"
  by (simp_all add: in_sleep_def)

lemma step_acquire:
  assumes inv: "sleep_inv ch lk (s, pcs, P)" and c: "c < ncpu s" and lk: "lk \<noteq> Ptable_lock"
    and pcs: "(pcs c, pc) = (Wk_acquire, Wk_scan) \<or> (\<exists>i. (pcs c, pc) = (Sl_acquire i, Sl_release i))"
  shows "step_good ch lk (s, pcs, P) c (bnd (kacquire Ptable_lock (kon c s)) (\<lambda>_ s. Ret pc s))"
proof -
  have n: "(c, Ptable_lock) \<notin> held_by lk pcs" using pcs lk by (auto simp: held_by_def)
  have h: "held_by lk (pcs(c := pc)) = insert (c, Ptable_lock) (held_by lk pcs)"
    using pcs by (intro held_by_upd(1)) auto
  have p: "in_sleep pc \<Longrightarrow> sleeper pc (cpu_proc (cpus (hw s) ! c)) \<and> set_option (cpu_proc (cpus (hw s) ! c)) \<subseteq> P"
    using pcs sleep_invD(3) [OF inv, of c] by auto
  have ne: "pc \<noteq> Wk_release" "pcs c \<noteq> Wk_scan" "pcs c = Wk_acquire \<or> (\<exists>i. pcs c = Sl_acquire i)" using pcs by auto
  from kacquire_cases [OF sleep_invD(1) [OF inv] c n] show ?thesis
  proof (elim disjE exE conjE)
    fix t
    assume "kacquire Ptable_lock (kon c s) = Ret () t" "lock_inv (hw t) (insert (c, Ptable_lock) (held_by lk pcs))" "same_procs s t"
    then show ?thesis using sleep_inv_locks [OF inv _ _ p ne(1)] ne h by (simp add: step_good_Ret)
  qed (use ne in \<open>auto simp: step_good_def\<close>)
qed

lemma step_release:
  assumes inv: "sleep_inv ch lk (s, pcs, P)" and l: "l \<in> held lk (pcs c)" "held lk pc = held lk (pcs c) - {l}"
    and p: "in_sleep pc \<Longrightarrow> sleeper pc (cpu_proc (cpus (hw s) ! c)) \<and> set_option (cpu_proc (cpus (hw s) ! c)) \<subseteq> P"
      "pc \<noteq> Wk_release"
  shows "\<exists>t. krelease l (kon c s) = Ret () t \<and> sleep_inv ch lk (t, pcs(c := pc), P)"
proof -
  have "(c, l) \<in> held_by lk pcs" using l(1) by (simp add: held_by_def)
  from krelease_effect [OF sleep_invD(1) [OF inv] this] show ?thesis
    using sleep_inv_locks [OF inv _ _ p] held_by_upd(2) [of lk pc pcs c l] l(2) by auto
qed

lemma asleep_upd_proc:
  "asleep_on ch (upd_proc i f (kon c s)) j \<Longrightarrow> asleep_on ch s j \<or> j = i"
  by (cases "j = i") (simp_all add: asleep_on_def)

lemma step_mark:
  assumes inv: "sleep_inv ch lk (s, pcs, P)" and c: "c < ncpu s" and pcs: "pcs c = Sl_chan i \<or> pcs c = Sl_state i"
    and pc: "pc = Sl_state i \<or> pc = Sl_scheduler"
  shows "sleep_inv ch lk (upd_proc i f (kon c s), pcs(c := pc), P)"
proof -
  have held: "held lk (pcs c) = {Ptable_lock}" "held lk pc = held lk (pcs c)" using pcs pc by auto
  have p: "cpu_proc (cpus (hw s) ! c) = Some i" "i \<in> P" using sleep_invD(3) [OF inv, of c] pcs by auto
  have "lock_inv (on_cpu c (hw s)) (held_by lk (pcs(c := pc)))"
    using lock_inv_on_cpu [OF sleep_invD(1) [OF inv] c] held_by_upd(3) [of lk pc pcs c] held(2) by simp
  moreover have "asleep_on ch s j \<or> j \<in> P \<and> Ptable_lock \<in> held lk (pcs c)"
    if "asleep_on ch (upd_proc i f (kon c s)) j" for j
    using asleep_upd_proc [OF that] p held by blast
  ultimately show ?thesis using p pc by (intro sleep_inv_move [OF inv]) (simp_all, fastforce+)
qed

lemma step_scan:
  assumes inv: "sleep_inv ch lk (s, pcs, P)" and c: "c < ncpu s" and pcs: "pcs c = Wk_scan"
  shows "sleep_inv ch lk (wakeup1 ch (kon c s), pcs(c := Wk_release), {})"
proof -
  let ?t = "wakeup1 ch (kon c s)"
  have "held_by lk (pcs(c := Wk_release)) = held_by lk pcs" using pcs by (intro held_by_upd(3)) simp
  then have "lock_inv (hw ?t) (held_by lk (pcs(c := Wk_release)))"
    using lock_inv_on_cpu [OF sleep_invD(1) [OF inv] c] by (simp add: wakeup1_def)
  moreover have "\<not> asleep_on ch ?t i" for i by (auto simp: asleep_on_def wakeup1_def)
  moreover have "\<not> in_sleep ((pcs(c := Wk_release)) d)" for d
  proof (cases "d = c")
    case False
    then have "lk \<notin> held lk (pcs d)" "Ptable_lock \<notin> held lk (pcs d)"
      using sleep_inv_alone [OF inv, of _ c d] pcs by auto
    then show ?thesis using False by (cases "pcs d") auto
  qed simp
  moreover have "\<forall>d<ncpu ?t. \<forall>i. cpu_proc (cpus (hw ?t) ! d) = Some i \<longrightarrow> i < length (ptable ?t)"
    using sleep_invD(2) [OF inv] by (simp add: wakeup1_def)
  ultimately show ?thesis unfolding sleep_inv_def by blast
qed

lemma step_call:
  assumes inv: "sleep_inv ch lk (s, pcs, P)" and c: "c < ncpu s" and lk: "lk \<noteq> Ptable_lock" and pcs: "pcs c = Sl_call"
  shows "step_good ch lk (s, pcs, P) c (sleep_step ch lk Sl_call (kon c s))"
proof -
  let ?h = "on_cpu c (hw s)"
  note li = sleep_invD(1) [OF inv]
  have i: "lock_inv ?h (held_by lk pcs)" and me: "me ?h = c"
    using li c by (rule lock_inv_on_cpu, rule me_on_cpu)
  have "(c, lk) \<in> held_by lk pcs" using pcs by (simp add: held_by_def)
  then have t: "touch ?h = ?h" using lock_inv_depth(1) [OF i] me by (intro touch_nested) fastforce
  obtain p where p: "cpu_proc (cpus (hw s) ! c) = Some p" "p \<in> P"
    using sleep_invD(3) [OF inv, of c] pcs by auto
  have "myproc (kon c s) = Ret (Some p) (kon c s)"
    using myproc_ok [of "kon c s"] lock_inv_cpu_ok [OF i] p me by (simp add: t cur_def) (simp add: kon_def)
  moreover have "lock_inv (hw (kon c s)) (held_by lk (pcs(c := Sl_acquire p)))"
    using i held_by_upd(3) [of lk "Sl_acquire p" pcs c] pcs by simp
  then have "sleep_inv ch lk (kon c s, pcs(c := Sl_acquire p), P)"
    using p by (intro sleep_inv_locks [OF inv same_procs_kon]) auto
  ultimately show ?thesis using lk pcs by (simp add: step_good_Ret)
qed

lemma sleep_step_good:
  assumes inv: "sleep_inv ch lk (s, pcs, P)" and c: "c < ncpu s" and lk: "lk \<noteq> Ptable_lock"
  shows "step_good ch lk (s, pcs, P) c (sleep_step ch lk (pcs c) (kon c s))"
proof -
  have stay: "step_good ch lk (s, pcs, P) c (Ret (pcs c) (kon c s))" if "\<not> in_sleep (pcs c)" "pcs c \<notin> {Wk_release, Wk_scan}"
  proof -
    have "lock_inv (hw (kon c s)) (held_by lk (pcs(c := pcs c)))"
      using lock_inv_on_cpu [OF sleep_invD(1) [OF inv] c] by simp
    then have "sleep_inv ch lk (kon c s, pcs(c := pcs c), P)"
      using that by (intro sleep_inv_locks [OF inv same_procs_kon]) auto
    then show ?thesis using that by (intro step_good_Ret) auto
  qed
  show ?thesis
  proof (cases "pcs c")
    case Sl_call
    then show ?thesis using step_call [OF inv c lk] by simp
  next
    case (Sl_acquire i)
    then show ?thesis using step_acquire [OF inv c lk] by simp
  next
    case (Sl_release i)
    then obtain t where "krelease lk (kon c s) = Ret () t" "sleep_inv ch lk (t, pcs(c := Sl_chan i), P)"
      using step_release [OF inv, of lk c "Sl_chan i"] sleep_invD(3) [OF inv, of c] lk by auto
    then show ?thesis using Sl_release by (simp add: step_good_Ret)
  next
    case (Sl_chan i)
    then show ?thesis using step_mark [OF inv c, of i "Sl_state i"] by (simp add: step_good_Ret)
  next
    case (Sl_state i)
    then have p: "cpu_proc (cpus (hw s) ! c) = Some i" using sleep_invD(3) [OF inv, of c] by auto
    let ?s = "upd_proc i (\<lambda>q. q\<lparr>state := SLEEPING\<rparr>) s"
    have "i < length (ptable s)" by (rule sleep_invD(2) [OF inv c p])
    then have "sched (kon c ?s) = (Swtch (kon c ?s) :: (kstate, unit) outcome)"
      using sleep_invD(1) [OF inv] c Sl_state p by (intro sched_switches [of _ lk pcs c i]) auto
    then show ?thesis using Sl_state step_mark [OF inv c, of i Sl_scheduler] by (simp add: step_good_Ret kon_def)
  next
    case Sl_scheduler
    then have "(c, Ptable_lock) \<in> held_by lk pcs" "held_by lk (pcs(c := Away)) = held_by lk pcs - {(c, Ptable_lock)}"
      using held_by_upd(2) [of lk Away pcs c Ptable_lock] by (simp_all add: held_by_def [of lk pcs])
    with scheduler_gives_back [OF sleep_invD(1) [OF inv]] obtain t where
      t: "scheduler_round_resume (kon c s) = Ret () t" "lock_inv (hw t) (held_by lk (pcs(c := Away)))"
        "ptable t = ptable s" "ncpu t = ncpu s"
        "\<forall>d. cpu_proc (cpus (hw t) ! d) = (if d = c then None else cpu_proc (cpus (hw s) ! d))" by metis
    then have "sleep_inv ch lk (t, pcs(c := Away), P)"
      by (intro sleep_inv_move [OF inv]) (auto simp: asleep_on_def)
    then show ?thesis using Sl_scheduler t(1) by (simp add: step_good_Ret)
  next
    case Wk_acquire
    then show ?thesis using step_acquire [OF inv c lk] by simp
  next
    case Wk_scan
    then show ?thesis using step_scan [OF inv c] by (simp add: step_good_def)
  next
    case Wk_release
    then obtain t where "krelease Ptable_lock (kon c s) = Ret () t" "sleep_inv ch lk (t, pcs(c := Inside_lk), P)"
      using step_release [OF inv, of Ptable_lock c Inside_lk] lk by auto
    then show ?thesis using Wk_release by (simp add: step_good_Ret)
  qed (use stay in auto)
qed

lemma sleep_inv_mono: "sleep_inv ch lk (s, pcs, P) \<Longrightarrow> P \<subseteq> Q \<Longrightarrow> sleep_inv ch lk (s, pcs, Q)"
  unfolding sleep_inv_def by blast

lemma sleep_inv_next:
  assumes "sleep_next ch lk x y" "sleep_inv ch lk x" "lk \<noteq> Ptable_lock"
  shows "sleep_inv ch lk y"
  using assms
proof (induction rule: sleep_next.induct)
  case (enter c s pcs t P)
  note inv = enter.prems(1)
  have "(c, lk) \<notin> held_by lk pcs" using enter by (simp add: held_by_def)
  from kacquire_cases [OF sleep_invD(1) [OF inv] enter(1) this]
  have t: "lock_inv (hw t) (insert (c, lk) (held_by lk pcs))" "same_procs s t" using enter(3) by auto
  have "held_by lk (pcs(c := Inside_lk)) = insert (c, lk) (held_by lk pcs)"
    using enter(2) by (intro held_by_upd(1)) simp
  with t show ?case by (intro sleep_inv_locks [OF inv]) auto
next
  case (leave c s pcs t P)
  then show ?case using step_release [OF leave.prems(1), of lk c Away] by auto
next
  case (call_sleep c s pcs i P)
  note inv = sleep_inv_mono [OF call_sleep.prems(1), of "insert i P"]
  have "lock_inv (hw s) (held_by lk (pcs(c := Sl_call)))"
    using sleep_invD(1) [OF call_sleep.prems(1)] held_by_upd(3) [of lk Sl_call pcs c] call_sleep(2) by simp
  then show ?case using call_sleep(3) by (intro sleep_inv_locks [OF inv]) (auto simp: same_procs_def)
next
  case (call_wakeup c s pcs P)
  have "lock_inv (hw s) (held_by lk (pcs(c := Wk_acquire)))"
    using sleep_invD(1) [OF call_wakeup.prems(1)] held_by_upd(3) [of lk Wk_acquire pcs c] call_wakeup(2) by simp
  then show ?case by (intro sleep_inv_locks [OF call_wakeup.prems(1)]) (auto simp: same_procs_def)
next
  case (run c s pcs pc t P)
  then show ?case using sleep_step_good [OF run.prems(1) run(1) run.prems(2)] by (simp add: step_good_def)
next
  case (work t s pcs P)
  then show ?case by (simp add: sleep_inv_def asleep_on_def)
qed

lemma sleep_inv_start: "sleep_start s \<Longrightarrow> sleep_inv ch lk (s, \<lambda>_. Away, {i. asleep_on ch s i})"
  using lock_inv_init [of "hw s"] by (auto simp: sleep_start_def sleep_inv_def held_by_def)

lemma sleep_reach_inv: "sleep_reach ch lk x \<Longrightarrow> lk \<noteq> Ptable_lock \<Longrightarrow> sleep_inv ch lk x"
  by (induction rule: sleep_reach.induct) (auto intro: sleep_inv_start sleep_inv_next)

section \<open>Properties\<close>

text \<open>
  C4: A wakeup is not lost. Any number of processors take the lock of a condition and,
  inside it, call \<open>sleep\<close> on a channel or \<open>wakeup\<close> for it, in any
  interleaving of their steps. A process is then asleep on the channel only if no
  \<open>wakeup\<close> has scanned the table since the process called \<open>sleep\<close>, so a
  \<open>wakeup\<close> that comes between the call and the switch is not missed; while a
  \<open>wakeup\<close> that has scanned still holds the table nobody is asleep on the channel.
  No step panics, and one that waits for the table's lock waits for another processor
  that can go on.
\<close>

theorem sleep_wakeup_not_lost:
  assumes "lk \<noteq> Ptable_lock" "sleep_reach ch lk (s, pcs, P)"
  shows "(\<forall>i. asleep_on ch s i \<longrightarrow> i \<in> P)
    \<and> (\<forall>c i. pcs c = Wk_release \<longrightarrow> \<not> asleep_on ch s i)
    \<and> (\<forall>c<ncpu s. case sleep_step ch lk (pcs c) (kon c s) of
         Ret _ _ \<Rightarrow> True
       | Spin \<Rightarrow> \<exists>d<ncpu s. d \<noteq> c \<and> Ptable_lock \<in> held lk (pcs d)
           \<and> (\<exists>pc t. sleep_step ch lk (pcs d) (kon d s) = Ret pc t)
       | _ \<Rightarrow> False)"
proof -
  have inv: "sleep_inv ch lk (s, pcs, P)" using assms sleep_reach_inv by blast
  note good = sleep_step_good [OF inv _ assms(1), unfolded step_good_def prod.case]
  have "case sleep_step ch lk (pcs c) (kon c s) of Ret _ _ \<Rightarrow> True
       | Spin \<Rightarrow> \<exists>d<ncpu s. d \<noteq> c \<and> Ptable_lock \<in> held lk (pcs d)
           \<and> (\<exists>pc t. sleep_step ch lk (pcs d) (kon d s) = Ret pc t)
       | _ \<Rightarrow> False" (is "?goal c") if c: "c < ncpu s" for c
  proof -
    consider (ret) pc t where "sleep_step ch lk (pcs c) (kon c s) = Ret pc t"
      | (spin) d where "sleep_step ch lk (pcs c) (kon c s) = Spin" "(d, Ptable_lock) \<in> held_by lk pcs"
          "pcs c = Wk_acquire \<or> (\<exists>i. pcs c = Sl_acquire i)" using good [OF c] by blast
    then show "?goal c"
    proof cases
      case spin
    have d: "d < ncpu s" "Ptable_lock \<in> held lk (pcs d)"
      using lock_inv_depth(2) [OF sleep_invD(1) [OF inv] spin(2)] spin(2) by (auto simp: held_by_def)
    then have "pcs d \<noteq> Wk_acquire" "pcs d \<noteq> Sl_acquire i" for i using assms(1) by auto
    then have "\<exists>pc t. sleep_step ch lk (pcs d) (kon d s) = Ret pc t" "d \<noteq> c" using good [OF d(1)] spin(3) by auto
      then show ?thesis using spin(1) d by auto
    qed simp
  qed
  then show ?thesis using sleep_invD(4,5) [OF inv] by blast
qed

text \<open>
  A given interleaving can be run. Here process 2 calls \<open>sleep\<close> on the first
  processor, and the second calls \<open>wakeup\<close> as soon as it gets the lock, before the
  process is marked asleep.
\<close>

datatype sleep_action = Enter | Sleep | Wake | Step

fun sleep_move :: "chan option \<Rightarrow> lockid \<Rightarrow> nat \<times> sleep_action \<Rightarrow> sleep_sys \<Rightarrow> sleep_sys option" where
  "sleep_move ch lk (c, Enter) (s, pcs, P) =
     (if c < ncpu s \<and> pcs c = Away
      then case kacquire lk (kon c s) of Ret _ t \<Rightarrow> Some (t, pcs(c := Inside_lk), P) | _ \<Rightarrow> None else None)"
| "sleep_move ch lk (c, Sleep) (s, pcs, P) =
     (if c < ncpu s \<and> pcs c = Inside_lk
      then case cpu_proc (cpus (hw s) ! c) of Some i \<Rightarrow> Some (s, pcs(c := Sl_call), insert i P) | None \<Rightarrow> None else None)"
| "sleep_move ch lk (c, Wake) (s, pcs, P) =
     (if c < ncpu s \<and> pcs c = Inside_lk then Some (s, pcs(c := Wk_acquire), P) else None)"
| "sleep_move ch lk (c, Step) (s, pcs, P) =
     (if c < ncpu s
      then case sleep_step ch lk (pcs c) (kon c s) of
             Ret pc t \<Rightarrow> Some (t, pcs(c := pc), if pcs c = Wk_scan then {} else P) | _ \<Rightarrow> None
      else None)"

primrec sleep_moves :: "chan option \<Rightarrow> lockid \<Rightarrow> (nat \<times> sleep_action) list \<Rightarrow> sleep_sys \<Rightarrow> sleep_sys option" where
  "sleep_moves ch lk [] x = Some x"
| "sleep_moves ch lk (m # ms) x =
     (case sleep_move ch lk m x of Some y \<Rightarrow> sleep_moves ch lk ms y | None \<Rightarrow> None)"

lemma sleep_move_next: "sleep_move ch lk m x = Some y \<Longrightarrow> sleep_next ch lk x y"
proof (induction ch lk m x rule: sleep_move.induct)
  case (4 ch lk c s pcs P)
  then obtain pc t where c: "c < ncpu s" and t: "sleep_step ch lk (pcs c) (kon c s) = Ret pc t"
    and y: "y = (t, pcs(c := pc), if pcs c = Wk_scan then {} else P)"
    by (auto split: if_splits outcome.splits)
  show ?case unfolding y using c t by (rule sleep_next.run)
qed (auto split: if_splits option.splits outcome.splits intro: sleep_next.intros)

lemma sleep_moves_reach: "sleep_reach ch lk x \<Longrightarrow> sleep_moves ch lk ms x = Some y \<Longrightarrow> sleep_reach ch lk y"
proof (induction ms arbitrary: x)
  case (Cons m ms)
  then obtain z where "sleep_move ch lk m x = Some z" "sleep_moves ch lk ms z = Some y"
    by (auto split: option.splits)
  then show ?case using Cons sleep_move_next by (blast intro: sleep_reach.step)
qed simp

definition demo_sleepy :: kstate where
  "demo_sleepy = demo_procs\<lparr>hw := demo_running 2\<rparr>"

lemma demo_sleepy_sel:
  "hw demo_sleepy = \<lparr>cpus = [(demo_cpu 0)\<lparr>cpu_proc := Some 2\<rparr>, demo_cpu 1], lapicid = 0, eflags_IF = (\<lambda>_. True), locks = (\<lambda>_. free_lock)\<rparr>"
  "ptable demo_sleepy = [demo_proc 1 LCFS 5, demo_proc 2 LCFS 9, demo_proc 3 BJF 7]"
  by (simp_all add: demo_sleepy_def demo_procs_def demo_running_def demo_hw_def)

definition demo_moves :: "(nat \<times> sleep_action) list" where
  "demo_moves = [(0, Enter), (0, Sleep), (0, Step), (0, Step), (0, Step), (1, Enter), (1, Wake),
     (0, Step), (0, Step), (0, Step), (1, Step), (1, Step)]"

lemma demo_moves_run:
  "case sleep_moves (Some Chan_log) Log_lock demo_moves (demo_sleepy, \<lambda>_. Away, {}) of
     Some (s, pcs, P) \<Rightarrow> pcs 1 = Wk_release \<and> P = {} \<and> state (ptable s ! 2) = RUNNABLE
   | None \<Rightarrow> False"
  by (simp add: demo_moves_def demo_sleepy_sel demo_cpu_def kon_def on_cpu_def kacquire_def krelease_def kholding_def
      acquire_def release_def holding_def
      pushcli_def popcli_def mycpu_def readeflags_def cli_def sti_def upd_cpu_def free_lock_def Let_def
      myproc_def kmycpu_def kupd_cpu_def sched_def scheduler_round_resume_def switchkvm_def wakeup1_def upd_proc_def deref_def
      del: kon_sel)

lemma demo_sleepy_reach: "sleep_reach (Some Chan_log) Log_lock (demo_sleepy, \<lambda>_. Away, {})"
proof -
  have "sleep_start demo_sleepy"
    by (auto simp: sleep_start_def lock_init_def demo_sleepy_sel cpu_ok_def me_def demo_cpu_def readeflags_def nth_Cons split: nat.splits)
  moreover have "{i. asleep_on (Some Chan_log) demo_sleepy i} = {}"
    by (auto simp: asleep_on_def demo_sleepy_sel demo_proc_def nth_Cons split: nat.splits)
  ultimately show ?thesis using sleep_reach.start [of demo_sleepy "Some Chan_log" Log_lock] by simp
qed

lemma sleep_wakeup_not_lost_witness:
  "\<exists>s pcs. sleep_moves (Some Chan_log) Log_lock demo_moves (demo_sleepy, \<lambda>_. Away, {}) = Some (s, pcs, {})
     \<and> pcs 1 = Wk_release \<and> state (ptable s ! 2) = RUNNABLE \<and> (\<forall>i. \<not> asleep_on (Some Chan_log) s i)"
proof -
  obtain s pcs where r: "sleep_moves (Some Chan_log) Log_lock demo_moves (demo_sleepy, \<lambda>_. Away, {}) = Some (s, pcs, {})"
    "pcs 1 = Wk_release" "state (ptable s ! 2) = RUNNABLE"
    using demo_moves_run by (auto split: option.splits)
  have "sleep_reach (Some Chan_log) Log_lock (s, pcs, {})"
    using demo_sleepy_reach r(1) by (rule sleep_moves_reach)
  from sleep_wakeup_not_lost [OF _ this] r show ?thesis by blast
qed

end
