(* ===== verification/Sleeplock.thy ===== *)
theory Sleeplock
  imports Sched_Policy
begin

text \<open>
  Sleep locks, \<open>sleeplock.c\<close>. An \<open>acquiresleep\<close> that has to wait ends in
  a switch to the scheduler; the rest of its loop runs when the process is
  dispatched again and is the operation \<open>acquiresleep_resume\<close>.
\<close>

section \<open>Operations\<close>

text \<open>\<open>myproc()->pid\<close>.\<close>

definition mypid :: "kstate \<Rightarrow> (kstate, int) outcome" where
  "mypid s = bnd (myproc s) (\<lambda>p s. deref p (\<lambda>i. Ret (pid (ptable s ! i)) s))"

definition upd_sleeplock :: "slid \<Rightarrow> (sleeplock \<Rightarrow> sleeplock) \<Rightarrow> kstate \<Rightarrow> kstate" where
  "upd_sleeplock l f s = s\<lparr>sleeplocks := (sleeplocks s)(l := f (sleeplocks s l))\<rparr>"

definition initsleeplock :: "slid \<Rightarrow> kstate \<Rightarrow> kstate" where
  "initsleeplock l s =
     (let s = s\<lparr>hw := initlock (Sleeplock_lk l) (hw s)\<rparr> in
      upd_sleeplock l (\<lambda>k. k\<lparr>sl_locked := False, sl_pid := 0\<rparr>) s)"

definition acquiresleep_loop :: "slid \<Rightarrow> kstate \<Rightarrow> (kstate, unit) outcome" where
  "acquiresleep_loop l s =
     (if sl_locked (sleeplocks s l) then sleep (Some (Chan_sleeplock l)) (Sleeplock_lk l) s
      else let s = upd_sleeplock l (\<lambda>k. k\<lparr>sl_locked := True\<rparr>) s in
        bnd (mypid s) (\<lambda>n s.
        krelease (Sleeplock_lk l) (upd_sleeplock l (\<lambda>k. k\<lparr>sl_pid := n\<rparr>) s)))"

definition acquiresleep :: "slid \<Rightarrow> kstate \<Rightarrow> (kstate, unit) outcome" where
  "acquiresleep l s = bnd (kacquire (Sleeplock_lk l) s) (\<lambda>_. acquiresleep_loop l)"

definition acquiresleep_resume :: "nat \<Rightarrow> bool \<Rightarrow> slid \<Rightarrow> kstate \<Rightarrow> (kstate, unit) outcome" where
  "acquiresleep_resume i ie l s = bnd (sleep_resume i ie (Sleeplock_lk l) s) (\<lambda>_. acquiresleep_loop l)"

definition releasesleep :: "slid \<Rightarrow> kstate \<Rightarrow> (kstate, unit) outcome" where
  "releasesleep l s =
     bnd (kacquire (Sleeplock_lk l) s) (\<lambda>_ s.
     bnd (mypid s) (\<lambda>n s.
     if sl_pid (sleeplocks s l) \<noteq> n
     then bnd (krelease (Sleeplock_lk l) s) (\<lambda>_ s. Panic ''Process is not the owner of the lock!'')
     else
       let s = upd_sleeplock l (\<lambda>k. k\<lparr>sl_locked := False\<rparr>) s;
           s = upd_sleeplock l (\<lambda>k. k\<lparr>sl_pid := 0\<rparr>) s
       in bnd (wakeup (Some (Chan_sleeplock l)) s) (\<lambda>_ s.
          krelease (Sleeplock_lk l) s)))"

definition holdingsleep :: "slid \<Rightarrow> kstate \<Rightarrow> (kstate, bool) outcome" where
  "holdingsleep l s =
     bnd (kacquire (Sleeplock_lk l) s) (\<lambda>_ s.
     bnd (if sl_locked (sleeplocks s l)
          then bnd (mypid s) (\<lambda>n s. Ret (sl_pid (sleeplocks s l) = n) s)
          else Ret False s) (\<lambda>r s.
     bnd (krelease (Sleeplock_lk l) s) (\<lambda>_ s.
     Ret r s)))"

section \<open>Closed forms\<close>

text \<open>
  A process runs on the executing processor, outside the given spin lock and the
  process table's.
\<close>

definition in_proc :: "lockid \<Rightarrow> kstate \<Rightarrow> nat \<Rightarrow> bool" where
  "in_proc l s i \<longleftrightarrow> cpu_ok (hw s) \<and> locks (hw s) l = free_lock \<and> locks (hw s) Ptable_lock = free_lock
     \<and> cur (hw s) = Some i \<and> i < length (ptable s)"

lemma mypid_ok:
  "cpu_ok (hw s) \<Longrightarrow> cur (hw s) = Some i \<Longrightarrow> mypid s = Ret (pid (ptable s ! i)) (s\<lparr>hw := touch (hw s)\<rparr>)"
  by (simp add: mypid_def myproc_ok deref_def)

lemma sleeplock_upd: "k\<lparr>sl_locked := a, sl_pid := b\<rparr> = \<lparr>sl_locked = a, sl_pid = b\<rparr>"
  by (cases k) simp

lemma acquiresleep_free:
  assumes "in_proc (Sleeplock_lk l) s i" "\<not> sl_locked (sleeplocks s l)"
  shows "acquiresleep l s = Ret () (s\<lparr>sleeplocks :=
    (sleeplocks s)(l := \<lparr>sl_locked = True, sl_pid = pid (ptable s ! i)\<rparr>), hw := touch (hw s)\<rparr>)"
  using assms
  by (simp add: in_proc_def acquiresleep_def acquiresleep_loop_def kacquire_free upd_sleeplock_def
      mypid_ok krelease_lock_in sleeplock_upd)

lemma touch_lock_in_in: "cpu_ok h \<Longrightarrow> locks h l = free_lock \<Longrightarrow> l \<noteq> k \<Longrightarrow> locks (lock_in k h) l = free_lock"
  by simp

lemma releasesleep_ok:
  assumes "in_proc (Sleeplock_lk l) s i" "sl_pid (sleeplocks s l) = pid (ptable s ! i)"
  shows "releasesleep l s = Ret () (wakeup1 (Some (Chan_sleeplock l)) (s\<lparr>sleeplocks :=
    (sleeplocks s)(l := \<lparr>sl_locked = False, sl_pid = 0\<rparr>)\<rparr>)\<lparr>hw := touch (hw s)\<rparr>)"
  using assms
  by (simp add: in_proc_def releasesleep_def kacquire_free upd_sleeplock_def mypid_ok wakeup_ok
      can_lock_def wakeup1_def krelease_lock_in sleeplock_upd)

lemma releasesleep_other:
  assumes "in_proc (Sleeplock_lk l) s i" "sl_pid (sleeplocks s l) \<noteq> pid (ptable s ! i)"
  shows "releasesleep l s = Panic ''Process is not the owner of the lock!''"
  using assms
  by (simp add: in_proc_def releasesleep_def kacquire_free mypid_ok krelease_lock_in)

lemma holdingsleep_ok:
  assumes "in_proc (Sleeplock_lk l) s i"
  shows "holdingsleep l s = Ret (sl_locked (sleeplocks s l) \<and> sl_pid (sleeplocks s l) = pid (ptable s ! i))
    (s\<lparr>hw := touch (hw s)\<rparr>)"
  using assms
  by (simp add: in_proc_def holdingsleep_def kacquire_free mypid_ok krelease_lock_in)

lemma sched_not_Ret: "sched s \<noteq> Ret a t"
  by (auto simp: sched_def bnd_Ret_iff deref_def split: if_splits option.splits)

lemma sleep_not_Ret: "sleep ch lk s \<noteq> Ret a t"
  by (auto simp: sleep_def bnd_Ret_iff sched_not_Ret Let_def split: option.splits)

lemma mypid_keeps [frame]: "hw_free P \<Longrightarrow> P s \<Longrightarrow> keeps (mypid s) P"
  by (auto simp: mypid_def deref_def split: option.split intro!: frame)

lemma stays_mypid [frame]: "stays (mypid s)"
  by (auto simp: mypid_def deref_def split: option.split intro!: frame)

text \<open>The scheduler has just dispatched a process that went to sleep in \<open>acquiresleep\<close>.\<close>

definition dispatched :: "lockid \<Rightarrow> kstate \<Rightarrow> nat \<Rightarrow> bool" where
  "dispatched l s i \<longleftrightarrow> (\<exists>h. hw s = lock_in Ptable_lock h \<and> cpu_ok h \<and> locks h l = free_lock
     \<and> locks h Ptable_lock = free_lock \<and> cur h = Some i \<and> i < length (ptable s))"

lemma sleep_resume_ok:
  assumes "hw s = lock_in Ptable_lock h" "cpu_ok h" "locks h l = free_lock" "locks h Ptable_lock = free_lock"
    "l \<noteq> Ptable_lock"
  shows "sleep_resume i ie l s = Ret () (upd_proc i (\<lambda>q. q\<lparr>chan := None\<rparr>) s\<lparr>hw := lock_in l (touch (restore_intena ie h))\<rparr>)"
  using assms 
    by (simp add: sleep_resume_def sched_resume_def kmycpu_off kupd_cpu_def restore_intena_lock_in cpu_okD(1)
        Let_def krelease_lock_in kacquire_free)

text \<open>The loop of \<open>acquiresleep\<close> returns only when it finds the lock free, and then takes it.\<close>

lemma acquiresleep_loop_Ret:
  assumes "acquiresleep_loop l s = Ret () t" "cpu_ok (hw s)" "cur (hw s) = Some i"
  shows "\<not> sl_locked (sleeplocks s l) \<and> sleeplocks t l = \<lparr>sl_locked = True, sl_pid = pid (ptable s ! i)\<rparr>"
proof -
  have nl: "\<not> sl_locked (sleeplocks s l)"
    using assms(1) by (auto simp: acquiresleep_loop_def sleep_not_Ret split: if_splits)
  let ?u = "s\<lparr>hw := touch (hw s), sleeplocks := (sleeplocks s)(l := \<lparr>sl_locked = True, sl_pid = pid (ptable s ! i)\<rparr>)\<rparr>"
  have "krelease (Sleeplock_lk l) ?u = Ret () t"
    using assms nl by (simp add: acquiresleep_loop_def Let_def upd_sleeplock_def mypid_ok sleeplock_upd)
  moreover have "keeps (krelease (Sleeplock_lk l) ?u) (\<lambda>t. sleeplocks t l = \<lparr>sl_locked = True, sl_pid = pid (ptable s ! i)\<rparr>)"
    by (intro frame) (auto simp: hw_free_def)
  ultimately show ?thesis using nl by simp
qed

lemma acquiresleep_loop_Swtch:
  "acquiresleep_loop l s = Swtch t \<Longrightarrow> sleeplocks t = sleeplocks s"
proof -
  assume *: "acquiresleep_loop l s = Swtch t"
  have "keeps (sleep (Some (Chan_sleeplock l)) (Sleeplock_lk l) s :: (kstate, unit) outcome) (\<lambda>t. sleeplocks t = sleeplocks s)"
    by (intro frame) (auto simp: pt_free_def)
  moreover have "stays (bnd (mypid u) (\<lambda>n s. krelease (Sleeplock_lk l) (upd_sleeplock l (\<lambda>k. k\<lparr>sl_pid := n\<rparr>) s)))" for u
    by (intro frame)
  ultimately show ?thesis
    using * by (auto simp: acquiresleep_loop_def Let_def split: if_splits dest: arg_cong [where f = stays])
qed

section \<open>Processes competing for a sleep lock\<close>

text \<open>
  A history of one lock. Processes call \<open>acquiresleep\<close> and \<open>releasesleep\<close>,
  those that waited come back, and in between anything may happen that does not
  write the lock. The last component is the set of processes that are inside: they
  returned from \<open>acquiresleep\<close> and have not released the lock since.
\<close>

inductive sl_run :: "slid \<Rightarrow> kstate \<Rightarrow> int set \<Rightarrow> bool" for l where
  start: "sleeplocks s l = \<lparr>sl_locked = False, sl_pid = 0\<rparr> \<Longrightarrow> sl_run l s {}"
| other: "sl_run l s own \<Longrightarrow> sleeplocks t l = sleeplocks s l \<Longrightarrow> sl_run l t own"
| enter: "sl_run l s own \<Longrightarrow> in_proc (Sleeplock_lk l) s i \<Longrightarrow> acquiresleep l s = Ret () t \<Longrightarrow>
    sl_run l t (insert (pid (ptable s ! i)) own)"
| wait: "sl_run l s own \<Longrightarrow> in_proc (Sleeplock_lk l) s i \<Longrightarrow> acquiresleep l s = Swtch t \<Longrightarrow> sl_run l t own"
| resume: "sl_run l s own \<Longrightarrow> dispatched (Sleeplock_lk l) s i \<Longrightarrow> acquiresleep_resume i ie l s = Ret () t \<Longrightarrow>
    sl_run l t (insert (pid (ptable s ! i)) own)"
| again: "sl_run l s own \<Longrightarrow> dispatched (Sleeplock_lk l) s i \<Longrightarrow> acquiresleep_resume i ie l s = Swtch t \<Longrightarrow>
    sl_run l t own"
| leave: "sl_run l s own \<Longrightarrow> in_proc (Sleeplock_lk l) s i \<Longrightarrow> releasesleep l s = Ret () t \<Longrightarrow>
    sl_run l t (own - {pid (ptable s ! i)})"

lemma sl_run_inv:
  "sl_run l s own \<Longrightarrow> own = (if sl_locked (sleeplocks s l) then {sl_pid (sleeplocks s l)} else {})"
proof (induction rule: sl_run.induct)
  case (enter s own i t)
  let ?u = "s\<lparr>hw := lock_in (Sleeplock_lk l) (hw s)\<rparr>"
  have "acquiresleep_loop l ?u = Ret () t" "cpu_ok (hw ?u)" "cur (hw ?u) = Some i"
    using enter by (simp_all add: acquiresleep_def in_proc_def kacquire_free)
  from acquiresleep_loop_Ret [OF this] enter.IH show ?case by simp
next
  case (wait s own i t)
  let ?u = "s\<lparr>hw := lock_in (Sleeplock_lk l) (hw s)\<rparr>"
  have "acquiresleep_loop l ?u = Swtch t"
    using wait by (simp add: acquiresleep_def in_proc_def kacquire_free)
  from acquiresleep_loop_Swtch [OF this] wait.IH show ?case by simp
next
  case (resume s own i ie t)
  then obtain h where h: "hw s = lock_in Ptable_lock h" "cpu_ok h" "locks h (Sleeplock_lk l) = free_lock"
      "locks h Ptable_lock = free_lock" "cur h = Some i" "i < length (ptable s)"
    by (auto simp: dispatched_def)
  let ?u = "upd_proc i (\<lambda>q. q\<lparr>chan := None\<rparr>) s\<lparr>hw := lock_in (Sleeplock_lk l) (touch (restore_intena ie h))\<rparr>"
  have "acquiresleep_loop l ?u = Ret () t" "cpu_ok (hw ?u)" "cur (hw ?u) = Some i"
    using resume h by (simp_all add: acquiresleep_resume_def sleep_resume_ok)
  from acquiresleep_loop_Ret [OF this] resume.IH h(6) show ?case by (simp add: upd_proc_def)
next
  case (again s own i ie t)
  then obtain h where h: "hw s = lock_in Ptable_lock h" "cpu_ok h" "locks h (Sleeplock_lk l) = free_lock"
      "locks h Ptable_lock = free_lock"
    by (auto simp: dispatched_def)
  let ?u = "upd_proc i (\<lambda>q. q\<lparr>chan := None\<rparr>) s\<lparr>hw := lock_in (Sleeplock_lk l) (touch (restore_intena ie h))\<rparr>"
  have "acquiresleep_loop l ?u = Swtch t"
    using again h by (simp add: acquiresleep_resume_def sleep_resume_ok)
  from acquiresleep_loop_Swtch [OF this] again.IH show ?case by (simp add: upd_proc_def)
next
  case (leave s own i t)
  have "sl_pid (sleeplocks s l) = pid (ptable s ! i)"
    using releasesleep_other [OF leave.hyps(2)] leave.hyps(3) by auto
  then have "t = wakeup1 (Some (Chan_sleeplock l)) (s\<lparr>sleeplocks :=
      (sleeplocks s)(l := \<lparr>sl_locked = False, sl_pid = 0\<rparr>)\<rparr>)\<lparr>hw := touch (hw s)\<rparr>"
    using releasesleep_ok [OF leave.hyps(2)] leave.hyps(3) by simp
  then show ?case using leave.IH \<open>sl_pid (sleeplocks s l) = pid (ptable s ! i)\<close> by (simp add: wakeup1_def)
qed simp_all

text \<open>
  C8: At any time at most one process is inside a sleep lock, the lock names it,
  every other process that calls \<open>acquiresleep\<close> is put to sleep instead of
  entering, and a \<open>releasesleep\<close> by another process stops the machine.
\<close>

theorem sleeplock_mutual_exclusion:
  assumes "sl_run l s own" "n \<in> own"
  shows "own = {n} \<and> sl_pid (sleeplocks s l) = n
    \<and> (\<forall>i t. in_proc (Sleeplock_lk l) s i \<longrightarrow> acquiresleep l s \<noteq> Ret () t)
    \<and> (\<forall>i. in_proc (Sleeplock_lk l) s i \<longrightarrow> pid (ptable s ! i) \<noteq> n \<longrightarrow>
          releasesleep l s = Panic ''Process is not the owner of the lock!'')"
proof -
  have own: "sl_locked (sleeplocks s l)" "own = {sl_pid (sleeplocks s l)}"
    using sl_run_inv [OF assms(1)] assms(2) by (auto split: if_splits)
  moreover have "acquiresleep l s \<noteq> Ret () t" if "in_proc (Sleeplock_lk l) s i" for i t
    using own(1) that by (simp add: in_proc_def acquiresleep_def acquiresleep_loop_def kacquire_free sleep_not_Ret)
  ultimately show ?thesis using assms(2) releasesleep_other by auto
qed

definition demo_proc_state :: kstate where
  "demo_proc_state = demo_procs\<lparr>hw := demo_running 2\<rparr>"

lemma demo_in_proc: "in_proc l demo_proc_state 2"
  by (simp add: in_proc_def demo_proc_state_def demo_procs_def)

lemma sleeplock_mutual_exclusion_witness:
  "\<exists>t. sl_run (Buf_sleeplock 0) t {3} \<and> sl_pid (sleeplocks t (Buf_sleeplock 0)) = 3"
proof -
  let ?l = "Buf_sleeplock 0" let ?s = demo_proc_state
  have free: "sleeplocks ?s ?l = \<lparr>sl_locked = False, sl_pid = 0\<rparr>" and pid: "pid (ptable ?s ! 2) = 3"
    by (simp_all add: demo_proc_state_def demo_procs_def demo_state_def boot_state_def demo_proc_def)
  then obtain t where "acquiresleep ?l ?s = Ret () t"
    using acquiresleep_free [OF demo_in_proc, of ?l] by simp
  from sl_run.enter [OF sl_run.start [OF free] demo_in_proc this] have run: "sl_run ?l t {3}"
    by (simp add: pid)
  with sleeplock_mutual_exclusion [OF run, of 3] show ?thesis by blast
qed

end
