(* ===== verification/Prioritylock.thy ===== *)
theory Prioritylock
  imports Sleeplock
begin

text \<open>
  The priority lock of user programs, \<open>prioritylock.c\<close> and the \<open>userlock\<close>
  of \<open>proc.c\<close>. Waiting processes stand in a ring buffer that insertion keeps
  sorted by descending process identifier; the field \<open>queue_size\<close> is the number
  of waiting processes minus one.

  An index below zero, which the C remainder gives for the predecessor of slot 0,
  is outside the array: the model stops there with \<open>Fault\<close>.
\<close>

section \<open>The queue\<close>

abbreviation (input) MAX_PRIORITY_QUEUE_SIZE :: int where "MAX_PRIORITY_QUEUE_SIZE \<equiv> 64"

fun bubble :: "nat \<Rightarrow> int \<Rightarrow> prioritylock \<Rightarrow> (prioritylock, unit) outcome" where
  "bubble 0 cur_idx lk = Ret () lk"
| "bubble (Suc n) cur_idx lk =
     (let prev_idx = crem (cur_idx - 1) MAX_PRIORITY_QUEUE_SIZE; q = pl_queue lk in
      if prev_idx < 0 then Fault ''queue index''
      else if q ! nat prev_idx > q ! nat cur_idx then Ret () lk
      else bubble n prev_idx
        (lk\<lparr>pl_queue := q[nat cur_idx := q ! nat prev_idx, nat prev_idx := q ! nat cur_idx]\<rparr>))"

definition add_process_to_priority_lock :: "int \<Rightarrow> prioritylock \<Rightarrow> (prioritylock, unit) outcome" where
  "add_process_to_priority_lock n lk =
     (let lk = lk\<lparr>queue_size := queue_size lk + 1\<rparr>;
          last_idx = crem (queue_size lk + queue_front lk) MAX_PRIORITY_QUEUE_SIZE
      in if last_idx < 0 then Fault ''queue index''
         else let lk = lk\<lparr>pl_queue := (pl_queue lk)[nat last_idx := n]\<rparr>
              in bubble (nat (queue_size lk)) last_idx lk)"

definition pop_priority_queue :: "prioritylock \<Rightarrow> prioritylock" where
  "pop_priority_queue lk =
     (let lk = lk\<lparr>queue_front := crem (queue_front lk + 1) MAX_PRIORITY_QUEUE_SIZE\<rparr>
      in lk\<lparr>queue_size := queue_size lk - 1\<rparr>)"

section \<open>The lock\<close>

definition initprioritylock :: "kstate \<Rightarrow> kstate" where
  "initprioritylock s =
     (let s = s\<lparr>hw := initlock Userlock_lk (hw s)\<rparr> in
      s\<lparr>userlock := (userlock s)\<lparr>pl_locked := False, pl_pid := 0, queue_front := 0, queue_size := - 1\<rparr>\<rparr>)"

definition upd_userlock :: "(prioritylock \<Rightarrow> prioritylock) \<Rightarrow> kstate \<Rightarrow> kstate" where
  "upd_userlock f s = s\<lparr>userlock := f (userlock s)\<rparr>"

definition pl_front :: "prioritylock \<Rightarrow> int" where
  "pl_front lk = pl_queue lk ! nat (queue_front lk)"

definition acquirepriority_loop :: "kstate \<Rightarrow> (kstate, int) outcome" where
  "acquirepriority_loop s =
     bnd (if pl_locked (userlock s) then Ret True s
          else bnd (mypid s) (\<lambda>n s. Ret (pl_front (userlock s) \<noteq> n) s)) (\<lambda>wait s.
     if wait then sleep (Some Chan_userlock) Userlock_lk s
     else
       let s = upd_userlock (\<lambda>k. k\<lparr>pl_locked := True\<rparr>) s in
       bnd (mypid s) (\<lambda>n s.
       let s = upd_userlock (\<lambda>k. k\<lparr>pl_pid := n\<rparr>) s;
           s = upd_userlock pop_priority_queue s
       in bnd (krelease Userlock_lk s) (\<lambda>_ s. Ret 0 s)))"

definition acquirepriority :: "kstate \<Rightarrow> (kstate, int) outcome" where
  "acquirepriority s =
     bnd (kacquire Userlock_lk s) (\<lambda>_ s.
     bnd (mypid s) (\<lambda>n s.
     if pl_pid (userlock s) = n then bnd (krelease Userlock_lk s) (\<lambda>_ s. Ret (- 1) s)
     else
       bnd (mypid s) (\<lambda>n s.
       bnd (zoom (\<lambda>k s. s\<lparr>userlock := k\<rparr>) (add_process_to_priority_lock n (userlock s)) s) (\<lambda>_ s.
       acquirepriority_loop s))))"

definition acquirepriority_resume :: "nat \<Rightarrow> bool \<Rightarrow> kstate \<Rightarrow> (kstate, int) outcome" where
  "acquirepriority_resume i ie s = bnd (sleep_resume i ie Userlock_lk s) (\<lambda>_. acquirepriority_loop)"

definition releasepriority :: "kstate \<Rightarrow> (kstate, int) outcome" where
  "releasepriority s =
     bnd (kacquire Userlock_lk s) (\<lambda>_ s.
     bnd (mypid s) (\<lambda>n s.
     if pl_pid (userlock s) \<noteq> n then bnd (krelease Userlock_lk s) (\<lambda>_ s. Ret (- 1) s)
     else
       let s = upd_userlock (\<lambda>k. k\<lparr>pl_locked := False\<rparr>) s;
           s = upd_userlock (\<lambda>k. k\<lparr>pl_pid := 0\<rparr>) s
       in bnd (wakeup (Some Chan_userlock) s) (\<lambda>_ s.
          bnd (krelease Userlock_lk s) (\<lambda>_ s. Ret 0 s))))"

definition acquire_user_lock :: "kstate \<Rightarrow> (kstate, int) outcome" where
  "acquire_user_lock s = acquirepriority s"

definition release_user_lock :: "kstate \<Rightarrow> (kstate, int) outcome" where
  "release_user_lock s = releasepriority s"

section \<open>The queue as a sorted list\<close>

text \<open>
  The waiting processes in the order of the ring. The description holds while the
  occupied part of the ring does not cross the end of the array.
\<close>

definition pl_waiting :: "prioritylock \<Rightarrow> int list" where
  "pl_waiting lk = take (nat (queue_size lk + 1)) (drop (nat (queue_front lk)) (pl_queue lk))"

definition pl_ok :: "prioritylock \<Rightarrow> bool" where
  "pl_ok lk \<longleftrightarrow> length (pl_queue lk) = 64 \<and> 0 \<le> queue_front lk \<and> queue_front lk < 64 \<and> - 1 \<le> queue_size lk
     \<and> queue_front lk + queue_size lk < 64"

text \<open>Insertion into a list sorted by descending identifier.\<close>

definition pq_insert :: "int \<Rightarrow> int list \<Rightarrow> int list" where
  "pq_insert n xs = takeWhile (\<lambda>x. n < x) xs @ n # dropWhile (\<lambda>x. n < x) xs"

lemma pq_insert_snoc:
  "sorted_wrt (\<ge>) (xs @ [x]) \<Longrightarrow>
   pq_insert n (xs @ [x]) = (if n < x then xs @ [x, n] else pq_insert n xs @ [x])"
  by (induction xs) (auto simp: pq_insert_def)

lemma mset_pq_insert: "mset (pq_insert n xs) = add_mset n (mset xs)"
proof -
  have "mset (takeWhile (\<lambda>x. n < x) xs) + mset (dropWhile (\<lambda>x. n < x) xs) = mset xs"
    by (metis mset_append takeWhile_dropWhile_id)
  then show ?thesis by (simp add: pq_insert_def)
qed

lemma set_pq_insert: "set (pq_insert n xs) = insert n (set xs)"
  using mset_pq_insert [of n xs] by (metis set_mset_add_mset_insert set_mset_mset)

lemma sorted_pq_insert:
  assumes "sorted_wrt (\<ge>) xs"
  shows "sorted_wrt (\<ge>) (pq_insert n xs)"
  using assms
proof (induction xs)
  case Nil
  then show ?case by (simp add: pq_insert_def)
next
  case (Cons x xs)
  show ?case
  proof (cases "n < x")
    case True
    then have "pq_insert n (x # xs) = x # pq_insert n xs" by (simp add: pq_insert_def)
    with Cons True show ?thesis by (auto simp: set_pq_insert)
  next
    case False
    then have "pq_insert n (x # xs) = n # x # xs" by (simp add: pq_insert_def)
    with Cons False show ?thesis by auto
  qed
qed

lemma bubble_list:
  assumes "sorted_wrt (\<ge>) xs" "pl_queue lk = pre @ xs @ n # post" "c = int (length pre + length xs)"
    "c < 64"
  shows "bubble (length xs) c lk = Ret () (lk\<lparr>pl_queue := pre @ pq_insert n xs @ post\<rparr>)"
  using assms
proof (induction xs arbitrary: lk c post rule: rev_induct)
  case Nil
  then show ?case by (simp add: pq_insert_def)
next
  case (snoc x xs)
  define k where "k = length pre + length xs"
  have prev: "crem (c - 1) 64 = int k" using snoc.prems by (simp add: crem_nonneg k_def)
  have c: "nat c = Suc k" using snoc.prems by (simp add: k_def nat_int_add)
  have nth: "pl_queue lk ! k = x" "pl_queue lk ! nat c = n" "nat c = Suc k"
    unfolding c using snoc.prems(2) by (simp_all add: nth_append k_def)
  show ?case
  proof (cases "n < x")
    case True
    then show ?thesis
      using snoc.prems prev nth pq_insert_snoc [of xs x n] by simp
  next
    case False
    let ?lk = "lk\<lparr>pl_queue := (pl_queue lk)[Suc k := x, k := n]\<rparr>"
    have "bubble (length (xs @ [x])) c lk = bubble (length xs) (int k) ?lk"
      using False prev nth by (simp add: Let_def)
    also have "\<dots> = Ret () (?lk\<lparr>pl_queue := pre @ pq_insert n xs @ x # post\<rparr>)"
      using snoc.prems by (intro snoc.IH) (auto simp: k_def list_update_append sorted_wrt_append)
    finally show ?thesis using False snoc.prems(1) by (simp add: pq_insert_snoc)
  qed
qed

lemma pl_queue_split:
  assumes "pl_ok lk"
  obtains pre post where "pl_queue lk = pre @ pl_waiting lk @ post" "length pre = nat (queue_front lk)"
    "length (pl_waiting lk) = nat (queue_size lk + 1)"
proof -
  let ?f = "nat (queue_front lk)" let ?n = "nat (queue_size lk + 1)"
  have "pl_queue lk = take ?f (pl_queue lk) @ pl_waiting lk @ drop ?n (drop ?f (pl_queue lk))"
    unfolding pl_waiting_def by (simp del: drop_drop)
  moreover have "length (take ?f (pl_queue lk)) = ?f" "length (pl_waiting lk) = ?n"
    using assms by (auto simp: pl_ok_def pl_waiting_def)
  ultimately show ?thesis using that by blast
qed

text \<open>The ring has a free slot before the end of the array.\<close>

definition pl_room :: "prioritylock \<Rightarrow> bool" where
  "pl_room lk \<longleftrightarrow> queue_front lk + queue_size lk + 1 < 64"

lemma add_process_ok:
  assumes "pl_ok lk" "pl_room lk" "sorted_wrt (\<ge>) (pl_waiting lk)"
  shows "returns (add_process_to_priority_lock n lk) (\<lambda>_ k. pl_ok k \<and> pl_waiting k = pq_insert n (pl_waiting lk)
    \<and> pl_locked k = pl_locked lk \<and> pl_pid k = pl_pid lk \<and> queue_front k = queue_front lk)"
proof -
  obtain pre post where split: "pl_queue lk = pre @ pl_waiting lk @ post" "length pre = nat (queue_front lk)"
      "length (pl_waiting lk) = nat (queue_size lk + 1)"
    using assms(1) by (rule pl_queue_split)
  let ?xs = "pl_waiting lk"
  define f m where "f = nat (queue_front lk)" and "m = nat (queue_size lk + 1)"
  have eqs: "queue_front lk = int f" "queue_size lk = int m - 1" "f + m < 64" "length (pl_queue lk) = 64"
    using assms by (auto simp: pl_ok_def pl_room_def f_def m_def)
  have len: "length pre = f" "length ?xs = m" using split(2,3) eqs by simp_all
  then obtain y post' where post: "post = y # post'"
    using eqs(3,4) split(1) by (cases post) auto
  have idx: "crem (int m + int f) 64 = int (f + m)" using eqs(3) by (simp add: crem_nonneg)
  let ?lk = "lk\<lparr>queue_size := int m, pl_queue := pre @ ?xs @ n # post'\<rparr>"
  have "bubble (length ?xs) (int (f + m)) ?lk = Ret () (?lk\<lparr>pl_queue := pre @ pq_insert n ?xs @ post'\<rparr>)"
    using assms(3) len eqs(3) by (intro bubble_list) auto
  moreover have upd: "(pl_queue lk)[f + m := n] = pre @ ?xs @ n # post'"
    unfolding split(1) post by (simp add: list_update_append len)
  have "add_process_to_priority_lock n lk = bubble m (int (f + m)) ?lk"
    using idx by (simp add: add_process_to_priority_lock_def Let_def eqs(1,2) upd nat_int_add)
  moreover have lens: "length (pq_insert n ?xs) = Suc m"
    using mset_pq_insert [of n ?xs] len(2) by (metis size_add_mset size_mset)
  have "length (pre @ pq_insert n ?xs @ post') = 64"
    using eqs(4) unfolding split(1) post by (simp add: lens len)
  ultimately show ?thesis
    using eqs len lens by (simp add: pl_ok_def pl_waiting_def nat_add_distrib)
qed

lemma add_process_full:
  assumes "pl_ok lk" "\<not> pl_room lk"
  shows "add_process_to_priority_lock n lk = Fault ''queue index''"
proof -
  have *: "queue_front lk + queue_size lk = 63" "0 \<le> queue_size lk"
    using assms by (auto simp: pl_ok_def pl_room_def)
  have "crem (queue_size lk + 1 + queue_front lk) 64 = 0"
    using * by (simp add: crem_nonneg add.commute [of _ "queue_front lk"] add.assoc [symmetric])
  moreover have "nat (queue_size lk + 1) = Suc (nat (queue_size lk))" using * by simp
  ultimately show ?thesis
    by (simp add: add_process_to_priority_lock_def Let_def crem_minus_one)
qed

lemma pop_ok:
  assumes "pl_ok lk" "pl_waiting lk \<noteq> []"
  shows "pl_ok (pop_priority_queue lk) \<and> pl_waiting (pop_priority_queue lk) = tl (pl_waiting lk)
    \<and> pl_front lk = hd (pl_waiting lk)"
proof -
  define f m where "f = nat (queue_front lk)" and "m = nat (queue_size lk)"
  have "queue_size lk \<noteq> - 1" using assms(2) by (auto simp: pl_waiting_def)
  then have eqs: "queue_front lk = int f" "queue_size lk = int m" "f + m < 64" "length (pl_queue lk) = 64"
    using assms(1) by (auto simp: pl_ok_def f_def m_def)
  have w: "pl_waiting lk = take (Suc m) (drop f (pl_queue lk))"
    using eqs by (simp add: pl_waiting_def nat_add_distrib add.commute)
  have front: "pl_front lk = hd (pl_waiting lk)"
    using eqs by (simp add: w pl_front_def hd_conv_nth)
  have tail: "tl (pl_waiting lk) = take m (drop (Suc f) (pl_queue lk))"
    by (simp add: w tl_take drop_Suc tl_drop)
  show ?thesis
  proof (cases "f = 63")
    case True
    then have "m = 0" using eqs(3) by simp
    then show ?thesis
      using eqs True front tail by (simp add: pop_priority_queue_def pl_ok_def pl_waiting_def crem_nonneg)
  next
    case False
    then have "crem (int f + 1) 64 = int (Suc f)" using eqs(3) by (simp add: crem_nonneg)
    then show ?thesis
      using eqs False front tail by (simp add: pop_priority_queue_def pl_ok_def pl_waiting_def nat_add_distrib)
  qed
qed

section \<open>The queue as an interface\<close>

text \<open>What the lock relies on: insertion by priority, and the first of the queue at its front.\<close>

locale prio_queue =
  fixes add :: "int \<Rightarrow> 'q \<Rightarrow> ('q, unit) outcome" and pop :: "'q \<Rightarrow> 'q" and front :: "'q \<Rightarrow> int"
    and waiting :: "'q \<Rightarrow> int list" and ok :: "'q \<Rightarrow> bool"
  assumes add_spec: "ok q \<Longrightarrow> add n q = Ret u r \<Longrightarrow> ok r \<and> waiting r = pq_insert n (waiting q)"
    and pop_spec: "ok q \<Longrightarrow> waiting q \<noteq> [] \<Longrightarrow> ok (pop q) \<and> waiting (pop q) = tl (waiting q)"
    and front_spec: "ok q \<Longrightarrow> waiting q \<noteq> [] \<Longrightarrow> front q = hd (waiting q)"
    and ok_sorted: "ok q \<Longrightarrow> sorted_wrt (\<ge>) (waiting q)"
begin

lemma front_best:
  assumes "ok q" "m \<in> set (waiting q)"
  shows "m \<le> front q"
proof (cases "waiting q")
  case (Cons x xs)
  with ok_sorted [OF assms(1)] front_spec [OF assms(1)] assms(2) show ?thesis by auto
qed (use assms in simp)

lemma mset_add: "ok q \<Longrightarrow> add n q = Ret u r \<Longrightarrow> mset (waiting r) = add_mset n (mset (waiting q))"
  using add_spec [of q n u r] by (simp add: mset_pq_insert)

lemma mset_pop:
  "ok q \<Longrightarrow> waiting q \<noteq> [] \<Longrightarrow> mset (waiting (pop q)) = mset (waiting q) - {#front q#}"
  using pop_spec [of q] front_spec [of q] by (cases "waiting q") auto

end

definition pl_inv :: "prioritylock \<Rightarrow> bool" where
  "pl_inv lk \<longleftrightarrow> pl_ok lk \<and> sorted_wrt (\<ge>) (pl_waiting lk)"

lemma add_process_inv:
  assumes "pl_inv lk" "add_process_to_priority_lock n lk = Ret u k"
  shows "pl_inv k \<and> pl_waiting k = pq_insert n (pl_waiting lk) \<and> pl_locked k = pl_locked lk \<and> pl_pid k = pl_pid lk"
proof -
  have "pl_room lk" using add_process_full [of lk n] assms by (auto simp: pl_inv_def)
  then show ?thesis
    using add_process_ok [of lk n] sorted_pq_insert [of "pl_waiting lk" n] assms by (auto simp: pl_inv_def)
qed

interpretation pq: prio_queue add_process_to_priority_lock pop_priority_queue pl_front pl_waiting pl_inv
proof
  fix q r n u
  show "pl_inv r \<and> pl_waiting r = pq_insert n (pl_waiting q)"
    if "pl_inv q" "add_process_to_priority_lock n q = Ret u r"
    using add_process_inv [OF that] by simp
  show "pl_inv (pop_priority_queue q) \<and> pl_waiting (pop_priority_queue q) = tl (pl_waiting q)"
    if "pl_inv q" "pl_waiting q \<noteq> []"
    using pop_ok [of q] that by (cases "pl_waiting q") (auto simp: pl_inv_def)
  show "pl_front q = hd (pl_waiting q)" if "pl_inv q" "pl_waiting q \<noteq> []"
    using pop_ok [of q] that by (simp add: pl_inv_def)
  show "sorted_wrt (\<ge>) (pl_waiting q)" if "pl_inv q"
    using that by (simp add: pl_inv_def)
qed

section \<open>Processes competing for the lock\<close>

lemma pl_waiting_upd [simp]:
  "pl_waiting (k\<lparr>pl_locked := a\<rparr>) = pl_waiting k" "pl_waiting (k\<lparr>pl_pid := b\<rparr>) = pl_waiting k"
  "pl_inv (k\<lparr>pl_locked := a\<rparr>) = pl_inv k" "pl_inv (k\<lparr>pl_pid := b\<rparr>) = pl_inv k"
  "pl_front (k\<lparr>pl_locked := a\<rparr>) = pl_front k" "pl_front (k\<lparr>pl_pid := b\<rparr>) = pl_front k"
  by (simp_all add: pl_waiting_def pl_inv_def pl_ok_def pl_front_def)

lemma pl_pop_sel [simp]:
  "pl_locked (pop_priority_queue k) = pl_locked k" "pl_pid (pop_priority_queue k) = pl_pid k"
  by (simp_all add: pop_priority_queue_def)

lemma acquirepriority_loop_Ret:
  assumes "acquirepriority_loop s = Ret r t" "cpu_ok (hw s)" "cur (hw s) = Some i"
  defines "n \<equiv> pid (ptable s ! i)"
  shows "r = 0 \<and> \<not> pl_locked (userlock s) \<and> pl_front (userlock s) = n
    \<and> userlock t = pop_priority_queue ((userlock s)\<lparr>pl_locked := True, pl_pid := n\<rparr>)"
proof -
  have go: "\<not> pl_locked (userlock s) \<and> pl_front (userlock s) = n"
    using assms by (auto simp: acquirepriority_loop_def mypid_ok sleep_not_Ret split: if_splits)
  let ?u = "s\<lparr>hw := touch (hw s), userlock := pop_priority_queue ((userlock s)\<lparr>pl_locked := True, pl_pid := n\<rparr>)\<rparr>"
  have "bnd (krelease Userlock_lk ?u) (\<lambda>_ s. Ret 0 s) = Ret r t"
    using assms go by (simp add: acquirepriority_loop_def mypid_ok upd_userlock_def)
  then have "r = 0" "krelease Userlock_lk ?u = Ret () t" by (auto simp: bnd_Ret_iff)
  moreover have "keeps (krelease Userlock_lk ?u) (\<lambda>t. userlock t = userlock ?u)"
    by (intro frame) (auto simp: hw_free_def)
  ultimately show ?thesis using go by simp
qed

lemma acquirepriority_loop_Swtch:
  assumes "acquirepriority_loop s = Swtch t" "cpu_ok (hw s)" "cur (hw s) = Some i"
  shows "userlock t = userlock s"
proof -
  have sleep: "keeps (sleep (Some Chan_userlock) Userlock_lk u :: (kstate, int) outcome) (\<lambda>t. userlock t = userlock u)" for u
    by (intro frame) (auto simp: pt_free_def)
  have "stays (bnd (mypid u) (\<lambda>n s. bnd (krelease Userlock_lk (upd_userlock pop_priority_queue
      (upd_userlock (\<lambda>k. k\<lparr>pl_pid := n\<rparr>) s))) (\<lambda>_ s. Ret (0 :: int) s)))" for u
    by (intro frame) simp
  then show ?thesis
    using assms sleep [of s] sleep [of "s\<lparr>hw := touch (hw s)\<rparr>"]
    by (auto simp: acquirepriority_loop_def mypid_ok Let_def split: if_splits dest: arg_cong [where f = stays])
qed

text \<open>
  A history of the lock: calls, waits, processes that come back from a wait, releases,
  and anything that does not write the lock. It records the processes inside the lock
  and those asleep in \<open>acquirepriority\<close>.
\<close>

inductive pl_run :: "kstate \<Rightarrow> int set \<Rightarrow> int multiset \<Rightarrow> bool" where
  start: "userlock s = userlock (initprioritylock s) \<Longrightarrow> length (pl_queue (userlock s)) = 64 \<Longrightarrow> pl_run s {} {#}"
| other: "pl_run s own ws \<Longrightarrow> userlock t = userlock s \<Longrightarrow> pl_run t own ws"
| enter: "pl_run s own ws \<Longrightarrow> in_proc Userlock_lk s i \<Longrightarrow> 0 < pid (ptable s ! i) \<Longrightarrow>
    acquirepriority s = Ret r t \<Longrightarrow> pl_run t (if r = 0 then insert (pid (ptable s ! i)) own else own) ws"
| wait: "pl_run s own ws \<Longrightarrow> in_proc Userlock_lk s i \<Longrightarrow> 0 < pid (ptable s ! i) \<Longrightarrow>
    acquirepriority s = Swtch t \<Longrightarrow> pl_run t own (add_mset (pid (ptable s ! i)) ws)"
| resume: "pl_run s own ws \<Longrightarrow> dispatched Userlock_lk s i \<Longrightarrow> pid (ptable s ! i) \<in># ws \<Longrightarrow>
    0 < pid (ptable s ! i) \<Longrightarrow> acquirepriority_resume i ie s = Ret r t \<Longrightarrow>
    pl_run t (insert (pid (ptable s ! i)) own) (ws - {#pid (ptable s ! i)#})"
| again: "pl_run s own ws \<Longrightarrow> dispatched Userlock_lk s i \<Longrightarrow> acquirepriority_resume i ie s = Swtch t \<Longrightarrow>
    pl_run t own ws"
| leave: "pl_run s own ws \<Longrightarrow> in_proc Userlock_lk s i \<Longrightarrow> 0 < pid (ptable s ! i) \<Longrightarrow>
    releasepriority s = Ret r t \<Longrightarrow> pl_run t (if r = 0 then own - {pid (ptable s ! i)} else own) ws"

definition pl_run_inv :: "kstate \<Rightarrow> int set \<Rightarrow> int multiset \<Rightarrow> bool" where
  "pl_run_inv s own ws \<longleftrightarrow> (let k = userlock s in pl_inv k \<and> ws = mset (pl_waiting k)
     \<and> own = (if pl_locked k then {pl_pid k} else {}) \<and> (pl_locked k \<longleftrightarrow> pl_pid k \<noteq> 0))"

text \<open>A call either finds the caller inside, or joins the queue and runs the loop.\<close>

lemma acquirepriority_cases:
  assumes "in_proc Userlock_lk s i"
  defines "n \<equiv> pid (ptable s ! i)"
  shows "acquirepriority s =
    (if pl_pid (userlock s) = n then Ret (- 1) (s\<lparr>hw := touch (hw s)\<rparr>)
     else case add_process_to_priority_lock n (userlock s) of
        Ret _ k \<Rightarrow> acquirepriority_loop (s\<lparr>hw := lock_in Userlock_lk (hw s), userlock := k\<rparr>)
      | Swtch k \<Rightarrow> Swtch (s\<lparr>hw := lock_in Userlock_lk (hw s), userlock := k\<rparr>)
      | Spin \<Rightarrow> Spin | Panic m \<Rightarrow> Panic m | Fault m \<Rightarrow> Fault m)"
  using assms
  by (auto simp: in_proc_def acquirepriority_def kacquire_free mypid_ok krelease_lock_in split: outcome.split)

lemma stays_bubble: "stays (bubble n c k)"
  by (induction n c k rule: bubble.induct) (auto simp: Let_def)

lemma stays_add: "stays (add_process_to_priority_lock n k)"
  by (simp add: add_process_to_priority_lock_def Let_def stays_bubble)

text \<open>What a run of the loop does to the lock: it is taken by the first of the queue, or left as it is.\<close>

lemma loop_grants:
  assumes "acquirepriority_loop s = Ret r t" "cpu_ok (hw s)" "cur (hw s) = Some i"
    and "pl_inv (userlock s)" "pid (ptable s ! i) \<in> set (pl_waiting (userlock s))"
  defines "n \<equiv> pid (ptable s ! i)"
  shows "r = 0 \<and> \<not> pl_locked (userlock s) \<and> pl_locked (userlock t) \<and> pl_pid (userlock t) = n \<and> pl_inv (userlock t)
    \<and> mset (pl_waiting (userlock t)) = mset (pl_waiting (userlock s)) - {#n#}
    \<and> (\<forall>m\<in>set (pl_waiting (userlock s)). m \<le> n)"
proof -
  let ?k = "(userlock s)\<lparr>pl_locked := True, pl_pid := n\<rparr>"
  have ret: "r = 0" "\<not> pl_locked (userlock s)" "pl_front (userlock s) = n" "userlock t = pop_priority_queue ?k"
    using acquirepriority_loop_Ret [OF assms(1-3)] by (simp_all add: n_def)
  have "pl_inv ?k" "pl_waiting ?k \<noteq> []" using assms(4,5) by auto
  from pq.pop_spec [OF this] pq.mset_pop [OF this] ret show ?thesis
    using pq.front_best [OF assms(4)] by auto
qed

lemma pl_inv_enter:
  assumes inv: "pl_run_inv s own ws" and proc: "in_proc Userlock_lk s i" "0 < pid (ptable s ! i)"
    and ret: "acquirepriority s = Ret r t"
  shows "pl_run_inv t (if r = 0 then insert (pid (ptable s ! i)) own else own) ws"
proof -
  let ?n = "pid (ptable s ! i)"
  show ?thesis
  proof (cases "pl_pid (userlock s) = ?n")
    case True
    with inv ret acquirepriority_cases [OF proc(1)] show ?thesis by (auto simp: pl_run_inv_def Let_def)
  next
    case False
    then obtain u k where k: "add_process_to_priority_lock ?n (userlock s) = Ret u k"
      using ret stays_add [of ?n "userlock s"] acquirepriority_cases [OF proc(1)]
      by (cases "add_process_to_priority_lock ?n (userlock s)") auto
    let ?u = "s\<lparr>hw := lock_in Userlock_lk (hw s), userlock := k\<rparr>"
    have run: "acquirepriority_loop ?u = Ret r t"
      using ret acquirepriority_cases [OF proc(1)] False k by simp
    have add: "pl_inv k" "mset (pl_waiting k) = add_mset ?n ws" "pl_locked k = pl_locked (userlock s)"
      using add_process_inv [OF _ k] pq.mset_add [OF _ k] inv by (auto simp: pl_run_inv_def Let_def)
    then have "?n \<in> set (pl_waiting k)" by (metis set_mset_mset union_single_eq_member)
    then have "r = 0 \<and> \<not> pl_locked k \<and> pl_locked (userlock t) \<and> pl_pid (userlock t) = ?n \<and> pl_inv (userlock t)
        \<and> mset (pl_waiting (userlock t)) = mset (pl_waiting k) - {#?n#}"
      using loop_grants [OF run, of i] add(1) proc(1) by (simp add: in_proc_def)
    then show ?thesis
      using inv proc(2) add by (auto simp: pl_run_inv_def Let_def)
  qed
qed

lemma pl_inv_wait:
  assumes inv: "pl_run_inv s own ws" and proc: "in_proc Userlock_lk s i"
    and ret: "acquirepriority s = Swtch t"
  shows "pl_run_inv t own (add_mset (pid (ptable s ! i)) ws)"
proof -
  let ?n = "pid (ptable s ! i)"
  have ne: "pl_pid (userlock s) \<noteq> ?n"
    using ret acquirepriority_cases [OF proc] by auto
  then obtain u k where k: "add_process_to_priority_lock ?n (userlock s) = Ret u k"
    using ret stays_add [of ?n "userlock s"] acquirepriority_cases [OF proc]
    by (cases "add_process_to_priority_lock ?n (userlock s)") auto
  let ?u = "s\<lparr>hw := lock_in Userlock_lk (hw s), userlock := k\<rparr>"
  have "acquirepriority_loop ?u = Swtch t"
    using ret acquirepriority_cases [OF proc] ne k by simp
  then have "userlock t = k"
    using acquirepriority_loop_Swtch [of ?u t i] proc by (simp add: in_proc_def)
  then show ?thesis
    using add_process_inv [OF _ k] pq.mset_add [OF _ k] inv by (auto simp: pl_run_inv_def Let_def)
qed

lemma pl_inv_resume:
  assumes inv: "pl_run_inv s own ws" and proc: "dispatched Userlock_lk s i" and ws: "pid (ptable s ! i) \<in># ws"
    and pos: "0 < pid (ptable s ! i)" and ret: "acquirepriority_resume i ie s = Ret r t"
  shows "pl_run_inv t (insert (pid (ptable s ! i)) own) (ws - {#pid (ptable s ! i)#})"
proof -
  obtain h where h: "hw s = lock_in Ptable_lock h" "cpu_ok h" "locks h Userlock_lk = free_lock"
      "locks h Ptable_lock = free_lock" "cur h = Some i" "i < length (ptable s)"
    using proc by (auto simp: dispatched_def)
  let ?u = "upd_proc i (\<lambda>q. q\<lparr>chan := None\<rparr>) s\<lparr>hw := lock_in Userlock_lk (touch (restore_intena ie h))\<rparr>"
  have run: "acquirepriority_loop ?u = Ret r t"
    using ret h by (simp add: acquirepriority_resume_def sleep_resume_ok)
  have same: "userlock ?u = userlock s" "pid (ptable ?u ! i) = pid (ptable s ! i)"
    using h(6) by (simp_all add: upd_proc_def)
  have "pl_inv (userlock ?u)" "pid (ptable ?u ! i) \<in> set (pl_waiting (userlock ?u))"
    using inv ws unfolding same by (auto simp: pl_run_inv_def Let_def)
  from loop_grants [OF run _ _ this] h(2,5) inv ws pos show ?thesis
    unfolding same by (auto simp: pl_run_inv_def Let_def)
qed

lemma pl_inv_again:
  assumes inv: "pl_run_inv s own ws" and proc: "dispatched Userlock_lk s i" and ret: "acquirepriority_resume i ie s = Swtch t"
  shows "pl_run_inv t own ws"
proof -
  obtain h where h: "hw s = lock_in Ptable_lock h" "cpu_ok h" "locks h Userlock_lk = free_lock"
      "locks h Ptable_lock = free_lock" "cur h = Some i"
    using proc by (auto simp: dispatched_def)
  let ?u = "upd_proc i (\<lambda>q. q\<lparr>chan := None\<rparr>) s\<lparr>hw := lock_in Userlock_lk (touch (restore_intena ie h))\<rparr>"
  have "acquirepriority_loop ?u = Swtch t"
    using ret h by (simp add: acquirepriority_resume_def sleep_resume_ok)
  then have "userlock t = userlock s"
    using acquirepriority_loop_Swtch [of ?u t i] h by (simp add: upd_proc_def)
  with inv show ?thesis by (simp add: pl_run_inv_def)
qed

lemma pl_inv_leave:
  assumes "pl_run_inv s own ws" "in_proc Userlock_lk s i" "0 < pid (ptable s ! i)" "releasepriority s = Ret r t"
  shows "pl_run_inv t (if r = 0 then own - {pid (ptable s ! i)} else own) ws"
  using assms
  by (auto simp: pl_run_inv_def Let_def in_proc_def releasepriority_def kacquire_free mypid_ok krelease_lock_in
      upd_userlock_def wakeup_ok can_lock_def wakeup1_def split: if_splits)

lemma pl_inv_start:
  assumes "userlock s = userlock (initprioritylock s)" "length (pl_queue (userlock s)) = 64"
  shows "pl_run_inv s {} {#}"
proof -
  have "userlock s = (userlock s)\<lparr>pl_locked := False, pl_pid := 0, queue_front := 0, queue_size := - 1\<rparr>"
    using assms(1) by (simp add: initprioritylock_def Let_def)
  then have "\<not> pl_locked (userlock s)" "pl_pid (userlock s) = 0" "queue_front (userlock s) = 0" "queue_size (userlock s) = - 1"
    by (metis prioritylock.select_convs prioritylock.surjective prioritylock.update_convs)+
  with assms(2) show ?thesis by (simp add: pl_run_inv_def pl_inv_def pl_ok_def pl_waiting_def)
qed

lemma pl_run_inv: "pl_run s own ws \<Longrightarrow> pl_run_inv s own ws"
proof (induction rule: pl_run.induct)
  case (other s own ws t)
  then show ?case by (simp add: pl_run_inv_def)
qed (rule pl_inv_start pl_inv_enter pl_inv_wait pl_inv_resume pl_inv_again pl_inv_leave; assumption)+

section \<open>Properties\<close>

lemma loop_returns:
  assumes "hw s = lock_in Userlock_lk h" "cpu_ok h" "locks h Userlock_lk = free_lock" "cur h = Some i"
    "\<not> pl_locked (userlock s)" "pl_front (userlock s) = pid (ptable s ! i)"
  shows "returns (acquirepriority_loop s) (\<lambda>r _. r = 0)"
  using assms
  by (simp add: acquirepriority_loop_def mypid_ok upd_userlock_def krelease_lock_in)

text \<open>
  C16: The priority lock has at most one holder, and a process that waited gets it
  exactly when nobody holds it and no waiting process has a larger identifier: the
  waiting process with the largest identifier, when it is dispatched and the lock is
  free, returns from \<open>acquirepriority\<close> with the lock; every other one waits on.
\<close>

theorem prioritylock_serves_highest:
  assumes "pl_run s own ws" "dispatched Userlock_lk s i" "pid (ptable s ! i) \<in># ws"
  shows "card own \<le> 1 \<and> ((\<exists>r t. acquirepriority_resume i ie s = Ret r t) \<longleftrightarrow> own = {} \<and> (\<forall>m\<in>#ws. m \<le> pid (ptable s ! i)))"
proof -
  have inv: "pl_run_inv s own ws" using assms(1) by (rule pl_run_inv)
  obtain h where h: "hw s = lock_in Ptable_lock h" "cpu_ok h" "locks h Userlock_lk = free_lock"
      "locks h Ptable_lock = free_lock" "cur h = Some i" "i < length (ptable s)"
    using assms(2) by (auto simp: dispatched_def)
  let ?u = "upd_proc i (\<lambda>q. q\<lparr>chan := None\<rparr>) s\<lparr>hw := lock_in Userlock_lk (touch (restore_intena ie h))\<rparr>"
  have same: "userlock ?u = userlock s" "pid (ptable ?u ! i) = pid (ptable s ! i)"
    using h(6) by (simp_all add: upd_proc_def)
  have res: "acquirepriority_resume i ie s = acquirepriority_loop ?u"
    using h by (simp add: acquirepriority_resume_def sleep_resume_ok)
  have q: "pl_inv (userlock s)" "pid (ptable s ! i) \<in> set (pl_waiting (userlock s))" "set_mset ws = set (pl_waiting (userlock s))"
    using inv assms(3) by (auto simp: pl_run_inv_def Let_def)
  have "own = {} \<and> (\<forall>m\<in>#ws. m \<le> pid (ptable s ! i))" if "acquirepriority_loop ?u = Ret r t" for r t
    using loop_grants [OF that, of i] h(2,5) q inv unfolding same by (auto simp: pl_run_inv_def Let_def)
  moreover have "\<exists>r t. acquirepriority_loop ?u = Ret r t" if "own = {}" "\<forall>m\<in>#ws. m \<le> pid (ptable s ! i)"
  proof -
    have "pl_front (userlock s) \<in> set (pl_waiting (userlock s))"
      using pq.front_spec [OF q(1)] q(2) by (cases "pl_waiting (userlock s)") auto
    then have "pl_front (userlock s) = pid (ptable s ! i)"
      using that(2) q pq.front_best [OF q(1) q(2)] by (auto intro: antisym)
    moreover have "\<not> pl_locked (userlock s)" using that(1) inv by (auto simp: pl_run_inv_def Let_def)
    ultimately have "returns (acquirepriority_loop ?u) (\<lambda>r _. r = 0)"
      using h(2,3,5) same by (intro loop_returns [of _ "touch (restore_intena ie h)" i]) auto
    then show ?thesis by (auto elim!: returnsE)
  qed
  moreover have "card own \<le> 1" using inv by (auto simp: pl_run_inv_def Let_def)
  ultimately show ?thesis unfolding res by blast
qed

text \<open>
  C17: \<open>acquirepriority\<close> and \<open>releasepriority\<close> exclude each other: while a
  process is inside, a call by the process itself returns -1 and one by any other process
  does not return; the release by the holder succeeds and one by any other process returns
  -1 and leaves the lock alone.
\<close>

theorem prioritylock_exclusive:
  assumes "pl_run s own ws" "n \<in> own" "in_proc Userlock_lk s i" "0 < pid (ptable s ! i)"
  shows "own = {n} \<and> (if pid (ptable s ! i) = n
    then returns (acquirepriority s) (\<lambda>r _. r = - 1) \<and> returns (releasepriority s) (\<lambda>r t. r = 0 \<and> \<not> pl_locked (userlock t))
    else (\<forall>r t. acquirepriority s \<noteq> Ret r t) \<and> returns (releasepriority s) (\<lambda>r t. r = - 1 \<and> userlock t = userlock s))"
proof -
  have inv: "pl_run_inv s own ws" using assms(1) by (rule pl_run_inv)
  then have k: "pl_locked (userlock s)" "own = {pl_pid (userlock s)}" "n = pl_pid (userlock s)" "pl_inv (userlock s)"
    using assms(2) by (auto simp: pl_run_inv_def Let_def split: if_splits)
  have "acquirepriority s \<noteq> Ret r t" if ne: "pid (ptable s ! i) \<noteq> n" for r t
  proof
    assume *: "acquirepriority s = Ret r t"
    then obtain u k' where add: "add_process_to_priority_lock (pid (ptable s ! i)) (userlock s) = Ret u k'"
        "acquirepriority_loop (s\<lparr>hw := lock_in Userlock_lk (hw s), userlock := k'\<rparr>) = Ret r t"
      using acquirepriority_cases [OF assms(3)] ne k(3)
        stays_add [of "pid (ptable s ! i)" "userlock s"]
      by (cases "add_process_to_priority_lock (pid (ptable s ! i)) (userlock s)") auto
    moreover have "pl_locked k'" using add_process_inv [OF k(4) add(1)] k(1) by simp
    ultimately show False
      using acquirepriority_loop_Ret [OF add(2), of i] assms(3) by (simp add: in_proc_def)
  qed
  moreover have "returns (acquirepriority s) (\<lambda>r _. r = - 1)" if "pid (ptable s ! i) = n"
    using that k(3) acquirepriority_cases [OF assms(3)] by simp
  ultimately show ?thesis
    using k assms(3) by (auto simp: in_proc_def releasepriority_def kacquire_free mypid_ok krelease_lock_in
        upd_userlock_def wakeup_ok can_lock_def wakeup1_def)
qed

text \<open>
  An example history: process 3 takes the lock, process 2 waits for it, process 3
  releases it and process 2 is dispatched.
\<close>

lemma enter_free:
  assumes "in_proc Userlock_lk s i" "\<not> pl_locked (userlock s)" "pl_pid (userlock s) \<noteq> pid (ptable s ! i)"
    "add_process_to_priority_lock (pid (ptable s ! i)) (userlock s) = Ret u k" "\<not> pl_locked k" "pl_front k = pid (ptable s ! i)"
  shows "\<exists>t. acquirepriority s = Ret 0 t \<and> userlock t = pop_priority_queue (k\<lparr>pl_locked := True, pl_pid := pid (ptable s ! i)\<rparr>)"
proof -
  let ?u = "s\<lparr>hw := lock_in Userlock_lk (hw s), userlock := k\<rparr>"
  have "returns (acquirepriority_loop ?u) (\<lambda>r _. r = 0)"
    using assms by (intro loop_returns [of _ "hw s" i]) (auto simp: in_proc_def)
  then obtain t where t: "acquirepriority_loop ?u = Ret 0 t" by (auto elim!: returnsE)
  moreover have "acquirepriority s = acquirepriority_loop ?u"
    using acquirepriority_cases [OF assms(1)] assms(3,4) by simp
  ultimately show ?thesis
    using acquirepriority_loop_Ret [OF t, of i] assms(1) by (simp add: in_proc_def)
qed

lemma enter_held:
  assumes "in_proc Userlock_lk s i" "pl_pid (userlock s) \<noteq> pid (ptable s ! i)" "ncli (cpus (hw s) ! me (hw s)) = 0"
    "add_process_to_priority_lock (pid (ptable s ! i)) (userlock s) = Ret u k" "pl_locked k"
  shows "\<exists>t. acquirepriority s = Swtch t \<and> userlock t = k"
proof -
  let ?u = "s\<lparr>hw := lock_in Userlock_lk (hw s), userlock := k\<rparr>"
  have "sleep (Some Chan_userlock) Userlock_lk ?u = (Swtch (upd_proc i (\<lambda>q. q\<lparr>chan := Some Chan_userlock, state := SLEEPING\<rparr>) ?u
      \<lparr>hw := lock_in Ptable_lock (hw s)\<rparr>) :: (kstate, int) outcome)"
    using assms by (intro sleep_ok [of "hw s"]) (auto simp: in_proc_def)
  then show ?thesis
    using acquirepriority_cases [OF assms(1)] assms(2,4,5) by (simp add: acquirepriority_loop_def upd_proc_def)
qed

definition demo_pl :: "prioritylock \<Rightarrow> nat \<Rightarrow> kstate" where
  "demo_pl lk i = demo_procs\<lparr>userlock := lk, hw := demo_running i\<rparr>"

abbreviation (input) demo_lk :: "bool \<Rightarrow> int list \<Rightarrow> int \<Rightarrow> int \<Rightarrow> int \<Rightarrow> prioritylock" where
  "demo_lk l q f n p \<equiv> \<lparr>pl_locked = l, pl_queue = q, queue_front = f, queue_size = n, pl_pid = p\<rparr>"

lemma demo_pl_sel [simp]:
  "userlock (demo_pl lk i) = lk" "hw (demo_pl lk i) = demo_running i" "ptable (demo_pl lk i) = ptable demo_procs"
  "pid (ptable demo_procs ! Suc 0) = 2" "pid (ptable demo_procs ! 2) = 3" "pid (ptable demo_procs ! 0) = 1" "length (ptable demo_procs) = 3"
  by (simp_all add: demo_pl_def demo_procs_def demo_proc_def)

lemma demo_pl_proc: "i < 3 \<Longrightarrow> in_proc Userlock_lk (demo_pl lk i) i"
  by (simp add: in_proc_def)

lemma demo_replicate: "replicate 64 x = x # replicate 63 x" "(replicate 63 x)[0 := y] = y # replicate 62 x"
  by (simp_all add: numeral_eq_Suc)

lemma demo_release:
  "\<exists>t. releasepriority (demo_pl (demo_lk True q f n 3) 2) = Ret 0 t \<and> userlock t = demo_lk False q f n 0"
  by (simp add: releasepriority_def kacquire_free mypid_ok krelease_lock_in upd_userlock_def wakeup_ok
      can_lock_def wakeup1_def)

lemma demo_pl_take:
  assumes "pl_run (demo_pl (demo_lk False q (int k) (- 1) 0) 2) {} {#}" "length q = 64" "k < 63"
  shows "pl_run (demo_pl (demo_lk True (q[k := 3]) (int k + 1) (- 1) 3) i) {3} {#}"
proof -
  let ?s = "demo_pl (demo_lk False q (int k) (- 1) 0) 2"
  have "add_process_to_priority_lock (pid (ptable ?s ! 2)) (userlock ?s) = Ret () (demo_lk False (q[k := 3]) (int k) 0 0)"
    using assms(3) by (simp add: add_process_to_priority_lock_def crem_nonneg)
  from enter_free [OF demo_pl_proc _ _ this]
  obtain t where t: "acquirepriority ?s = Ret 0 t" "userlock t = demo_lk True (q[k := 3]) (int k + 1) (- 1) 3"
    using assms(2,3) by (auto simp: pl_front_def pop_priority_queue_def crem_nonneg)
  have "pl_run t {3} {#}" using pl_run.enter [OF assms(1) demo_pl_proc _ t(1)] by simp
  then show ?thesis by (rule pl_run.other) (simp add: t(2))
qed

lemma demo_pl_start: "pl_run (demo_pl (demo_lk False (replicate 64 0) 0 (- 1) 0) i) {} {#}"
  by (rule pl_run.start) (simp_all add: initprioritylock_def)

lemma demo_pl_held: "pl_run (demo_pl (demo_lk True (3 # replicate 63 0) 1 (- 1) 3) i) {3} {#}"
  using demo_pl_take [of "replicate 64 0" 0 i] demo_pl_start [of 2] by (simp add: demo_replicate)

lemma demo_pl_waits: "pl_run (demo_pl (demo_lk True (3 # 2 # replicate 62 0) 1 0 3) i) {3} {#2#}"
proof -
  let ?s = "demo_pl (demo_lk True (3 # replicate 63 0) 1 (- 1) 3) 1"
  have "add_process_to_priority_lock (pid (ptable ?s ! 1)) (userlock ?s) = Ret () (demo_lk True (3 # 2 # replicate 62 0) 1 0 3)"
    by (simp add: add_process_to_priority_lock_def demo_replicate crem_nonneg)
  from enter_held [OF demo_pl_proc _ _ this]
  obtain t where t: "acquirepriority ?s = Swtch t" "userlock t = demo_lk True (3 # 2 # replicate 62 0) 1 0 3"
    by auto
  have "pl_run t {3} {#2#}" using pl_run.wait [OF demo_pl_held demo_pl_proc _ t(1)] by simp
  then show ?thesis by (rule pl_run.other) (simp add: t(2))
qed

lemma demo_pl_released: "pl_run (demo_pl (demo_lk False (3 # 2 # replicate 62 0) 1 0 0) i) {} {#2#}"
proof -
  obtain t where t: "releasepriority (demo_pl (demo_lk True (3 # 2 # replicate 62 0) 1 0 3) 2) = Ret 0 t"
      "userlock t = demo_lk False (3 # 2 # replicate 62 0) 1 0 0"
    using demo_release by blast
  have "pl_run t {} {#2#}" using pl_run.leave [OF demo_pl_waits demo_pl_proc _ t(1)] by simp
  then show ?thesis by (rule pl_run.other) (simp add: t(2))
qed

lemma prioritylock_serves_highest_witness:
  "\<exists>r t. acquirepriority_resume 1 True
     ((demo_pl (demo_lk False (3 # 2 # replicate 62 0) 1 0 0) 1)\<lparr>hw := lock_in Ptable_lock (demo_running 1)\<rparr>) = Ret r t"
proof -
  let ?s = "(demo_pl (demo_lk False (3 # 2 # replicate 62 0) 1 0 0) 1)\<lparr>hw := lock_in Ptable_lock (demo_running 1)\<rparr>"
  have "pl_run ?s {} {#2#}" by (rule pl_run.other [OF demo_pl_released]) simp
  moreover have "dispatched Userlock_lk ?s 1"
    unfolding dispatched_def by (rule exI [of _ "demo_running 1"]) simp
  ultimately show ?thesis
    using prioritylock_serves_highest [of ?s "{}" "{#2#}" 1] by simp
qed

lemma prioritylock_exclusive_witness:
  "returns (releasepriority (demo_pl (demo_lk True (3 # replicate 63 0) 1 (- 1) 3) 1))
     (\<lambda>r t. r = - 1 \<and> userlock t = demo_lk True (3 # replicate 63 0) 1 (- 1) 3)"
  using prioritylock_exclusive [OF demo_pl_held, of 3 1 1] demo_pl_proc [of 1] by simp

text \<open>
  C40: The ring of waiting processes breaks when it reaches the end of its array.
  With the front at slot 63, which is where 63 uncontended uses of the lock leave it, and
  one process waiting, the next process that has to wait makes the insertion read and
  write the element before the array.
\<close>

theorem priority_queue_wraps_badly:
  assumes "pl_run s own ws" "queue_front (userlock s) + queue_size (userlock s) = 63" "ws \<noteq> {#}"
    "in_proc Userlock_lk s i" "pl_pid (userlock s) \<noteq> pid (ptable s ! i)"
  shows "acquirepriority s = Fault ''queue index''"
proof -
  have "pl_inv (userlock s)" "pl_waiting (userlock s) \<noteq> []"
    using pl_run_inv [OF assms(1)] assms(3) by (auto simp: pl_run_inv_def Let_def)
  then have "\<not> pl_room (userlock s)" "pl_ok (userlock s)"
    using assms(2) by (auto simp: pl_room_def pl_inv_def)
  then show ?thesis
    using acquirepriority_cases [OF assms(4)] assms(5) by (simp add: add_process_full)
qed

lemma demo_pl_cycles: "k < 63 \<Longrightarrow> \<exists>q. length q = 64 \<and> pl_run (demo_pl (demo_lk False q (int k) (- 1) 0) i) {} {#}"
proof (induction k arbitrary: i)
  case 0
  then show ?case using demo_pl_start by (intro exI [of _ "replicate 64 0"]) simp
next
  case (Suc k)
  then obtain q where q: "length q = 64" "pl_run (demo_pl (demo_lk False q (int k) (- 1) 0) 2) {} {#}" by force
  let ?q = "q[k := 3]"
  have held: "pl_run (demo_pl (demo_lk True ?q (int k + 1) (- 1) 3) 2) {3} {#}"
    using q Suc.prems by (intro demo_pl_take) auto
  obtain t where t: "releasepriority (demo_pl (demo_lk True ?q (int k + 1) (- 1) 3) 2) = Ret 0 t"
      "userlock t = demo_lk False ?q (int k + 1) (- 1) 0"
    using demo_release by blast
  have "pl_run t {} {#}" using pl_run.leave [OF held demo_pl_proc _ t(1)] by simp
  then have "pl_run (demo_pl (demo_lk False ?q (int k + 1) (- 1) 0) i) {} {#}"
    by (rule pl_run.other) (simp add: t(2))
  then show ?case using q(1) by (intro exI [of _ ?q]) (simp add: add.commute)
qed

lemma priority_queue_wraps_badly_witness: "\<exists>s own ws. pl_run s own ws \<and> acquirepriority s = Fault ''queue index''"
proof -
  obtain q where q: "length q = 64" "pl_run (demo_pl (demo_lk False q (int 62) (- 1) 0) 2) {} {#}"
    using demo_pl_cycles [of 62] by fastforce
  have held: "pl_run (demo_pl (demo_lk True (q[62 := 3]) 63 (- 1) 3) 1) {3} {#}"
    using demo_pl_take [of q 62 1] q by simp
  let ?s = "demo_pl (demo_lk True (q[62 := 3]) 63 (- 1) 3) 1" let ?k = "demo_lk True (q[62 := 3, 63 := 2]) 63 0 3"
  have "add_process_to_priority_lock (pid (ptable ?s ! 1)) (userlock ?s) = Ret () ?k"
    by (simp add: add_process_to_priority_lock_def crem_nonneg)
  from enter_held [OF demo_pl_proc _ _ this] obtain t where t: "acquirepriority ?s = Swtch t" "userlock t = ?k"
    by auto
  have "pl_run t {3} {#2#}" using pl_run.wait [OF held demo_pl_proc _ t(1)] by simp
  then have run: "pl_run (demo_pl ?k 0) {3} {#2#}" by (rule pl_run.other) (simp add: t(2))
  have "acquirepriority (demo_pl ?k 0) = Fault ''queue index''"
    using priority_queue_wraps_badly [OF run _ _ demo_pl_proc] by simp
  with run show ?thesis by blast
qed

end
