(* ===== verification/Console_Out.thy ===== *)
theory Console_Out
  imports Sched_Policy
begin

text \<open>
  Console output: \<open>cgaputc\<close>, \<open>consputc\<close>, \<open>printint\<close> and \<open>cprintf\<close> of
  \<open>console.c\<close>. The screen memory is \<open>crt\<close>, indexed like the array of the
  code, and \<open>crt_pos\<close> is the cursor register of the video controller; the bytes
  sent to the serial port are collected in \<open>uart_out\<close>.
\<close>

section \<open>The screen\<close>

abbreviation (input) BACKSPACE :: int where "BACKSPACE \<equiv> 0x100"
abbreviation (input) CLEAR :: int where "CLEAR \<equiv> 0x101"
abbreviation (input) MOVE_LEFT :: int where "MOVE_LEFT \<equiv> 0x102"
abbreviation (input) MOVE_RIGHT :: int where "MOVE_RIGHT \<equiv> 0x103"
abbreviation (input) GO_END_OF_LINE :: int where "GO_END_OF_LINE \<equiv> 0x104"
abbreviation (input) blank :: u16 where "blank \<equiv> 0x0720"
abbreviation (input) newline :: int where "newline \<equiv> 10"

text \<open>
  The adapter has 16 KB of memory for 16-bit cells. An access outside of it is \<open>None\<close>
  in the loops and a fault of \<open>cgaputc\<close>.
\<close>

abbreviation (input) CRT_CELLS :: int where "CRT_CELLS \<equiv> 0x2000"

definition on_crt :: "int \<Rightarrow> bool" where
  "on_crt i \<longleftrightarrow> 0 \<le> i \<and> i < CRT_CELLS"

text \<open>The loop of the backspace, up to an unsigned bound, and that of a new character.\<close>

function shift_left :: "int \<Rightarrow> int \<Rightarrow> (int \<Rightarrow> u16) \<Rightarrow> (int \<Rightarrow> u16) option" where
  "shift_left i bound t =
     (if i < bound
      then if on_crt i \<and> on_crt (i + 1) then shift_left (i + 1) bound (t(i := t (i + 1))) else None
      else Some t)"
  by pat_completeness auto
termination
  by (relation "measure (\<lambda>(i, bound, t). nat (bound - i))") auto

function shift_right :: "int \<Rightarrow> int \<Rightarrow> (int \<Rightarrow> u16) \<Rightarrow> (int \<Rightarrow> u16) option" where
  "shift_right i pos t =
     (if i > pos
      then if on_crt i \<and> on_crt (i - 1) then shift_right (i - 1) pos (t(i := t (i - 1))) else None
      else Some t)"
  by pat_completeness auto
termination
  by (relation "measure (\<lambda>(i, pos, t). nat (i - pos))") auto

declare shift_left.simps [simp del] shift_right.simps [simp del]

definition crt_put :: "int \<Rightarrow> u16 \<Rightarrow> (int \<Rightarrow> u16) \<Rightarrow> (int \<Rightarrow> u16) option" where
  "crt_put i v t = (if on_crt i then Some (t(i := v)) else None)"

definition input_gap :: "kstate \<Rightarrow> u32" where
  "input_gap s = in_end (input s) - in_e (input s)"

text \<open>\<open>pos\<close> is a C \<open>int\<close>; its sum with the gap is an unsigned 32-bit word.\<close>

definition crt_edit :: "int \<Rightarrow> int \<Rightarrow> u32 \<Rightarrow> (int \<Rightarrow> u16) \<Rightarrow> (int \<times> (int \<Rightarrow> u16)) option" where
  "crt_edit c pos gap t =
     (if c = newline then Some (pos + (80 - pos mod 80), t)
      else if c = BACKSPACE then
        let pos = (if pos > 0 then pos - 1 else pos);
            bound = uint (word_of_int pos + gap)
        in Option.bind (shift_left pos bound t) (\<lambda>t. map_option (Pair pos) (crt_put bound blank t))
      else if c = CLEAR then Some (0, \<lambda>i. if 0 \<le> i \<and> i < 25 * 80 then blank else t i)
      else if c = MOVE_LEFT then Some (if pos > 0 then pos - 1 else pos, t)
      else if c = MOVE_RIGHT then Some (if pos < 80 * 25 then pos + 1 else pos, t)
      else if c = GO_END_OF_LINE then Some (sint (word_of_int pos + gap), t)
      else
        Option.bind (shift_right (sint (word_of_int pos + gap)) pos t) (\<lambda>t.
        map_option (Pair (pos + 1)) (crt_put pos ((word_of_int c AND 0xFF) OR 0x0700) t)))"

definition crt_scroll :: "int \<Rightarrow> (int \<Rightarrow> u16) \<Rightarrow> int \<times> (int \<Rightarrow> u16)" where
  "crt_scroll pos t =
     (if pos div 80 \<ge> 24
      then let t = (\<lambda>i. if 0 \<le> i \<and> i < 23 * 80 then t (i + 80) else t i);
               pos = pos - 80
           in (pos, \<lambda>i. if pos \<le> i \<and> i < 24 * 80 then 0 else t i)
      else (pos, t))"

definition cgaputc :: "int \<Rightarrow> kstate \<Rightarrow> (kstate, unit) outcome" where
  "cgaputc c s =
     (case crt_edit c (uint (crt_pos s)) (input_gap s) (crt s) of
        None \<Rightarrow> Fault ''crt''
      | Some (pos, t) \<Rightarrow>
          if pos < 0 \<or> pos > 25 * 80 then Panic ''pos under/overflow''
          else let (pos, t) = crt_scroll pos t;
                   s = s\<lparr>crt_pos := word_of_int pos\<rparr>
               in if in_end (input s) = in_e (input s) \<and> c \<noteq> CLEAR
                  then (case crt_put pos blank t of None \<Rightarrow> Fault ''crt'' | Some t \<Rightarrow> Ret () (s\<lparr>crt := t\<rparr>))
                  else Ret () (s\<lparr>crt := t\<rparr>))"

section \<open>Characters\<close>

definition uartputc :: "int \<Rightarrow> kstate \<Rightarrow> kstate" where
  "uartputc c s = (if uart s then s\<lparr>uart_out := uart_out s @ [word_of_int c]\<rparr> else s)"

definition consputc :: "int \<Rightarrow> kstate \<Rightarrow> (kstate, unit) outcome" where
  "consputc c s =
     (if panicked s then Spin
      else
        let s = (if c = BACKSPACE then uartputc 8 (uartputc 32 (uartputc 8 s)) else uartputc c s)
        in cgaputc c s)"

fun consputs :: "int list \<Rightarrow> kstate \<Rightarrow> (kstate, unit) outcome" where
  "consputs [] s = Ret () s"
| "consputs (c # cs) s = bnd (consputc c s) (\<lambda>_ s. consputs cs s)"

section \<open>Numbers\<close>

definition hexdigit :: "nat \<Rightarrow> int" where
  "hexdigit d = (if d < 10 then 48 + int d else 87 + int d)"

function print_digits :: "nat \<Rightarrow> nat \<Rightarrow> int list" where
  "print_digits base x =
     (if x div base = 0 \<or> base < 2 then [hexdigit (x mod base)]
      else hexdigit (x mod base) # print_digits base (x div base))"
  by pat_completeness auto
termination
  by (relation "measure (\<lambda>(base, x). x)") (auto simp: div_eq_0_iff intro!: div_less_dividend)

declare print_digits.simps [simp del]

text \<open>The characters of a number, in the order they are printed.\<close>

definition int_chars :: "int \<Rightarrow> nat \<Rightarrow> bool \<Rightarrow> int list" where
  "int_chars xx base sign =
     (let neg = sign \<and> xx < 0;
          x = (if neg then - word_of_int xx else word_of_int xx :: u32)
      in rev (print_digits base (unat x) @ (if neg then [45] else [])))"

definition printint :: "int \<Rightarrow> nat \<Rightarrow> bool \<Rightarrow> kstate \<Rightarrow> (kstate, unit) outcome" where
  "printint xx base sign s = consputs (int_chars xx base sign) s"

section \<open>Formatted output\<close>

datatype fmtarg = Num int | Str "u8 list option"

abbreviation (input) chars :: "string \<Rightarrow> int list" where "chars \<equiv> map of_char"

fun cprintf_loop :: "string \<Rightarrow> fmtarg list \<Rightarrow> kstate \<Rightarrow> (kstate, unit) outcome" where
  "cprintf_loop [] args s = Ret () s"
| "cprintf_loop (c # fmt) args s =
     (if c \<noteq> CHR ''%'' then bnd (consputc (of_char c) s) (\<lambda>_ s. cprintf_loop fmt args s)
      else case fmt of
        [] \<Rightarrow> Ret () s
      | c # fmt \<Rightarrow>
        if c = CHR ''d'' then
          (case args of Num n # args \<Rightarrow> bnd (printint n 10 True s) (\<lambda>_ s. cprintf_loop fmt args s)
           | _ \<Rightarrow> Fault ''argument'')
        else if c = CHR ''x'' \<or> c = CHR ''p'' then
          (case args of Num n # args \<Rightarrow> bnd (printint n 16 False s) (\<lambda>_ s. cprintf_loop fmt args s)
           | _ \<Rightarrow> Fault ''argument'')
        else if c = CHR ''s'' then
          (case args of Str p # args \<Rightarrow>
             bnd (consputs (case p of None \<Rightarrow> chars ''(null)'' | Some t \<Rightarrow> map sint t) s) (\<lambda>_ s. cprintf_loop fmt args s)
           | _ \<Rightarrow> Fault ''argument'')
        else if c = CHR ''%'' then bnd (consputc 37 s) (\<lambda>_ s. cprintf_loop fmt args s)
        else bnd (consputc 37 s) (\<lambda>_ s. bnd (consputc (of_char c) s) (\<lambda>_ s. cprintf_loop fmt args s)))"

definition cprintf :: "string \<Rightarrow> fmtarg list \<Rightarrow> kstate \<Rightarrow> (kstate, unit) outcome" where
  "cprintf fmt args s =
     (let locking = cons_locking s in
      bnd (if locking then kacquire Cons_lock s else Ret () s) (\<lambda>_ s.
      bnd (cprintf_loop fmt args s) (\<lambda>_ s.
      if locking then krelease Cons_lock s else Ret () s)))"

section \<open>What output leaves alone\<close>

definition io_free :: "(kstate \<Rightarrow> bool) \<Rightarrow> bool" where
  "io_free P \<longleftrightarrow> (\<forall>s h t p u. P (s\<lparr>hw := h, crt := t, crt_pos := p, uart_out := u\<rparr>) = P s)"

lemma io_freeD:
  assumes "io_free P"
  shows "P (s\<lparr>crt := t\<rparr>) = P s" "P (s\<lparr>crt_pos := p\<rparr>) = P s" "P (s\<lparr>uart_out := u\<rparr>) = P s" "hw_free P"
proof -
  have *: "P (s\<lparr>hw := h, crt := t, crt_pos := p, uart_out := u\<rparr>) = P s" for s h t p u
    using assms by (simp only: io_free_def)
  show "P (s\<lparr>crt := t\<rparr>) = P s" using * [where s = s and h = "hw s" and t = t and p = "crt_pos s" and u = "uart_out s"] by simp
  show "P (s\<lparr>crt_pos := p\<rparr>) = P s" using * [where s = s and h = "hw s" and t = "crt s" and p = p and u = "uart_out s"] by simp
  show "P (s\<lparr>uart_out := u\<rparr>) = P s" using * [where s = s and h = "hw s" and t = "crt s" and p = "crt_pos s" and u = u] by simp
  show "hw_free P" unfolding hw_free_def
  proof (intro allI)
    fix s h show "P (s\<lparr>hw := h\<rparr>) = P s" using * [where s = s and h = h and t = "crt s" and p = "crt_pos s" and u = "uart_out s"] by simp
  qed
qed

lemma uartputc_keeps: "io_free P \<Longrightarrow> P (uartputc c s) = P s"
  by (simp add: uartputc_def io_freeD)

lemma cgaputc_keeps [frame]: "io_free P \<Longrightarrow> P s \<Longrightarrow> keeps (cgaputc c s) P"
  by (auto simp: cgaputc_def io_freeD Let_def split: prod.split option.split)

lemma consputc_keeps [frame]: "io_free P \<Longrightarrow> P s \<Longrightarrow> keeps (consputc c s) P"
  by (auto simp: consputc_def uartputc_keeps intro!: frame)

lemma consputs_keeps [frame]: "io_free P \<Longrightarrow> P s \<Longrightarrow> keeps (consputs cs s) P"
  by (induction cs arbitrary: s) (auto intro!: frame)

lemma P_if: "(b \<Longrightarrow> P x) \<Longrightarrow> (\<not> b \<Longrightarrow> P y) \<Longrightarrow> P (if b then x else y)"
  by simp

lemma P_list: "(xs = [] \<Longrightarrow> P x) \<Longrightarrow> (\<And>y ys. xs = y # ys \<Longrightarrow> P (f y ys)) \<Longrightarrow> P (case xs of [] \<Rightarrow> x | y # ys \<Rightarrow> f y ys)"
  by (cases xs) auto

lemma P_fmtarg: "(\<And>n. a = Num n \<Longrightarrow> P (f n)) \<Longrightarrow> (\<And>t. a = Str t \<Longrightarrow> P (g t)) \<Longrightarrow> P (case a of Num n \<Rightarrow> f n | Str t \<Rightarrow> g t)"
  by (cases a) auto

lemma cprintf_loop_keeps [frame]: "io_free P \<Longrightarrow> P s \<Longrightarrow> keeps (cprintf_loop fmt args s) P"
proof (induction "length fmt" arbitrary: fmt args s rule: less_induct)
  case less
  have IH: "keeps (cprintf_loop f a t) P" if "length f < length fmt" "P t" for f a t
    using less.hyps [OF that(1)] less.prems(1) that(2) by blast
  show ?case
  proof (cases fmt)
    case Nil
    then show ?thesis using less.prems by simp
  next
    case (Cons c rest)
    have *: "keeps (cprintf_loop rest a t) P" if "P t" for a t using IH [of rest] Cons that by simp
    have **: "keeps (cprintf_loop r a t) P" if "rest = d # r" "P t" for d r a t
      using IH [of r] Cons that by simp
    show ?thesis
      using less.prems unfolding Cons
      by (simp only: cprintf_loop.simps printint_def)
        (rule P_if [where P = "\<lambda>m. keeps m P"] P_list [where P = "\<lambda>m. keeps m P"] P_fmtarg [where P = "\<lambda>m. keeps m P"]
          keeps_bnd consputc_keeps consputs_keeps * ** keeps_simps(1) [THEN iffD2] keeps_simps(5) | assumption)+
  qed
qed

lemma cprintf_keeps [frame]: "io_free P \<Longrightarrow> P s \<Longrightarrow> keeps (cprintf fmt args s) P"
  by (auto simp: cprintf_def Let_def io_freeD intro!: frame)

lemma stays_consputc [frame]: "stays (consputc c s)"
  by (auto simp: consputc_def cgaputc_def Let_def split: prod.split option.split)

lemma stays_consputs [frame]: "stays (consputs cs s)"
  by (induction cs arbitrary: s) (auto intro!: frame)

lemma stays_cprintf_loop [frame]: "stays (cprintf_loop fmt args s)"
proof (induction "length fmt" arbitrary: fmt args s rule: less_induct)
  case less
  show ?case
  proof (cases fmt)
    case Nil
    then show ?thesis by simp
  next
    case (Cons c rest)
    have *: "stays (cprintf_loop rest a t)" for a t using less.hyps [of rest] Cons by simp
    have **: "stays (cprintf_loop r a t)" if "rest = d # r" for d r a t
      using less.hyps [of r] Cons that by simp
    show ?thesis
      unfolding Cons
      by (simp only: cprintf_loop.simps printint_def)
        (rule P_if [where P = stays] P_list [where P = stays] P_fmtarg [where P = stays] stays_bnd stays_consputc
          stays_consputs * ** stays_simps | assumption)+
  qed
qed

lemma stays_cprintf [frame]: "stays (cprintf fmt args s)"
  by (auto simp: cprintf_def Let_def intro!: frame)

section \<open>The cursor\<close>

lemma crt_scroll_pos: "0 \<le> pos \<Longrightarrow> pos \<le> 2000 \<Longrightarrow> 0 \<le> fst (crt_scroll pos t) \<and> fst (crt_scroll pos t) \<le> 1920"
  by (auto simp: crt_scroll_def Let_def)

text \<open>A loop over cells of the adapter ends, and one that leaves it does not.\<close>

lemma shift_left_on:
  "0 \<le> i \<Longrightarrow> bound < CRT_CELLS \<Longrightarrow> \<exists>u. shift_left i bound t = Some u \<and> (\<forall>k. \<not> on_crt k \<longrightarrow> u k = t k)"
proof (induction i bound t rule: shift_left.induct)
  case (1 i bound t)
  show ?case
  proof (cases "i < bound")
    case True
    then have on: "on_crt i \<and> on_crt (i + 1)" using 1(2,3) by (auto simp: on_crt_def)
    have "0 \<le> i + 1" using 1(2) by simp
    from 1(1) [OF True on this 1(3)] obtain u where "shift_left (i + 1) bound (t(i := t (i + 1))) = Some u"
      "\<forall>k. \<not> on_crt k \<longrightarrow> u k = (t(i := t (i + 1))) k" by blast
    with on show ?thesis using True by (subst shift_left.simps) (auto split: if_splits)
  qed (simp add: shift_left.simps)
qed

lemma shift_left_off: "i < bound \<Longrightarrow> CRT_CELLS \<le> bound \<Longrightarrow> shift_left i bound t = None"
proof (induction i bound t rule: shift_left.induct)
  case (1 i bound t)
  show ?case
  proof (cases "on_crt i \<and> on_crt (i + 1)")
    case True
    then have "i + 1 < bound" using 1(3) by (simp add: on_crt_def)
    then have "shift_left (i + 1) bound (t(i := t (i + 1))) = None" by (rule 1(1) [OF 1(2) True _ 1(3)])
    then show ?thesis using True 1(2) by (subst shift_left.simps) simp
  qed (subst shift_left.simps, use 1(2) in auto)
qed

lemma shift_right_on:
  "0 \<le> pos \<Longrightarrow> i < CRT_CELLS \<Longrightarrow> \<exists>u. shift_right i pos t = Some u \<and> (\<forall>k. \<not> on_crt k \<longrightarrow> u k = t k)"
proof (induction i pos t rule: shift_right.induct)
  case (1 i pos t)
  show ?case
  proof (cases "i > pos")
    case True
    then have on: "on_crt i \<and> on_crt (i - 1)" using 1(2,3) by (auto simp: on_crt_def)
    have "i - 1 < CRT_CELLS" using 1(3) by simp
    from 1(1) [OF True on 1(2) this] obtain u where "shift_right (i - 1) pos (t(i := t (i - 1))) = Some u"
      "\<forall>k. \<not> on_crt k \<longrightarrow> u k = (t(i := t (i - 1))) k" by blast
    with on show ?thesis using True by (subst shift_right.simps) (auto split: if_splits)
  qed (simp add: shift_right.simps)
qed

lemma shift_right_off: "pos < i \<Longrightarrow> CRT_CELLS \<le> i \<Longrightarrow> shift_right i pos t = None"
  by (simp add: shift_right.simps [of i] on_crt_def)

text \<open>The cell one past the edited line, as the code computes it.\<close>

definition line_end :: "kstate \<Rightarrow> int" where
  "line_end s = sint (word_of_int (uint (crt_pos s)) + input_gap s)"

lemma sint_u32: "sint (w :: u32) = (if uint w < 2 ^ 31 then uint w else uint w - 2 ^ 32)"
proof -
  have b: "0 \<le> uint w" "uint w < 2 ^ 32" using uint_bounded [of w] by simp_all
  have s: "sint w = (uint w + 2 ^ 31) mod 2 ^ 32 - 2 ^ 31"
    by (simp add: sint_uint signed_take_bit_eq_take_bit_shift take_bit_eq_mod)
  show ?thesis
  proof (cases "uint w < 2 ^ 31")
    case False
    then have "(uint w + 2 ^ 31) mod 2 ^ 32 = uint w + 2 ^ 31 - 2 ^ 32"
      using b by (subst mod_pos_geq) auto
    with s False show ?thesis by simp
  qed (use b s in simp)
qed

text \<open>The end of the line after the cursor has moved one cell to the left.\<close>

lemma on_crt_u32: "on_crt (uint (w :: u32)) \<longleftrightarrow> on_crt (sint w)"
  using uint_bounded [of w] by (auto simp: sint_u32 on_crt_def)

lemma on_crt_pred: "on_crt (sint (word_of_int (p - 1) + g :: u32)) \<longleftrightarrow> on_crt (sint (word_of_int p + g :: u32) - 1)"
proof -
  let ?w = "word_of_int p + g :: u32"
  have w: "word_of_int (p - 1) + g = ?w - 1" by simp
  have b: "0 \<le> uint ?w" "uint ?w < 2 ^ 32" using uint_bounded [of ?w] by simp_all
  have "uint (?w - 1) = (uint ?w - 1) mod 2 ^ 32" by (simp add: uint_word_ariths)
  also have "\<dots> = (if uint ?w = 0 then 2 ^ 32 - 1 else uint ?w - 1)"
  proof (cases "uint ?w = 0")
    case False
    then show ?thesis using b by (simp only: if_False) (rule mod_pos_pos_trivial, linarith+)
  qed (simp add: zmod_minus1)
  finally show ?thesis using b unfolding w sint_u32 [of "?w - 1"] sint_u32 [of ?w] by (auto simp: on_crt_def split: if_splits)
qed

abbreviation (input) plain_char :: "int \<Rightarrow> bool" where
  "plain_char c \<equiv> c \<notin> {newline, BACKSPACE, CLEAR, MOVE_LEFT, MOVE_RIGHT, GO_END_OF_LINE}"

definition off_screen :: "int \<Rightarrow> int \<Rightarrow> int \<Rightarrow> bool" where
  "off_screen c pos e \<longleftrightarrow> c = BACKSPACE \<and> \<not> on_crt (e - (if 0 < pos then 1 else 0)) \<or> plain_char c \<and> e \<ge> CRT_CELLS"

lemma crt_edit_None:
  assumes "0 \<le> pos" "pos \<le> 1920" "off_screen c pos (sint (word_of_int pos + gap))"
  shows "crt_edit c pos gap t = None"
proof (cases "c = BACKSPACE")
  case True
  let ?q = "if pos > 0 then pos - 1 else pos"
  have "\<not> on_crt (uint (word_of_int ?q + gap))"
    using assms(3) True on_crt_pred [of pos gap] by (auto simp: off_screen_def on_crt_u32 split: if_splits)
  then have "CRT_CELLS \<le> uint (word_of_int ?q + gap)" by (auto simp: on_crt_def)
  moreover from this have "?q < uint (word_of_int ?q + gap)" using assms(2) by auto
  ultimately have "shift_left ?q (uint (word_of_int ?q + gap)) t = None" by (intro shift_left_off)
  then show ?thesis using True unfolding crt_edit_def Let_def by simp
next
  case False
  then have "shift_right (sint (word_of_int pos + gap)) pos t = None"
    using assms by (intro shift_right_off) (auto simp: off_screen_def)
  then show ?thesis using False assms(3) by (simp add: crt_edit_def off_screen_def)
qed

lemma crt_edit_Some:
  assumes "0 \<le> pos" "pos \<le> 1920" "\<not> off_screen c pos (sint (word_of_int pos + gap))"
  shows "\<exists>q u. crt_edit c pos gap t = Some (q, u) \<and> (\<forall>k. \<not> on_crt k \<longrightarrow> u k = t k)
    \<and> (if c = GO_END_OF_LINE then q = sint (word_of_int pos + gap) else 0 \<le> q \<and> q \<le> 2000)"
proof (cases "c = BACKSPACE \<or> plain_char c")
  case False
  have "0 \<le> pos mod 80" by simp
  with False show ?thesis using assms(1,2) by (auto simp: crt_edit_def on_crt_def)
next
  case True
  show ?thesis
  proof (cases "c = BACKSPACE")
    case True
    let ?q = "if pos > 0 then pos - 1 else pos"
    have on: "on_crt (uint (word_of_int ?q + gap))"
      using assms(3) True on_crt_pred [of pos gap] by (auto simp: off_screen_def on_crt_u32 split: if_splits)
    then obtain u where "shift_left ?q (uint (word_of_int ?q + gap)) t = Some u" "\<forall>k. \<not> on_crt k \<longrightarrow> u k = t k"
      using shift_left_on [of ?q "uint (word_of_int ?q + gap)" t] assms(1) by (auto simp: on_crt_def split: if_splits)
    then show ?thesis using True on assms(1,2) unfolding crt_edit_def Let_def by (auto simp: crt_put_def)
  next
    case False
    then have "sint (word_of_int pos + gap) < CRT_CELLS" using True assms(3) by (auto simp: off_screen_def)
    from shift_right_on [OF assms(1) this, of t] obtain u where
      "shift_right (sint (word_of_int pos + gap)) pos t = Some u" "\<forall>k. \<not> on_crt k \<longrightarrow> u k = t k" by blast
    moreover have "on_crt pos" using assms(1,2) by (simp add: on_crt_def)
    ultimately show ?thesis using True False assms(1,2) by (auto simp: crt_edit_def crt_put_def)
  qed
qed

lemma crt_scroll_cells: "0 \<le> pos \<Longrightarrow> \<not> on_crt k \<Longrightarrow> snd (crt_scroll pos t) k = t k"
  by (auto simp: crt_scroll_def Let_def on_crt_def)

text \<open>
  C20: As long as the cursor stands on the first 24 rows or right after them, what a
  character written to the screen does is settled by \<open>line_end\<close>, the cell where the
  edited line ends, computed with the code's 32-bit arithmetic. The jump to the end of the
  line panics exactly when that cell is negative or beyond 2000. A backspace or a plain
  character faults exactly when shifting the rest of the line leaves the memory of the
  adapter. In every other case the cursor stays in its range, only cells of the adapter
  change, and nothing else does.
\<close>

theorem cgaputc_cursor:
  assumes "uint (crt_pos s) \<le> 1920"
  shows "if c = GO_END_OF_LINE \<and> (line_end s < 0 \<or> line_end s > 2000)
    then cgaputc c s = Panic ''pos under/overflow''
    else if off_screen c (uint (crt_pos s)) (line_end s) then cgaputc c s = Fault ''crt''
    else returns (cgaputc c s) (\<lambda>_ t. uint (crt_pos t) \<le> 1920 \<and> t = s\<lparr>crt_pos := crt_pos t, crt := crt t\<rparr>
      \<and> (\<forall>k. on_crt k \<or> crt t k = crt s k))"
proof (cases "off_screen c (uint (crt_pos s)) (line_end s)")
  case True
  then have "c \<noteq> GO_END_OF_LINE" by (auto simp: off_screen_def)
  then show ?thesis
    using True crt_edit_None [OF _ assms, of c "input_gap s" "crt s"] by (simp add: cgaputc_def line_end_def)
next
  case False
  then obtain pos t where e: "crt_edit c (uint (crt_pos s)) (input_gap s) (crt s) = Some (pos, t)"
    and t: "\<forall>k. \<not> on_crt k \<longrightarrow> t k = crt s k"
    and pos: "if c = GO_END_OF_LINE then pos = line_end s else 0 \<le> pos \<and> pos \<le> 2000"
    using crt_edit_Some [OF _ assms, of c "input_gap s" "crt s"] by (auto simp: line_end_def)
  obtain q u where r: "crt_scroll pos t = (q, u)" by fastforce
  show ?thesis
  proof (cases "pos < 0 \<or> pos > 2000")
    case True
    then show ?thesis using e pos by (auto simp: cgaputc_def split: if_splits)
  next
    case inside: False
    then have q: "0 \<le> q" "q \<le> 1920" and u: "\<forall>k. \<not> on_crt k \<longrightarrow> u k = crt s k"
      using crt_scroll_pos [of pos t] crt_scroll_cells [of pos _ t] t r by auto
    then have "uint (word_of_int q :: u16) = q" "on_crt q" by (simp_all add: uint_word_of_int on_crt_def)
    then have "returns (cgaputc c s) (\<lambda>_ t. uint (crt_pos t) \<le> 1920 \<and> t = s\<lparr>crt_pos := crt_pos t, crt := crt t\<rparr>
      \<and> (\<forall>k. on_crt k \<or> crt t k = crt s k))"
      using inside e r q u by (auto simp: cgaputc_def crt_put_def Let_def split: if_splits)
    then show ?thesis using False inside pos by (auto split: if_splits)
  qed
qed

lemma cgaputc_cursor_witness:
  "returns (cgaputc GO_END_OF_LINE (demo_state\<lparr>crt_pos := 5, input := (input demo_state)\<lparr>in_e := 1\<rparr>\<rparr>))
     (\<lambda>_ t. uint (crt_pos t) \<le> 1920)"
proof -
  let ?s = "demo_state\<lparr>crt_pos := 5, input := (input demo_state)\<lparr>in_e := 1\<rparr>\<rparr>"
  have "line_end ?s = 4" by (simp add: demo_state_def boot_state_def line_end_def input_gap_def)
  then show ?thesis
    using cgaputc_cursor [of ?s GO_END_OF_LINE] by (auto simp: off_screen_def elim: returns_mono)
qed

section \<open>Printed numbers\<close>

fun digit_val :: "int \<Rightarrow> nat" where
  "digit_val c = (if c < 58 then nat (c - 48) else nat (c - 87))"

text \<open>The value of a numeral, most significant digit first, with an optional sign.\<close>

definition numeral_val :: "nat \<Rightarrow> int list \<Rightarrow> int" where
  "numeral_val base cs =
     (case cs of c # ds \<Rightarrow> if c = 45 then - int (foldl (\<lambda>a d. a * base + digit_val d) 0 ds)
        else int (foldl (\<lambda>a d. a * base + digit_val d) 0 cs) | [] \<Rightarrow> 0)"

lemma digit_val_hexdigit: "d < 16 \<Longrightarrow> digit_val (hexdigit d) = d"
  by (simp add: hexdigit_def)

lemma print_digits_val:
  "2 \<le> base \<Longrightarrow> base \<le> 16 \<Longrightarrow> foldr (\<lambda>d a. a * base + digit_val d) (print_digits base x) 0 = x"
proof (induction x rule: less_induct)
  case (less x)
  have "x mod base < base" using less.prems by simp
  then have d: "digit_val (hexdigit (x mod base)) = x mod base"
    using less.prems by (intro digit_val_hexdigit) linarith
  show ?case
  proof (cases "x div base = 0")
    case True
    then show ?thesis using less.prems d by (simp add: print_digits.simps [of base x] div_eq_0_iff)
  next
    case False
    then have "x div base < x" using less.prems by (intro div_less_dividend) (auto intro!: gr0I)
    with less.IH [of "x div base"] less.prems False d show ?thesis
      by (simp add: print_digits.simps [of base x])
  qed
qed

lemma print_digits_range: "2 \<le> base \<Longrightarrow> c \<in> set (print_digits base x) \<Longrightarrow> 48 \<le> c"
proof (induction base x rule: print_digits.induct)
  case (1 base x)
  then show ?case
    by (auto simp: print_digits.simps [of base x] hexdigit_def split: if_splits)
qed

lemma print_digits_nonempty: "print_digits base x \<noteq> []"
  by (subst print_digits.simps) simp

lemma print_digits_foldl:
  "2 \<le> base \<Longrightarrow> base \<le> 16 \<Longrightarrow> foldl (\<lambda>a d. a * base + digit_val d) 0 (rev (print_digits base x)) = x"
  using print_digits_val [of base x] by (simp add: foldl_conv_foldr del: digit_val.simps)

lemma numeral_val_digits:
  assumes "2 \<le> base" "base \<le> 16"
  shows "numeral_val base (rev (print_digits base x)) = int x"
    and "numeral_val base (rev (print_digits base x @ [45])) = - int x"
proof -
  obtain c cs where c: "rev (print_digits base x) = c # cs"
    using print_digits_nonempty [of base x] by (cases "rev (print_digits base x)") auto
  then have "c \<in> set (print_digits base x)" by (metis list.set_intros(1) set_rev)
  then have "c \<noteq> 45" using print_digits_range [OF assms(1)] by fastforce
  then show "numeral_val base (rev (print_digits base x)) = int x"
    using print_digits_foldl [OF assms, of x] by (simp add: numeral_val_def c del: digit_val.simps)
  show "numeral_val base (rev (print_digits base x @ [45])) = - int x"
    using print_digits_foldl [OF assms, of x] by (simp add: numeral_val_def del: digit_val.simps)
qed

text \<open>
  C19: The characters \<open>printint\<close> writes are the numeral of its argument: read
  back, the signed decimal form gives every C integer, the most negative one included,
  and the unsigned hexadecimal form gives its value modulo 2^32.
\<close>

theorem printint_numeral:
  assumes "- (2 ^ 31) \<le> n" "n < 2 ^ 31"
  shows "printint n 10 True s = consputs (int_chars n 10 True) s \<and> numeral_val 10 (int_chars n 10 True) = n
    \<and> numeral_val 16 (int_chars n 16 False) = n mod 2 ^ 32"
proof -
  have hex: "numeral_val 16 (int_chars n 16 False) = n mod 2 ^ 32"
    using numeral_val_digits(1) [of 16] by (simp add: int_chars_def uint_word_of_int flip: uint_nat)
  have "numeral_val 10 (int_chars n 10 True) = n"
  proof (cases "n < 0")
    case True
    have "uint (word_of_int (- n) :: u32) = - n" using assms True by (subst uint_word_of_int) simp
    moreover have "- word_of_int n = (word_of_int (- n) :: u32)" by simp
    ultimately have "int (unat (- word_of_int n :: u32)) = - n" by (simp only: uint_nat)
    then show ?thesis
      using True numeral_val_digits(2) [of 10 "unat (- word_of_int n :: u32)"]
      by (simp add: int_chars_def Let_def)
  next
    case False
    have "uint (word_of_int n :: u32) = n" using assms False by (simp add: uint_word_of_int)
    then show ?thesis
      using False numeral_val_digits(1) [of 10 "unat (word_of_int n :: u32)"]
      by (simp add: int_chars_def Let_def flip: uint_nat)
  qed
  with hex show ?thesis by (simp add: printint_def)
qed

lemma printint_numeral_witness: "numeral_val 10 (int_chars (- 2147483648) 10 True) = - 2147483648"
  using printint_numeral [of "- 2147483648"] by simp

end
