(* ===== verification/Vm.thy ===== *)
theory Vm
  imports Console_Out
begin

text \<open>
  Page tables, \<open>vm.c\<close>. Directories and tables live in the byte memory of the
  machine, at kernel addresses; \<open>walkpgdir\<close> and the operations above it read and
  write the entries there. Segment setup and the loading of a segment from a file
  (\<open>loaduvm\<close>, which needs the file system) are not here.

  The loops that step through pages run a number of times that their bounds fix
  beforehand; the model counts the pages first. The loop of \<open>deallocuvm\<close>, which
  skips unmapped stretches, keeps its shape.
\<close>

section \<open>Walking\<close>

definition copy_mem :: "memory \<Rightarrow> u32 \<Rightarrow> u32 \<Rightarrow> u32 \<Rightarrow> memory" where
  "copy_mem m dst src n = (\<lambda>x. if x - dst < n then m (src + (x - dst)) else m x)"

definition write_bytes :: "memory \<Rightarrow> u32 \<Rightarrow> u8 list \<Rightarrow> memory" where
  "write_bytes m a bs = (\<lambda>x. if unat (x - a) < length bs then bs ! unat (x - a) else m x)"

definition pde_at :: "u32 \<Rightarrow> u32 \<Rightarrow> u32" where
  "pde_at pd va = pd + 4 * PDX va"

definition pte_in :: "u32 \<Rightarrow> u32 \<Rightarrow> u32" where
  "pte_in pgtab va = pgtab + 4 * PTX va"

definition walkpgdir :: "u32 \<Rightarrow> u32 \<Rightarrow> bool \<Rightarrow> kstate \<Rightarrow> (kstate, u32) outcome" where
  "walkpgdir pd va alloc s =
     (let pde = pde_at pd va; e = read32 (mem s) pde in
      if e AND PTE_P \<noteq> 0 then Ret (pte_in (P2V (PTE_ADDR e)) va) s
      else if \<not> alloc then Ret 0 s
      else
        bnd (kalloc s) (\<lambda>pgtab s.
        if pgtab = 0 then Ret 0 s
        else
          let s = s\<lparr>mem := fill (mem s) pgtab 0 PGSIZE\<rparr>;
              s = s\<lparr>mem := write32 (mem s) pde (V2P pgtab OR PTE_P OR PTE_W OR PTE_U)\<rparr>
          in Ret (pte_in pgtab va) s))"

text \<open>The loop of \<open>mappages\<close>, with the number of pages that follow \<open>a\<close> up to \<open>last\<close>.\<close>

fun mappages_loop :: "nat \<Rightarrow> u32 \<Rightarrow> u32 \<Rightarrow> u32 \<Rightarrow> u32 \<Rightarrow> kstate \<Rightarrow> (kstate, int) outcome" where
  "mappages_loop n pd a pa perm s =
     bnd (walkpgdir pd a True s) (\<lambda>pte s.
     if pte = 0 then Ret (- 1) s
     else if read32 (mem s) pte AND PTE_P \<noteq> 0 then Panic ''remap''
     else
       let s = s\<lparr>mem := write32 (mem s) pte (pa OR perm OR PTE_P)\<rparr> in
       case n of 0 \<Rightarrow> Ret 0 s
       | Suc n \<Rightarrow> mappages_loop n pd (a + PGSIZE) (pa + PGSIZE) perm s)"

declare mappages_loop.simps [simp del]

definition mappages :: "u32 \<Rightarrow> u32 \<Rightarrow> u32 \<Rightarrow> u32 \<Rightarrow> u32 \<Rightarrow> kstate \<Rightarrow> (kstate, int) outcome" where
  "mappages pd va len pa perm s =
     (let a = PGROUNDDOWN va; last = PGROUNDDOWN (va + len - 1)
      in mappages_loop (unat (last - a) div 4096) pd a pa perm s)"

section \<open>Removing mappings\<close>

text \<open>
  The next address the loop of \<open>deallocuvm\<close> looks at. Past the last directory
  entry the address would start over at 0 and the loop would not end; no caller gets there,
  since the sizes are at most \<open>KERNBASE\<close>.
\<close>

function deallocuvm_loop :: "u32 \<Rightarrow> u32 \<Rightarrow> u32 \<Rightarrow> kstate \<Rightarrow> (kstate, unit) outcome" where
  "deallocuvm_loop pd a oldsz s =
     (if \<not> a < oldsz then Ret () s
      else
        bnd (walkpgdir pd a False s) (\<lambda>pte s.
        let a' = (if pte = 0 then PGADDR (PDX a + 1) 0 0 - PGSIZE else a) + PGSIZE in
        if pte \<noteq> 0 \<and> read32 (mem s) pte AND PTE_P \<noteq> 0 then
          let pa = PTE_ADDR (read32 (mem s) pte) in
          if pa = 0 then Panic ''kfree''
          else
            bnd (kfree (P2V pa) s) (\<lambda>_ s.
            let s = s\<lparr>mem := write32 (mem s) pte 0\<rparr> in
            if a' \<le> a then Spin else deallocuvm_loop pd a' oldsz s)
        else if a' \<le> a then Spin
        else deallocuvm_loop pd a' oldsz s))"
  by pat_completeness auto
termination
  by (relation "measure (\<lambda>(pd, a, oldsz, s). 2 ^ 32 - unat a)")
    (use u32_lt in \<open>auto simp: word_less_nat_alt word_le_nat_alt not_le intro!: diff_less_mono2\<close>)

declare deallocuvm_loop.simps [simp del]

definition deallocuvm :: "u32 \<Rightarrow> u32 \<Rightarrow> u32 \<Rightarrow> kstate \<Rightarrow> (kstate, u32) outcome" where
  "deallocuvm pd oldsz newsz s =
     (if newsz \<ge> oldsz then Ret oldsz s
      else bnd (deallocuvm_loop pd (PGROUNDUP newsz) oldsz s) (\<lambda>_ s. Ret newsz s))"

text \<open>\<open>freevm\<close> frees the page tables, entry by entry of the directory.\<close>

fun freevm_loop :: "u32 \<Rightarrow> nat list \<Rightarrow> kstate \<Rightarrow> (kstate, unit) outcome" where
  "freevm_loop pd [] s = Ret () s"
| "freevm_loop pd (i # is) s =
     (let e = read32 (mem s) (pd + 4 * of_nat i) in
      bnd (if e AND PTE_P \<noteq> 0 then kfree (P2V (PTE_ADDR e)) s else Ret () s) (\<lambda>_ s.
      freevm_loop pd is s))"

definition freevm :: "u32 \<Rightarrow> kstate \<Rightarrow> (kstate, unit) outcome" where
  "freevm pd s =
     (if pd = 0 then Panic ''freevm: no pgdir''
      else
        bnd (deallocuvm pd KERNBASE 0 s) (\<lambda>_ s.
        bnd (freevm_loop pd [0..<1024] s) (\<lambda>_ s.
        kfree pd s)))"

section \<open>The kernel's part\<close>

type_synonym kmap = "u32 \<times> u32 \<times> u32 \<times> u32"

definition kmaps :: "kstate \<Rightarrow> kmap list" where
  "kmaps s =
     [(KERNBASE, 0, EXTMEM, PTE_W),
      (KERNBASE + EXTMEM, V2P (KERNBASE + EXTMEM), V2P (l_data (arch s)), 0),
      (l_data (arch s), V2P (l_data (arch s)), PHYSTOP, PTE_W),
      (DEVSPACE, DEVSPACE, 0, PTE_W)]"

fun setupkvm_loop :: "u32 \<Rightarrow> kmap list \<Rightarrow> kstate \<Rightarrow> (kstate, u32) outcome" where
  "setupkvm_loop pd [] s = Ret pd s"
| "setupkvm_loop pd ((virt, phys_start, phys_end, perm) # ks) s =
     bnd (mappages pd virt (phys_end - phys_start) phys_start perm s) (\<lambda>r s.
     if r < 0 then bnd (freevm pd s) (\<lambda>_ s. Ret 0 s)
     else setupkvm_loop pd ks s)"

definition setupkvm :: "kstate \<Rightarrow> (kstate, u32) outcome" where
  "setupkvm s =
     bnd (kalloc s) (\<lambda>pd s.
     if pd = 0 then Ret 0 s
     else
       let s = s\<lparr>mem := fill (mem s) pd 0 PGSIZE\<rparr> in
       if P2V PHYSTOP > DEVSPACE then Panic ''PHYSTOP too high''
       else setupkvm_loop pd (kmaps s) s)"

definition kvmalloc :: "kstate \<Rightarrow> (kstate, unit) outcome" where
  "kvmalloc s = bnd (setupkvm s) (\<lambda>p s. Ret () (switchkvm (s\<lparr>kpgdir := p\<rparr>)))"

section \<open>User memory\<close>

definition inituvm :: "u32 \<Rightarrow> u8 list \<Rightarrow> kstate \<Rightarrow> (kstate, unit) outcome" where
  "inituvm pd init s =
     (if length init \<ge> 4096 then Panic ''inituvm: more than a page''
      else
        bnd (kalloc s) (\<lambda>p s.
        let s = s\<lparr>mem := fill (mem s) p 0 PGSIZE\<rparr> in
        bnd (mappages pd 0 PGSIZE (V2P p) (PTE_W OR PTE_U) s) (\<lambda>_ s.
        Ret () (s\<lparr>mem := write_bytes (mem s) p init\<rparr>))))"

definition page_count :: "u32 \<Rightarrow> u32 \<Rightarrow> nat" where
  "page_count a b = (if a < b then (unat b - unat a + 4095) div 4096 else 0)"

fun allocuvm_loop :: "nat \<Rightarrow> u32 \<Rightarrow> u32 \<Rightarrow> u32 \<Rightarrow> u32 \<Rightarrow> kstate \<Rightarrow> (kstate, u32) outcome" where
  "allocuvm_loop 0 pd a oldsz newsz s = Ret newsz s"
| "allocuvm_loop (Suc n) pd a oldsz newsz s =
     bnd (kalloc s) (\<lambda>p s.
     if p = 0 then
       bnd (cprintf ''allocuvm out of memory\<newline>'' [] s) (\<lambda>_ s.
       bnd (deallocuvm pd newsz oldsz s) (\<lambda>_ s. Ret 0 s))
     else
       let s = s\<lparr>mem := fill (mem s) p 0 PGSIZE\<rparr> in
       bnd (mappages pd a PGSIZE (V2P p) (PTE_W OR PTE_U) s) (\<lambda>r s.
       if r < 0 then
         bnd (cprintf ''allocuvm out of memory (2)\<newline>'' [] s) (\<lambda>_ s.
         bnd (deallocuvm pd newsz oldsz s) (\<lambda>_ s.
         bnd (kfree p s) (\<lambda>_ s. Ret 0 s)))
       else allocuvm_loop n pd (a + PGSIZE) oldsz newsz s))"

definition allocuvm :: "u32 \<Rightarrow> u32 \<Rightarrow> u32 \<Rightarrow> kstate \<Rightarrow> (kstate, u32) outcome" where
  "allocuvm pd oldsz newsz s =
     (if newsz \<ge> KERNBASE then Ret 0 s
      else if newsz < oldsz then Ret oldsz s
      else let a = PGROUNDUP oldsz in allocuvm_loop (page_count a newsz) pd a oldsz newsz s)"

definition clearpteu :: "u32 \<Rightarrow> u32 \<Rightarrow> kstate \<Rightarrow> (kstate, unit) outcome" where
  "clearpteu pd uva s =
     bnd (walkpgdir pd uva False s) (\<lambda>pte s.
     if pte = 0 then Panic ''clearpteu''
     else Ret () (s\<lparr>mem := write32 (mem s) pte (read32 (mem s) pte AND NOT PTE_U)\<rparr>))"

fun copyuvm_loop :: "nat \<Rightarrow> u32 \<Rightarrow> u32 \<Rightarrow> u32 \<Rightarrow> kstate \<Rightarrow> (kstate, bool) outcome" where
  "copyuvm_loop 0 pd d i s = Ret True s"
| "copyuvm_loop (Suc n) pd d i s =
     bnd (walkpgdir pd i False s) (\<lambda>pte s.
     if pte = 0 then Panic ''copyuvm: pte should exist''
     else if read32 (mem s) pte AND PTE_P = 0 then Panic ''copyuvm: page not present''
     else
       let pa = PTE_ADDR (read32 (mem s) pte); flags = PTE_FLAGS (read32 (mem s) pte) in
       bnd (kalloc s) (\<lambda>p s.
       if p = 0 then Ret False s
       else
         let s = s\<lparr>mem := copy_mem (mem s) p (P2V pa) PGSIZE\<rparr> in
         bnd (mappages d i PGSIZE (V2P p) flags s) (\<lambda>r s.
         if r < 0 then bnd (kfree p s) (\<lambda>_ s. Ret False s)
         else copyuvm_loop n pd d (i + PGSIZE) s)))"

definition copyuvm :: "u32 \<Rightarrow> u32 \<Rightarrow> kstate \<Rightarrow> (kstate, u32) outcome" where
  "copyuvm pd usz s =
     bnd (setupkvm s) (\<lambda>d s.
     if d = 0 then Ret 0 s
     else
       bnd (copyuvm_loop (page_count 0 usz) pd d 0 s) (\<lambda>ok s.
       if ok then Ret d s
       else bnd (freevm d s) (\<lambda>_ s. Ret 0 s)))"

text \<open>\<open>uva2ka\<close> reads through the entry without looking whether there is one.\<close>

definition uva2ka :: "u32 \<Rightarrow> u32 \<Rightarrow> kstate \<Rightarrow> (kstate, u32) outcome" where
  "uva2ka pd uva s =
     bnd (walkpgdir pd uva False s) (\<lambda>pte s.
     if pte = 0 then Fault ''null pointer''
     else let e = read32 (mem s) pte in
       if e AND PTE_P = 0 then Ret 0 s
       else if e AND PTE_U = 0 then Ret 0 s
       else Ret (P2V (PTE_ADDR e)) s)"

text \<open>The bytes to copy are a list; the code has a pointer to them and their number.\<close>

function copyout :: "u32 \<Rightarrow> u32 \<Rightarrow> u8 list \<Rightarrow> kstate \<Rightarrow> (kstate, int) outcome" where
  "copyout pd va bs s =
     (if bs = [] then Ret 0 s
      else
        let va0 = PGROUNDDOWN va in
        bnd (uva2ka pd va0 s) (\<lambda>pa0 s.
        if pa0 = 0 then Ret (- 1) s
        else
          let n = min (unat (PGSIZE - (va - va0))) (length bs);
              s = s\<lparr>mem := write_bytes (mem s) (pa0 + (va - va0)) (take n bs)\<rparr>
          in copyout pd (va0 + PGSIZE) (drop n bs) s))"
  by pat_completeness auto
termination
proof (relation "measure (\<lambda>(pd, va, bs, s). length bs)")
  fix va :: u32 and bs :: "u8 list" and pd :: u32 and s :: kstate
  fix va0 a t and x :: nat and xa :: kstate
  assume "bs \<noteq> []" "va0 = PGROUNDDOWN va" "x = min (unat (PGSIZE - (va - va0))) (length bs)"
  moreover have "va - PGROUNDDOWN va < PGSIZE" using in_page_PGROUNDDOWN [of va] by (simp add: in_page_def)
  then have "0 < unat (PGSIZE - (va - PGROUNDDOWN va))" by (simp add: unat_gt_0)
  ultimately show "((pd, va0 + PGSIZE, drop x bs, xa), pd, va, bs, s) \<in> measure (\<lambda>(pd, va, bs, s). length bs)"
    by (cases bs) auto
qed simp

declare copyout.simps [simp del]

end
