(* ===== verification/Blocks.thy ===== *)
theory Blocks
  imports Xv6_Prelude
begin

text \<open>
  Integers stored in the bytes of a disk block, low byte first, as the machine
  stores them when the file system copies its structures into a buffer.
\<close>

definition ld16 :: "u8 list \<Rightarrow> nat \<Rightarrow> u16" where
  "ld16 d k = ucast (d ! k) OR push_bit 8 (ucast (d ! (k + 1)))"

definition st16 :: "u8 list \<Rightarrow> nat \<Rightarrow> u16 \<Rightarrow> u8 list" where
  "st16 d k v = d[k := ucast v, k + 1 := ucast (drop_bit 8 v)]"

definition ld32 :: "u8 list \<Rightarrow> nat \<Rightarrow> u32" where
  "ld32 d k = ucast (d ! k) OR push_bit 8 (ucast (d ! (k + 1)))
     OR push_bit 16 (ucast (d ! (k + 2))) OR push_bit 24 (ucast (d ! (k + 3)))"

definition st32 :: "u8 list \<Rightarrow> nat \<Rightarrow> u32 \<Rightarrow> u8 list" where
  "st32 d k v = d[k := ucast v, k + 1 := ucast (drop_bit 8 v),
     k + 2 := ucast (drop_bit 16 v), k + 3 := ucast (drop_bit 24 v)]"

lemma length_st [simp]: "length (st16 d k v) = length d" "length (st32 d k w) = length d"
  by (simp_all add: st16_def st32_def)

lemma join_bytes16:
  "ucast (ucast (v :: u16) :: u8) OR push_bit 8 (ucast (ucast (drop_bit 8 v) :: u8)) = v"
  (is "?l = v")
proof (rule bit_word_eqI)
  fix n assume "n < LENGTH(16)"
  then consider "n < 8" | "8 \<le> n" "n < 16" by force
  then show "bit ?l n = bit v n" by cases (auto simp: bit_simps)
qed

lemma ld32_st32 [simp]: "k + 3 < length d \<Longrightarrow> ld32 (st32 d k v) k = v"
  using four_bytes [of v] by (simp add: ld32_def st32_def)

lemma ld16_st16 [simp]: "k + 1 < length d \<Longrightarrow> ld16 (st16 d k v) k = v"
  using join_bytes16 [of v] by (simp add: ld16_def st16_def)

lemma nth_st32: "j < k \<or> k + 3 < j \<Longrightarrow> st32 d k v ! j = d ! j"
  by (auto simp: st32_def)

lemma nth_st16: "j < k \<or> k + 1 < j \<Longrightarrow> st16 d k v ! j = d ! j"
  by (auto simp: st16_def)

lemma ld32_other: "j + 3 < k \<or> k + 3 < j \<Longrightarrow> ld32 (st32 d k v) j = ld32 d j"
  by (auto simp: ld32_def nth_st32)

lemma ld32_st16: "j + 3 < k \<or> k + 1 < j \<Longrightarrow> ld32 (st16 d k v) j = ld32 d j"
  by (auto simp: ld32_def nth_st16)

lemma ld16_other: "j + 1 < k \<or> k + 1 < j \<Longrightarrow> ld16 (st16 d k v) j = ld16 d j"
  by (auto simp: ld16_def nth_st16)

lemma ld16_st32: "j + 1 < k \<or> k + 3 < j \<Longrightarrow> ld16 (st32 d k v) j = ld16 d j"
  by (auto simp: ld16_def nth_st32)

text \<open>A run of 32-bit entries.\<close>

fun st32s :: "u8 list \<Rightarrow> nat \<Rightarrow> u32 list \<Rightarrow> u8 list" where
  "st32s d k [] = d"
| "st32s d k (v # vs) = st32s (st32 d k v) (k + 4) vs"

lemma length_st32s [simp]: "length (st32s d k vs) = length d"
  by (induction vs arbitrary: d k) auto

lemma nth_st32s: "j < k \<or> k + 4 * length vs \<le> j \<Longrightarrow> st32s d k vs ! j = d ! j"
  by (induction vs arbitrary: d k) (auto simp: nth_st32)

lemma ld32_st32s_before: "j + 3 < k \<Longrightarrow> ld32 (st32s d k vs) j = ld32 d j"
  by (induction vs arbitrary: d k) (auto simp: ld32_other)

lemma ld32_st32s:
  "i < length vs \<Longrightarrow> k + 4 * length vs \<le> length d \<Longrightarrow> ld32 (st32s d k vs) (k + 4 * i) = vs ! i"
proof (induction vs arbitrary: d k i)
  case (Cons v vs)
  show ?case
  proof (cases i)
    case 0
    then show ?thesis using Cons.prems by (simp add: ld32_st32s_before)
  next
    case (Suc j)
    then show ?thesis using Cons.IH [of j "k + 4" "st32 d k v"] Cons.prems by (simp add: algebra_simps)
  qed
qed simp

end
