(* ===== verification/Usermem.thy ===== *)
theory Usermem
  imports Vm Blocks
begin

text \<open>
  Memory as the kernel's own loads and stores reach it. System calls follow the
  pointers of the running process directly; the processor translates an address
  below \<open>KERNBASE\<close> through the page directory in \<open>cr3\<close>, with write protection in force
  for the kernel as well. An address that is not mapped raises a page fault in
  kernel mode, for which \<open>trap\<close> stops the machine.
\<close>

definition pte_of :: "u32 \<Rightarrow> kstate \<Rightarrow> u32" where
  "pte_of va s =
     (let e = read32 (mem s) (pde_at (P2V (cr3 s)) va) in
      if e AND PTE_P = 0 then 0 else read32 (mem s) (pte_in (P2V (PTE_ADDR e)) va))"

definition translate :: "bool \<Rightarrow> u32 \<Rightarrow> kstate \<Rightarrow> u32 option" where
  "translate wr va s =
     (if va \<ge> KERNBASE then Some va
      else let e = pte_of va s in
        if e AND PTE_P = 0 \<or> wr \<and> e AND PTE_W = 0 then None
        else Some (P2V (PTE_ADDR e) + (va AND 0xFFF)))"

definition load8 :: "u32 \<Rightarrow> kstate \<Rightarrow> (kstate, u8) outcome" where
  "load8 va s = (case translate False va s of None \<Rightarrow> Panic ''trap'' | Some a \<Rightarrow> Ret (mem s a) s)"

definition store8 :: "u32 \<Rightarrow> u8 \<Rightarrow> kstate \<Rightarrow> (kstate, unit) outcome" where
  "store8 va b s = (case translate True va s of None \<Rightarrow> Panic ''trap''
     | Some a \<Rightarrow> Ret () (s\<lparr>mem := (mem s)(a := b)\<rparr>))"

fun loads :: "u32 \<Rightarrow> nat \<Rightarrow> kstate \<Rightarrow> (kstate, u8 list) outcome" where
  "loads va 0 s = Ret [] s"
| "loads va (Suc n) s = bnd (load8 va s) (\<lambda>b s. bnd (loads (va + 1) n s) (\<lambda>bs s. Ret (b # bs) s))"

fun stores :: "u32 \<Rightarrow> u8 list \<Rightarrow> kstate \<Rightarrow> (kstate, unit) outcome" where
  "stores va [] s = Ret () s"
| "stores va (b # bs) s = bnd (store8 va b s) (\<lambda>_ s. stores (va + 1) bs s)"

definition bytes32 :: "u32 \<Rightarrow> u8 list" where
  "bytes32 v = [ucast v, ucast (drop_bit 8 v), ucast (drop_bit 16 v), ucast (drop_bit 24 v)]"

definition bytes16 :: "u16 \<Rightarrow> u8 list" where
  "bytes16 v = [ucast v, ucast (drop_bit 8 v)]"

definition load32 :: "u32 \<Rightarrow> kstate \<Rightarrow> (kstate, u32) outcome" where
  "load32 va s = bnd (loads va 4 s) (\<lambda>bs s. Ret (ld32 bs 0) s)"

definition store32 :: "u32 \<Rightarrow> u32 \<Rightarrow> kstate \<Rightarrow> (kstate, unit) outcome" where
  "store32 va v s = stores va (bytes32 v) s"

lemma loads_length: "loads va n s = Ret bs t \<Longrightarrow> length bs = n \<and> t = s"
  by (induction n arbitrary: va bs t)
    (auto simp: bnd_Ret_iff load8_def split: option.splits)

lemma ld32_bytes32 [simp]: "ld32 (bytes32 v) 0 = v"
  using four_bytes [of v] by (simp add: ld32_def bytes32_def)

end
