(* ===== verification/Usermem_Props.thy ===== *)
theory Usermem_Props
  imports Usermem
begin

text \<open>
  Buffers of a process in memory: what the kernel's loads and stores through the
  page table of the process do to the bytes of a buffer.
\<close>

text \<open>Translation reads the page table and the memory that holds it, nothing else of the state.\<close>

lemma translate_cong: "mem t = mem s \<Longrightarrow> cr3 t = cr3 s \<Longrightarrow> translate w a t = translate w a s"
  by (simp only: translate_def pte_of_def)

section \<open>Reading\<close>

text \<open>The \<open>n\<close> bytes that the process sees from address \<open>a\<close> on; an unmapped address counts as zero.\<close>

definition user_byte :: "u32 \<Rightarrow> kstate \<Rightarrow> u8" where
  "user_byte a s = (case translate False a s of Some x \<Rightarrow> mem s x | None \<Rightarrow> 0)"

definition user_bytes :: "u32 \<Rightarrow> nat \<Rightarrow> kstate \<Rightarrow> u8 list" where
  "user_bytes a n s = map (\<lambda>k. user_byte (a + of_nat k) s) [0..<n]"

definition readable :: "u32 \<Rightarrow> nat \<Rightarrow> kstate \<Rightarrow> bool" where
  "readable a n s \<longleftrightarrow> (\<forall>k<n. translate False (a + of_nat k) s \<noteq> None)"

lemma length_user_bytes [simp]: "length (user_bytes a n s) = n"
  by (simp add: user_bytes_def)

lemma user_bytes_0 [simp]: "user_bytes a 0 s = []"
  by (simp add: user_bytes_def)

lemma user_bytes_Suc: "user_bytes a (Suc n) s = user_byte a s # user_bytes (a + 1) n s"
  by (simp add: user_bytes_def upt_conv_Cons map_Suc_upt [symmetric] add.assoc del: upt_Suc)

lemma readable_Suc: "readable a (Suc n) s \<longleftrightarrow> translate False a s \<noteq> None \<and> readable (a + 1) n s"
  unfolding readable_def by (auto simp: less_Suc_eq_0_disj add.assoc)

lemma user_bytes_cong: "mem t = mem s \<Longrightarrow> cr3 t = cr3 s \<Longrightarrow> user_bytes a n t = user_bytes a n s"
  unfolding user_bytes_def user_byte_def by (simp only: translate_cong [of t s])

lemma readable_cong: "mem t = mem s \<Longrightarrow> cr3 t = cr3 s \<Longrightarrow> readable a n t = readable a n s"
  by (simp add: readable_def translate_cong [of t s])

lemma load8_Ret: "load8 a s = Ret c t \<longleftrightarrow> translate False a s \<noteq> None \<and> c = user_byte a s \<and> t = s"
  by (auto simp: load8_def user_byte_def split: option.splits)

lemma load8_ok: "translate False a s \<noteq> None \<Longrightarrow> load8 a s = Ret (user_byte a s) s"
  by (simp add: load8_Ret)

lemma loads_ok: "readable a n s \<Longrightarrow> loads a n s = Ret (user_bytes a n s) s"
  by (induction n arbitrary: a) (auto simp: readable_Suc user_bytes_Suc load8_ok)

lemma loads_fault: "\<not> readable a n s \<Longrightarrow> loads a n s = Panic ''trap''"
  by (induction n arbitrary: a)
    (auto simp: readable_Suc load8_ok load8_def readable_def [of _ 0] split: option.splits)

section \<open>Writing\<close>

text \<open>
  The \<open>n\<close> bytes from \<open>a\<close> on are writable, byte \<open>k\<close> of them lives at \<open>f k\<close>, no two
  share a place, and the page table that maps them is not among them.
\<close>

definition writable_buf :: "u32 \<Rightarrow> nat \<Rightarrow> (nat \<Rightarrow> u32) \<Rightarrow> kstate \<Rightarrow> bool" where
  "writable_buf a n f s \<longleftrightarrow> inj_on f {..<n} \<and> (\<forall>m. (\<forall>x. x \<notin> f ` {..<n} \<longrightarrow> m x = mem s x) \<longrightarrow>
     (\<forall>k<n. translate True (a + of_nat k) (s\<lparr>mem := m\<rparr>) = Some (f k)))"

definition put_bytes :: "(nat \<Rightarrow> u32) \<Rightarrow> u8 list \<Rightarrow> memory \<Rightarrow> memory" where
  "put_bytes f bs m = fold (\<lambda>k m. m(f k := bs ! k)) [0..<length bs] m"

lemma put_bytes_other: "(\<forall>k<length bs. f k \<noteq> x) \<Longrightarrow> put_bytes f bs m x = m x"
proof -
  have "(\<forall>k\<in>set ks. f k \<noteq> x) \<Longrightarrow> fold (\<lambda>k m. m(f k := bs ! k)) ks m x = m x" for ks m
    by (induction ks arbitrary: m) auto
  then show "(\<forall>k<length bs. f k \<noteq> x) \<Longrightarrow> put_bytes f bs m x = m x" by (simp add: put_bytes_def)
qed

lemma put_bytes_at:
  assumes "inj_on f {..<length bs}" "k < length bs"
  shows "put_bytes f bs m (f k) = bs ! k"
proof -
  have "k < n \<Longrightarrow> n \<le> length bs \<Longrightarrow> fold (\<lambda>k m. m(f k := bs ! k)) [0..<n] m (f k) = bs ! k" for n
  proof (induction n)
    case (Suc n)
    then show ?case using assms by (cases "k = n") (auto simp: inj_on_def)
  qed simp
  with assms(2) show ?thesis by (simp add: put_bytes_def)
qed

lemma put_bytes_read:
  assumes "inj_on f {..<length bs}"
  shows "map (\<lambda>k. put_bytes f bs m (f k)) [0..<length bs] = bs"
  using put_bytes_at [OF assms] by (intro nth_equalityI) simp_all

lemma put_bytes_snoc: "put_bytes f (bs @ [c]) m = (put_bytes f bs m)(f (length bs) := c)"
proof -
  have "fold (\<lambda>k m. m(f k := (bs @ [c]) ! k)) [0..<length bs] m = fold (\<lambda>k m. m(f k := bs ! k)) [0..<length bs] m"
    by (intro fold_cong) (simp_all add: nth_append)
  then show ?thesis by (simp add: put_bytes_def)
qed

lemma writable_buf_put:
  assumes "writable_buf a n f s" "length bs \<le> n" "mem t = put_bytes f bs (mem s)" "cr3 t = cr3 s"
  shows "writable_buf a n f t"
proof -
  have eq: "x \<notin> f ` {..<n} \<Longrightarrow> mem t x = mem s x" for x
    unfolding assms(3) by (rule put_bytes_other) (use assms(2) in auto)
  have "translate True b (t\<lparr>mem := m\<rparr>) = translate True b (s\<lparr>mem := m\<rparr>)" for b m
    using assms(4) by (intro translate_cong) simp_all
  then show ?thesis using assms(1) eq unfolding writable_buf_def by simp
qed

lemma store8_ok:
  assumes "writable_buf a n f s" "k < n"
  shows "store8 (a + of_nat k) c s = Ret () (s\<lparr>mem := (mem s)(f k := c)\<rparr>)"
proof -
  have "translate True (a + of_nat k) (s\<lparr>mem := mem s\<rparr>) = Some (f k)"
    using assms unfolding writable_buf_def by blast
  then show ?thesis by (simp add: store8_def)
qed

lemma writable_buf_shift:
  assumes "writable_buf a (Suc n) f s"
  shows "writable_buf (a + 1) n (\<lambda>k. f (Suc k)) (s\<lparr>mem := (mem s)(f 0 := c)\<rparr>)"
proof -
  have img: "f ` {..<Suc n} = insert (f 0) ((\<lambda>k. f (Suc k)) ` {..<n})"
    by (simp add: lessThan_Suc_eq_insert_0 image_image)
  have inj: "inj_on (\<lambda>k. f (Suc k)) {..<n}"
    using assms by (auto simp: writable_buf_def inj_on_def)
  have "translate True (a + 1 + of_nat k) (s\<lparr>mem := m\<rparr>) = Some (f (Suc k))"
    if "\<forall>x. x \<notin> (\<lambda>k. f (Suc k)) ` {..<n} \<longrightarrow> m x = ((mem s)(f 0 := c)) x" "k < n" for m k
  proof -
    have "\<forall>x. x \<notin> f ` {..<Suc n} \<longrightarrow> m x = mem s x" using that(1) unfolding img by simp
    then have "translate True (a + of_nat (Suc k)) (s\<lparr>mem := m\<rparr>) = Some (f (Suc k))"
      using assms that(2) unfolding writable_buf_def by blast
    then show ?thesis by (simp add: add.assoc)
  qed
  with inj show ?thesis unfolding writable_buf_def by simp
qed

lemma put_bytes_Cons: "put_bytes f (c # bs) m = put_bytes (\<lambda>k. f (Suc k)) bs (m(f 0 := c))"
proof -
  have "[0..<length (c # bs)] = 0 # map Suc [0..<length bs]" by (simp add: upt_conv_Cons map_Suc_upt del: upt_Suc)
  then show ?thesis by (simp add: put_bytes_def fold_map comp_def)
qed

lemma stores_ok: "writable_buf a (length bs) f s \<Longrightarrow> stores a bs s = Ret () (s\<lparr>mem := put_bytes f bs (mem s)\<rparr>)"
proof (induction bs arbitrary: a f s)
  case (Cons c bs)
  have "store8 a c s = Ret () (s\<lparr>mem := (mem s)(f 0 := c)\<rparr>)"
    using store8_ok [OF Cons.prems, of 0 c] by simp
  with Cons.IH [OF writable_buf_shift [of a "length bs" f s c]] Cons.prems show ?case
    by (simp add: put_bytes_Cons fun_upd_def)
qed (simp add: put_bytes_def)

end
