(* ===== verification/Vm_Props.thy ===== *)
theory Vm_Props
  imports Usermem_Props
begin

text \<open>
  Page tables as maps: the entry that a directory holds for an address, and how walking
  and mapping change these maps. The pages of a directory and of its tables are kept
  apart from each other and from the free pages of the allocator.
\<close>

section \<open>Entries of a page\<close>

definition entry_at :: "memory \<Rightarrow> u32 \<Rightarrow> nat \<Rightarrow> u32" where
  "entry_at m p i = read32 m (p + 4 * of_nat i)"

lemma unat_slot:
  assumes "i < 1024" "k < 4"
  shows "unat (4 * of_nat i + of_nat k :: u32) = 4 * i + k"
proof -
  have "(4 * of_nat i + of_nat k :: u32) = of_nat (4 * i + k)" by simp
  then show ?thesis using assms by (simp add: unat_of_nat take_bit_nat_eq_self del: of_nat_add of_nat_mult)
qed

lemma slot_in_page: "i < 1024 \<Longrightarrow> k < 4 \<Longrightarrow> in_page p (p + 4 * of_nat i + of_nat k)"
  using unat_slot [of i k] by (simp add: in_page_def word_less_nat_alt add.assoc)

lemma entry_frame:
  assumes "i < 1024" "\<And>x. in_page p x \<Longrightarrow> m' x = m x"
  shows "entry_at m' p i = entry_at m p i"
  using slot_in_page [OF assms(1), of 0 p] slot_in_page [OF assms(1), of 1 p] slot_in_page [OF assms(1), of 2 p]
    slot_in_page [OF assms(1), of 3 p] assms(2)
  by (simp add: entry_at_def read32_def)

lemma write_entry_outside:
  assumes "i < 1024" "\<not> in_page p x"
  shows "write32 m (p + 4 * of_nat i) v x = m x"
proof (rule write32_outside)
  show "\<not> x - (p + 4 * of_nat i) < 4"
  proof
    assume *: "x - (p + 4 * of_nat i) < 4"
    define k where "k = unat (x - (p + 4 * of_nat i))"
    have "k < 4" using * by (simp add: k_def word_less_nat_alt)
    moreover have "x = p + 4 * of_nat i + of_nat k" by (simp add: k_def)
    ultimately show False using assms slot_in_page by blast
  qed
qed

lemma entry_write:
  assumes "i < 1024" "j < 1024"
  shows "entry_at (write32 m (p + 4 * of_nat i) v) p j = (if j = i then v else entry_at m p j)"
proof (cases "j = i")
  case False
  have *: "\<not> (4 * of_nat j - 4 * of_nat i :: u32) < 4" if "i < 1024" "j < 1024" "j \<noteq> i" for i j
  proof
    assume "(4 * of_nat j - 4 * of_nat i :: u32) < 4"
    moreover define k where "k = unat (4 * of_nat j - 4 * of_nat i :: u32)"
    ultimately have k: "k < 4" "(4 * of_nat j :: u32) = 4 * of_nat i + of_nat k" by (simp_all add: word_less_nat_alt)
    then have "4 * j = 4 * i + k" using unat_slot [OF that(2), of 0] unat_slot [OF that(1) k(1)] by simp
    then show False using that(3) k(1) by presburger
  qed
  show ?thesis unfolding entry_at_def using False * [OF assms] * [OF assms(2,1)] by (subst read32_write32_other) simp_all
qed (simp add: entry_at_def)

lemma entry_write_other:
  assumes "i < 1024" "j < 1024" "aligned p" "aligned q" "p \<noteq> q"
  shows "entry_at (write32 m (p + 4 * of_nat i) v) q j = entry_at m q j"
  by (rule entry_frame [OF assms(2)], rule write_entry_outside [OF assms(1)]) (use in_page_disjoint assms in blast)

lemma entry_fill: "i < 1024 \<Longrightarrow> entry_at (fill m p 0 PGSIZE) p i = 0"
  using slot_in_page [of i 0 p] slot_in_page [of i 1 p] slot_in_page [of i 2 p] slot_in_page [of i 3 p]
  by (simp add: entry_at_def read32_def fill_def in_page_def)

section \<open>Directories\<close>

abbreviation (input) present :: "u32 \<Rightarrow> bool" where "present e \<equiv> e AND PTE_P \<noteq> 0"

definition table :: "u32 \<Rightarrow> u32" where
  "table e = P2V (PTE_ADDR e)"

text \<open>The entry for an address, 0 when there is no table for it.\<close>

definition vpte :: "memory \<Rightarrow> u32 \<Rightarrow> u32 \<Rightarrow> u32" where
  "vpte m pd va =
     (let e = entry_at m pd (unat (PDX va)) in if present e then entry_at m (table e) (unat (PTX va)) else 0)"

definition pgdir_ok :: "kstate \<Rightarrow> u32 \<Rightarrow> u32 list \<Rightarrow> bool" where
  "pgdir_ok s pd ps \<longleftrightarrow> kpage s pd \<and> pd \<notin> set ps
     \<and> (\<forall>i<1024. present (entry_at (mem s) pd i) \<longrightarrow>
          kpage s (table (entry_at (mem s) pd i)) \<and> table (entry_at (mem s) pd i) \<noteq> pd \<and> table (entry_at (mem s) pd i) \<notin> set ps)
     \<and> (\<forall>i<1024. \<forall>j<1024. present (entry_at (mem s) pd i) \<longrightarrow> present (entry_at (mem s) pd j) \<longrightarrow>
          table (entry_at (mem s) pd i) = table (entry_at (mem s) pd j) \<longrightarrow> i = j)"

lemma pdx_ptx: "unat (PDX va) < 1024" "unat (PTX va) < 1024"
  using u32_lt [of va] by (simp_all add: unat_PDX unat_PTX less_mult_imp_div_less)

lemma same_page: "unat (PDX x) = unat (PDX y) \<and> unat (PTX x) = unat (PTX y) \<longleftrightarrow> unat x div 4096 = unat y div 4096"
proof -
  have eq: "unat x div 4096 = unat (PDX x) * 1024 + unat (PTX x)" for x
    unfolding unat_PDX unat_PTX by (simp add: div_mult2_eq [of _ 4096 1024, simplified] div_mult_mod_eq)
  have inj: "a = c \<and> b = d" if "b < 1024" "d < 1024" "a * 1024 + b = c * 1024 + d" for a b c d :: nat
  proof -
    have "(a * 1024 + b) div 1024 = (c * 1024 + d) div 1024" using that(3) by (rule arg_cong)
    then have "a = c" using that(1,2) by simp
    then show ?thesis using that(3) by simp
  qed
  show ?thesis unfolding eq using inj [OF pdx_ptx(2) pdx_ptx(2)] by metis
qed

text \<open>The table entry of an address is written: the map changes there and nowhere else.\<close>

lemma pte_in_eq: "pte_in q va = q + 4 * of_nat (unat (PTX va))" "pde_at q va = q + 4 * of_nat (unat (PDX va))"
  by (simp_all add: pte_in_def pde_at_def)

lemma vpte_write:
  assumes ok: "pgdir_ok s pd ps" and p: "present (entry_at (mem s) pd (unat (PDX va)))"
  shows "vpte (write32 (mem s) (pte_in (table (entry_at (mem s) pd (unat (PDX va)))) va) v) pd x =
    (if unat x div 4096 = unat va div 4096 then v else vpte (mem s) pd x)"
proof -
  let ?e = "\<lambda>i. entry_at (mem s) pd i" and ?q = "table (entry_at (mem s) pd (unat (PDX va)))"
  let ?m = "write32 (mem s) (pte_in ?q va) v"
  have al: "aligned pd" "aligned ?q" "?q \<noteq> pd" using ok p pdx_ptx by (auto simp: pgdir_ok_def kpage_def)
  have e: "entry_at ?m pd i = ?e i" if "i < 1024" for i
    unfolding pte_in_eq using entry_write_other [OF _ that al(2,1,3)] pdx_ptx by blast
  have q: "entry_at ?m ?q j = (if j = unat (PTX va) then v else entry_at (mem s) ?q j)" if "j < 1024" for j
    unfolding pte_in_eq using entry_write [OF _ that] pdx_ptx by blast
  have o: "entry_at ?m (table (?e i)) j = entry_at (mem s) (table (?e i)) j" if "i < 1024" "j < 1024" "present (?e i)" "i \<noteq> unat (PDX va)" for i j
  proof -
    have "table (?e i) \<noteq> ?q" "aligned (table (?e i))" using ok that p pdx_ptx by (auto simp: pgdir_ok_def kpage_def)
    then show ?thesis unfolding pte_in_eq using entry_write_other [OF _ that(2) al(2)] pdx_ptx by metis
  qed
  show ?thesis
  proof (cases "unat (PDX x) = unat (PDX va)")
    case True
    then show ?thesis using p e q pdx_ptx same_page [of x va] by (simp add: vpte_def Let_def)
  next
    case False
    then show ?thesis using e o [of "unat (PDX x)" "unat (PTX x)"] pdx_ptx same_page [of x va] by (auto simp: vpte_def Let_def)
  qed
qed

lemma pgdir_ok_write:
  assumes ok: "pgdir_ok s pd ps" and p: "present (entry_at (mem s) pd (unat (PDX va)))"
  shows "pgdir_ok (s\<lparr>mem := write32 (mem s) (pte_in (table (entry_at (mem s) pd (unat (PDX va)))) va) v\<rparr>) pd ps"
    "kmem_inv s ps \<Longrightarrow> kmem_inv (s\<lparr>mem := write32 (mem s) (pte_in (table (entry_at (mem s) pd (unat (PDX va)))) va) v\<rparr>) ps"
proof -
  let ?q = "table (entry_at (mem s) pd (unat (PDX va)))"
  let ?m = "write32 (mem s) (pte_in ?q va) v"
  have al: "aligned pd" "aligned ?q" "?q \<noteq> pd" "kpage s ?q" "?q \<notin> set ps" using ok p pdx_ptx by (auto simp: pgdir_ok_def kpage_def)
  have e: "entry_at ?m pd i = entry_at (mem s) pd i" if "i < 1024" for i
    unfolding pte_in_eq using entry_write_other [OF _ that al(2,1,3)] pdx_ptx by blast
  show "pgdir_ok (s\<lparr>mem := ?m\<rparr>) pd ps" using ok by (auto simp: pgdir_ok_def kpage_def e)
  assume k: "kmem_inv s ps"
  have "?m x = mem s x" if "r \<in> set ps" "in_page r x" for r x
  proof -
    have "r \<noteq> ?q" "aligned r" using that al k by (auto simp: kmem_inv_def kpage_def)
    then have "\<not> in_page ?q x" using in_page_disjoint that(2) al(2) by blast
    then show ?thesis unfolding pte_in_eq using write_entry_outside pdx_ptx by blast
  qed
  then show "kmem_inv (s\<lparr>mem := ?m\<rparr>) ps" by (intro kmem_inv_frame [OF k]) simp_all
qed

text \<open>A fresh, zeroed page becomes the table of an absent directory entry: the map stays as it is.\<close>

lemma aligned_bits: "aligned p \<longleftrightarrow> take_bit 12 p = 0"
  by (simp add: aligned_def take_bit_eq_mod)

lemma PTE_ADDR_or:
  assumes "aligned a" "f < 4096"
  shows "PTE_ADDR (a OR f) = a"
proof (rule bit_word_eqI)
  fix n assume "n < LENGTH(32)"
  have "unat (take_bit 12 f) = unat f" using assms(2) by (simp add: take_bit_eq_mod unat_mod word_less_nat_alt)
  then have "take_bit 12 f = f" by (simp only: word_unat_eq_iff)
  then have f: "bit f n \<Longrightarrow> n < 12" by (metis bit_take_bit_iff)
  have "\<not> bit a n" if "n < 12" using assms(1) that bit_take_bit_iff [of 12 a n] by (simp add: aligned_bits)
  then show "bit (PTE_ADDR (a OR f)) n \<longleftrightarrow> bit a n"
    unfolding PTE_ADDR_def mask_12 using f \<open>n < LENGTH(32)\<close> by (auto simp: bit_simps)
qed

lemma aligned_V2P: "aligned p \<Longrightarrow> aligned (V2P p)"
proof -
  assume "aligned p"
  then obtain k where k: "unat p = 4096 * k" by (auto simp: aligned_nat)
  have "unat (p - KERNBASE) = (if 2147483648 \<le> 4096 * k then 4096 * k - 4096 * 524288 else 4096 * 1048576 + 4096 * k - 4096 * 524288)"
    using k unat_sub_if_size [of p KERNBASE] by (simp add: word_size)
  then have "4096 dvd unat (p - KERNBASE)" by (auto intro!: dvd_diff_nat)
  then show "aligned (V2P p)" by (simp add: aligned_nat V2P_def)
qed

lemma pde_flags:
  assumes "aligned p"
  shows "present (V2P p OR PTE_P OR PTE_W OR PTE_U)" "table (V2P p OR PTE_P OR PTE_W OR PTE_U) = p"
proof -
  have 7: "V2P p OR PTE_P OR PTE_W OR PTE_U = V2P p OR 7" by simp
  show "table (V2P p OR PTE_P OR PTE_W OR PTE_U) = p"
    unfolding 7 table_def using PTE_ADDR_or [OF aligned_V2P [OF assms], of 7] by (simp add: P2V_def V2P_def)
  have "bit (V2P p OR 7) 0" by (simp add: bit_or_iff)
  then have "bit ((V2P p OR 7) AND 1) 0" by (simp add: bit_and_iff)
  then show "present (V2P p OR PTE_P OR PTE_W OR PTE_U)" unfolding 7 by (metis bit_0_eq bot_fun_def bot_bool_def)
qed

definition vm_only :: "kstate \<Rightarrow> kstate \<Rightarrow> bool" where
  "vm_only s t \<longleftrightarrow> (\<exists>m f h. t = s\<lparr>mem := m, freelist := f, hw := h\<rparr>)"

lemma vm_onlyI: "vm_only s (s\<lparr>mem := m, freelist := f, hw := h\<rparr>)"
  unfolding vm_only_def by blast

lemma vm_only_trans: "vm_only s t \<Longrightarrow> vm_only t u \<Longrightarrow> vm_only s u"
  unfolding vm_only_def by (elim exE) (simp, blast)

lemma vm_only_refl: "vm_only s s" "vm_only s (s\<lparr>mem := m\<rparr>)"
  using vm_onlyI [where s = s and m = "mem s" and f = "freelist s" and h = "hw s"]
    vm_onlyI [where s = s and m = m and f = "freelist s" and h = "hw s"] by simp_all

lemma new_table:
  assumes ok: "pgdir_ok s pd (p # ps)" "kmem_inv s (p # ps)" and i: "i < 1024" "\<not> present (entry_at (mem s) pd i)"
    and m: "m = write32 (fill (mem s) p 0 PGSIZE) (pd + 4 * of_nat i) (V2P p OR PTE_P OR PTE_W OR PTE_U)"
  shows "vpte m pd x = vpte (mem s) pd x" "pgdir_ok (s\<lparr>mem := m\<rparr>) pd ps" "present (entry_at m pd i)" "table (entry_at m pd i) = p"
    "\<And>q y. q \<in> set ps \<Longrightarrow> in_page q y \<Longrightarrow> m y = mem s y" "\<And>y. \<not> in_page pd y \<Longrightarrow> \<not> in_page p y \<Longrightarrow> m y = mem s y"
    "\<And>j. j < 1024 \<Longrightarrow> entry_at m pd j = (if j = i then V2P p OR PTE_P OR PTE_W OR PTE_U else entry_at (mem s) pd j)"
proof -
  let ?f = "fill (mem s) p 0 PGSIZE" and ?e = "\<lambda>j. entry_at (mem s) pd j"
  have al: "aligned pd" "aligned p" "p \<noteq> pd" "kpage s p" "p \<notin> set ps" using ok by (auto simp: pgdir_ok_def kpage_def kmem_inv_def)
  have out: "m y = mem s y" if "\<not> in_page pd y" "\<not> in_page p y" for y
    unfolding m using write_entry_outside [OF i(1) that(1)] that(2) by (simp add: fill_def in_page_def)
  have d: "entry_at m pd j = (if j = i then V2P p OR PTE_P OR PTE_W OR PTE_U else ?e j)" if "j < 1024" for j
  proof -
    have "entry_at ?f pd j = ?e j" by (rule entry_frame [OF that]) (use in_page_disjoint [OF al(1,2)] al(3) in \<open>auto simp: fill_def in_page_def\<close>)
    then show ?thesis unfolding m using entry_write [OF i(1) that] by simp
  qed
  have z: "entry_at m p j = 0" if "j < 1024" for j
    unfolding m using entry_write_other [OF i(1) that al(1,2)] al(3) entry_fill [OF that] by simp
  have o: "entry_at m (table (?e j)) k = entry_at (mem s) (table (?e j)) k" if "j < 1024" "k < 1024" "present (?e j)" for j k
  proof (rule entry_frame [OF that(2)], rule out)
    have t: "aligned (table (?e j))" "table (?e j) \<noteq> pd" "table (?e j) \<noteq> p" using ok that by (auto simp: pgdir_ok_def kpage_def)
    fix y assume "in_page (table (?e j)) y"
    then show "\<not> in_page pd y" "\<not> in_page p y" using t in_page_disjoint al by blast+
  qed
  show "present (entry_at m pd i)" "table (entry_at m pd i) = p" using d [OF i(1)] pde_flags [OF al(2)] by simp_all
  then show "vpte m pd x = vpte (mem s) pd x"
    using d [OF pdx_ptx(1) [of x]] o [OF pdx_ptx(1,2), of x x] z [OF pdx_ptx(2) [of x]] i(2) by (auto simp: vpte_def Let_def split: if_splits)
  have k: "kpage (s\<lparr>mem := m\<rparr>) q = kpage s q" for q by (simp add: kpage_def)
  have "p \<noteq> table (?e j)" if "j < 1024" "present (?e j)" for j using ok(1) that by (auto simp: pgdir_ok_def)
  then show "pgdir_ok (s\<lparr>mem := m\<rparr>) pd ps"
    using ok(1) d pde_flags [OF al(2)] al i unfolding pgdir_ok_def k by (auto split: if_splits)
  show "m y = mem s y" if "q \<in> set ps" "in_page q y" for q y
  proof (rule out)
    have t: "aligned q" "q \<noteq> pd" "q \<noteq> p" using ok that(1) by (auto simp: pgdir_ok_def kmem_inv_def kpage_def)
    then show "\<not> in_page pd y" "\<not> in_page p y" using that(2) in_page_disjoint al by blast+
  qed
  show "\<not> in_page pd y \<Longrightarrow> \<not> in_page p y \<Longrightarrow> m y = mem s y" for y by (rule out)
  show "j < 1024 \<Longrightarrow> entry_at m pd j = (if j = i then V2P p OR PTE_P OR PTE_W OR PTE_U else entry_at (mem s) pd j)" for j by (rule d)
qed

section \<open>Walking and mapping\<close>

text \<open>The pages that hold a directory.\<close>

definition dir_pages :: "memory \<Rightarrow> u32 \<Rightarrow> u32 set" where
  "dir_pages m pd = insert pd {table (entry_at m pd i) | i. i < 1024 \<and> present (entry_at m pd i)}"

text \<open>A directory and the free pages, in a good state.\<close>

definition vm_ok :: "kstate \<Rightarrow> u32 \<Rightarrow> u32 list \<Rightarrow> bool" where
  "vm_ok s pd ps \<longleftrightarrow> kmem_ready s \<and> kmem_inv s ps \<and> pgdir_ok s pd ps"

text \<open>The number of tables of a directory.\<close>

definition tables :: "memory \<Rightarrow> u32 \<Rightarrow> nat" where
  "tables m pd = card {i. i < 1024 \<and> present (entry_at m pd i)}"

lemma tables_le: "tables m pd \<le> 1024"
  unfolding tables_def by (rule order_trans [OF card_mono [of "{..<1024}"]]) auto

definition suffix_of :: "'a list \<Rightarrow> 'a list \<Rightarrow> bool" where
  "suffix_of ps' ps \<longleftrightarrow> (\<exists>qs. ps = qs @ ps')"

text \<open>A step that takes pages off the free list and writes to the pages of the directory only.\<close>

definition vm_step :: "u32 \<Rightarrow> u32 list \<Rightarrow> kstate \<Rightarrow> u32 list \<Rightarrow> kstate \<Rightarrow> bool" where
  "vm_step pd ps s ps' t \<longleftrightarrow> vm_ok t pd ps' \<and> vm_only s t \<and> suffix_of ps' ps
     \<and> length ps' + tables (mem t) pd = length ps + tables (mem s) pd
     \<and> dir_pages (mem t) pd \<subseteq> dir_pages (mem s) pd \<union> set ps
     \<and> (\<forall>y. (\<forall>q\<in>dir_pages (mem s) pd \<union> set ps. \<not> in_page q y) \<longrightarrow> mem t y = mem s y)"

lemma vm_step_trans:
  assumes "vm_step pd ps s ps' t" "vm_step pd ps' t ps'' u"
  shows "vm_step pd ps s ps'' u"
proof -
  have "set ps' \<subseteq> set ps" using assms(1) by (auto simp: vm_step_def suffix_of_def)
  moreover have "suffix_of ps'' ps" using assms by (auto simp: vm_step_def suffix_of_def)
  ultimately show ?thesis using assms vm_only_trans [of s t u] unfolding vm_step_def by (auto 4 4)
qed

lemma pte_in_nonzero: "kpage s q \<Longrightarrow> pte_in q va \<noteq> 0"
proof
  assume q: "kpage s q" "pte_in q va = 0"
  have "in_page q (pte_in q va)" using slot_in_page [of "unat (PTX va)" 0 q] pdx_ptx(2) by (simp add: pte_in_eq)
  then have "unat q div 4096 = 0" using q in_page_nat [of q 0] by (simp add: kpage_def)
  then have "unat q < 4096" by (simp add: div_eq_0_iff)
  then have "unat (q - KERNBASE) = 2147483648 + unat q" using unat_sub_if_size [of q KERNBASE] by (simp add: word_size)
  then show False using q(1) by (simp add: kpage_def V2P_def word_less_nat_alt)
qed

lemma walkpgdir_eq:
  assumes "kmem_ready s"
  shows "walkpgdir pd va True s =
    (let e = entry_at (mem s) pd (unat (PDX va)) in
     if present e then Ret (pte_in (table e) va) s
     else if freelist s = 0 then Ret 0 (s\<lparr>freelist := 0, hw := kmem_hw s\<rparr>)
     else Ret (pte_in (freelist s) va)
       (s\<lparr>mem := write32 (fill (mem s) (freelist s) 0 PGSIZE) (pd + 4 * of_nat (unat (PDX va))) (V2P (freelist s) OR PTE_P OR PTE_W OR PTE_U),
          freelist := read32 (mem s) (freelist s), hw := kmem_hw s\<rparr>))"
proof -
  have e: "read32 (mem s) (pde_at pd va) = entry_at (mem s) pd (unat (PDX va))" by (simp add: entry_at_def pte_in_eq)
  show ?thesis unfolding walkpgdir_def Let_def e by (simp add: kalloc_eq [OF assms] table_def pte_in_eq)
qed

lemma vm_step_refl: "vm_ok s pd ps \<Longrightarrow> vm_step pd ps s ps s"
  using vm_only_refl(1) [of s] by (auto simp: vm_step_def suffix_of_def)

text \<open>What may follow a walk: no entry, for lack of pages, or the entry of the address.\<close>

definition walked :: "u32 \<Rightarrow> u32 \<Rightarrow> u32 list \<Rightarrow> kstate \<Rightarrow> u32 \<Rightarrow> kstate \<Rightarrow> bool" where
  "walked pd va ps s r t \<longleftrightarrow> (\<exists>ps'. vm_step pd ps s ps' t \<and> vpte (mem t) pd = vpte (mem s) pd
    \<and> (r = 0 \<and> ps' = []
       \<or> present (entry_at (mem t) pd (unat (PDX va))) \<and> r = pte_in (table (entry_at (mem t) pd (unat (PDX va)))) va \<and> r \<noteq> 0))"

lemma walkpgdir_new:
  assumes s: "vm_ok s pd (p # ps)" and e: "\<not> present (entry_at (mem s) pd (unat (PDX va)))"
  shows "returns (walkpgdir pd va True s) (walked pd va (p # ps) s)"
proof -
  let ?i = "unat (PDX va)"
  define m where "m = write32 (fill (mem s) p 0 PGSIZE) (pd + 4 * of_nat ?i) (V2P p OR PTE_P OR PTE_W OR PTE_U)"
  let ?t = "s\<lparr>mem := m, freelist := read32 (mem s) p, hw := kmem_hw s\<rparr>"
  have ok: "kmem_ready s" "kmem_inv s (p # ps)" "pgdir_ok s pd (p # ps)" using s by (simp_all add: vm_ok_def)
  note n = new_table [OF ok(3,2) pdx_ptx(1) e m_def]
  have f: "freelist s = p" "p \<noteq> 0" "kpage s p" using ok(2) kpage_nonzero [of s p] by (auto simp: kmem_inv_Cons)
  have "kmem_inv (s\<lparr>freelist := read32 (mem s) p\<rparr>) ps" using ok(2) by (simp add: kmem_inv_Cons)
  then have inv: "kmem_inv ?t ps" by (rule kmem_inv_frame) (use n(5) in auto)
  have rdy: "kmem_ready ?t" by (rule kmem_ready_step(2) [OF ok(1)])
  have dir: "pgdir_ok ?t pd ps" using n(2) by (simp add: pgdir_ok_def kpage_def)
  have pages: "dir_pages m pd \<subseteq> dir_pages (mem s) pd \<union> set (p # ps)"
    using n(4,7) pdx_ptx(1) [of va] by (auto simp: dir_pages_def split: if_splits)
  have "{i. i < 1024 \<and> present (entry_at m pd i)} = insert ?i {i. i < 1024 \<and> present (entry_at (mem s) pd i)}"
    using n(3,7) pdx_ptx(1) [of va] by (auto split: if_splits)
  then have tabs: "tables m pd = Suc (tables (mem s) pd)" using e by (simp add: tables_def)
  have frame: "m y = mem s y" if "\<forall>q\<in>dir_pages (mem s) pd \<union> set (p # ps). \<not> in_page q y" for y
    using n(6) that by (auto simp: dir_pages_def)
  have "vm_step pd (p # ps) s ps ?t"
    unfolding vm_step_def vm_ok_def using inv rdy dir pages tabs frame vm_onlyI by (auto simp: suffix_of_def)
  then have "walked pd va (p # ps) s (pte_in p va) ?t"
    unfolding walked_def using n(1,3,4) pte_in_nonzero [OF f(3), of va] by (auto simp: fun_eq_iff)
  then show ?thesis unfolding walkpgdir_eq [OF ok(1)] using e f(1,2) by (simp add: m_def)
qed

lemma walkpgdir_ok:
  assumes "vm_ok s pd ps"
  shows "returns (walkpgdir pd va True s) (walked pd va ps s)"
proof -
  let ?e = "entry_at (mem s) pd (unat (PDX va))"
  have s: "kmem_ready s" "kmem_inv s ps" "pgdir_ok s pd ps" using assms by (simp_all add: vm_ok_def)
  show ?thesis
  proof (cases "present ?e")
    case True
    then have "kpage s (table ?e)" using s(3) pdx_ptx(1) [of va] by (auto simp: pgdir_ok_def)
    then show ?thesis unfolding walkpgdir_eq [OF s(1)] walked_def
      using True vm_step_refl [OF assms] pte_in_nonzero [of s "table ?e" va] by auto
  next
    case False
    show ?thesis
    proof (cases ps)
      case Nil
      let ?t = "s\<lparr>freelist := 0, hw := kmem_hw s\<rparr>"
      have "freelist s = 0" using s(2) Nil by (simp add: kmem_inv_Nil)
      moreover have "vm_only s ?t" using vm_onlyI [where s = s and m = "mem s" and f = 0 and h = "kmem_hw s"] by simp
      moreover have "pgdir_ok ?t pd []" using s(3) Nil by (simp add: pgdir_ok_def kpage_def)
      ultimately have "vm_step pd ps s [] ?t" using kmem_ready_step(1) [OF s(1)] Nil by (auto simp: vm_step_def vm_ok_def kmem_inv_Nil suffix_of_def)
      moreover note \<open>freelist s = 0\<close>
      ultimately show ?thesis unfolding walkpgdir_eq [OF s(1)] walked_def using False by auto
    next
      case (Cons p ps')
      then show ?thesis using walkpgdir_new assms False by simp
    qed
  qed
qed

text \<open>The \<open>n\<close> pages from that of \<open>a\<close> on, and what is entered for them.\<close>

definition pages_at :: "u32 \<Rightarrow> nat \<Rightarrow> u32 \<Rightarrow> bool" where
  "pages_at a n x \<longleftrightarrow> unat a div 4096 \<le> unat x div 4096 \<and> unat x div 4096 < unat a div 4096 + n"

definition new_pte :: "u32 \<Rightarrow> u32 \<Rightarrow> u32 \<Rightarrow> u32 \<Rightarrow> u32" where
  "new_pte a pa perm x = (pa + PGSIZE * of_nat (unat x div 4096 - unat a div 4096)) OR perm OR PTE_P"

lemma next_page: "aligned a \<Longrightarrow> unat a div 4096 + 1 < 1048576 \<Longrightarrow> unat (a + PGSIZE) div 4096 = unat a div 4096 + 1 \<and> aligned (a + PGSIZE)"
proof -
  assume a: "aligned a" "unat a div 4096 + 1 < 1048576"
  then obtain k where k: "unat a = 4096 * k" by (auto simp: aligned_nat)
  then have "unat (a + PGSIZE) = 4096 * (k + 1)" using a(2) by (simp add: unat_word_ariths)
  then show ?thesis using k by (simp add: aligned_nat)
qed

lemma pages_at_Suc:
  assumes "aligned a" "unat a div 4096 + 1 < 1048576"
  shows "pages_at a (Suc k) x \<longleftrightarrow> unat x div 4096 = unat a div 4096 \<or> pages_at (a + PGSIZE) k x"
    "pages_at (a + PGSIZE) k x \<Longrightarrow> new_pte (a + PGSIZE) (pa + PGSIZE) perm x = new_pte a pa perm x"
proof -
  note n = next_page [OF assms]
  show "pages_at a (Suc k) x \<longleftrightarrow> unat x div 4096 = unat a div 4096 \<or> pages_at (a + PGSIZE) k x" using n by (auto simp: pages_at_def)
  assume "pages_at (a + PGSIZE) k x"
  then have "unat x div 4096 - unat a div 4096 = Suc (unat x div 4096 - (unat a div 4096 + 1))" using n unfolding pages_at_def by linarith
  then show "new_pte (a + PGSIZE) (pa + PGSIZE) perm x = new_pte a pa perm x" using n by (simp add: new_pte_def algebra_simps)
qed

text \<open>Writing the entry that a walk found.\<close>

lemma enter_pte:
  assumes s: "vm_ok s pd ps" and p: "present (entry_at (mem s) pd (unat (PDX va)))"
    and r: "r = pte_in (table (entry_at (mem s) pd (unat (PDX va)))) va"
  shows "read32 (mem s) r = vpte (mem s) pd va" "vm_step pd ps s ps (s\<lparr>mem := write32 (mem s) r v\<rparr>)"
    "vpte (write32 (mem s) r v) pd x = (if unat x div 4096 = unat va div 4096 then v else vpte (mem s) pd x)"
proof -
  let ?q = "table (entry_at (mem s) pd (unat (PDX va)))" and ?m = "write32 (mem s) r v"
  have ok: "kmem_ready s" "kmem_inv s ps" "pgdir_ok s pd ps" using s by (simp_all add: vm_ok_def)
  show "read32 (mem s) r = vpte (mem s) pd va" using p by (simp add: r vpte_def entry_at_def pte_in_eq)
  show "vpte ?m pd x = (if unat x div 4096 = unat va div 4096 then v else vpte (mem s) pd x)"
    unfolding r by (rule vpte_write [OF ok(3) p])
  have al: "aligned pd" "aligned ?q" "?q \<noteq> pd" using ok(3) p pdx_ptx by (auto simp: pgdir_ok_def kpage_def)
  have e: "entry_at ?m pd i = entry_at (mem s) pd i" if "i < 1024" for i
    unfolding r pte_in_eq using entry_write_other [OF _ that al(2,1,3)] pdx_ptx by blast
  then have "{i. i < 1024 \<and> present (entry_at ?m pd i)} = {i. i < 1024 \<and> present (entry_at (mem s) pd i)}" by auto
  then have "tables ?m pd = tables (mem s) pd" by (simp add: tables_def)
  moreover have "dir_pages ?m pd \<subseteq> dir_pages (mem s) pd" using e by (auto simp: dir_pages_def)
  moreover have "?m y = mem s y" if "\<forall>q\<in>dir_pages (mem s) pd \<union> set ps. \<not> in_page q y" for y
  proof -
    have "?q \<in> dir_pages (mem s) pd" using p pdx_ptx by (auto simp: dir_pages_def)
    then show ?thesis using that write_entry_outside pdx_ptx(2) unfolding r pte_in_eq by blast
  qed
  moreover have "kmem_ready (s\<lparr>mem := ?m\<rparr>)" using ok(1) by (simp add: kmem_ready_def can_lock_def)
  ultimately show "vm_step pd ps s ps (s\<lparr>mem := ?m\<rparr>)"
    using pgdir_ok_write [OF ok(3) p, where v = v] ok(2) vm_only_refl(2) unfolding r by (auto simp: vm_step_def vm_ok_def suffix_of_def)
qed

text \<open>One round of the loop: out of pages, or the entry is made.\<close>

lemma map_one:
  assumes "vm_ok s pd ps" "\<not> present (vpte (mem s) pd a)"
  shows "returns (walkpgdir pd a True s) (\<lambda>r t.
    (if r = 0 then vm_step pd ps s [] t \<and> vpte (mem t) pd = vpte (mem s) pd
     else \<not> present (read32 (mem t) r) \<and> (\<exists>ps'. vm_step pd ps s ps' (t\<lparr>mem := write32 (mem t) r v\<rparr>)
       \<and> (\<forall>x. vpte (write32 (mem t) r v) pd x = (if unat x div 4096 = unat a div 4096 then v else vpte (mem s) pd x)))))"
proof (rule returns_mono [OF walkpgdir_ok [OF assms(1)]])
  fix r t assume "walked pd a ps s r t"
  then obtain ps' where w: "vm_step pd ps s ps' t" "vpte (mem t) pd = vpte (mem s) pd"
      "r = 0 \<and> ps' = [] \<or> present (entry_at (mem t) pd (unat (PDX a))) \<and> r = pte_in (table (entry_at (mem t) pd (unat (PDX a)))) a \<and> r \<noteq> 0"
    unfolding walked_def by blast
  show "if r = 0 then vm_step pd ps s [] t \<and> vpte (mem t) pd = vpte (mem s) pd
     else \<not> present (read32 (mem t) r) \<and> (\<exists>ps'. vm_step pd ps s ps' (t\<lparr>mem := write32 (mem t) r v\<rparr>)
       \<and> (\<forall>x. vpte (write32 (mem t) r v) pd x = (if unat x div 4096 = unat a div 4096 then v else vpte (mem s) pd x)))"
  proof (cases "r = 0")
    case False
    have ok: "vm_ok t pd ps'" using w(1) by (simp add: vm_step_def)
    note e = enter_pte [OF ok, of a r]
    show ?thesis using False w e(1) e(2) [where v = v] e(3) [where v = v] vm_step_trans [OF w(1)] assms(2) by auto
  qed (use w in auto)
qed

definition mapped_range :: "u32 \<Rightarrow> u32 \<Rightarrow> u32 \<Rightarrow> u32 \<Rightarrow> nat \<Rightarrow> kstate \<Rightarrow> kstate \<Rightarrow> bool" where
  "mapped_range pd a pa perm k s t \<longleftrightarrow> (\<forall>x. vpte (mem t) pd x = (if pages_at a k x then new_pte a pa perm x else vpte (mem s) pd x))"

lemma mapped_none: "vpte (mem t) pd = vpte (mem s) pd \<Longrightarrow> mapped_range pd a pa perm 0 s t"
  by (auto simp: mapped_range_def pages_at_def)

lemma mapped_single:
  assumes "\<forall>x. vpte (mem t) pd x = (if unat x div 4096 = unat a div 4096 then pa OR perm OR PTE_P else vpte (mem s) pd x)"
  shows "mapped_range pd a pa perm (Suc 0) s t"
proof -
  have "pages_at a (Suc 0) x \<longleftrightarrow> unat x div 4096 = unat a div 4096" for x by (auto simp: pages_at_def)
  then show ?thesis using assms by (simp add: mapped_range_def new_pte_def)
qed

lemma mappages_loop_ok:
  assumes "vm_ok s pd ps" "aligned a" "unat a div 4096 + n < 1048576" "\<forall>x. pages_at a (Suc n) x \<longrightarrow> \<not> present (vpte (mem s) pd x)"
  shows "returns (mappages_loop n pd a pa perm s) (\<lambda>r t. \<exists>ps' k. vm_step pd ps s ps' t
    \<and> (r = 0 \<and> k = Suc n \<or> r = - 1 \<and> k \<le> n \<and> ps' = []) \<and> mapped_range pd a pa perm k s t)"
  using assms
proof (induction n arbitrary: s ps a pa)
  case 0
  have "\<not> present (vpte (mem s) pd a)" using 0(4) by (simp add: pages_at_def)
  note one = map_one [OF 0(1) this, of "pa OR perm OR PTE_P"]
  show ?case unfolding mappages_loop.simps [of 0] returns_bnd
    by (rule returns_mono [OF one]) (auto simp: Let_def mapped_none mapped_single split: if_splits)
next
  case (Suc n)
  let ?v = "pa OR perm OR PTE_P"
  have "\<not> present (vpte (mem s) pd a)" using Suc.prems(4) by (simp add: pages_at_def)
  note one = map_one [OF Suc.prems(1) this, of ?v]
  have a: "unat a div 4096 + 1 < 1048576" using Suc.prems(3) by simp
  note nx = next_page [OF Suc.prems(2) a] and ps = pages_at_Suc [OF Suc.prems(2) a]
  have step: "returns (mappages_loop n pd (a + PGSIZE) (pa + PGSIZE) perm t) (\<lambda>r u. \<exists>ps' k. vm_step pd ps s ps' u
      \<and> (r = 0 \<and> k = Suc (Suc n) \<or> r = - 1 \<and> k \<le> Suc n \<and> ps' = []) \<and> mapped_range pd a pa perm k s u)"
    if t: "vm_step pd ps s ps1 t" "\<forall>x. vpte (mem t) pd x = (if unat x div 4096 = unat a div 4096 then ?v else vpte (mem s) pd x)" for t ps1
  proof -
    have d: "\<not> pages_at (a + PGSIZE) k x" if "unat x div 4096 = unat a div 4096" for k x using that nx by (simp add: pages_at_def)
    have "vm_ok t pd ps1" using t(1) by (simp add: vm_step_def)
    moreover have "\<forall>x. pages_at (a + PGSIZE) (Suc n) x \<longrightarrow> \<not> present (vpte (mem t) pd x)"
      using t(2) d Suc.prems(4) ps(1) by auto
    ultimately have "returns (mappages_loop n pd (a + PGSIZE) (pa + PGSIZE) perm t) (\<lambda>r u. \<exists>ps' k. vm_step pd ps1 t ps' u
        \<and> (r = 0 \<and> k = Suc n \<or> r = - 1 \<and> k \<le> n \<and> ps' = []) \<and> mapped_range pd (a + PGSIZE) (pa + PGSIZE) perm k t u)"
      using nx Suc.prems(3) by (intro Suc.IH) auto
    moreover have "mapped_range pd a pa perm (Suc k) s u" if "mapped_range pd (a + PGSIZE) (pa + PGSIZE) perm k t u" for k u
      using that t(2) ps d unfolding mapped_range_def by (auto simp: new_pte_def)
    ultimately show ?thesis using vm_step_trans [OF t(1)] by (elim returns_mono) (metis Suc_le_mono)
  qed
  show ?case unfolding mappages_loop.simps [of "Suc n"] returns_bnd
  proof (rule returns_mono [OF one])
    fix r t
    assume *: "if r = 0 then vm_step pd ps s [] t \<and> vpte (mem t) pd = vpte (mem s) pd
      else \<not> present (read32 (mem t) r) \<and> (\<exists>ps'. vm_step pd ps s ps' (t\<lparr>mem := write32 (mem t) r ?v\<rparr>)
        \<and> (\<forall>x. vpte (write32 (mem t) r ?v) pd x = (if unat x div 4096 = unat a div 4096 then ?v else vpte (mem s) pd x)))"
    then show "returns (if r = 0 then Ret (- 1) t else if present (read32 (mem t) r) then Panic ''remap''
      else let s = t\<lparr>mem := write32 (mem t) r ?v\<rparr> in case Suc n of 0 \<Rightarrow> Ret 0 s | Suc n \<Rightarrow> mappages_loop n pd (a + PGSIZE) (pa + PGSIZE) perm s)
      (\<lambda>r u. \<exists>ps' k. vm_step pd ps s ps' u \<and> (r = 0 \<and> k = Suc (Suc n) \<or> r = - 1 \<and> k \<le> Suc n \<and> ps' = []) \<and> mapped_range pd a pa perm k s u)"
      using * step [of _ "t\<lparr>mem := write32 (mem t) r ?v\<rparr>"] by (auto simp: mapped_none intro!: exI [of _ "[] :: u32 list"] exI [of _ "0 :: nat"] split: if_splits)
  qed
qed

section \<open>Properties\<close>

definition covers :: "u32 \<Rightarrow> u32 \<Rightarrow> u32 \<Rightarrow> bool" where
  "covers va len x \<longleftrightarrow> unat va div 4096 \<le> unat x div 4096 \<and> unat x div 4096 \<le> (unat va + unat len - 1) div 4096"

lemma mappages_ok:
  assumes "vm_ok s pd ps" "0 < len" "unat va + unat len \<le> 2 ^ 32" "\<forall>x. covers va len x \<longrightarrow> \<not> present (vpte (mem s) pd x)"
  shows "returns (mappages pd va len pa perm s) (\<lambda>r t. \<exists>ps'. vm_step pd ps s ps' t
    \<and> (if r = 0 then \<forall>x. vpte (mem t) pd x = (if covers va len x then new_pte va pa perm x else vpte (mem s) pd x)
       else r = - 1 \<and> ps' = [] \<and> (\<forall>x. \<not> covers va len x \<longrightarrow> vpte (mem t) pd x = vpte (mem s) pd x)))"
proof -
  let ?a = "PGROUNDDOWN va" and ?l = "PGROUNDDOWN (va + len - 1)"
  let ?n = "unat (?l - ?a) div 4096" and ?e = "unat va + unat len - 1"
  have a: "unat ?a = unat va div 4096 * 4096" "aligned ?a" by (simp_all add: unat_PGROUNDDOWN)
  have l1: "1 \<le> unat len" using assms(2) by (simp add: word_less_nat_alt)
  have eq: "va + len - 1 = of_nat ?e" using l1 by (simp add: of_nat_diff)
  have small: "unat (of_nat m :: u32) = m" if "m < 2 ^ 32" for m using that by (simp add: unat_of_nat take_bit_nat_eq_self)
  have "unat (va + len - 1) = ?e" unfolding eq using assms(3) l1 by (intro small) linarith
  then have l: "unat ?l = ?e div 4096 * 4096" by (simp add: unat_PGROUNDDOWN)
  have mono: "unat va div 4096 \<le> ?e div 4096" using l1 by (intro div_le_mono) simp
  then have "?a \<le> ?l" using a l by (simp add: word_le_nat_alt)
  then have "unat (?l - ?a) = (?e div 4096 - unat va div 4096) * 4096" using a l by (simp add: unat_sub diff_mult_distrib)
  then have n: "?n = ?e div 4096 - unat va div 4096" by simp
  have c: "pages_at ?a (Suc ?n) x \<longleftrightarrow> covers va len x" for x using mono unfolding pages_at_def covers_def n a(1) by auto
  have np: "new_pte ?a pa perm x = new_pte va pa perm x" for x by (simp add: new_pte_def a(1))
  have "?e div 4096 < 1048576" using assms(3) l1 by (simp add: less_mult_imp_div_less)
  then have b: "unat ?a div 4096 + ?n < 1048576" using mono n a(1) by simp
  have le: "pages_at ?a k x \<Longrightarrow> k \<le> ?n \<Longrightarrow> covers va len x" for k x unfolding c [symmetric] by (auto simp: pages_at_def)
  have "returns (mappages_loop ?n pd ?a pa perm s) (\<lambda>r t. \<exists>ps' k. vm_step pd ps s ps' t
      \<and> (r = 0 \<and> k = Suc ?n \<or> r = - 1 \<and> k \<le> ?n \<and> ps' = []) \<and> mapped_range pd ?a pa perm k s t)"
    using assms(4) c by (intro mappages_loop_ok [OF assms(1) a(2) b]) blast
  then show ?thesis unfolding mappages_def Let_def
    by (rule returns_mono) (use c np le in \<open>fastforce simp: mapped_range_def\<close>)
qed

text \<open>A fresh, zeroed page is an empty directory.\<close>

lemma fresh_dir:
  assumes "kmem_ready s" "kmem_inv s (p # ps)"
  shows "kalloc s = Ret p (s\<lparr>freelist := read32 (mem s) p, hw := kmem_hw s\<rparr>)" "p \<noteq> 0"
    "vm_ok (s\<lparr>mem := fill (mem s) p 0 PGSIZE, freelist := read32 (mem s) p, hw := kmem_hw s\<rparr>) p ps"
    "vpte (fill (mem s) p 0 PGSIZE) p x = 0"
proof -
  let ?t = "s\<lparr>mem := fill (mem s) p 0 PGSIZE, freelist := read32 (mem s) p, hw := kmem_hw s\<rparr>"
  have p: "freelist s = p" "kpage s p" "p \<notin> set ps" "kmem_inv (s\<lparr>freelist := read32 (mem s) p\<rparr>) ps" using assms(2) by (simp_all add: kmem_inv_Cons)
  show nz: "p \<noteq> 0" using p(2) by (rule kpage_nonzero)
  show "kalloc s = Ret p (s\<lparr>freelist := read32 (mem s) p, hw := kmem_hw s\<rparr>)" using kalloc_eq [OF assms(1)] p(1) nz by simp
  have z: "entry_at (fill (mem s) p 0 PGSIZE) p i = 0" if "i < 1024" for i by (rule entry_fill [OF that])
  then show "vpte (fill (mem s) p 0 PGSIZE) p x = 0" using pdx_ptx(1) [of x] by (simp add: vpte_def)
  have "fill (mem s) p 0 PGSIZE y = mem s y" if "q \<in> set ps" "in_page q y" for q y
    using that p in_page_disjoint [of p q y] by (auto simp: fill_def in_page_def kmem_inv_def kpage_def)
  then have "kmem_inv ?t ps" by (intro kmem_inv_frame [OF p(4)]) simp_all
  moreover have "pgdir_ok ?t p ps" using p(2,3) z by (simp add: pgdir_ok_def kpage_def)
  ultimately show "vm_ok ?t p ps" using kmem_ready_step(2) [OF assms(1)] by (simp add: vm_ok_def)
qed

text \<open>A pool of more than enough pages.\<close>

lemma many_pages: "2000 \<le> card (whole_pages 0x80400000 0x81000000)" "finite (whole_pages v e)"
proof -
  show fin: "finite (whole_pages v e)" for v e by simp
  let ?f = "\<lambda>k. 0x80400000 + 4096 * of_nat k :: u32"
  have u: "unat (?f k) = 0x80400000 + 4096 * k" if "k < 2000" for k
  proof -
    have "?f k = of_nat (0x80400000 + 4096 * k)" by simp
    then show ?thesis using that by (simp add: unat_of_nat take_bit_nat_eq_self del: of_nat_add of_nat_mult)
  qed
  have "inj_on ?f {..<2000}" using u by (intro inj_onI) (metis add_left_cancel lessThan_iff mult_cancel1 zero_neq_numeral)
  moreover have "?f ` {..<2000} \<subseteq> whole_pages 0x80400000 0x81000000"
    using u by (auto simp: whole_pages_def aligned_nat word_le_nat_alt)
  ultimately show "2000 \<le> card (whole_pages 0x80400000 0x81000000)" using card_inj_on_le [of ?f "{..<2000 :: nat}"] fin by simp
qed

lemma demo_many_pages:
  obtains s0 ps0 where "kinit1 0x80400000 0x81000000 demo_state = Ret () s0" "kmem_ready s0" "kmem_inv s0 ps0" "2000 \<le> length ps0"
proof -
  have "returns (kinit1 0x80400000 0x81000000 demo_state) (\<lambda>_ t. kmem_ready t \<and> (\<exists>ps. kmem_inv t ps \<and> set ps = whole_pages 0x80400000 0x81000000))"
    unfolding kinit1_def Let_def
    by (rule returns_mono [OF freerange_pages]) (auto simp: kmem_ready_def kmem_inv_Nil demo_state_def boot_state_def demo_arch_def PGROUNDUP_def)
  then obtain s0 ps0 where s0: "kinit1 0x80400000 0x81000000 demo_state = Ret () s0" "kmem_ready s0" "kmem_inv s0 ps0" "set ps0 = whole_pages 0x80400000 0x81000000"
    by (auto elim!: returnsE)
  have "distinct ps0" using s0(3) by (simp add: kmem_inv_def)
  then have "2000 \<le> length ps0" using many_pages(1) s0(4) distinct_card [of ps0] by simp
  then show ?thesis by (rule that [OF s0(1-3)])
qed

text \<open>
  C15: \<open>mappages\<close> extends the map of a page directory: in a directory whose pages are
  kept apart and with none of the addresses mapped yet, it either enters the
  consecutive frames for exactly the pages of the range, or returns -1 when the free
  pages run out, which more than 1024 free pages exclude. Addresses outside the
  range keep their entries. The only pages written are those of the directory and
  of tables newly taken from the free list.
\<close>

theorem mappages_extends_map:
  assumes "vm_ok s pd ps" "0 < len" "unat va + unat len \<le> 2 ^ 32" "\<forall>x. covers va len x \<longrightarrow> \<not> present (vpte (mem s) pd x)"
  shows "returns (mappages pd va len pa perm s) (\<lambda>r t. \<exists>ps'. vm_step pd ps s ps' t \<and> (1024 < length ps \<longrightarrow> r = 0)
    \<and> (if r = 0 then \<forall>x. vpte (mem t) pd x = (if covers va len x then new_pte va pa perm x else vpte (mem s) pd x)
       else r = - 1 \<and> ps' = [] \<and> (\<forall>x. \<not> covers va len x \<longrightarrow> vpte (mem t) pd x = vpte (mem s) pd x)))"
proof (rule returns_mono [OF mappages_ok [OF assms]])
  fix r t
  assume "\<exists>ps'. vm_step pd ps s ps' t
    \<and> (if r = 0 then \<forall>x. vpte (mem t) pd x = (if covers va len x then new_pte va pa perm x else vpte (mem s) pd x)
       else r = - 1 \<and> ps' = [] \<and> (\<forall>x. \<not> covers va len x \<longrightarrow> vpte (mem t) pd x = vpte (mem s) pd x))"
  moreover have "r = 0" if "1024 < length ps" "vm_step pd ps s ps' t" "r \<noteq> 0 \<longrightarrow> ps' = []" for ps'
    using that tables_le [of "mem t" pd] by (auto simp: vm_step_def)
  ultimately show "\<exists>ps'. vm_step pd ps s ps' t \<and> (1024 < length ps \<longrightarrow> r = 0)
    \<and> (if r = 0 then \<forall>x. vpte (mem t) pd x = (if covers va len x then new_pte va pa perm x else vpte (mem s) pd x)
       else r = - 1 \<and> ps' = [] \<and> (\<forall>x. \<not> covers va len x \<longrightarrow> vpte (mem t) pd x = vpte (mem s) pd x))"
    by (auto split: if_splits)
qed

theorem mappages_extends_map_witness:
  "\<exists>s0 p s1 t. kinit1 0x80400000 0x81000000 demo_state = Ret () s0 \<and> kalloc s0 = Ret p s1
     \<and> mappages p 0x1000 0x2000 0x300000 6 (s1\<lparr>mem := fill (mem s1) p 0 PGSIZE\<rparr>) = Ret 0 t
     \<and> vpte (mem t) p 0x2abc = 0x301007 \<and> vpte (mem t) p 0x3000 = 0"
proof -
  obtain s0 ps0 where s0: "kinit1 0x80400000 0x81000000 demo_state = Ret () s0" "kmem_ready s0" "kmem_inv s0 ps0" "2000 \<le> length ps0"
    by (rule demo_many_pages)
  then obtain p ps where ps: "ps0 = p # ps" by (cases ps0) auto
  note d = fresh_dir [OF s0(2) s0(3) [unfolded ps]]
  let ?s1 = "s0\<lparr>freelist := read32 (mem s0) p, hw := kmem_hw s0\<rparr>"
  let ?s2 = "?s1\<lparr>mem := fill (mem ?s1) p 0 PGSIZE\<rparr>"
  have eq: "?s2 = s0\<lparr>mem := fill (mem s0) p 0 PGSIZE, freelist := read32 (mem s0) p, hw := kmem_hw s0\<rparr>" by (rule kstate.equality) simp_all
  have ok: "vm_ok ?s2 p ps" unfolding eq by (rule d(3))
  have z: "vpte (mem ?s2) p x = 0" for x using d(4) by simp
  have c: "covers 0x1000 0x2000 0x2abc" "\<not> covers 0x1000 0x2000 0x3000" by (simp_all add: covers_def)
  have n: "new_pte 0x1000 0x300000 6 0x2abc = 0x301007" by (simp add: new_pte_def)
  obtain t where t: "mappages p 0x1000 0x2000 0x300000 6 ?s2 = Ret 0 t" "\<forall>x. vpte (mem t) p x = (if covers 0x1000 0x2000 x then new_pte 0x1000 0x300000 6 x else 0)"
    using mappages_extends_map [OF ok, where len = "0x2000" and va = "0x1000" and pa = "0x300000" and perm = 6] z s0(4) ps by (auto elim!: returnsE)
  have "vpte (mem t) p 0x2abc = 0x301007" "vpte (mem t) p 0x3000 = 0" using t(2) c n by simp_all
  then show ?thesis using s0(1) d(1) t(1) by blast
qed

end
