(* ===== verification/Bio.thy ===== *)
theory Bio
  imports Sleeplock Blocks
begin

text \<open>
  The buffer cache, \<open>bio.c\<close>, over the memory disk of \<open>memide.c\<close>. A buffer is
  an index into the table; index \<open>NBUF\<close> is the list head. The two links of every
  buffer are kept, and the searches follow them. A search that has passed as many
  links as there are buffers without meeting the head never meets it.

  \<open>disk_writes\<close> records the block writes in the order the disk performs them; no
  code reads it.
\<close>

section \<open>The disk\<close>

definition upd_buf :: "nat \<Rightarrow> (buf \<Rightarrow> buf) \<Rightarrow> kstate \<Rightarrow> kstate" where
  "upd_buf i f s = s\<lparr>bcache := (bcache s)[i := f (bcache s ! i)]\<rparr>"

definition disk_put :: "u32 \<Rightarrow> block \<Rightarrow> kstate \<Rightarrow> kstate" where
  "disk_put b d s = s\<lparr>memdisk := (memdisk s)(b := d), disk_writes := disk_writes s @ [(b, d)]\<rparr>"

definition iderw :: "nat \<Rightarrow> kstate \<Rightarrow> (kstate, unit) outcome" where
  "iderw i s =
     bnd (holdingsleep (Buf_sleeplock i) s) (\<lambda>h s.
     let b = bcache s ! i in
     if \<not> h then Panic ''iderw: buf not locked''
     else if b_valid b \<and> \<not> b_dirty b then Panic ''iderw: nothing to do''
     else if b_dev b \<noteq> 1 then Panic ''iderw: request not for disk 1''
     else if unat (b_blockno b) \<ge> disksize s then Panic ''iderw: block out of range''
     else
       let s = (if b_dirty b
                then disk_put (b_blockno b) (b_data b) (upd_buf i (\<lambda>b. b\<lparr>b_dirty := False\<rparr>) s)
                else upd_buf i (\<lambda>q. q\<lparr>b_data := memdisk s (b_blockno b)\<rparr>) s)
       in Ret () (upd_buf i (\<lambda>b. b\<lparr>b_valid := True\<rparr>) s))"

section \<open>The cache\<close>

abbreviation (input) bhead :: nat where "bhead \<equiv> NBUF"

definition binit_one :: "nat \<Rightarrow> kstate \<Rightarrow> kstate" where
  "binit_one b s =
     (let s = upd_buf b (\<lambda>q. q\<lparr>b_next := b_next (bcache s ! bhead)\<rparr>) s;
          s = upd_buf b (\<lambda>q. q\<lparr>b_prev := bhead\<rparr>) s;
          s = initsleeplock (Buf_sleeplock b) s;
          s = upd_buf (b_next (bcache s ! bhead)) (\<lambda>q. q\<lparr>b_prev := b\<rparr>) s
      in upd_buf bhead (\<lambda>q. q\<lparr>b_next := b\<rparr>) s)"

definition binit :: "kstate \<Rightarrow> kstate" where
  "binit s =
     (let s = s\<lparr>hw := initlock Bcache_lock (hw s)\<rparr>;
          s = upd_buf bhead (\<lambda>q. q\<lparr>b_prev := bhead\<rparr>) s;
          s = upd_buf bhead (\<lambda>q. q\<lparr>b_next := bhead\<rparr>) s
      in fold binit_one [0..<NBUF] s)"

fun bscan :: "(buf \<Rightarrow> nat) \<Rightarrow> (buf \<Rightarrow> bool) \<Rightarrow> nat \<Rightarrow> nat \<Rightarrow> buf list \<Rightarrow> nat option option" where
  "bscan link found 0 b bs = None"
| "bscan link found (Suc n) b bs =
     (if b = bhead then Some None
      else if found (bs ! b) then Some (Some b)
      else bscan link found n (link (bs ! b)) bs)"

definition bfind :: "(buf \<Rightarrow> nat) \<Rightarrow> (buf \<Rightarrow> bool) \<Rightarrow> kstate \<Rightarrow> nat option option" where
  "bfind link found s = bscan link found (length (bcache s)) (link (bcache s ! bhead)) (bcache s)"

definition bget :: "u32 \<Rightarrow> u32 \<Rightarrow> kstate \<Rightarrow> (kstate, nat) outcome" where
  "bget dev blockno s =
     bnd (kacquire Bcache_lock s) (\<lambda>_ s.
     case bfind b_next (\<lambda>b. b_dev b = dev \<and> b_blockno b = blockno) s of
       None \<Rightarrow> Spin
     | Some (Some b) \<Rightarrow>
         let s = upd_buf b (\<lambda>q. q\<lparr>b_refcnt := b_refcnt q + 1\<rparr>) s in
         bnd (krelease Bcache_lock s) (\<lambda>_ s.
         bnd (acquiresleep (Buf_sleeplock b) s) (\<lambda>_ s. Ret b s))
     | Some None \<Rightarrow>
        (case bfind b_prev (\<lambda>b. b_refcnt b = 0 \<and> \<not> b_dirty b) s of
           None \<Rightarrow> Spin
         | Some (Some b) \<Rightarrow>
             let s = upd_buf b (\<lambda>q. q\<lparr>b_dev := dev, b_blockno := blockno, b_valid := False, b_dirty := False,
                                    b_refcnt := 1\<rparr>) s in
             bnd (krelease Bcache_lock s) (\<lambda>_ s.
             bnd (acquiresleep (Buf_sleeplock b) s) (\<lambda>_ s. Ret b s))
         | Some None \<Rightarrow> Panic ''bget: no buffers''))"

definition bread :: "u32 \<Rightarrow> u32 \<Rightarrow> kstate \<Rightarrow> (kstate, nat) outcome" where
  "bread dev blockno s =
     bnd (bget dev blockno s) (\<lambda>b s.
     if \<not> b_valid (bcache s ! b) then bnd (iderw b s) (\<lambda>_ s. Ret b s) else Ret b s)"

definition bwrite :: "nat \<Rightarrow> kstate \<Rightarrow> (kstate, unit) outcome" where
  "bwrite b s =
     bnd (holdingsleep (Buf_sleeplock b) s) (\<lambda>h s.
     if \<not> h then Panic ''bwrite''
     else iderw b (upd_buf b (\<lambda>q. q\<lparr>b_dirty := True\<rparr>) s))"

definition bmru :: "nat \<Rightarrow> kstate \<Rightarrow> kstate" where
  "bmru b s =
     (let s = upd_buf (b_next (bcache s ! b)) (\<lambda>q. q\<lparr>b_prev := b_prev (bcache s ! b)\<rparr>) s;
          s = upd_buf (b_prev (bcache s ! b)) (\<lambda>q. q\<lparr>b_next := b_next (bcache s ! b)\<rparr>) s;
          s = upd_buf b (\<lambda>q. q\<lparr>b_next := b_next (bcache s ! bhead)\<rparr>) s;
          s = upd_buf b (\<lambda>q. q\<lparr>b_prev := bhead\<rparr>) s;
          s = upd_buf (b_next (bcache s ! bhead)) (\<lambda>q. q\<lparr>b_prev := b\<rparr>) s
      in upd_buf bhead (\<lambda>q. q\<lparr>b_next := b\<rparr>) s)"

definition brelse :: "nat \<Rightarrow> kstate \<Rightarrow> (kstate, unit) outcome" where
  "brelse b s =
     bnd (holdingsleep (Buf_sleeplock b) s) (\<lambda>h s.
     if \<not> h then Panic ''brelse''
     else
       bnd (releasesleep (Buf_sleeplock b) s) (\<lambda>_ s.
       bnd (kacquire Bcache_lock s) (\<lambda>_ s.
       let s = upd_buf b (\<lambda>q. q\<lparr>b_refcnt := b_refcnt q - 1\<rparr>) s;
           s = (if b_refcnt (bcache s ! b) = 0 then bmru b s else s)
       in krelease Bcache_lock s)))"

section \<open>The ring of buffers\<close>

text \<open>
  The links of neighbours agree; the list runs from the most to the least recently
  used buffer, with the head on both sides.
\<close>

definition linked :: "buf list \<Rightarrow> nat \<Rightarrow> nat \<Rightarrow> bool" where
  "linked bs x y \<longleftrightarrow> b_next (bs ! x) = y \<and> b_prev (bs ! y) = x"

definition ring :: "buf list \<Rightarrow> nat list \<Rightarrow> bool" where
  "ring bs L \<longleftrightarrow> length bs = NBUF + 1 \<and> distinct L \<and> set L \<subseteq> {..<NBUF}
     \<and> successively (linked bs) (bhead # L @ [bhead])"

definition lupd :: "buf list \<Rightarrow> nat \<Rightarrow> (buf \<Rightarrow> buf) \<Rightarrow> buf list" where
  "lupd bs i f = bs[i := f (bs ! i)]"

definition unlink :: "nat \<Rightarrow> buf list \<Rightarrow> buf list" where
  "unlink b bs =
     (let bs = lupd bs (b_next (bs ! b)) (\<lambda>q. q\<lparr>b_prev := b_prev (bs ! b)\<rparr>)
      in lupd bs (b_prev (bs ! b)) (\<lambda>q. q\<lparr>b_next := b_next (bs ! b)\<rparr>))"

definition link_front :: "nat \<Rightarrow> buf list \<Rightarrow> buf list" where
  "link_front b bs =
     (let bs = lupd bs b (\<lambda>q. q\<lparr>b_next := b_next (bs ! bhead)\<rparr>);
          bs = lupd bs b (\<lambda>q. q\<lparr>b_prev := bhead\<rparr>);
          bs = lupd bs (b_next (bs ! bhead)) (\<lambda>q. q\<lparr>b_prev := b\<rparr>)
      in lupd bs bhead (\<lambda>q. q\<lparr>b_next := b\<rparr>))"

lemma lupd_sel [simp]: "length (lupd bs i f) = length bs"
  "i < length bs \<Longrightarrow> lupd bs i f ! i = f (bs ! i)" "j \<noteq> i \<Longrightarrow> lupd bs i f ! j = bs ! j"
  by (simp_all add: lupd_def)

lemma nth_lupd: "i < length bs \<Longrightarrow> lupd bs i f ! j = (if j = i then f (bs ! i) else bs ! j)"
  by simp

lemma bmru_eq: "bmru b s = s\<lparr>bcache := link_front b (unlink b (bcache s))\<rparr>"
  by (simp add: bmru_def link_front_def unlink_def Let_def upd_buf_def lupd_def)

lemma successively_replace:
  assumes "successively P xs" "distinct xs"
    "\<And>x y. x \<in> set xs \<Longrightarrow> y \<in> set xs \<Longrightarrow> x \<noteq> last xs \<Longrightarrow> y \<noteq> hd xs \<Longrightarrow> P x y \<Longrightarrow> Q x y"
  shows "successively Q xs"
proof -
  have "Q (xs ! i) (xs ! Suc i)" if "Suc i < length xs" for i
  proof (rule assms(3))
    have "xs \<noteq> []" using that by auto
    show "xs ! i \<noteq> last xs" "xs ! Suc i \<noteq> hd xs"
      using that assms(2) \<open>xs \<noteq> []\<close> by (simp_all add: last_conv_nth hd_conv_nth nth_eq_iff_index_eq)
    show "P (xs ! i) (xs ! Suc i)" using assms(1) that by (simp add: successively_conv_nth)
  qed (use that in auto)
  then show ?thesis by (simp add: successively_conv_nth)
qed

lemma ring_split:
  assumes "ring bs (xs @ b # ys)"
  shows "successively (linked bs) (bhead # xs)" "linked bs (last (bhead # xs)) b" "linked bs b (hd (ys @ [bhead]))"
    "successively (linked bs) (ys @ [bhead])"
proof -
  have "successively (linked bs) ((bhead # xs) @ [b] @ ys @ [bhead])" using assms by (simp add: ring_def)
  then show "successively (linked bs) (bhead # xs)" "linked bs (last (bhead # xs)) b" "linked bs b (hd (ys @ [bhead]))"
    "successively (linked bs) (ys @ [bhead])"
    unfolding successively_append_iff by auto
qed

lemma ring_unlink:
  assumes "ring bs (xs @ b # ys)"
  shows "ring (unlink b bs) (xs @ ys)"
proof -
  define p where "p = last (bhead # xs)"
  define n where "n = hd (ys @ [bhead])"
  note sp = ring_split [OF assms, folded p_def n_def]
  have len: "length bs = 31" and d: "distinct (xs @ b # ys)" and sub: "set (xs @ b # ys) \<subseteq> {..<30}"
    using assms by (auto simp: ring_def)
  have b: "b_prev (bs ! b) = p" "b_next (bs ! b) = n" using sp(2,3) by (simp_all add: linked_def)
  have "p = 30 \<or> p \<in> set xs" by (cases "xs = []") (simp_all add: p_def)
  then have p: "p < 31" "p \<noteq> b" "p \<notin> set ys" using d sub by auto
  have "n = 30 \<or> n \<in> set ys" by (cases ys) (simp_all add: n_def)
  then have n: "n < 31" "n \<noteq> b" "n \<notin> set xs" using d sub by auto
  let ?bs = "lupd (lupd bs n (\<lambda>q. q\<lparr>b_prev := p\<rparr>)) p (\<lambda>q. q\<lparr>b_next := n\<rparr>)"
  have eq: "unlink b bs = ?bs" using n by (simp add: unlink_def b Let_def)
  have keep: "linked ?bs x y" if "linked bs x y" "x \<noteq> p" "y \<noteq> n" for x y
    using that n p len by (auto simp: linked_def nth_lupd)
  have "successively (linked ?bs) (bhead # xs)"
    by (rule successively_replace [OF sp(1)], use d sub in force, rule keep)
      (use n in \<open>auto simp: p_def\<close>)
  moreover have "successively (linked ?bs) (ys @ [bhead])"
    by (rule successively_replace [OF sp(4)], use d sub in force, rule keep)
      (use p sub in \<open>auto simp: n_def\<close>)
  moreover have "linked ?bs p n" using len n p by (simp add: linked_def nth_lupd)
  ultimately have "successively (linked ?bs) ((bhead # xs) @ ys @ [bhead])"
    unfolding successively_append_iff p_def n_def by auto
  then show ?thesis using len d sub unfolding eq ring_def by auto
qed

lemma ring_link_front:
  assumes "ring bs L" "b < 30" "b \<notin> set L"
  shows "ring (link_front b bs) (b # L)"
proof -
  let ?f = "hd (L @ [bhead])"
  have len: "length bs = 31" and d: "distinct L" and sub: "set L \<subseteq> {..<30}"
    and suc: "successively (linked bs) ([bhead] @ L @ [bhead])"
    using assms by (auto simp: ring_def)
  have f: "b_next (bs ! bhead) = ?f" and rest: "successively (linked bs) (L @ [bhead])"
    using suc unfolding successively_append_iff by (auto simp: linked_def)
  have ff: "?f < 31" "?f \<noteq> b" using assms(2,3) sub by (cases L; auto)+
  let ?bs = "lupd (lupd (lupd (lupd bs b (\<lambda>q. q\<lparr>b_next := ?f\<rparr>)) b (\<lambda>q. q\<lparr>b_prev := bhead\<rparr>)) ?f (\<lambda>q. q\<lparr>b_prev := b\<rparr>)) bhead (\<lambda>q. q\<lparr>b_next := b\<rparr>)"
  have eq: "link_front b bs = ?bs" using assms(2) len by (simp add: link_front_def Let_def f nth_lupd)
  have "successively (linked ?bs) (L @ [bhead])"
    by (rule successively_replace [OF rest]) (use d sub ff len assms(2,3) in \<open>auto simp: linked_def nth_lupd\<close>)
  moreover have "linked ?bs bhead b" "linked ?bs b ?f"
    using len ff assms(2) by (auto simp: linked_def nth_lupd)
  ultimately have "successively (linked ?bs) ([bhead] @ [b] @ L @ [bhead])"
    unfolding successively_append_iff by auto
  then show ?thesis using len d sub assms(2,3) unfolding eq ring_def by auto
qed

lemma ring_bmru:
  assumes "ring (bcache s) (xs @ b # ys)"
  shows "ring (bcache (bmru b s)) (b # xs @ ys)"
  using ring_link_front [OF ring_unlink [OF assms]] assms by (auto simp: bmru_eq ring_def)

text \<open>The searches look at the buffers in the order of the ring.\<close>

lemma bscan_chain:
  assumes "successively (\<lambda>x y. link (bs ! x) = y) (x # xs @ [bhead])" "bhead \<notin> set xs" "length xs < n"
  shows "bscan link f n (link (bs ! x)) bs = Some (find (\<lambda>i. f (bs ! i)) xs)"
  using assms
proof (induction xs arbitrary: x n)
  case Nil
  then show ?case by (cases n) auto
next
  case (Cons y ys)
  then obtain m where m: "n = Suc m" by (cases n) auto
  have "link (bs ! x) = y" "successively (\<lambda>x y. link (bs ! x) = y) (y # ys @ [bhead])"
    using Cons.prems(1) by (simp_all add: successively_Cons)
  then show ?case using Cons.IH [of y m] Cons.prems m by simp
qed

lemma ring_length: "ring bs L \<Longrightarrow> length L \<le> NBUF"
proof -
  assume *: "ring bs L"
  then have "card (set L) \<le> card {..<NBUF}" by (intro card_mono) (auto simp: ring_def)
  with * show ?thesis by (simp add: ring_def distinct_card)
qed

lemma bfind_next:
  assumes "ring (bcache s) L"
  shows "bfind b_next f s = Some (find (\<lambda>i. f (bcache s ! i)) L)"
proof -
  have "successively (\<lambda>x y. b_next (bcache s ! x) = y) (bhead # L @ [bhead])"
    using assms by (auto simp: ring_def linked_def elim: successively_mono)
  then show ?thesis
    unfolding bfind_def using assms ring_length [OF assms] by (intro bscan_chain) (auto simp: ring_def)
qed

lemma bfind_prev:
  assumes "ring (bcache s) L"
  shows "bfind b_prev f s = Some (find (\<lambda>i. f (bcache s ! i)) (rev L))"
proof -
  have "successively (\<lambda>x y. linked (bcache s) y x) (rev (bhead # L @ [bhead]))"
    using assms by (subst successively_rev) (simp add: ring_def)
  then have "successively (\<lambda>x y. b_prev (bcache s ! x) = y) (bhead # rev L @ [bhead])"
    by (auto simp: linked_def elim: successively_mono)
  then show ?thesis
    unfolding bfind_def using assms ring_length [OF assms] by (intro bscan_chain) (auto simp: ring_def)
qed

text \<open>The ring only depends on the links.\<close>

lemma ring_cong:
  assumes "ring bs L" "length cs = length bs" "\<And>i. i < length bs \<Longrightarrow> b_next (cs ! i) = b_next (bs ! i) \<and> b_prev (cs ! i) = b_prev (bs ! i)"
  shows "ring cs L"
proof -
  have suc: "successively (linked bs) (bhead # L @ [bhead])" and len: "length bs = 31" and sub: "set L \<subseteq> {..<30}"
    using assms(1) by (auto simp: ring_def)
  have "successively (linked cs) (bhead # L @ [bhead])"
  proof (rule successively_mono [OF suc])
    fix x y assume *: "x \<in> set (bhead # L @ [bhead])" "y \<in> set (bhead # L @ [bhead])" "linked bs x y"
    then have "x < length bs" "y < length bs" using sub len by auto
    then show "linked cs x y" using assms(3) *(3) by (simp add: linked_def)
  qed
  then show ?thesis using assms by (simp add: ring_def)
qed

end
