(* ===== verification/Block_Cache.thy ===== *)
theory Block_Cache
  imports Xv6_Prelude
begin

text \<open>
  The contract between a cache of disk blocks and its clients. The cache is seen
  as four things: the content of every block, what the disk holds, the writes the
  disk has performed, and the blocks that are pinned because they differ from the
  disk. A client reads a block into a buffer it then holds, changes it, writes it
  and gives it back; a set keeps track of the buffers it holds.
\<close>

record cache_view =
  cv_view :: "u32 \<Rightarrow> u8 list"
  cv_disk :: "u32 \<Rightarrow> u8 list"
  cv_writes :: "(u32 \<times> u8 list) list"
  cv_dirty :: "u32 set"

text \<open>The block that a buffer holds, its content and whether it is pinned.\<close>

record buf_view =
  bv_blockno :: u32
  bv_data :: "u8 list"
  bv_dirty :: bool

text \<open>Giving a block new content and writing it through.\<close>

definition cv_put :: "u32 \<Rightarrow> u8 list \<Rightarrow> cache_view \<Rightarrow> cache_view" where
  "cv_put x d c = c\<lparr>cv_view := (cv_view c)(x := d), cv_disk := (cv_disk c)(x := d),
     cv_writes := cv_writes c @ [(x, d)], cv_dirty := cv_dirty c - {x}\<rparr>"

lemma cv_put_sel [simp]: "cv_view (cv_put x d c) = (cv_view c)(x := d)" "cv_disk (cv_put x d c) = (cv_disk c)(x := d)"
  "cv_writes (cv_put x d c) = cv_writes c @ [(x, d)]" "cv_dirty (cv_put x d c) = cv_dirty c - {x}"
  by (simp_all add: cv_put_def)

locale block_cache =
  fixes inv :: "'s \<Rightarrow> nat set \<Rightarrow> bool"
    and cv :: "'s \<Rightarrow> cache_view"
    and bv :: "'s \<Rightarrow> nat \<Rightarrow> buf_view"
    and nblocks :: "'s \<Rightarrow> nat"
    and capacity :: nat
    and rest :: "'s \<Rightarrow> 's \<Rightarrow> bool"
    and rd :: "u32 \<Rightarrow> 's \<Rightarrow> ('s, nat) outcome"
    and wr :: "nat \<Rightarrow> 's \<Rightarrow> ('s, unit) outcome"
    and rel :: "nat \<Rightarrow> 's \<Rightarrow> ('s, unit) outcome"
    and put :: "nat \<Rightarrow> u8 list \<Rightarrow> 's \<Rightarrow> 's"
  assumes rest_refl: "rest s s"
    and rest_trans: "rest s t \<Longrightarrow> rest t u \<Longrightarrow> rest s u"
    and rest_nblocks: "rest s t \<Longrightarrow> nblocks t = nblocks s"
    and held_finite: "inv s H \<Longrightarrow> finite H"
    and held_dirty: "inv s H \<Longrightarrow> b \<in> H \<Longrightarrow> bv_dirty (bv s b) \<longleftrightarrow> bv_blockno (bv s b) \<in> cv_dirty (cv s)"
    and clean_view: "inv s H \<Longrightarrow> \<forall>b\<in>H. bv_blockno (bv s b) \<noteq> x \<Longrightarrow> x \<notin> cv_dirty (cv s) \<Longrightarrow> cv_view (cv s) x = cv_disk (cv s) x"
    and rd_law: "inv s H \<Longrightarrow> unat x < nblocks s \<Longrightarrow> \<forall>b\<in>H. bv_blockno (bv s b) \<noteq> x \<Longrightarrow>
      x \<in> cv_dirty (cv s) \<or> card (cv_dirty (cv s)) + card H < capacity \<Longrightarrow>
      returns (rd x s) (\<lambda>b t. b \<notin> H \<and> inv t (insert b H) \<and> bv_blockno (bv t b) = x \<and> bv_data (bv t b) = cv_view (cv s) x
        \<and> cv t = cv s \<and> (\<forall>c\<in>H. bv t c = bv s c) \<and> rest s t)"
    and wr_law: "inv s H \<Longrightarrow> b \<in> H \<Longrightarrow>
      returns (wr b s) (\<lambda>_ t. inv t H
        \<and> cv t = (cv s)\<lparr>cv_disk := (cv_disk (cv s))(bv_blockno (bv s b) := bv_data (bv s b)),
             cv_writes := cv_writes (cv s) @ [(bv_blockno (bv s b), bv_data (bv s b))],
             cv_dirty := cv_dirty (cv s) - {bv_blockno (bv s b)}\<rparr>
        \<and> bv t b = (bv s b)\<lparr>bv_dirty := False\<rparr> \<and> (\<forall>c. c \<noteq> b \<longrightarrow> bv t c = bv s c) \<and> rest s t)"
    and rel_law: "inv s H \<Longrightarrow> b \<in> H \<Longrightarrow>
      bv_dirty (bv s b) \<or> bv_data (bv s b) = cv_disk (cv s) (bv_blockno (bv s b)) \<Longrightarrow>
      returns (rel b s) (\<lambda>_ t. inv t (H - {b}) \<and> cv t = cv s \<and> (\<forall>c\<in>H - {b}. bv t c = bv s c) \<and> rest s t)"
    and put_law: "inv s H \<Longrightarrow> b \<in> H \<Longrightarrow> inv (put b d s) H
      \<and> cv (put b d s) = (cv s)\<lparr>cv_view := (cv_view (cv s))(bv_blockno (bv s b) := d)\<rparr>
      \<and> bv (put b d s) b = (bv s b)\<lparr>bv_data := d\<rparr> \<and> (\<forall>c. c \<noteq> b \<longrightarrow> bv (put b d s) c = bv s c) \<and> rest s (put b d s)"
begin

text \<open>Reading a block, changing it with \<open>f\<close>, writing it through and giving it back.\<close>

lemma rewrite_block:
  assumes inv: "inv s {}" and x: "unat x < nblocks s" "card (cv_dirty (cv s)) < capacity"
  shows "returns (bnd (rd x s) (\<lambda>b s. bnd (wr b (put b (f (bv_data (bv s b))) s)) (\<lambda>_ s. rel b s)))
    (\<lambda>_ t. inv t {} \<and> rest s t \<and> cv t = cv_put x (f (cv_view (cv s) x)) (cv s))"
proof -
  obtain b t where t: "rd x s = Ret b t" "inv t {b}" "bv_blockno (bv t b) = x" "bv_data (bv t b) = cv_view (cv s) x"
    "cv t = cv s" "rest s t"
    using rd_law [OF inv x(1)] x(2) by (auto elim!: returnsE)
  let ?u = "put b (f (bv_data (bv t b))) t"
  have u: "inv ?u {b}" "cv ?u = (cv s)\<lparr>cv_view := (cv_view (cv s))(x := f (cv_view (cv s) x))\<rparr>"
    "bv_blockno (bv ?u b) = x" "bv_data (bv ?u b) = f (cv_view (cv s) x)" "rest t ?u"
    using put_law [OF t(2), of b "f (bv_data (bv t b))"] t by simp_all
  obtain v where v: "wr b ?u = Ret () v" "inv v {b}" "bv v b = (bv ?u b)\<lparr>bv_dirty := False\<rparr>" "rest ?u v"
    "cv v = (cv ?u)\<lparr>cv_disk := (cv_disk (cv ?u))(x := f (cv_view (cv s) x)),
       cv_writes := cv_writes (cv ?u) @ [(x, f (cv_view (cv s) x))], cv_dirty := cv_dirty (cv ?u) - {x}\<rparr>"
    using wr_law [OF u(1), of b] u(3,4) by (auto elim!: returnsE)
  have "bv_data (bv v b) = cv_disk (cv v) (bv_blockno (bv v b))" using v u by simp
  then obtain w where w: "rel b v = Ret () w" "inv w {}" "cv w = cv v" "rest v w"
    using rel_law [OF v(2), of b] by (auto elim!: returnsE)
  have "rest s w" using t(6) u(5) v(4) w(4) rest_trans by blast
  then show ?thesis using t v w u by (simp add: cv_put_def)
qed

text \<open>
  Copying the block in a held buffer over the block in another, writing the copy
  through and giving both back.
\<close>

lemma copy_tail:
  assumes u: "inv u {d, l}" "d \<noteq> l" "bv_blockno (bv u d) = z" "bv_blockno (bv u l) = a" "bv_data (bv u l) = cv_view (cv u) a"
    and ne: "a \<noteq> z" and cl: "a \<in> cv_dirty (cv u) \<or> cv_view (cv u) a = cv_disk (cv u) a"
  shows "returns (bnd (wr d (put d (bv_data (bv u l)) u)) (\<lambda>_ s. bnd (rel l s) (\<lambda>_ s. rel d s)))
    (\<lambda>_ t. inv t {} \<and> rest u t \<and> cv t = cv_put z (cv_view (cv u) a) (cv u))"
proof -
  let ?c = "cv_view (cv u) a"
  let ?v = "put d ?c u"
  have v: "inv ?v {d, l}" "cv ?v = (cv u)\<lparr>cv_view := (cv_view (cv u))(z := ?c)\<rparr>"
    "bv_blockno (bv ?v d) = z" "bv_data (bv ?v d) = ?c" "bv ?v l = bv u l" "rest u ?v"
    using put_law [OF u(1), of d ?c] u by auto
  obtain w where w: "wr d ?v = Ret () w" "inv w {d, l}" "bv w d = (bv ?v d)\<lparr>bv_dirty := False\<rparr>" "bv w l = bv u l" "rest ?v w"
    "cv w = (cv ?v)\<lparr>cv_disk := (cv_disk (cv ?v))(z := ?c), cv_writes := cv_writes (cv ?v) @ [(z, ?c)], cv_dirty := cv_dirty (cv ?v) - {z}\<rparr>"
    using wr_law [OF v(1), of d] v u by (auto elim!: returnsE)
  have "bv_dirty (bv w l) \<or> bv_data (bv w l) = cv_disk (cv w) (bv_blockno (bv w l))"
    using held_dirty [OF w(2), of l] w(4,6) v(2) u(4,5) ne cl by auto
  then obtain x where x: "rel l w = Ret () x" "inv x {d}" "cv x = cv w" "bv x d = bv w d" "rest w x"
    using rel_law [OF w(2), of l] u(2) by (auto simp: insert_Diff_if elim!: returnsE)
  have "bv_data (bv x d) = cv_disk (cv x) (bv_blockno (bv x d))" using x w v by simp
  then obtain y where y: "rel d x = Ret () y" "inv y {}" "cv y = cv x" "rest x y"
    using rel_law [OF x(2), of d] by (auto elim!: returnsE)
  have "rest u y" using v(6) w(5) x(5) y(4) rest_trans by blast
  then show ?thesis using u(5) w(1) x(1) y x(3) w(6) v(2) by (simp add: cv_put_def)
qed

lemma read_two:
  assumes inv: "inv s {}" and a: "unat a < nblocks s" and z: "unat z < nblocks s" and ne: "a \<noteq> z"
    and room: "card (cv_dirty (cv s)) < capacity" "z \<in> cv_dirty (cv s) \<or> card (cv_dirty (cv s)) + 1 < capacity"
  obtains l t d u where "rd a s = Ret l t" "rest s t" "rd z t = Ret d u" "inv u {d, l}" "d \<noteq> l" "bv_blockno (bv u d) = z"
    "bv_data (bv u d) = cv_view (cv s) z" "bv_blockno (bv u l) = a" "bv_data (bv u l) = cv_view (cv s) a" "cv u = cv s" "rest t u"
proof -
  obtain l t where t: "rd a s = Ret l t" "inv t {l}" "bv_blockno (bv t l) = a" "bv_data (bv t l) = cv_view (cv s) a"
    "cv t = cv s" "rest s t"
    using rd_law [OF inv a] room(1) by (auto elim!: returnsE)
  have "unat z < nblocks t" using z rest_nblocks [OF t(6)] by simp
  then obtain d u where "rd z t = Ret d u" "inv u {d, l}" "d \<noteq> l" "bv_blockno (bv u d) = z" "bv_data (bv u d) = cv_view (cv s) z"
    "bv u l = bv t l" "cv u = cv s" "rest t u"
    using rd_law [OF t(2), of z] t ne room(2) by (auto elim!: returnsE)
  then show thesis using that t by metis
qed

lemma clean_or_dirty: "inv s {} \<Longrightarrow> x \<in> cv_dirty (cv s) \<or> cv_view (cv s) x = cv_disk (cv s) x"
  using clean_view [of s "{}"] by blast

end

end
