(* ===== verification/Bio_Props.thy ===== *)
theory Bio_Props
  imports Bio Block_Cache
begin

text \<open>
  The contract of the buffer cache: the invariant of its buffers, what
  \<open>bread\<close>, \<open>bwrite\<close> and \<open>brelse\<close> do to it when no other process
  competes, and the view of the disk that its clients see through it.
\<close>

section \<open>A process running alone\<close>

text \<open>
  No spin lock is taken and a process with the given identifier runs on the
  executing processor.
\<close>

definition quiet :: "kstate \<Rightarrow> int \<Rightarrow> bool" where
  "quiet s n \<longleftrightarrow> cpu_ok (hw s) \<and> (\<forall>l. locks (hw s) l = free_lock)
     \<and> (\<exists>i. cur (hw s) = Some i \<and> i < length (ptable s) \<and> pid (ptable s ! i) = n)"

lemma quiet_cong:
  "quiet s n \<Longrightarrow> hw t = hw s \<Longrightarrow> map pid (ptable t) = map pid (ptable s) \<Longrightarrow> quiet t n"
  unfolding quiet_def by (metis length_map nth_map)

lemma quiet_touch [simp]: "quiet s n \<Longrightarrow> quiet (s\<lparr>hw := touch (hw s)\<rparr>) n"
  by (auto simp: quiet_def)

lemma quiet_in_proc: "quiet s n \<Longrightarrow> \<exists>i. in_proc l s i \<and> pid (ptable s ! i) = n"
  by (auto simp: quiet_def in_proc_def)

lemma quiet_lock: "quiet s n \<Longrightarrow> cpu_ok (hw s) \<and> locks (hw s) l = free_lock"
  by (simp add: quiet_def)

lemma pids_wakeup1: "map pid (ptable (wakeup1 ch s)) = map pid (ptable s)"
  by (simp add: wakeup1_def comp_def if_distrib cong: if_cong)

lemma quiet_holdingsleep:
  "quiet s n \<Longrightarrow> holdingsleep l s = Ret (sl_locked (sleeplocks s l) \<and> sl_pid (sleeplocks s l) = n) (s\<lparr>hw := touch (hw s)\<rparr>)"
  using quiet_in_proc [of s n "Sleeplock_lk l"] holdingsleep_ok [of l s] by auto

lemma quiet_acquiresleep:
  "quiet s n \<Longrightarrow> \<not> sl_locked (sleeplocks s l) \<Longrightarrow>
   acquiresleep l s = Ret () (s\<lparr>sleeplocks := (sleeplocks s)(l := \<lparr>sl_locked = True, sl_pid = n\<rparr>), hw := touch (hw s)\<rparr>)"
  using quiet_in_proc [of s n "Sleeplock_lk l"] acquiresleep_free [of l s] by auto

lemma quiet_releasesleep:
  "quiet s n \<Longrightarrow> sl_pid (sleeplocks s l) = n \<Longrightarrow>
   releasesleep l s = Ret () (wakeup1 (Some (Chan_sleeplock l)) (s\<lparr>sleeplocks :=
     (sleeplocks s)(l := \<lparr>sl_locked = False, sl_pid = 0\<rparr>)\<rparr>)\<lparr>hw := touch (hw s)\<rparr>)"
  using quiet_in_proc [of s n "Sleeplock_lk l"] releasesleep_ok [of l s] by auto

section \<open>The invariant\<close>

definition buf_for :: "kstate \<Rightarrow> u32 \<Rightarrow> nat \<Rightarrow> bool" where
  "buf_for s bn b \<longleftrightarrow> b < NBUF \<and> b_dev (bcache s ! b) = 1 \<and> b_blockno (bcache s ! b) = bn"

text \<open>The content of a block as the clients of the cache see it.\<close>

definition lview :: "kstate \<Rightarrow> u32 \<Rightarrow> block" where
  "lview s bn = (case find (\<lambda>b. buf_for s bn b \<and> b_valid (bcache s ! b)) [0..<NBUF] of
     Some b \<Rightarrow> b_data (bcache s ! b) | None \<Rightarrow> memdisk s bn)"

text \<open>
  The process holds the buffers in \<open>H\<close>; all others are idle. No two buffers cache
  the same block, a buffer that is idle and clean agrees with the disk, and what is
  dirty is the valid content of a block of the disk.
\<close>

definition idle_buf :: "kstate \<Rightarrow> nat \<Rightarrow> bool" where
  "idle_buf s b \<longleftrightarrow> b_refcnt (bcache s ! b) = 0 \<and> \<not> sl_locked (sleeplocks s (Buf_sleeplock b))
     \<and> (b_valid (bcache s ! b) \<and> b_dev (bcache s ! b) = 1 \<and> \<not> b_dirty (bcache s ! b)
        \<longrightarrow> b_data (bcache s ! b) = memdisk s (b_blockno (bcache s ! b)))"

definition held_buf :: "kstate \<Rightarrow> int \<Rightarrow> nat \<Rightarrow> bool" where
  "held_buf s n b \<longleftrightarrow> b < NBUF \<and> b_refcnt (bcache s ! b) = 1 \<and> b_valid (bcache s ! b) \<and> b_dev (bcache s ! b) = 1
     \<and> sleeplocks s (Buf_sleeplock b) = \<lparr>sl_locked = True, sl_pid = n\<rparr>
     \<and> unat (b_blockno (bcache s ! b)) < disksize s"

definition bio_inv :: "kstate \<Rightarrow> int \<Rightarrow> nat set \<Rightarrow> bool" where
  "bio_inv s n H \<longleftrightarrow> quiet s n \<and> (\<exists>L. ring (bcache s) L \<and> set L = {..<NBUF})
     \<and> (\<forall>bn b c. buf_for s bn b \<longrightarrow> buf_for s bn c \<longrightarrow> b = c)
     \<and> (\<forall>b\<in>H. held_buf s n b) \<and> (\<forall>b<NBUF. b \<notin> H \<longrightarrow> idle_buf s b)
     \<and> (\<forall>b<NBUF. b_dirty (bcache s ! b) \<longrightarrow> b_valid (bcache s ! b) \<and> b_dev (bcache s ! b) = 1)"

lemma lview_cached:
  assumes "bio_inv s n H" "buf_for s bn b" "b_valid (bcache s ! b)"
  shows "lview s bn = b_data (bcache s ! b)"
proof -
  have "find (\<lambda>b. buf_for s bn b \<and> b_valid (bcache s ! b)) [0..<NBUF] \<noteq> None"
    using assms(2,3) by (auto simp: find_None_iff buf_for_def)
  then obtain c where c: "find (\<lambda>b. buf_for s bn b \<and> b_valid (bcache s ! b)) [0..<NBUF] = Some c" by auto
  then have "buf_for s bn c" by (auto simp: find_Some_iff)
  then have "c = b" using assms(1,2) by (auto simp: bio_inv_def)
  then show ?thesis using c by (simp add: lview_def)
qed

lemma lview_uncached:
  "(\<And>b. buf_for s bn b \<Longrightarrow> \<not> b_valid (bcache s ! b)) \<Longrightarrow> lview s bn = memdisk s bn"
  by (auto simp: lview_def find_Some_iff split: option.split)

text \<open>The part of a buffer that is not its place in the ring.\<close>

definition core :: "buf \<Rightarrow> buf" where
  "core b = b\<lparr>b_prev := 0, b_next := 0\<rparr>"

lemma core_eq: "core b = core c \<longleftrightarrow> b_valid b = b_valid c \<and> b_dirty b = b_dirty c \<and> b_dev b = b_dev c
    \<and> b_blockno b = b_blockno c \<and> b_refcnt b = b_refcnt c \<and> b_data b = b_data c"
  by (cases b; cases c) (auto simp: core_def)

text \<open>Everything else in the kernel.\<close>

definition bio_rest :: "kstate \<Rightarrow> kstate \<Rightarrow> bool" where
  "bio_rest s t \<longleftrightarrow> (\<exists>h pt sl bc md dw. t = s\<lparr>hw := h, ptable := pt, sleeplocks := sl, bcache := bc, memdisk := md,
     disk_writes := dw\<rparr> \<and> map pid pt = map pid (ptable s) \<and> (\<forall>k. sl (Inode_sleeplock k) = sleeplocks s (Inode_sleeplock k)))"


lemma bio_rest_refl [simp]: "bio_rest s s"
  unfolding bio_rest_def by (intro exI [of _ "hw s"] exI [of _ "ptable s"] exI [of _ "sleeplocks s"]
      exI [of _ "bcache s"] exI [of _ "memdisk s"] exI [of _ "disk_writes s"]) simp

lemma bio_rest_trans: "bio_rest s t \<Longrightarrow> bio_rest t u \<Longrightarrow> bio_rest s u"
  unfolding bio_rest_def by (elim exE conjE) (simp, blast)

lemma bio_rest_sel:
  assumes "bio_rest s t"
  shows "disksize t = disksize s" "log t = log s" "sb t = sb s" "icache t = icache s" "ftable t = ftable s"
    "mem t = mem s" "map pid (ptable t) = map pid (ptable s)"
    "sleeplocks t (Inode_sleeplock k) = sleeplocks s (Inode_sleeplock k)"
  using assms by (auto simp: bio_rest_def)

section \<open>Changing one buffer\<close>

lemma bio_inv_change:
  assumes inv: "bio_inv s n H" and q: "quiet t n" "\<exists>L. ring (bcache t) L \<and> set L = {..<NBUF}"
    and others: "\<And>c. c < NBUF \<Longrightarrow> c \<noteq> b \<Longrightarrow> core (bcache t ! c) = core (bcache s ! c)
      \<and> sleeplocks t (Buf_sleeplock c) = sleeplocks s (Buf_sleeplock c)"
    and disk: "\<And>x. x \<noteq> b_blockno (bcache t ! b) \<Longrightarrow> memdisk t x = memdisk s x" "disksize t = disksize s"
    and uniq: "\<And>c. c \<noteq> b \<Longrightarrow> \<not> buf_for s (b_blockno (bcache t ! b)) c"
    and b: "b_dirty (bcache t ! b) \<longrightarrow> b_valid (bcache t ! b)" "b_dev (bcache t ! b) = 1"
      "if b \<in> H' then held_buf t n b else idle_buf t b"
    and H': "H' - {b} = H - {b}"
  shows "bio_inv t n H'"
proof -
  have o: "buf_for t x c = buf_for s x c" "b_valid (bcache t ! c) = b_valid (bcache s ! c)"
    "b_dirty (bcache t ! c) = b_dirty (bcache s ! c)" "b_dev (bcache t ! c) = b_dev (bcache s ! c)"
    "held_buf t n c = held_buf s n c" if "c < NBUF" "c \<noteq> b" for c x
    using others [OF that] disk(2) by (simp_all add: core_eq buf_for_def held_buf_def)
  have i: "idle_buf t c" if "c < NBUF" "c \<noteq> b" "idle_buf s c" for c
    using others [OF that(1,2)] that uniq [of c] disk(1) by (auto simp: core_eq idle_buf_def buf_for_def)
  have bf: "buf_for s x c \<Longrightarrow> c < NBUF" "buf_for t x c \<Longrightarrow> c < NBUF" for x c by (simp_all add: buf_for_def)
  have inv': "\<And>x c d. buf_for s x c \<Longrightarrow> buf_for s x d \<Longrightarrow> c = d" "\<And>c. c \<in> H \<Longrightarrow> held_buf s n c"
    "\<And>c. c < NBUF \<Longrightarrow> c \<notin> H \<Longrightarrow> idle_buf s c"
    "\<And>c. c < NBUF \<Longrightarrow> b_dirty (bcache s ! c) \<Longrightarrow> b_valid (bcache s ! c) \<and> b_dev (bcache s ! c) = 1"
    using inv by (auto simp: bio_inv_def)
  have one: "c = b" if "buf_for t x b" "buf_for t x c" for x c
    using that o(1) [of c x] bf(2) uniq [of c] by (auto simp: buf_for_def)
  have uq: "c = d" if "buf_for t x c" "buf_for t x d" for x c d
    using that one o(1) bf(2) inv'(1) by (metis (no_types))
  have hb: "held_buf s n c \<Longrightarrow> c < NBUF" for c by (simp add: held_buf_def)
  have "held_buf t n c" if "c \<in> H'" for c
    using that b(3) H' o(5) [of c] inv'(2) [of c] hb [of c] by (cases "c = b") auto
  moreover have "idle_buf t c" if "c < NBUF" "c \<notin> H'" for c
    using that b(3) H' i [of c] inv'(3) [of c] by (cases "c = b") auto
  moreover have "b_dirty (bcache t ! c) \<longrightarrow> b_valid (bcache t ! c) \<and> b_dev (bcache t ! c) = 1" if "c < NBUF" for c
    using that b(1,2) o(2-4) [of c] inv'(4) [of c] by (cases "c = b") auto
  ultimately show ?thesis unfolding bio_inv_def using q uq by blast
qed

lemma lview_other:
  assumes s: "bio_inv s n H" and t: "bio_inv t m H'"
    and others: "\<And>c. c < NBUF \<Longrightarrow> c \<noteq> b \<Longrightarrow> core (bcache t ! c) = core (bcache s ! c)"
    and x: "x \<noteq> b_blockno (bcache t ! b)" "memdisk t x = memdisk s x"
    and old: "buf_for s x b \<Longrightarrow> b_valid (bcache s ! b) \<Longrightarrow> b_data (bcache s ! b) = memdisk s x"
  shows "lview t x = lview s x"
proof -
  have o: "buf_for t x c = buf_for s x c \<and> b_valid (bcache t ! c) = b_valid (bcache s ! c)
      \<and> b_data (bcache t ! c) = b_data (bcache s ! c)" if "c < NBUF" "c \<noteq> b" for c
    using others [OF that] by (simp add: core_eq buf_for_def)
  have bf: "buf_for u x c \<Longrightarrow> c < NBUF" for u c by (simp add: buf_for_def)
  have nb: "\<not> buf_for t x b" using x(1) by (simp add: buf_for_def)
  show ?thesis
  proof (cases "\<exists>c. c \<noteq> b \<and> buf_for s x c \<and> b_valid (bcache s ! c)")
    case True
    then obtain c where c: "c \<noteq> b" "buf_for s x c" "b_valid (bcache s ! c)" by auto
    then show ?thesis using o [OF bf [OF c(2)] c(1)] lview_cached [OF s c(2,3)] lview_cached [OF t, of x c] by simp
  next
    case False
    then have "lview t x = memdisk t x" using o bf nb by (intro lview_uncached) metis
    moreover have "lview s x = memdisk s x"
      using False old lview_cached [OF s, of x b] lview_uncached [of s x] by metis
    ultimately show ?thesis using x(2) by simp
  qed
qed

definition dirty_blocks :: "kstate \<Rightarrow> u32 set" where
  "dirty_blocks s = {bn. \<exists>b. buf_for s bn b \<and> b_dirty (bcache s ! b)}"

lemma dirty_blocks_image:
  assumes "bio_inv s n H"
  shows "dirty_blocks s = (\<lambda>b. b_blockno (bcache s ! b)) ` {b. b < NBUF \<and> b_dirty (bcache s ! b)}"
    and "inj_on (\<lambda>b. b_blockno (bcache s ! b)) {b. b < NBUF \<and> b_dirty (bcache s ! b)}"
  using assms by (auto simp: dirty_blocks_def buf_for_def bio_inv_def inj_on_def)

lemma finite_dirty: "bio_inv s n H \<Longrightarrow> finite (dirty_blocks s)"
  by (simp add: dirty_blocks_image)

text \<open>There is a buffer to recycle as long as held and dirty buffers do not fill the cache.\<close>

lemma spare_buf:
  assumes "bio_inv s n H" "card (dirty_blocks s) + card H < NBUF"
  shows "\<exists>c<NBUF. c \<notin> H \<and> \<not> b_dirty (bcache s ! c)"
proof (rule ccontr)
  let ?D = "{b. b < NBUF \<and> b_dirty (bcache s ! b)}"
  assume "\<not> ?thesis"
  then have "{..<NBUF} \<subseteq> ?D \<union> H" by auto
  moreover have fH: "finite H" using assms(1) by (intro finite_subset [of H "{..<NBUF}"]) (auto simp: bio_inv_def held_buf_def)
  ultimately have "NBUF \<le> card (?D \<union> H)" using card_mono [of "?D \<union> H" "{..<NBUF}"] by simp
  also have "\<dots> \<le> card ?D + card H" by (rule card_Un_le)
  also have "card ?D = card (dirty_blocks s)"
    using dirty_blocks_image [OF assms(1)] by (simp add: card_image)
  finally show False using assms(2) by simp
qed

text \<open>What no caller of the cache can tell apart.\<close>

definition bio_same :: "nat set \<Rightarrow> kstate \<Rightarrow> kstate \<Rightarrow> bool" where
  "bio_same H s t \<longleftrightarrow> lview t = lview s \<and> memdisk t = memdisk s \<and> disk_writes t = disk_writes s
     \<and> dirty_blocks t = dirty_blocks s \<and> bio_rest s t \<and> (\<forall>c\<in>H. core (bcache t ! c) = core (bcache s ! c))"

lemma bio_same_trans: "bio_same H s t \<Longrightarrow> bio_same H t u \<Longrightarrow> bio_same H s u"
  by (auto simp: bio_same_def intro: bio_rest_trans)

lemma bio_same_mono: "bio_same H s t \<Longrightarrow> H' \<subseteq> H \<Longrightarrow> bio_same H' s t"
  by (auto simp: bio_same_def)

lemma dirty_other:
  assumes "\<And>c. c < NBUF \<Longrightarrow> c \<noteq> b \<Longrightarrow> core (bcache t ! c) = core (bcache s ! c)"
    "b_dirty (bcache s ! b) = b_dirty (bcache t ! b)"
    "b_dirty (bcache t ! b) \<Longrightarrow> b_dev (bcache s ! b) = b_dev (bcache t ! b) \<and> b_blockno (bcache s ! b) = b_blockno (bcache t ! b)"
  shows "dirty_blocks t = dirty_blocks s"
proof -
  have "buf_for t x c \<and> b_dirty (bcache t ! c) \<longleftrightarrow> buf_for s x c \<and> b_dirty (bcache s ! c)" for x c
    using assms(1) [of c] assms(2,3) by (cases "c = b") (auto simp: buf_for_def core_eq)
  then show ?thesis by (simp add: dirty_blocks_def)
qed

section \<open>The operations\<close>

lemma quietD: "quiet s n \<Longrightarrow> cpu_ok (hw s)" "quiet s n \<Longrightarrow> locks (hw s) l = free_lock"
  by (simp_all add: quiet_def)

lemma touch_lock: "cpu_ok h \<Longrightarrow> locks (touch h) l = locks h l" "cpu_ok h \<Longrightarrow> cpu_ok (touch h)"
  by simp_all

lemma bget_cached:
  assumes "quiet s n" "ring (bcache s) L" "find (\<lambda>i. b_dev (bcache s ! i) = dev \<and> b_blockno (bcache s ! i) = bn) L = Some b"
    "\<not> sl_locked (sleeplocks s (Buf_sleeplock b))"
  shows "bget dev bn s = Ret b (s\<lparr>bcache := lupd (bcache s) b (\<lambda>q. q\<lparr>b_refcnt := b_refcnt q + 1\<rparr>),
    sleeplocks := (sleeplocks s)(Buf_sleeplock b := \<lparr>sl_locked = True, sl_pid = n\<rparr>), hw := touch (hw s)\<rparr>)"
proof -
  let ?u = "s\<lparr>bcache := lupd (bcache s) b (\<lambda>q. q\<lparr>b_refcnt := b_refcnt q + 1\<rparr>), hw := touch (hw s)\<rparr>"
  have q: "quiet ?u n" using quiet_touch [OF assms(1)] by (rule quiet_cong) simp_all
  show ?thesis
    using assms(2-) bfind_next [of "s\<lparr>hw := lock_in Bcache_lock (hw s)\<rparr>" L] quietD [OF assms(1)]
      quiet_acquiresleep [OF q, of "Buf_sleeplock b"]
    by (simp add: bget_def lock_simps upd_buf_def lupd_def Let_def)
qed

lemma bget_recycles:
  assumes "quiet s n" "ring (bcache s) L" "find (\<lambda>i. b_dev (bcache s ! i) = dev \<and> b_blockno (bcache s ! i) = bn) L = None"
    "find (\<lambda>i. b_refcnt (bcache s ! i) = 0 \<and> \<not> b_dirty (bcache s ! i)) (rev L) = Some b"
    "\<not> sl_locked (sleeplocks s (Buf_sleeplock b))"
  shows "bget dev bn s = Ret b (s\<lparr>bcache := lupd (bcache s) b (\<lambda>q. q\<lparr>b_dev := dev, b_blockno := bn, b_valid := False,
      b_dirty := False, b_refcnt := 1\<rparr>),
    sleeplocks := (sleeplocks s)(Buf_sleeplock b := \<lparr>sl_locked = True, sl_pid = n\<rparr>), hw := touch (hw s)\<rparr>)"
proof -
  let ?u = "s\<lparr>bcache := lupd (bcache s) b (\<lambda>q. q\<lparr>b_dev := dev, b_blockno := bn, b_valid := False,
      b_dirty := False, b_refcnt := 1\<rparr>), hw := touch (hw s)\<rparr>"
  have q: "quiet ?u n" using quiet_touch [OF assms(1)] by (rule quiet_cong) simp_all
  show ?thesis
    using assms(2-) bfind_next [of "s\<lparr>hw := lock_in Bcache_lock (hw s)\<rparr>" L]
      bfind_prev [of "s\<lparr>hw := lock_in Bcache_lock (hw s)\<rparr>" L] quietD [OF assms(1)]
      quiet_acquiresleep [OF q, of "Buf_sleeplock b"]
    by (simp add: bget_def lock_simps upd_buf_def lupd_def Let_def)
qed

text \<open>A cache filled with dirty and referenced buffers has nothing to recycle.\<close>

lemma bget_full:
  assumes "quiet s n" "ring (bcache s) L" "find (\<lambda>i. b_dev (bcache s ! i) = dev \<and> b_blockno (bcache s ! i) = bn) L = None"
    "\<forall>i\<in>set L. b_refcnt (bcache s ! i) \<noteq> 0 \<or> b_dirty (bcache s ! i)"
  shows "bget dev bn s = Panic ''bget: no buffers''"
proof -
  have "find (\<lambda>i. b_refcnt (bcache s ! i) = 0 \<and> \<not> b_dirty (bcache s ! i)) (rev L) = None"
    using assms(4) by (auto simp: find_None_iff)
  then show ?thesis
    using assms(2,3) bfind_next [of "s\<lparr>hw := lock_in Bcache_lock (hw s)\<rparr>" L]
      bfind_prev [of "s\<lparr>hw := lock_in Bcache_lock (hw s)\<rparr>" L] quietD [OF assms(1)]
    by (simp add: bget_def lock_simps)
qed

lemma iderw_ok:
  assumes "quiet s n" "sleeplocks s (Buf_sleeplock b) = \<lparr>sl_locked = True, sl_pid = n\<rparr>" "b < length (bcache s)"
    "b_valid (bcache s ! b) \<longrightarrow> b_dirty (bcache s ! b)" "b_dev (bcache s ! b) = 1"
    "unat (b_blockno (bcache s ! b)) < disksize s"
  shows "iderw b s = Ret () (if b_dirty (bcache s ! b)
    then disk_put (b_blockno (bcache s ! b)) (b_data (bcache s ! b))
           (s\<lparr>bcache := lupd (bcache s) b (\<lambda>q. q\<lparr>b_dirty := False, b_valid := True\<rparr>), hw := touch (hw s)\<rparr>)
    else s\<lparr>bcache := lupd (bcache s) b (\<lambda>q. q\<lparr>b_data := memdisk s (b_blockno (bcache s ! b)), b_valid := True\<rparr>),
           hw := touch (hw s)\<rparr>)"
  using assms quiet_holdingsleep [OF assms(1), of "Buf_sleeplock b"]
  by (auto simp: iderw_def Let_def upd_buf_def lupd_def disk_put_def)

lemma ring_lupd:
  assumes "ring bs L" "b < NBUF" "\<And>q. b_next (f q) = b_next q \<and> b_prev (f q) = b_prev q"
  shows "ring (lupd bs b f) L"
proof (rule ring_cong [OF assms(1)])
  have "length bs = NBUF + 1" using assms(1) by (simp add: ring_def)
  then show "b_next (lupd bs b f ! i) = b_next (bs ! i) \<and> b_prev (lupd bs b f ! i) = b_prev (bs ! i)" for i
    using assms(2,3) by (simp add: nth_lupd)
qed simp

lemma bread_ok_aux:
  assumes inv: "bio_inv s n H" and bn: "unat bn < disksize s" and b: "b < NBUF" "b \<notin> H"
    and u: "u = s\<lparr>bcache := lupd (bcache s) b f, sleeplocks := (sleeplocks s)(Buf_sleeplock b := \<lparr>sl_locked = True, sl_pid = n\<rparr>),
        hw := touch (hw s)\<rparr>"
    and bg: "bget 1 bn s = Ret b u"
    and f: "\<And>q. b_next (f q) = b_next q \<and> b_prev (f q) = b_prev q"
      "b_dev (f (bcache s ! b)) = 1" "b_blockno (f (bcache s ! b)) = bn" "b_refcnt (f (bcache s ! b)) = 1"
      "b_dirty (f (bcache s ! b)) = b_dirty (bcache s ! b)" "b_dirty (f (bcache s ! b)) \<longrightarrow> b_valid (f (bcache s ! b))"
      "if b_valid (f (bcache s ! b)) then f (bcache s ! b) = (bcache s ! b)\<lparr>b_refcnt := 1\<rparr> else \<not> b_dirty (bcache s ! b)"
    and uniq: "\<And>c. c \<noteq> b \<Longrightarrow> \<not> buf_for s bn c"
    and fresh: "\<not> b_valid (f (bcache s ! b)) \<Longrightarrow> buf_for s bn b \<Longrightarrow> \<not> b_valid (bcache s ! b)"
  shows "returns (bread 1 bn s) (\<lambda>b t. b < NBUF \<and> b \<notin> H \<and> bio_inv t n (insert b H) \<and> b_blockno (bcache t ! b) = bn
     \<and> b_data (bcache t ! b) = lview s bn \<and> bio_same H s t)"
proof -
  have q: "quiet s n" and len: "length (bcache s) = 31" and idle: "idle_buf s b"
    using inv b by (auto simp: bio_inv_def ring_def)
  obtain L where L: "ring (bcache s) L" "set L = {..<NBUF}" using inv by (auto simp: bio_inv_def)
  define g where "g = (if b_valid (f (bcache s ! b)) then f else (\<lambda>q. (f q)\<lparr>b_data := memdisk s bn, b_valid := True\<rparr>))"
  define t where "t = s\<lparr>bcache := lupd (bcache s) b g, sleeplocks := (sleeplocks s)(Buf_sleeplock b := \<lparr>sl_locked = True, sl_pid = n\<rparr>),
        hw := touch (hw s)\<rparr>"
  have qu: "quiet u n" and qt: "quiet t n" using quiet_touch [OF q] by (rule quiet_cong, simp_all add: u t_def)+
  have bub: "bcache u ! b = f (bcache s ! b)" using b len by (simp add: u)
  have "bread 1 bn s = Ret b t"
  proof (cases "b_valid (f (bcache s ! b))")
    case True
    then show ?thesis using bub by (simp add: bread_def bg t_def g_def u)
  next
    case False
    then have "\<not> b_dirty (bcache u ! b)" using f(6) bub by simp
    then have "iderw b u = Ret () t"
      using iderw_ok [OF qu, of b] False f bub b len bn q by (simp add: t_def g_def u lupd_def quietD)
    then show ?thesis using False bub by (simp add: bread_def bg)
  qed
  moreover have btb: "bcache t ! b = g (bcache s ! b)" using b len by (simp add: t_def)
  have oth: "bcache t ! c = bcache s ! c" if "c \<noteq> b" for c using that by (simp add: t_def)
  have gv: "b_valid (g (bcache s ! b))" "b_dev (g (bcache s ! b)) = 1" "b_blockno (g (bcache s ! b)) = bn"
    "b_refcnt (g (bcache s ! b)) = 1" "b_dirty (g (bcache s ! b)) = b_dirty (bcache s ! b)" using f by (simp_all add: g_def)
  have rt: "ring (bcache t) L" using ring_lupd [OF L(1) b(1), of g] f(1) by (simp add: t_def g_def)
  have inv': "bio_inv t n (insert b H)"
    by (rule bio_inv_change [OF inv qt, where b = b])
      (use rt L(2) uniq btb gv b bn oth in \<open>auto simp: t_def held_buf_def\<close>)
  have dat: "b_data (g (bcache s ! b)) = lview s bn"
  proof (cases "b_valid (f (bcache s ! b))")
    case True
    then have eq: "f (bcache s ! b) = (bcache s ! b)\<lparr>b_refcnt := 1\<rparr>" using f(7) by simp
    then have "b_data (f (bcache s ! b)) = b_data (bcache s ! b)" "buf_for s bn b" "b_valid (bcache s ! b)"
      using f(2,3) True b by (auto simp: buf_for_def)
    then show ?thesis using True lview_cached [OF inv, of bn b] by (simp add: g_def)
  next
    case False
    then have "lview s bn = memdisk s bn" using uniq fresh by (intro lview_uncached) metis
    then show ?thesis using False by (simp add: g_def)
  qed
  have "lview t x = lview s x" for x
  proof (cases "x = bn")
    case True
    then show ?thesis using lview_cached [OF inv', of bn b] btb gv dat b by (simp add: buf_for_def)
  next
    case False
    have "\<not> b_dirty (bcache s ! b)" if "buf_for s x b"
      using that f False by (auto simp: buf_for_def split: if_splits)
    then show ?thesis
      by (intro lview_other [OF inv inv', of b]) (use oth btb gv False idle in \<open>auto simp: t_def idle_buf_def buf_for_def\<close>)
  qed
  moreover have "dirty_blocks t = dirty_blocks s"
    by (rule dirty_other [of b]) (use oth btb gv f(7) f(2,3) in \<open>auto split: if_splits\<close>)
  moreover have "bio_rest s t" unfolding bio_rest_def
    by (intro exI [of _ "hw t"] exI [of _ "ptable t"] exI [of _ "sleeplocks t"]
      exI [of _ "bcache t"] exI [of _ "memdisk t"] exI [of _ "disk_writes t"]) (simp add: t_def)
  moreover have "memdisk t = memdisk s" "disk_writes t = disk_writes s" by (simp_all add: t_def)
  moreover have "\<forall>c\<in>H. core (bcache t ! c) = core (bcache s ! c)" using b(2) oth by metis
  ultimately show ?thesis using b inv' gv btb dat by (auto simp: bio_same_def fun_eq_iff)
qed

lemma bread_ok:
  assumes inv: "bio_inv s n H" and bn: "unat bn < disksize s" "\<And>b. b \<in> H \<Longrightarrow> \<not> buf_for s bn b"
    and room: "bn \<in> dirty_blocks s \<or> card (dirty_blocks s) + card H < NBUF"
  shows "returns (bread 1 bn s) (\<lambda>b t. b < NBUF \<and> b \<notin> H \<and> bio_inv t n (insert b H) \<and> b_blockno (bcache t ! b) = bn
     \<and> b_data (bcache t ! b) = lview s bn \<and> bio_same H s t)"
proof -
  have q: "quiet s n" using inv by (simp add: bio_inv_def)
  have idle: "idle_buf s b" if "b < NBUF" "b \<notin> H" for b using inv that by (auto simp: bio_inv_def)
  have dv: "b_dirty (bcache s ! b) \<Longrightarrow> b_valid (bcache s ! b)" if "b < NBUF" for b using inv that by (auto simp: bio_inv_def)
  obtain L where L: "ring (bcache s) L" "set L = {..<NBUF}" using inv by (auto simp: bio_inv_def)
  show ?thesis
  proof (cases "find (\<lambda>i. b_dev (bcache s ! i) = 1 \<and> b_blockno (bcache s ! i) = bn) L")
    case (Some b)
    then have "b \<in> set L" "b_dev (bcache s ! b) = 1" "b_blockno (bcache s ! b) = bn" by (auto simp: find_Some_iff)
    then have b: "b < NBUF" "buf_for s bn b" using L(2) by (auto simp: buf_for_def)
    then have nH: "b \<notin> H" using bn(2) by blast
    then have i: "idle_buf s b" using idle b(1) by blast
    show ?thesis
      by (rule bread_ok_aux [OF inv bn(1) b(1) nH refl bget_cached [OF q L(1) Some]])
        (use i b inv dv [OF b(1)] in \<open>auto simp: idle_buf_def buf_for_def bio_inv_def\<close>)
  next
    case None
    then have no: "\<not> buf_for s bn c" for c using L(2) by (auto simp: find_None_iff buf_for_def)
    then have "card (dirty_blocks s) + card H < NBUF" using room by (auto simp: dirty_blocks_def)
    then obtain c where c: "c < NBUF" "c \<notin> H" "\<not> b_dirty (bcache s ! c)" using spare_buf [OF inv] by auto
    then have "b_refcnt (bcache s ! c) = 0" "c \<in> set (rev L)" using idle [of c] L(2) by (auto simp: idle_buf_def)
    then obtain b where b: "find (\<lambda>i. b_refcnt (bcache s ! i) = 0 \<and> \<not> b_dirty (bcache s ! i)) (rev L) = Some b"
      using c(3) by (cases "find (\<lambda>i. b_refcnt (bcache s ! i) = 0 \<and> \<not> b_dirty (bcache s ! i)) (rev L)") (auto simp: find_None_iff)
    then have b': "b_refcnt (bcache s ! b) = 0" "\<not> b_dirty (bcache s ! b)" "b < NBUF"
      using L(2) nth_mem [of _ "rev L"] by (auto simp: find_Some_iff)
    then have nH: "b \<notin> H" using inv by (auto simp: bio_inv_def held_buf_def)
    then have i: "idle_buf s b" using idle b'(3) by blast
    show ?thesis
      by (rule bread_ok_aux [OF inv bn(1) b'(3) nH refl bget_recycles [OF q L(1) None b]])
        (use i b' no in \<open>auto simp: idle_buf_def\<close>)
  qed
qed

text \<open>The holder of a buffer changes its data or marks it dirty.\<close>

lemma held_change:
  assumes inv: "bio_inv s n H" and b: "b \<in> H"
    and f: "\<And>q. b_next (f q) = b_next q \<and> b_prev (f q) = b_prev q \<and> b_valid (f q) = b_valid q \<and> b_dev (f q) = b_dev q
        \<and> b_blockno (f q) = b_blockno q \<and> b_refcnt (f q) = b_refcnt q"
    and t: "bcache t = lupd (bcache s) b f" "quiet t n" "sleeplocks t = sleeplocks s" "disksize t = disksize s"
      "\<And>x. x \<noteq> b_blockno (bcache s ! b) \<Longrightarrow> memdisk t x = memdisk s x"
  shows "bio_inv t n H" "lview t = (lview s)(b_blockno (bcache s ! b) := b_data (f (bcache s ! b)))"
    "dirty_blocks t = (if b_dirty (f (bcache s ! b)) then insert (b_blockno (bcache s ! b)) (dirty_blocks s)
       else dirty_blocks s - {b_blockno (bcache s ! b)})"
proof -
  let ?bn = "b_blockno (bcache s ! b)"
  have len: "length (bcache s) = 31" and h: "held_buf s n b" using inv b by (auto simp: bio_inv_def ring_def)
  then have bb: "b < NBUF" "b_dev (bcache s ! b) = 1" "b_valid (bcache s ! b)" "buf_for s ?bn b" by (simp_all add: held_buf_def buf_for_def)
  obtain L where L: "ring (bcache s) L" "set L = {..<NBUF}" using inv by (auto simp: bio_inv_def)
  have btb: "bcache t ! b = f (bcache s ! b)" using bb len by (simp add: t)
  have oth: "bcache t ! c = bcache s ! c" if "c \<noteq> b" for c using that by (simp add: t)
  have uniq: "\<not> buf_for s ?bn c" if "c \<noteq> b" for c using that bb(4) inv by (auto simp: bio_inv_def)
  have rt: "ring (bcache t) L" using ring_lupd [OF L(1) bb(1), of f] f by (simp add: t)
  show inv': "bio_inv t n H"
    by (rule bio_inv_change [OF inv t(2), where b = b])
      (use rt L(2) uniq btb b bb f oth h t(3-5) in \<open>auto simp: held_buf_def\<close>)
  have "lview t x = ((lview s)(?bn := b_data (f (bcache s ! b)))) x" for x
  proof (cases "x = ?bn")
    case True
    then show ?thesis using lview_cached [OF inv', of ?bn b] btb bb f by (simp add: buf_for_def)
  next
    case False
    then have "lview t x = lview s x"
      by (intro lview_other [OF inv inv', of b]) (use oth btb f t in \<open>auto simp: buf_for_def\<close>)
    then show ?thesis using False by simp
  qed
  then show "lview t = (lview s)(?bn := b_data (f (bcache s ! b)))" by blast
  have bf: "buf_for t x c = buf_for s x c" for x c using oth [of c] btb f by (cases "c = b") (simp_all add: buf_for_def)
  have "x \<in> dirty_blocks t \<longleftrightarrow> (if x = ?bn then b_dirty (f (bcache s ! b)) else x \<in> dirty_blocks s)" for x
  proof (cases "x = ?bn")
    case True
    have "buf_for s ?bn c \<longleftrightarrow> c = b" for c using uniq [of c] bb(4) by (cases "c = b") auto
    then show ?thesis using True btb bf by (simp add: dirty_blocks_def)
  next
    case False
    then have "\<not> buf_for s x b" by (simp add: buf_for_def)
    then have "buf_for t x c \<and> b_dirty (bcache t ! c) \<longleftrightarrow> buf_for s x c \<and> b_dirty (bcache s ! c)" for c
      using oth [of c] bf [of x c] by (cases "c = b") auto
    then show ?thesis using False by (simp add: dirty_blocks_def)
  qed
  then show "dirty_blocks t = (if b_dirty (f (bcache s ! b)) then insert ?bn (dirty_blocks s) else dirty_blocks s - {?bn})"
    by (intro set_eqI) simp
qed

lemma upd_buf_eq: "upd_buf b f s = s\<lparr>bcache := lupd (bcache s) b f\<rparr>"
  by (simp add: upd_buf_def lupd_def)

lemma bio_restI:
  assumes "t = s\<lparr>hw := hw t, ptable := ptable t, sleeplocks := sleeplocks t, bcache := bcache t, memdisk := memdisk t,
      disk_writes := disk_writes t\<rparr>"
    "map pid (ptable t) = map pid (ptable s)" "\<And>k. sleeplocks t (Inode_sleeplock k) = sleeplocks s (Inode_sleeplock k)"
  shows "bio_rest s t"
  using assms unfolding bio_rest_def by blast

lemma lupd_lupd: "b < length bs \<Longrightarrow> lupd (lupd bs b f) b g = lupd bs b (\<lambda>q. g (f q))"
  by (simp add: lupd_def)

lemma lupd_cong_at: "f (bs ! b) = g (bs ! b) \<Longrightarrow> lupd bs b f = lupd bs b g"
  by (simp add: lupd_def)

lemma bwrite_ok:
  assumes inv: "bio_inv s n H" and b: "b \<in> H"
  shows "returns (bwrite b s) (\<lambda>_ t. bio_inv t n H \<and> lview t = lview s
     \<and> memdisk t = (memdisk s)(b_blockno (bcache s ! b) := b_data (bcache s ! b))
     \<and> disk_writes t = disk_writes s @ [(b_blockno (bcache s ! b), b_data (bcache s ! b))]
     \<and> dirty_blocks t = dirty_blocks s - {b_blockno (bcache s ! b)} \<and> bio_rest s t
     \<and> core (bcache t ! b) = core ((bcache s ! b)\<lparr>b_dirty := False\<rparr>)
     \<and> (\<forall>c. c \<noteq> b \<longrightarrow> bcache t ! c = bcache s ! c))"
proof -
  let ?bn = "b_blockno (bcache s ! b)" and ?d = "b_data (bcache s ! b)"
  have len: "length (bcache s) = 31" and h: "held_buf s n b" and q: "quiet s n" using inv b by (auto simp: bio_inv_def ring_def)
  let ?u = "s\<lparr>hw := touch (hw s), bcache := lupd (bcache s) b (\<lambda>q. q\<lparr>b_dirty := True\<rparr>)\<rparr>"
  have qu: "quiet ?u n" using quiet_touch [OF q] by (rule quiet_cong) simp_all
  have bb: "b < NBUF" "b < length (bcache s)" "b_valid (bcache s ! b)" using h len by (simp_all add: held_buf_def)
  let ?t = "disk_put ?bn ?d (s\<lparr>bcache := lupd (bcache s) b (\<lambda>q. q\<lparr>b_dirty := False\<rparr>), hw := touch (hw s)\<rparr>)"
  have up: "lupd (lupd (bcache s) b (\<lambda>q. q\<lparr>b_dirty := True\<rparr>)) b (\<lambda>q. q\<lparr>b_dirty := False, b_valid := True\<rparr>)
      = lupd (bcache s) b (\<lambda>q. q\<lparr>b_dirty := False\<rparr>)"
    unfolding lupd_lupd [OF bb(2)] by (rule lupd_cong_at) (use bb(3) in \<open>simp add: buf.equality\<close>)
  have "iderw b ?u = Ret () ?t"
    using iderw_ok [OF qu, of b] h bb(1,2) q by (simp add: up held_buf_def quietD disk_put_def)
  then have "bwrite b s = Ret () ?t"
    using h quiet_holdingsleep [OF q, of "Buf_sleeplock b"] by (simp add: bwrite_def upd_buf_eq held_buf_def)
  moreover have qt: "quiet ?t n" using quiet_touch [OF q] by (rule quiet_cong) (simp_all add: disk_put_def)
  note ch = held_change [OF inv b, of "\<lambda>q. q\<lparr>b_dirty := False\<rparr>" ?t]
  have "bio_inv ?t n H" by (rule ch) (simp_all add: disk_put_def qt [unfolded disk_put_def, simplified])
  moreover have "lview s ?bn = ?d" using lview_cached [OF inv, of ?bn b] h by (simp add: held_buf_def buf_for_def)
  then have "lview ?t = lview s"
    by (subst ch(2)) (simp_all add: disk_put_def qt [unfolded disk_put_def, simplified] fun_upd_idem)
  moreover have "dirty_blocks ?t = dirty_blocks s - {?bn}" by (subst ch(3)) (simp_all add: disk_put_def qt [unfolded disk_put_def, simplified])
  moreover have "bio_rest s ?t" unfolding disk_put_def by (rule bio_restI) simp_all
  ultimately show ?thesis using bb by (simp add: disk_put_def)
qed

lemma core_links [simp]: "core (q\<lparr>b_next := x\<rparr>) = core q" "core (q\<lparr>b_prev := x\<rparr>) = core q"
  by (simp_all add: core_eq)

lemma core_lupd: "(\<And>q. core (f q) = core q) \<Longrightarrow> core (lupd bs i f ! j) = core (bs ! j)"
  by (cases "i < length bs"; cases "j = i") (simp_all add: lupd_def list_update_beyond)

lemma core_bmru: "core (link_front b (unlink b bs) ! c) = core (bs ! c)"
  by (simp add: link_front_def unlink_def Let_def core_lupd)

lemma lview_same:
  assumes "bio_inv s n H" "bio_inv t m H'" "memdisk t = memdisk s"
    "\<And>c. c < NBUF \<Longrightarrow> b_valid (bcache t ! c) = b_valid (bcache s ! c) \<and> b_dev (bcache t ! c) = b_dev (bcache s ! c)
       \<and> b_blockno (bcache t ! c) = b_blockno (bcache s ! c) \<and> b_data (bcache t ! c) = b_data (bcache s ! c)"
  shows "lview t = lview s"
proof
  fix x
  have o: "buf_for t x c = buf_for s x c" "buf_for s x c \<Longrightarrow> c < NBUF" for c using assms(4) [of c] by (auto simp: buf_for_def)
  show "lview t x = lview s x"
  proof (cases "\<exists>c. buf_for s x c \<and> b_valid (bcache s ! c)")
    case True
    then obtain c where c: "buf_for s x c" "b_valid (bcache s ! c)" by auto
    then show ?thesis using lview_cached [OF assms(1) c] lview_cached [OF assms(2), of x c] o assms(4) [of c] by simp
  next
    case False
    then have "lview t x = memdisk t x" "lview s x = memdisk s x"
      using o assms(4) by (auto intro!: lview_uncached)
    then show ?thesis using assms(3) by simp
  qed
qed

lemma brelse_eq:
  assumes inv: "bio_inv s n H" and b: "b \<in> H"
  shows "brelse b s = Ret () (wakeup1 (Some (Chan_sleeplock (Buf_sleeplock b))) (s\<lparr>
      sleeplocks := (sleeplocks s)(Buf_sleeplock b := \<lparr>sl_locked = False, sl_pid = 0\<rparr>)\<rparr>)\<lparr>
      bcache := link_front b (unlink b (lupd (bcache s) b (\<lambda>q. q\<lparr>b_refcnt := 0\<rparr>))), hw := touch (hw s)\<rparr>)"
proof -
  have len: "length (bcache s) = 31" and h: "held_buf s n b" and q: "quiet s n" using inv b by (auto simp: bio_inv_def ring_def)
  let ?s1 = "s\<lparr>hw := touch (hw s)\<rparr>"
  have q1: "quiet ?s1 n" using quiet_touch [OF q] .
  have bb: "b < length (bcache s)" "b_refcnt (bcache s ! b) = 1" using h len by (simp_all add: held_buf_def)
  have up: "lupd (bcache s) b (\<lambda>q. q\<lparr>b_refcnt := b_refcnt q - 1\<rparr>) = lupd (bcache s) b (\<lambda>q. q\<lparr>b_refcnt := 0\<rparr>)"
    by (rule lupd_cong_at) (simp add: bb)
  have "sl_pid (sleeplocks ?s1 (Buf_sleeplock b)) = n" using h by (simp add: held_buf_def)
  from quiet_releasesleep [OF q1 this] show ?thesis
    using quiet_holdingsleep [OF q, of "Buf_sleeplock b"] h quietD [OF q] bb(1)
    by (simp add: brelse_def held_buf_def wakeup1_def lock_simps upd_buf_eq up bmru_eq Let_def cong: if_cong)
qed

lemma brelse_ok:
  assumes inv: "bio_inv s n H" and b: "b \<in> H"
    and clean: "b_dirty (bcache s ! b) \<or> b_data (bcache s ! b) = memdisk s (b_blockno (bcache s ! b))"
  shows "returns (brelse b s) (\<lambda>_ t. bio_inv t n (H - {b}) \<and> bio_same (H - {b}) s t)"
proof -
  have len: "length (bcache s) = 31" and h: "held_buf s n b" and q: "quiet s n" using inv b by (auto simp: bio_inv_def ring_def)
  then have bb: "b < NBUF" "b_dev (bcache s ! b) = 1" "b_valid (bcache s ! b)"
    "buf_for s (b_blockno (bcache s ! b)) b" by (simp_all add: held_buf_def buf_for_def)
  obtain L where L: "ring (bcache s) L" "set L = {..<NBUF}" using inv by (auto simp: bio_inv_def)
  let ?t = "wakeup1 (Some (Chan_sleeplock (Buf_sleeplock b))) (s\<lparr>
      sleeplocks := (sleeplocks s)(Buf_sleeplock b := \<lparr>sl_locked = False, sl_pid = 0\<rparr>)\<rparr>)\<lparr>
      bcache := link_front b (unlink b (lupd (bcache s) b (\<lambda>q. q\<lparr>b_refcnt := 0\<rparr>))), hw := touch (hw s)\<rparr>"
  define t where "t = ?t"
  have sel: "bcache t = link_front b (unlink b (lupd (bcache s) b (\<lambda>q. q\<lparr>b_refcnt := 0\<rparr>)))" "hw t = touch (hw s)"
    "memdisk t = memdisk s" "disksize t = disksize s" "disk_writes t = disk_writes s"
    "sleeplocks t = (sleeplocks s)(Buf_sleeplock b := \<lparr>sl_locked = False, sl_pid = 0\<rparr>)"
    by (simp_all add: t_def wakeup1_def)
  have pt: "map pid (ptable t) = map pid (ptable s)"
    using pids_wakeup1 [of _ "s\<lparr>sleeplocks := (sleeplocks s)(Buf_sleeplock b := \<lparr>sl_locked = False, sl_pid = 0\<rparr>)\<rparr>"]
    by (simp add: t_def)
  have qt: "quiet t n" using quiet_touch [OF q] by (rule quiet_cong) (simp_all add: sel pt)
  have btb: "core (bcache t ! b) = core ((bcache s ! b)\<lparr>b_refcnt := 0\<rparr>)" using bb len by (simp add: sel core_bmru)
  have oth: "core (bcache t ! c) = core (bcache s ! c)" if "c \<noteq> b" for c using that by (simp add: sel core_bmru)
  obtain xs ys where xy: "L = xs @ b # ys" using bb(1) L(2) by (metis lessThan_iff split_list)
  have "ring (lupd (bcache s) b (\<lambda>q. q\<lparr>b_refcnt := 0\<rparr>)) (xs @ b # ys)" using ring_lupd [OF L(1) bb(1)] xy by simp
  then have rt: "ring (bcache t) (b # xs @ ys)" using ring_bmru [of "s\<lparr>bcache := _\<rparr>"] by (simp add: bmru_eq sel)
  moreover have "set (b # xs @ ys) = {..<NBUF}" using L(2) xy by auto
  ultimately have rt': "\<exists>L. ring (bcache t) L \<and> set L = {..<NBUF}" by blast
  have uniq: "\<not> buf_for s (b_blockno (bcache s ! b)) c" if "c \<noteq> b" for c using that bb(4) inv by (auto simp: bio_inv_def)
  have inv': "bio_inv t n (H - {b})"
    by (rule bio_inv_change [OF inv qt rt', where b = b])
      (use uniq btb b bb oth clean in \<open>auto simp: sel core_eq idle_buf_def\<close>)
  moreover have "lview t = lview s"
  proof (rule lview_same [OF inv inv'])
    fix c show "b_valid (bcache t ! c) = b_valid (bcache s ! c) \<and> b_dev (bcache t ! c) = b_dev (bcache s ! c)
       \<and> b_blockno (bcache t ! c) = b_blockno (bcache s ! c) \<and> b_data (bcache t ! c) = b_data (bcache s ! c)"
      using btb oth [of c] by (cases "c = b") (simp_all add: core_eq)
  qed (simp add: sel)
  moreover have "dirty_blocks t = dirty_blocks s"
    by (rule dirty_other [of b]) (use oth btb in \<open>auto simp: core_eq\<close>)
  moreover have "bio_rest s t" by (rule bio_restI) (simp_all add: t_def wakeup1_def pt [unfolded t_def wakeup1_def, simplified])
  ultimately show ?thesis using brelse_eq [OF inv b] oth by (auto simp: t_def [symmetric] sel bio_same_def)
qed

section \<open>What the cache does not depend on\<close>

lemma bio_cong:
  assumes "bcache t = bcache s" "memdisk t = memdisk s"
  shows "lview t = lview s" "dirty_blocks t = dirty_blocks s"
  using assms by (simp_all add: lview_def buf_for_def dirty_blocks_def fun_eq_iff cong: option.case_cong)

lemma bio_inv_cong:
  assumes "quiet t n" "quiet s n" "bcache t = bcache s" "memdisk t = memdisk s" "disksize t = disksize s"
    "\<And>b. sleeplocks t (Buf_sleeplock b) = sleeplocks s (Buf_sleeplock b)"
  shows "bio_inv t n H = bio_inv s n H"
  using assms by (simp add: bio_inv_def held_buf_def idle_buf_def buf_for_def)

section \<open>The cache keeps the contract of a block cache\<close>

definition cache_view_of :: "kstate \<Rightarrow> cache_view" where
  "cache_view_of s = \<lparr>cv_view = lview s, cv_disk = memdisk s, cv_writes = disk_writes s, cv_dirty = dirty_blocks s\<rparr>"

definition buf_view_of :: "kstate \<Rightarrow> nat \<Rightarrow> buf_view" where
  "buf_view_of s b = \<lparr>bv_blockno = b_blockno (bcache s ! b), bv_data = b_data (bcache s ! b), bv_dirty = b_dirty (bcache s ! b)\<rparr>"

lemma view_sel [simp]: "cv_view (cache_view_of s) = lview s" "cv_disk (cache_view_of s) = memdisk s"
  "cv_writes (cache_view_of s) = disk_writes s" "cv_dirty (cache_view_of s) = dirty_blocks s"
  "bv_blockno (buf_view_of s b) = b_blockno (bcache s ! b)" "bv_data (buf_view_of s b) = b_data (bcache s ! b)"
  "bv_dirty (buf_view_of s b) = b_dirty (bcache s ! b)"
  by (simp_all add: cache_view_of_def buf_view_of_def)

definition set_data :: "nat \<Rightarrow> block \<Rightarrow> kstate \<Rightarrow> kstate" where
  "set_data b d = upd_buf b (\<lambda>q. q\<lparr>b_data := d\<rparr>)"

lemma core_buf_view: "core (bcache t ! c) = core (bcache s ! c) \<Longrightarrow> buf_view_of t c = buf_view_of s c"
  by (simp add: core_eq buf_view_of_def)

lemma same_views: "bio_same H s t \<Longrightarrow> cache_view_of t = cache_view_of s \<and> (\<forall>c\<in>H. buf_view_of t c = buf_view_of s c) \<and> bio_rest s t"
  by (auto simp: bio_same_def cache_view_of_def intro: core_buf_view)

lemma held_dirty_iff:
  assumes "bio_inv s n H" "b \<in> H"
  shows "b_dirty (bcache s ! b) \<longleftrightarrow> b_blockno (bcache s ! b) \<in> dirty_blocks s"
proof -
  have "held_buf s n b" using assms by (simp add: bio_inv_def)
  then have b: "buf_for s (b_blockno (bcache s ! b)) b" by (simp add: held_buf_def buf_for_def)
  have "buf_for s (b_blockno (bcache s ! b)) c \<longleftrightarrow> c = b" for c
    using b assms(1) unfolding bio_inv_def by blast
  then show ?thesis by (simp add: dirty_blocks_def)
qed

lemma clean_lview:
  assumes inv: "bio_inv s n H" and "\<forall>b\<in>H. b_blockno (bcache s ! b) \<noteq> x" "x \<notin> dirty_blocks s"
  shows "lview s x = memdisk s x"
proof (cases "\<exists>c. buf_for s x c \<and> b_valid (bcache s ! c)")
  case True
  then obtain c where c: "buf_for s x c" "b_valid (bcache s ! c)" by auto
  then have "c \<notin> H" "\<not> b_dirty (bcache s ! c)" using assms by (auto simp: buf_for_def dirty_blocks_def)
  moreover have "idle_buf s c" using c \<open>c \<notin> H\<close> inv by (simp add: bio_inv_def buf_for_def)
  ultimately show ?thesis using lview_cached [OF inv c] c by (auto simp: idle_buf_def buf_for_def)
qed (auto intro: lview_uncached)

lemma set_data_ok:
  assumes "bio_inv s n H" "b \<in> H"
  shows "bio_inv (set_data b d s) n H" "lview (set_data b d s) = (lview s)(b_blockno (bcache s ! b) := d)"
    "dirty_blocks (set_data b d s) = dirty_blocks s" "bio_rest s (set_data b d s)"
    "bcache (set_data b d s) ! b = (bcache s ! b)\<lparr>b_data := d\<rparr>" "c \<noteq> b \<Longrightarrow> bcache (set_data b d s) ! c = bcache s ! c"
proof -
  have q: "quiet (set_data b d s) n" using assms(1) by (auto simp: bio_inv_def set_data_def upd_buf_def quiet_def)
  note ch = held_change [OF assms, of "\<lambda>q. q\<lparr>b_data := d\<rparr>" "set_data b d s"]
  show "bio_inv (set_data b d s) n H" "lview (set_data b d s) = (lview s)(b_blockno (bcache s ! b) := d)"
    using ch(1,2) q by (simp_all add: set_data_def upd_buf_eq)
  have "dirty_blocks (set_data b d s) = (if b_dirty (bcache s ! b) then insert (b_blockno (bcache s ! b)) (dirty_blocks s)
       else dirty_blocks s - {b_blockno (bcache s ! b)})" by (subst ch(3)) (simp_all add: set_data_def upd_buf_eq q [unfolded set_data_def upd_buf_eq])
  then show "dirty_blocks (set_data b d s) = dirty_blocks s"
    using held_dirty_iff [OF assms] by (auto simp: insert_absorb)
  show "bio_rest s (set_data b d s)" by (rule bio_restI) (simp_all add: set_data_def upd_buf_def)
  have "b < length (bcache s)" using assms by (auto simp: bio_inv_def ring_def held_buf_def)
  then show "bcache (set_data b d s) ! b = (bcache s ! b)\<lparr>b_data := d\<rparr>" "c \<noteq> b \<Longrightarrow> bcache (set_data b d s) ! c = bcache s ! c"
    by (simp_all add: set_data_def upd_buf_def)
qed

lemma held_finite: "bio_inv s n H \<Longrightarrow> finite H"
  by (rule finite_subset [of H "{..<NBUF}"]) (auto simp: bio_inv_def held_buf_def)

interpretation bc: block_cache "\<lambda>s H. bio_inv s n H" cache_view_of buf_view_of disksize NBUF bio_rest "bread 1"
  bwrite brelse set_data for n
proof (unfold_locales, goal_cases)
  case (7 s H x)
  then have "\<not> buf_for s x b" if "b \<in> H" for b using that by (auto simp: buf_for_def)
  with bread_ok [OF 7(1), of x] 7 show ?case by (auto elim!: returns_mono dest: same_views)
next
  case (8 s H b)
  from bwrite_ok [OF this] show ?case
    by (rule returns_mono) (auto simp: cache_view_of_def buf_view_of_def core_eq)
next
  case (9 s H b)
  then show ?case using brelse_ok [of s n H b] by (auto elim!: returns_mono dest: same_views)
next
  case (10 s H b d)
  moreover have "memdisk (set_data b d s) = memdisk s" "disk_writes (set_data b d s) = disk_writes s"
    by (simp_all add: set_data_def upd_buf_def)
  ultimately show ?case using set_data_ok [of s n H b] by (auto simp: cache_view_of_def buf_view_of_def)
qed (auto intro: bio_rest_trans held_finite clean_lview simp: bio_rest_sel held_dirty_iff)

section \<open>Initialisation\<close>

lemma binit_one_sel:
  "bcache (binit_one b s) = link_front b (bcache s)" "memdisk (binit_one b s) = memdisk s" "disksize (binit_one b s) = disksize s"
  "ptable (binit_one b s) = ptable s" "hw (binit_one b s) = initlock (Sleeplock_lk (Buf_sleeplock b)) (hw s)"
  "sleeplocks (binit_one b s) = (sleeplocks s)(Buf_sleeplock b := \<lparr>sl_locked = False, sl_pid = 0\<rparr>)"
  by (simp_all add: binit_one_def Let_def upd_buf_def link_front_def lupd_def initsleeplock_def upd_sleeplock_def sleeplock_upd)

lemma initlock_frame: "me (initlock l h) = me h" "cpu_ok (initlock l h) = cpu_ok h" "cur (initlock l h) = cur h"
proof -
  show me: "me (initlock l h) = me h" by (simp add: me_def initlock_def cong: option.case_cong)
  show "cpu_ok (initlock l h) = cpu_ok h" "cur (initlock l h) = cur h"
    unfolding cpu_ok_def cur_def me by (simp_all add: initlock_def)
qed

lemma quiet_initlock: "quiet s n \<Longrightarrow> quiet (s\<lparr>hw := initlock l (hw s)\<rparr>) n"
  by (auto simp: quiet_def initlock_frame) (simp add: initlock_def free_lock_def)

lemma core_link_front: "core (link_front b bs ! c) = core (bs ! c)"
  by (simp add: link_front_def Let_def core_lupd)

lemma binit_fold:
  assumes "quiet s n" "ring (bcache s) []" "k \<le> NBUF"
  defines "t \<equiv> fold binit_one [0..<k] s"
  shows "quiet t n \<and> ring (bcache t) (rev [0..<k]) \<and> memdisk t = memdisk s \<and> disksize t = disksize s
    \<and> (\<forall>b. sleeplocks t (Buf_sleeplock b) = (if b < k then \<lparr>sl_locked = False, sl_pid = 0\<rparr> else sleeplocks s (Buf_sleeplock b)))
    \<and> (\<forall>c. core (bcache t ! c) = core (bcache s ! c))"
  using assms(3) unfolding t_def
proof (induction k)
  case (Suc k)
  let ?u = "fold binit_one [0..<k] s"
  have IH: "quiet ?u n" "ring (bcache ?u) (rev [0..<k])" "memdisk ?u = memdisk s" "disksize ?u = disksize s"
    "\<And>b. sleeplocks ?u (Buf_sleeplock b) = (if b < k then \<lparr>sl_locked = False, sl_pid = 0\<rparr> else sleeplocks s (Buf_sleeplock b))"
    "\<And>c. core (bcache ?u ! c) = core (bcache s ! c)" using Suc by simp_all
  have "quiet (binit_one k ?u) n"
    using quiet_initlock [OF IH(1), of "Sleeplock_lk (Buf_sleeplock k)"] by (rule quiet_cong) (simp_all add: binit_one_sel)
  moreover have "ring (bcache (binit_one k ?u)) (k # rev [0..<k])"
    using ring_link_front [OF IH(2), of k] Suc.prems by (simp add: binit_one_sel)
  ultimately show ?case using IH(3-) by (simp add: binit_one_sel core_link_front)
qed (use assms(1,2) in simp)

text \<open>A kernel whose buffers are zero has a working cache after \<open>binit\<close>, and the cache shows the disk.\<close>

lemma binit_ok:
  assumes "quiet s n" "length (bcache s) = NBUF + 1" "\<And>b. b < NBUF \<Longrightarrow> core (bcache s ! b) = core zero_buf"
  shows "bio_inv (binit s) n {} \<and> dirty_blocks (binit s) = {} \<and> lview (binit s) = memdisk s"
proof -
  let ?s1 = "s\<lparr>hw := initlock Bcache_lock (hw s), bcache := lupd (lupd (bcache s) bhead (\<lambda>q. q\<lparr>b_prev := bhead\<rparr>)) bhead (\<lambda>q. q\<lparr>b_next := bhead\<rparr>)\<rparr>"
  have eq: "binit s = fold binit_one [0..<NBUF] ?s1" by (simp add: binit_def Let_def upd_buf_def lupd_def)
  have q: "quiet ?s1 n" using quiet_initlock [OF assms(1)] by (rule quiet_cong) simp_all
  have r: "ring (bcache ?s1) []" using assms(2) by (simp add: ring_def linked_def)
  note t = binit_fold [OF q r order_refl, folded eq]
  have c: "core (bcache (binit s) ! b) = core zero_buf" if "b < NBUF" for b
    using t assms(3) [OF that] that by simp
  then have z: "\<not> b_valid (bcache (binit s) ! b)" "b_dev (bcache (binit s) ! b) = 0" "\<not> b_dirty (bcache (binit s) ! b)"
    "b_refcnt (bcache (binit s) ! b) = 0" if "b < NBUF" for b using that by (simp_all add: core_eq zero_buf_def)
  have nf: "\<not> buf_for (binit s) x b" for x b using z(2) [of b] by (auto simp: buf_for_def)
  have "bio_inv (binit s) n {}" using t nf z by (auto simp: bio_inv_def idle_buf_def)
  moreover have "lview (binit s) x = memdisk s x" for x using t nf by (subst lview_uncached) simp_all
  ultimately show ?thesis using nf by (auto simp: dirty_blocks_def)
qed

section \<open>Properties\<close>

text \<open>
  C36: Reading a block through the cache always yields a locked buffer with the
  current content of the block, whether the block was cached or had to be fetched
  into a recycled buffer, and recycling never loses a pending change: the view of
  every block, the disk and the set of pinned blocks stay as they were. The
  premises: no other process competes, the block is on the disk, no held buffer is
  in the way, and not all buffers are pinned.
\<close>

theorem bread_current_content:
  assumes "bio_inv s n H" "unat bn < disksize s" "\<forall>b\<in>H. b_blockno (bcache s ! b) \<noteq> bn"
    "card (dirty_blocks s) + card H < NBUF"
  shows "\<exists>b t. bread 1 bn s = Ret b t \<and> held_buf t n b \<and> b_blockno (bcache t ! b) = bn \<and> b_data (bcache t ! b) = lview s bn
    \<and> bio_inv t n (insert b H) \<and> lview t = lview s \<and> memdisk t = memdisk s \<and> dirty_blocks t = dirty_blocks s"
proof -
  have "\<And>b. b \<in> H \<Longrightarrow> \<not> buf_for s bn b" using assms(3) by (auto simp: buf_for_def)
  from bread_ok [OF assms(1,2) this] assms(4) show ?thesis
    by (auto simp: bio_same_def bio_inv_def elim!: returnsE)
qed

definition demo_cache :: kstate where
  "demo_cache = binit demo_proc_state"

lemma demo_quiet: "quiet demo_proc_state 3"
  by (simp add: quiet_def demo_proc_state_def demo_procs_def demo_proc_def)

lemma demo_cache_ok: "bio_inv demo_cache 3 {}" "dirty_blocks demo_cache = {}" "lview demo_cache = memdisk demo_proc_state"
proof -
  have "length (bcache demo_proc_state) = NBUF + 1" "\<And>b. b < NBUF \<Longrightarrow> core (bcache demo_proc_state ! b) = core zero_buf"
    by (simp_all add: demo_proc_state_def demo_procs_def demo_state_def boot_state_def)
  from binit_ok [OF demo_quiet this] show "bio_inv demo_cache 3 {}" "dirty_blocks demo_cache = {}" "lview demo_cache = memdisk demo_proc_state"
    by (simp_all add: demo_cache_def)
qed

lemma binit_frame [simp]: "disksize (binit s) = disksize s" "log (binit s) = log s" "memdisk (binit s) = memdisk s"
proof -
  have "disksize (binit_one b s) = disksize s \<and> log (binit_one b s) = log s \<and> memdisk (binit_one b s) = memdisk s" for b s
    by (simp add: binit_one_def Let_def upd_buf_def initsleeplock_def upd_sleeplock_def)
  then have "disksize (fold binit_one bs s) = disksize s \<and> log (fold binit_one bs s) = log s \<and> memdisk (fold binit_one bs s) = memdisk s" for bs s
    by (induction bs arbitrary: s) simp_all
  then show "disksize (binit s) = disksize s" "log (binit s) = log s" "memdisk (binit s) = memdisk s"
    by (simp_all add: binit_def Let_def upd_buf_def)
qed

lemma demo_cache_sel [simp]: "disksize demo_cache = 1000" "memdisk demo_cache = (\<lambda>_. replicate BSIZE 0)"
  by (simp_all add: demo_cache_def demo_proc_state_def demo_procs_def demo_state_def boot_state_def)

lemma demo_cache_zero: "b < NBUF \<Longrightarrow> b_dev (bcache demo_cache ! b) = 0"
proof -
  assume b: "b < NBUF"
  have "core (bcache (binit s) ! b) = core (bcache s ! b)" for s
  proof -
    have "core (bcache (fold binit_one bs s) ! b) = core (bcache s ! b)" for bs s
      by (induction bs arbitrary: s) (simp_all add: binit_one_sel core_link_front)
    then show ?thesis using b by (simp add: binit_def Let_def upd_buf_eq)
  qed
  from this [of demo_proc_state] show ?thesis using b
    by (simp add: demo_cache_def core_eq demo_proc_state_def demo_procs_def demo_state_def boot_state_def zero_buf_def)
qed

theorem bread_current_content_witness:
  "\<exists>b t. bread 1 7 demo_cache = Ret b t \<and> b_data (bcache t ! b) = replicate BSIZE 0 \<and> bio_inv t 3 {b}"
  using bread_current_content [OF demo_cache_ok(1), of 7]
  by (auto simp: demo_cache_ok demo_proc_state_def demo_procs_def demo_state_def boot_state_def)

text \<open>
  C37: Round trip through the cache and the disk. A block that is read, filled with
  new data, written with \<open>bwrite\<close> and released is on the disk, the disk has
  performed exactly this one write, and every later \<open>bread\<close> of it returns the new data.
\<close>

theorem bwrite_bread_roundtrip:
  assumes "bio_inv s n {}" "unat bn < disksize s" "card (dirty_blocks s) < NBUF"
  shows "\<exists>b t u v. bread 1 bn s = Ret b t \<and> bnd (bwrite b (set_data b d t)) (\<lambda>_. brelse b) = Ret () u
    \<and> memdisk u = (memdisk s)(bn := d) \<and> disk_writes u = disk_writes s @ [(bn, d)]
    \<and> (\<exists>c. bread 1 bn u = Ret c v \<and> b_data (bcache v ! c) = d)"
proof -
  have "returns (bnd (bread 1 bn s) (\<lambda>b s. bnd (bwrite b (set_data b d s)) (\<lambda>_ s. brelse b s)))
    (\<lambda>_ t. bio_inv t n {} \<and> bio_rest s t \<and> cache_view_of t = cv_put bn d (cache_view_of s))"
    using bc.rewrite_block [OF assms(1), of bn "\<lambda>_. d"] assms(2,3) by simp
  then obtain b t u where u: "bread 1 bn s = Ret b t" "bnd (bwrite b (set_data b d t)) (\<lambda>_. brelse b) = Ret () u"
    "bio_inv u n {}" "bio_rest s u" "cache_view_of u = cv_put bn d (cache_view_of s)"
    by (auto simp: returns_bnd elim!: returnsE)
  have v: "memdisk u = (memdisk s)(bn := d)" "disk_writes u = disk_writes s @ [(bn, d)]" "lview u = (lview s)(bn := d)"
    "dirty_blocks u = dirty_blocks s - {bn}"
    using view_sel(1-4) [of u] u(5) by simp_all
  have "card (dirty_blocks u) < NBUF" using assms(3) v(4) finite_dirty [OF assms(1)] card_Diff1_le [of "dirty_blocks s" bn] by simp
  then show ?thesis using bread_ok [OF u(3), of bn] assms(2) bio_rest_sel(1) [OF u(4)] u(1,2) v by (auto elim!: returnsE)
qed

theorem bwrite_bread_roundtrip_witness:
  "\<exists>b t u. bread 1 7 demo_cache = Ret b t \<and> bnd (bwrite b (set_data b (replicate BSIZE 1) t)) (\<lambda>_. brelse b) = Ret () u
    \<and> memdisk u 7 = replicate BSIZE 1 \<and> memdisk u 8 = replicate BSIZE 0"
  using bwrite_bread_roundtrip [OF demo_cache_ok(1), of 7 "replicate BSIZE 1"]
  by (auto simp: demo_cache_ok)

end
