(* ===== verification/Log.thy ===== *)
theory Log
  imports Bio_Props
begin

text \<open>
  The write-ahead log, \<open>log.c\<close>, and \<open>readsb\<close> of \<open>fs.c\<close>. A transaction is a
  list of block numbers in \<open>log.lh\<close>; \<open>commit\<close> writes the blocks to the log, then
  the header, then the blocks to their home locations, then the empty header.
\<close>

section \<open>Operations\<close>

definition upd_log :: "(logstate \<Rightarrow> logstate) \<Rightarrow> kstate \<Rightarrow> kstate" where
  "upd_log f s = s\<lparr>log := f (log s)\<rparr>"

definition upd_lh :: "(logheader \<Rightarrow> logheader) \<Rightarrow> kstate \<Rightarrow> kstate" where
  "upd_lh f = upd_log (\<lambda>l. l\<lparr>lh := f (lh l)\<rparr>)"

definition readsb :: "u32 \<Rightarrow> kstate \<Rightarrow> (kstate, superblock) outcome" where
  "readsb dev s =
     bnd (bread dev 1 s) (\<lambda>bp s.
     let d = b_data (bcache s ! bp);
         v = \<lparr>sb_size = ld32 d 0, sb_nblocks = ld32 d 4, sb_ninodes = ld32 d 8, sb_nlog = ld32 d 12,
              sb_logstart = ld32 d 16, sb_inodestart = ld32 d 20, sb_bmapstart = ld32 d 24\<rparr>
     in bnd (brelse bp s) (\<lambda>_ s. Ret v s))"

text \<open>Entry \<open>tail\<close> of the array \<open>log.lh.block\<close>.\<close>

definition lh_entry :: "nat \<Rightarrow> kstate \<Rightarrow> (u32 \<Rightarrow> (kstate, 'a) outcome) \<Rightarrow> (kstate, 'a) outcome" where
  "lh_entry i s f = (if i < length (lh_block (lh (log s))) then f (word_of_int (lh_block (lh (log s)) ! i))
     else Fault ''lh.block'')"

definition install_one :: "nat \<Rightarrow> kstate \<Rightarrow> (kstate, unit) outcome" where
  "install_one tail s =
     bnd (bread (log_dev (log s)) (word_of_int (log_start (log s) + int tail + 1)) s) (\<lambda>lbuf s.
     lh_entry tail s (\<lambda>home.
     bnd (bread (log_dev (log s)) home s) (\<lambda>dbuf s.
     let s = set_data dbuf (b_data (bcache s ! lbuf)) s in
     bnd (bwrite dbuf s) (\<lambda>_ s.
     bnd (brelse lbuf s) (\<lambda>_ s.
     brelse dbuf s)))))"

definition install_trans :: "kstate \<Rightarrow> (kstate, unit) outcome" where
  "install_trans s = for_each install_one [0..<nat (lh_n (lh (log s)))] s"

definition read_head :: "kstate \<Rightarrow> (kstate, unit) outcome" where
  "read_head s =
     bnd (bread (log_dev (log s)) (word_of_int (log_start (log s))) s) (\<lambda>buf s.
     let d = b_data (bcache s ! buf); n = sint (ld32 d 0) in
     if n > LOGSIZE then Fault ''lh.block''
     else
       let s = upd_lh (\<lambda>h. h\<lparr>lh_n := n, lh_block := map (\<lambda>i. sint (ld32 d (4 + 4 * i))) [0..<nat n]
                  @ drop (nat n) (lh_block h)\<rparr>) s
       in brelse buf s)"

definition write_head :: "kstate \<Rightarrow> (kstate, unit) outcome" where
  "write_head s =
     bnd (bread (log_dev (log s)) (word_of_int (log_start (log s))) s) (\<lambda>buf s.
     let h = lh (log s); d = b_data (bcache s ! buf);
         d = st32s (st32 d 0 (word_of_int (lh_n h))) 4 (map word_of_int (take (nat (lh_n h)) (lh_block h)));
         s = set_data buf d s
     in bnd (bwrite buf s) (\<lambda>_ s. brelse buf s))"

definition recover_from_log :: "kstate \<Rightarrow> (kstate, unit) outcome" where
  "recover_from_log s =
     bnd (read_head s) (\<lambda>_ s.
     bnd (install_trans s) (\<lambda>_ s.
     write_head (upd_lh (\<lambda>h. h\<lparr>lh_n := 0\<rparr>) s)))"

text \<open>The log header of 124 bytes fits in a block, so the size check of \<open>initlog\<close> never fires.\<close>

definition initlog :: "u32 \<Rightarrow> kstate \<Rightarrow> (kstate, unit) outcome" where
  "initlog dev s =
     bnd (readsb dev (s\<lparr>hw := initlock Log_lock (hw s)\<rparr>)) (\<lambda>v s.
     recover_from_log (upd_log (\<lambda>l. l\<lparr>log_start := sint (sb_logstart v), log_size := sint (sb_nlog v), log_dev := dev\<rparr>) s))"

definition begin_op_loop :: "kstate \<Rightarrow> (kstate, unit) outcome" where
  "begin_op_loop s =
     (if committing (log s) then sleep (Some Chan_log) Log_lock s
      else if lh_n (lh (log s)) + (outstanding (log s) + 1) * MAXOPBLOCKS > LOGSIZE
      then sleep (Some Chan_log) Log_lock s
      else krelease Log_lock (upd_log (\<lambda>l. l\<lparr>outstanding := outstanding l + 1\<rparr>) s))"

definition begin_op :: "kstate \<Rightarrow> (kstate, unit) outcome" where
  "begin_op s = bnd (kacquire Log_lock s) (\<lambda>_. begin_op_loop)"

definition begin_op_resume :: "nat \<Rightarrow> bool \<Rightarrow> kstate \<Rightarrow> (kstate, unit) outcome" where
  "begin_op_resume i ie s = bnd (sleep_resume i ie Log_lock s) (\<lambda>_. begin_op_loop)"

definition write_one :: "nat \<Rightarrow> kstate \<Rightarrow> (kstate, unit) outcome" where
  "write_one tail s =
     bnd (bread (log_dev (log s)) (word_of_int (log_start (log s) + int tail + 1)) s) (\<lambda>tob s.
     lh_entry tail s (\<lambda>home.
     bnd (bread (log_dev (log s)) home s) (\<lambda>from s.
     let s = set_data tob (b_data (bcache s ! from)) s in
     bnd (bwrite tob s) (\<lambda>_ s.
     bnd (brelse from s) (\<lambda>_ s.
     brelse tob s)))))"

definition write_log :: "kstate \<Rightarrow> (kstate, unit) outcome" where
  "write_log s = for_each write_one [0..<nat (lh_n (lh (log s)))] s"

definition commit :: "kstate \<Rightarrow> (kstate, unit) outcome" where
  "commit s =
     (if lh_n (lh (log s)) > 0
      then bnd (write_log s) (\<lambda>_ s.
           bnd (write_head s) (\<lambda>_ s.
           bnd (install_trans s) (\<lambda>_ s.
           write_head (upd_lh (\<lambda>h. h\<lparr>lh_n := 0\<rparr>) s))))
      else Ret () s)"

definition end_op :: "kstate \<Rightarrow> (kstate, unit) outcome" where
  "end_op s =
     bnd (kacquire Log_lock s) (\<lambda>_ s.
     let s = upd_log (\<lambda>l. l\<lparr>outstanding := outstanding l - 1\<rparr>) s in
     if committing (log s) then Panic ''log.committing''
     else if outstanding (log s) = 0
     then bnd (krelease Log_lock (upd_log (\<lambda>l. l\<lparr>committing := True\<rparr>) s)) (\<lambda>_ s.
          bnd (commit s) (\<lambda>_ s.
          bnd (kacquire Log_lock s) (\<lambda>_ s.
          bnd (wakeup (Some Chan_log) (upd_log (\<lambda>l. l\<lparr>committing := False\<rparr>) s)) (\<lambda>_ s.
          krelease Log_lock s))))
     else bnd (wakeup (Some Chan_log) s) (\<lambda>_ s. krelease Log_lock s))"

definition log_write :: "nat \<Rightarrow> kstate \<Rightarrow> (kstate, unit) outcome" where
  "log_write b s =
     (let n = lh_n (lh (log s)) in
      if n \<ge> LOGSIZE \<or> n \<ge> log_size (log s) - 1 then Panic ''too big a transaction''
      else if outstanding (log s) < 1 then Panic ''log_write outside of trans''
      else
        bnd (kacquire Log_lock s) (\<lambda>_ s.
        let bn = b_blockno (bcache s ! b);
            i = (case findi (\<lambda>x. word_of_int x = bn) (take (nat n) (lh_block (lh (log s)))) of
                   Some i \<Rightarrow> i | None \<Rightarrow> nat n);
            s = upd_lh (\<lambda>h. h\<lparr>lh_block := (lh_block h)[i := sint bn]\<rparr>) s;
            s = (if i = nat n then upd_lh (\<lambda>h. h\<lparr>lh_n := lh_n h + 1\<rparr>) s else s)
        in krelease Log_lock (upd_buf b (\<lambda>q. q\<lparr>b_dirty := True\<rparr>) s)))"

end
