(* ===== verification/Log_Props.thy ===== *)
theory Log_Props
  imports Log
begin

text \<open>
  The log against crashes. A crash leaves the disk as some prefix of the writes of
  the interrupted operation left it (a block write is atomic); recovery is a
  function of the disk, and the operations of \<open>log.c\<close> refine it.
\<close>

section \<open>Logs on a disk\<close>

type_synonym disk = "u32 \<Rightarrow> block"

definition log_blk :: "int \<Rightarrow> nat \<Rightarrow> u32" where
  "log_blk st i = word_of_int (st + int i + 1)"

definition head_blk :: "int \<Rightarrow> u32" where
  "head_blk st = word_of_int st"

definition head_n :: "int \<Rightarrow> disk \<Rightarrow> int" where
  "head_n st D = sint (ld32 (D (head_blk st)) 0)"

definition head_homes :: "int \<Rightarrow> disk \<Rightarrow> u32 list" where
  "head_homes st D = map (\<lambda>i. ld32 (D (head_blk st)) (4 + 4 * i)) [0..<nat (head_n st D)]"

definition copy_home :: "int \<Rightarrow> u32 list \<Rightarrow> nat \<Rightarrow> disk \<Rightarrow> disk" where
  "copy_home st hs i D = D(hs ! i := D (log_blk st i))"

definition install_blocks :: "int \<Rightarrow> u32 list \<Rightarrow> disk \<Rightarrow> disk" where
  "install_blocks st hs D = fold (copy_home st hs) [0..<length hs] D"

text \<open>What recovery makes of a disk.\<close>

definition recovered :: "int \<Rightarrow> disk \<Rightarrow> disk" where
  "recovered st D = (let D' = install_blocks st (head_homes st D) D
     in D'(head_blk st := st32 (D' (head_blk st)) 0 0))"

definition apply_writes :: "(u32 \<times> block) list \<Rightarrow> disk \<Rightarrow> disk" where
  "apply_writes W D = fold (\<lambda>(b, d) D. D(b := d)) W D"

definition in_log :: "int \<Rightarrow> int \<Rightarrow> u32 \<Rightarrow> bool" where
  "in_log st ls x \<longleftrightarrow> st \<le> uint x \<and> uint x < st + ls"

text \<open>Two disks with the same content outside the log.\<close>

definition same_data :: "int \<Rightarrow> int \<Rightarrow> disk \<Rightarrow> disk \<Rightarrow> bool" where
  "same_data st ls D E \<longleftrightarrow> (\<forall>x. \<not> in_log st ls x \<longrightarrow> D x = E x)"

text \<open>Home blocks that a log of the given place and size can hold.\<close>

definition homes_ok :: "int \<Rightarrow> int \<Rightarrow> nat \<Rightarrow> u32 list \<Rightarrow> bool" where
  "homes_ok st ls N hs \<longleftrightarrow> 0 \<le> st \<and> int (length hs) < ls \<and> length hs < NBUF \<and> st + ls \<le> int N \<and> N \<le> 2 ^ 31
     \<and> (\<forall>h\<in>set hs. unat h < N \<and> \<not> in_log st ls h)"

lemma uint_of_int32: "0 \<le> x \<Longrightarrow> x < 2 ^ 32 \<Longrightarrow> uint (word_of_int x :: u32) = x"
  by (simp add: unsigned_of_int take_bit_int_eq_self)

lemma log_blk_uint: "0 \<le> st \<Longrightarrow> st + int i + 1 < 2 ^ 32 \<Longrightarrow> uint (log_blk st i) = st + int i + 1"
  unfolding log_blk_def by (rule uint_of_int32) simp_all

lemma head_blk_uint: "0 \<le> st \<Longrightarrow> st < 2 ^ 32 \<Longrightarrow> uint (head_blk st) = st"
  unfolding head_blk_def by (rule uint_of_int32)

lemma homes_blk:
  assumes "homes_ok st ls N hs"
  shows "uint (head_blk st) = st" "i < length hs \<Longrightarrow> uint (log_blk st i) = st + int i + 1"
    "in_log st ls (head_blk st)" "i < length hs \<Longrightarrow> in_log st ls (log_blk st i)"
    "unat (head_blk st) < N" "i < length hs \<Longrightarrow> unat (log_blk st i) < N"
    "i < length hs \<Longrightarrow> log_blk st i \<noteq> head_blk st"
    "i < length hs \<Longrightarrow> j < length hs \<Longrightarrow> i \<noteq> j \<Longrightarrow> log_blk st i \<noteq> log_blk st j"
proof -
  have h: "uint (head_blk st) = st" using assms by (intro head_blk_uint) (auto simp: homes_ok_def)
  have l: "uint (log_blk st i) = st + int i + 1" if "i < length hs" for i
    using assms that by (intro log_blk_uint) (auto simp: homes_ok_def)
  show "uint (head_blk st) = st" "i < length hs \<Longrightarrow> uint (log_blk st i) = st + int i + 1"
    "in_log st ls (head_blk st)" "i < length hs \<Longrightarrow> in_log st ls (log_blk st i)"
    using assms h l by (auto simp: in_log_def homes_ok_def)
  have un: "unat (x :: u32) < N" if "uint x < int N" for x using that by (simp only: uint_nat of_nat_less_iff)
  show "unat (head_blk st) < N" "i < length hs \<Longrightarrow> unat (log_blk st i) < N"
    using assms h l [of i] by (auto simp: homes_ok_def intro!: un)
  show "i < length hs \<Longrightarrow> log_blk st i \<noteq> head_blk st" using h l [of i] by auto
  show "i < length hs \<Longrightarrow> j < length hs \<Longrightarrow> i \<noteq> j \<Longrightarrow> log_blk st i \<noteq> log_blk st j" using l [of i] l [of j] by auto
qed

lemma homes_not_log:
  assumes "homes_ok st ls N hs" "h \<in> set hs"
  shows "h \<noteq> head_blk st" "i < length hs \<Longrightarrow> h \<noteq> log_blk st i"
  using assms homes_blk(3,4) [OF assms(1)] by (auto simp: homes_ok_def)

section \<open>Recovery of a disk\<close>

lemma copy_home_apply: "copy_home st hs i D x = (if x = hs ! i then D (log_blk st i) else D x)"
  by (simp add: copy_home_def)

lemma copies_other:
  "k \<le> length hs \<Longrightarrow> x \<notin> set (take k hs) \<Longrightarrow> fold (copy_home st hs) [0..<k] D x = D x"
proof (induction k)
  case (Suc k)
  then show ?case using copy_home_apply [of st hs k "fold (copy_home st hs) [0..<k] D" x]
    by (auto simp: take_Suc_conv_app_nth)
qed simp

lemma copies_home:
  assumes ok: "homes_ok st ls N hs" and d: "distinct hs"
  shows "k \<le> length hs \<Longrightarrow> i < k \<Longrightarrow> fold (copy_home st hs) [0..<k] D (hs ! i) = D (log_blk st i)"
proof (induction k)
  case (Suc k)
  have "log_blk st k \<notin> set (take k hs)"
    using homes_not_log(2) [OF ok, of "log_blk st k" k] Suc.prems by (auto dest: in_set_takeD)
  then have "fold (copy_home st hs) [0..<k] D (log_blk st k) = D (log_blk st k)" using Suc.prems by (intro copies_other) auto
  moreover have "hs ! i = hs ! k \<longleftrightarrow> i = k" using d Suc.prems by (simp add: nth_eq_iff_index_eq)
  ultimately show ?case using Suc copy_home_apply [of st hs k "fold (copy_home st hs) [0..<k] D" "hs ! i"]
    by (cases "i = k") simp_all
qed simp

lemma install_other: "x \<notin> set hs \<Longrightarrow> install_blocks st hs D x = D x"
  using copies_other [of "length hs" hs x st D] by (simp add: install_blocks_def)

lemma install_home:
  "homes_ok st ls N hs \<Longrightarrow> distinct hs \<Longrightarrow> i < length hs \<Longrightarrow> install_blocks st hs D (hs ! i) = D (log_blk st i)"
  using copies_home [of st ls N hs "length hs" i D] by (simp add: install_blocks_def)

lemma install_head: "homes_ok st ls N hs \<Longrightarrow> install_blocks st hs D (head_blk st) = D (head_blk st)"
  by (rule install_other) (auto dest: homes_not_log(1))

text \<open>The header that \<open>write_head\<close> leaves in the log.\<close>

definition put_head :: "u32 list \<Rightarrow> block \<Rightarrow> block" where
  "put_head hs d = st32s (st32 d 0 (of_nat (length hs))) 4 hs"

lemma head_of_put:
  assumes "D (head_blk st) = put_head hs d" "length d = BSIZE" "length hs < NBUF"
  shows "head_n st D = int (length hs)" "head_homes st D = hs"
proof -
  have "ld32 (put_head hs d) 0 = of_nat (length hs)"
    using assms by (simp add: put_head_def ld32_st32s_before)
  moreover have "sint (of_nat (length hs) :: u32) = int (length hs)"
    using assms(3) by (simp add: signed_of_nat signed_take_bit_int_eq_self_iff)
  ultimately show n: "head_n st D = int (length hs)" using assms(1) by (simp add: head_n_def)
  have "ld32 (put_head hs d) (4 + 4 * i) = hs ! i" if "i < length hs" for i
    using that assms(2,3) by (simp add: put_head_def ld32_st32s)
  then show "head_homes st D = hs" using n assms(1) by (intro nth_equalityI) (simp_all add: head_homes_def)
qed

lemma recovered_empty:
  assumes "head_n st D = 0"
  shows "recovered st D = D(head_blk st := st32 (D (head_blk st)) 0 0)"
  using assms by (simp add: recovered_def head_homes_def install_blocks_def)

lemma recovered_put:
  assumes "D (head_blk st) = put_head hs d" "length d = BSIZE" "homes_ok st ls N hs" "distinct hs"
  shows "i < length hs \<Longrightarrow> recovered st D (hs ! i) = D (log_blk st i)"
    and "x \<notin> set hs \<Longrightarrow> x \<noteq> head_blk st \<Longrightarrow> recovered st D x = D x"
proof -
  have hs: "head_homes st D = hs" using assms by (intro head_of_put(2)) (auto simp: homes_ok_def)
  show "i < length hs \<Longrightarrow> recovered st D (hs ! i) = D (log_blk st i)"
    using install_home [OF assms(3,4)] homes_not_log(1) [OF assms(3), of "hs ! i"] by (simp add: recovered_def hs Let_def)
  show "x \<notin> set hs \<Longrightarrow> x \<noteq> head_blk st \<Longrightarrow> recovered st D x = D x"
    by (simp add: recovered_def hs Let_def install_other)
qed

section \<open>The operations on the cache\<close>

text \<open>The log in memory holds the transaction \<open>hs\<close>.\<close>

definition log_holds :: "kstate \<Rightarrow> u32 list \<Rightarrow> bool" where
  "log_holds s hs \<longleftrightarrow> log_dev (log s) = 1 \<and> lh_n (lh (log s)) = int (length hs) \<and> length (lh_block (lh (log s))) = nat LOGSIZE
     \<and> map word_of_int (take (length hs) (lh_block (lh (log s)))) = hs
     \<and> homes_ok (log_start (log s)) (log_size (log s)) (disksize s) hs"

lemma log_holds_rest: "bio_rest s t \<Longrightarrow> log_holds t hs = log_holds s hs"
  by (simp add: log_holds_def bio_rest_sel)

lemma upd_log_frame [simp]: "bio_inv (upd_log f s) n H = bio_inv s n H" "cache_view_of (upd_log f s) = cache_view_of s"
  "lview (upd_log f s) = lview s" "dirty_blocks (upd_log f s) = dirty_blocks s" "bcache (upd_log f s) = bcache s"
  "memdisk (upd_log f s) = memdisk s" "disk_writes (upd_log f s) = disk_writes s" "disksize (upd_log f s) = disksize s"
proof -
  have c: "bcache (upd_log f s) = bcache s" "memdisk (upd_log f s) = memdisk s" "disk_writes (upd_log f s) = disk_writes s"
    "disksize (upd_log f s) = disksize s" "sleeplocks (upd_log f s) = sleeplocks s" "quiet (upd_log f s) n = quiet s n"
    by (simp_all add: upd_log_def quiet_def)
  then show "bio_inv (upd_log f s) n H = bio_inv s n H" using bio_inv_cong [of "upd_log f s" n s H] by (auto simp: bio_inv_def)
  show "cache_view_of (upd_log f s) = cache_view_of s" "lview (upd_log f s) = lview s" "dirty_blocks (upd_log f s) = dirty_blocks s"
    using bio_cong [of "upd_log f s" s] c by (simp_all add: cache_view_of_def)
qed (simp_all add: upd_log_def)

lemma bio_rest_upd_log: "bio_rest s t \<Longrightarrow> bio_rest (upd_log f s) (upd_log f t)"
  unfolding bio_rest_def [of s t]
proof (elim exE conjE, hypsubst)
  fix h bc md dw and pt :: "proc list" and sl
  assume "map pid pt = map pid (ptable s)" "\<forall>k. sl (Inode_sleeplock k) = sleeplocks s (Inode_sleeplock k)"
  then show "bio_rest (upd_log f s) (upd_log f (s\<lparr>hw := h, ptable := pt, sleeplocks := sl, bcache := bc, memdisk := md, disk_writes := dw\<rparr>))"
    by (intro bio_restI) (simp_all add: upd_log_def)
qed

lemma lh_entry_ok:
  assumes "log_holds s hs" "i < length hs"
  shows "lh_entry i s f = f (hs ! i)"
proof -
  have len: "length hs < 30" "length (lh_block (lh (log s))) = 30" using assms(1) by (simp_all add: log_holds_def homes_ok_def)
  have "hs ! i = map word_of_int (take (length hs) (lh_block (lh (log s)))) ! i" using assms(1) by (simp add: log_holds_def)
  also have "\<dots> = word_of_int (lh_block (lh (log s)) ! i)" using len assms(2) by simp
  finally show ?thesis using len assms(2) by (simp add: lh_entry_def)
qed

lemma install_one_ok:
  assumes inv: "bio_inv s n {}" and lg: "log_holds s hs" and i: "i < length hs"
    and room: "card (dirty_blocks s) < NBUF" "hs ! i \<in> dirty_blocks s \<or> card (dirty_blocks s) + 1 < NBUF"
  shows "returns (install_one i s) (\<lambda>_ t. bio_inv t n {} \<and> bio_rest s t
    \<and> cache_view_of t = cv_put (hs ! i) (lview s (log_blk (log_start (log s)) i)) (cache_view_of s))"
proof -
  let ?l = "log_blk (log_start (log s)) i"
  have ok: "homes_ok (log_start (log s)) (log_size (log s)) (disksize s) hs" and dev: "log_dev (log s) = 1"
    using lg by (simp_all add: log_holds_def)
  have ne: "?l \<noteq> hs ! i" and a: "unat ?l < disksize s" "unat (hs ! i) < disksize s"
    using homes_blk(6) [OF ok i] homes_not_log(2) [OF ok, of "hs ! i" i] i ok by (auto simp: homes_ok_def)
  obtain l t d u where r: "bread 1 ?l s = Ret l t" "bio_rest s t" "bread 1 (hs ! i) t = Ret d u" "bio_inv u n {d, l}" "d \<noteq> l"
    "b_blockno (bcache u ! d) = hs ! i" "b_blockno (bcache u ! l) = ?l" "b_data (bcache u ! l) = lview s ?l"
    "cache_view_of u = cache_view_of s" "bio_rest t u"
    by (rule bc.read_two [OF inv a ne, unfolded view_sel, OF room])
  have eq: "lview u = lview s" "memdisk u = memdisk s" "dirty_blocks u = dirty_blocks s"
    using r(9) by (metis view_sel)+
  note tl = bc.copy_tail [OF r(4,5), of "hs ! i" ?l, simplified, OF r(6,7)]
  have "install_one i s = bnd (bwrite d (set_data d (b_data (bcache u ! l)) u)) (\<lambda>_ s. bnd (brelse l s) (\<lambda>_ s. brelse d s))"
    using r(1,3) dev log_holds_rest [OF r(2), of hs] lg i bio_rest_sel(2) [OF r(2)]
    by (simp add: install_one_def log_blk_def Let_def lh_entry_ok [where hs = hs])
  moreover have "bio_rest s v" if "bio_rest u v" for v using bio_rest_trans [OF bio_rest_trans [OF r(2,10)] that] .
  ultimately show ?thesis
    using tl r(8,9) eq ne bc.clean_or_dirty [OF inv, of ?l] by (auto elim!: returns_mono)
qed

lemma write_one_ok:
  assumes inv: "bio_inv s n {}" and lg: "log_holds s hs" and i: "i < length hs"
    and room: "card (dirty_blocks s) < NBUF" "hs ! i \<in> dirty_blocks s \<or> card (dirty_blocks s) + 1 < NBUF"
  shows "returns (write_one i s) (\<lambda>_ t. bio_inv t n {} \<and> bio_rest s t
    \<and> cache_view_of t = cv_put (log_blk (log_start (log s)) i) (lview s (hs ! i)) (cache_view_of s))"
proof -
  let ?l = "log_blk (log_start (log s)) i"
  have ok: "homes_ok (log_start (log s)) (log_size (log s)) (disksize s) hs" and dev: "log_dev (log s) = 1"
    using lg by (simp_all add: log_holds_def)
  have ne: "?l \<noteq> hs ! i" and a: "unat ?l < disksize s" "unat (hs ! i) < disksize s"
    using homes_blk(6) [OF ok i] homes_not_log(2) [OF ok, of "hs ! i" i] i ok by (auto simp: homes_ok_def)
  obtain l t d u where r: "bread 1 ?l s = Ret l t" "bio_rest s t" "bread 1 (hs ! i) t = Ret d u" "bio_inv u n {d, l}" "d \<noteq> l"
    "b_blockno (bcache u ! d) = hs ! i" "b_data (bcache u ! d) = lview s (hs ! i)" "b_blockno (bcache u ! l) = ?l"
    "cache_view_of u = cache_view_of s" "bio_rest t u"
    by (rule bc.read_two [OF inv a ne, unfolded view_sel, OF room])
  have eq: "lview u = lview s" "memdisk u = memdisk s" "dirty_blocks u = dirty_blocks s"
    using r(9) by (metis view_sel)+
  note tl = bc.copy_tail [OF _ r(5) [symmetric], of u n ?l "hs ! i", simplified, OF _ r(8,6)]
  have "write_one i s = bnd (bwrite l (set_data l (b_data (bcache u ! d)) u)) (\<lambda>_ s. bnd (brelse d s) (\<lambda>_ s. brelse l s))"
    using r(1,3) dev log_holds_rest [OF r(2), of hs] lg i bio_rest_sel(2) [OF r(2)]
    by (simp add: write_one_def log_blk_def Let_def lh_entry_ok [where hs = hs])
  moreover have "bio_rest s v" if "bio_rest u v" for v using bio_rest_trans [OF bio_rest_trans [OF r(2,10)] that] .
  ultimately show ?thesis
    using tl r(4,7,9) eq ne bc.clean_or_dirty [OF inv, of "hs ! i"] by (auto simp: insert_commute elim!: returns_mono)
qed

text \<open>A sequence of blocks written through the cache.\<close>

definition put_all :: "(u32 \<times> block) list \<Rightarrow> cache_view \<Rightarrow> cache_view" where
  "put_all W c = fold (\<lambda>(x, d). cv_put x d) W c"

lemma apply_writes_simps [simp]: "apply_writes [] D = D" "apply_writes (W @ W') D = apply_writes W' (apply_writes W D)"
  "apply_writes ((x, d) # W) D = apply_writes W (D(x := d))"
  by (simp_all add: apply_writes_def)

lemma put_all_simps [simp]: "put_all [] c = c" "put_all (W @ W') c = put_all W' (put_all W c)" "put_all ((x, d) # W) c = put_all W (cv_put x d c)"
  by (simp_all add: put_all_def)

lemma put_all_sel [simp]:
  "cv_view (put_all W c) = apply_writes W (cv_view c)" "cv_disk (put_all W c) = apply_writes W (cv_disk c)"
  "cv_writes (put_all W c) = cv_writes c @ W" "cv_dirty (put_all W c) = cv_dirty c - fst ` set W"
proof (induction W rule: rev_induct)
  case (snoc p W)
  { case 1 then show ?case using snoc by (cases p) simp }
  { case 2 then show ?case using snoc by (cases p) simp }
  { case 3 then show ?case using snoc by (cases p) simp }
  { case 4 then show ?case using snoc by (cases p) auto }
qed simp_all

lemma apply_writes_other: "x \<notin> fst ` set W \<Longrightarrow> apply_writes W D x = D x"
  by (induction W rule: rev_induct) (auto split: prod.splits)

lemma apply_writes_in:
  "distinct (map fst W) \<Longrightarrow> (x, d) \<in> set W \<Longrightarrow> apply_writes W D x = d"
proof (induction W rule: rev_induct)
  case (snoc p W)
  then show ?case by (cases p) (auto simp: rev_image_eqI)
qed simp

definition log_writes :: "int \<Rightarrow> u32 list \<Rightarrow> disk \<Rightarrow> nat \<Rightarrow> (u32 \<times> block) list" where
  "log_writes st hs V k = map (\<lambda>i. (log_blk st i, V (hs ! i))) [0..<k]"

definition home_writes :: "int \<Rightarrow> u32 list \<Rightarrow> disk \<Rightarrow> nat \<Rightarrow> (u32 \<times> block) list" where
  "home_writes st hs V k = map (\<lambda>i. (hs ! i, V (log_blk st i))) [0..<k]"

lemma writes_Suc: "log_writes st hs V (Suc k) = log_writes st hs V k @ [(log_blk st k, V (hs ! k))]"
  "home_writes st hs V (Suc k) = home_writes st hs V k @ [(hs ! k, V (log_blk st k))]"
  by (simp_all add: log_writes_def home_writes_def)

lemma writes_keys: "fst ` set (log_writes st hs V k) = log_blk st ` {..<k}"
  "k \<le> length hs \<Longrightarrow> fst ` set (home_writes st hs V k) = set (take k hs)"
proof -
  show "fst ` set (log_writes st hs V k) = log_blk st ` {..<k}" by (simp add: log_writes_def image_image lessThan_atLeast0)
  assume "k \<le> length hs"
  then have "map fst (home_writes st hs V k) = take k hs" by (intro nth_equalityI) (simp_all add: home_writes_def)
  then show "fst ` set (home_writes st hs V k) = set (take k hs)" by (metis set_map)
qed

lemma write_log_ok:
  assumes inv: "bio_inv s n {}" and lg: "log_holds s hs" and d: "dirty_blocks s = set hs"
  shows "returns (write_log s) (\<lambda>_ t. bio_inv t n {} \<and> bio_rest s t
    \<and> cache_view_of t = put_all (log_writes (log_start (log s)) hs (lview s) (length hs)) (cache_view_of s))"
proof -
  let ?st = "log_start (log s)"
  have ok: "homes_ok ?st (log_size (log s)) (disksize s) hs" and n: "nat (lh_n (lh (log s))) = length hs"
    using lg by (simp_all add: log_holds_def)
  have hl: "h \<notin> log_blk ?st ` {..<k}" if "k \<le> length hs" "h \<in> set hs" for h k using that homes_not_log(2) [OF ok that(2)] by (metis imageE lessThan_iff order_less_le_trans)
  have "returns (for_each write_one [0..<length hs] s) (\<lambda>_ t. bio_inv t n {} \<and> bio_rest s t
    \<and> cache_view_of t = put_all (log_writes ?st hs (lview s) (length hs)) (cache_view_of s))"
  proof (rule for_each_upto, use inv in \<open>simp add: log_writes_def\<close>)
    fix k t assume k: "k < length hs" and t: "bio_inv t n {} \<and> bio_rest s t \<and> cache_view_of t = put_all (log_writes ?st hs (lview s) k) (cache_view_of s)"
    have dt: "dirty_blocks t = set hs" and v: "lview t (hs ! k) = lview s (hs ! k)" and l: "log t = log s"
    proof -
      have "dirty_blocks t = cv_dirty (cache_view_of t)" by simp
      also have "\<dots> = set hs - log_blk ?st ` {..<k}" using t d by (simp add: writes_keys)
      also have "\<dots> = set hs" using hl [of k] k by auto
      finally show "dirty_blocks t = set hs" .
      have "lview t (hs ! k) = cv_view (cache_view_of t) (hs ! k)" by simp
      also have "\<dots> = lview s (hs ! k)" using t hl [of k "hs ! k"] k by (simp add: apply_writes_other writes_keys)
      finally show "lview t (hs ! k) = lview s (hs ! k)" .
      show "log t = log s" using t bio_rest_sel(2) by blast
    qed
    have "card (dirty_blocks t) < NBUF" using ok card_length [of hs] by (auto simp: dt homes_ok_def)
    moreover have "log_holds t hs" using t lg log_holds_rest by blast
    ultimately show "returns (write_one k t) (\<lambda>_ u. bio_inv u n {} \<and> bio_rest s u
        \<and> cache_view_of u = put_all (log_writes ?st hs (lview s) (Suc k)) (cache_view_of s))"
      using write_one_ok [of t n hs k] t k dt v l by (auto simp: writes_Suc elim!: returns_mono intro: bio_rest_trans)
  qed
  then show ?thesis by (simp add: write_log_def n)
qed

lemma install_trans_ok:
  assumes inv: "bio_inv s n {}" and lg: "log_holds s hs"
    and d: "dirty_blocks s = {} \<or> dirty_blocks s = set hs \<and> distinct hs"
  shows "returns (install_trans s) (\<lambda>_ t. bio_inv t n {} \<and> bio_rest s t
    \<and> cache_view_of t = put_all (home_writes (log_start (log s)) hs (lview s) (length hs)) (cache_view_of s))"
proof -
  let ?st = "log_start (log s)"
  have ok: "homes_ok ?st (log_size (log s)) (disksize s) hs" and n: "nat (lh_n (lh (log s))) = length hs"
    using lg by (simp_all add: log_holds_def)
  have len: "length hs < NBUF" using ok by (simp add: homes_ok_def)
  have "returns (for_each install_one [0..<length hs] s) (\<lambda>_ t. bio_inv t n {} \<and> bio_rest s t
    \<and> cache_view_of t = put_all (home_writes ?st hs (lview s) (length hs)) (cache_view_of s))"
  proof (rule for_each_upto, use inv in \<open>simp add: home_writes_def\<close>)
    fix k t assume k: "k < length hs" and t: "bio_inv t n {} \<and> bio_rest s t \<and> cache_view_of t = put_all (home_writes ?st hs (lview s) k) (cache_view_of s)"
    have "dirty_blocks t = cv_dirty (cache_view_of t)" by simp
    also have "\<dots> = dirty_blocks s - set (take k hs)" using t k by (simp add: writes_keys)
    finally have dt: "dirty_blocks t = dirty_blocks s - set (take k hs)" .
    have "log_blk ?st k \<notin> set (take k hs)"
      using homes_not_log(2) [OF ok, of "log_blk ?st k" k] k by (auto dest: in_set_takeD)
    moreover have "lview t (log_blk ?st k) = cv_view (cache_view_of t) (log_blk ?st k)" by simp
    ultimately have v: "lview t (log_blk ?st k) = lview s (log_blk ?st k)" using t k by (simp add: apply_writes_other writes_keys)
    have l: "log t = log s" using t bio_rest_sel(2) by blast
    have "hs ! k \<notin> set (take k hs)" if "distinct hs"
      using that k by (auto simp: in_set_conv_nth nth_eq_iff_index_eq)
    then have "dirty_blocks t = {} \<or> hs ! k \<in> dirty_blocks t" using d dt k by auto
    moreover have "card (dirty_blocks t) \<le> length hs" if "dirty_blocks t \<noteq> {}"
      using d dt card_mono [of "set hs" "dirty_blocks t"] card_length [of hs] that by auto
    ultimately have "card (dirty_blocks t) < NBUF" "hs ! k \<in> dirty_blocks t \<or> card (dirty_blocks t) + 1 < NBUF"
      using len by force+
    moreover have "log_holds t hs" using t lg log_holds_rest by blast
    ultimately show "returns (install_one k t) (\<lambda>_ u. bio_inv u n {} \<and> bio_rest s u
        \<and> cache_view_of u = put_all (home_writes ?st hs (lview s) (Suc k)) (cache_view_of s))"
      using install_one_ok [of t n hs k] t k v l by (auto simp: writes_Suc elim!: returns_mono intro: bio_rest_trans)
  qed
  then show ?thesis by (simp add: install_trans_def n)
qed

lemma log_holds_nil: "log_holds s hs \<Longrightarrow> log_holds (upd_lh (\<lambda>h. h\<lparr>lh_n := 0\<rparr>) s) []"
  by (auto simp: log_holds_def upd_lh_def upd_log_def homes_ok_def)

lemma write_head_ok:
  assumes inv: "bio_inv s n {}" and lg: "log_holds s hs" and room: "card (dirty_blocks s) < NBUF"
  shows "returns (write_head s) (\<lambda>_ t. bio_inv t n {} \<and> bio_rest s t
    \<and> cache_view_of t = put_all [(head_blk (log_start (log s)), put_head hs (lview s (head_blk (log_start (log s)))))] (cache_view_of s))"
proof -
  let ?b = "head_blk (log_start (log s))"
  have ok: "homes_ok (log_start (log s)) (log_size (log s)) (disksize s) hs" and dev: "log_dev (log s) = 1"
    and n: "lh_n (lh (log s)) = int (length hs)" "map word_of_int (take (length hs) (lh_block (lh (log s)))) = hs"
    using lg by (simp_all add: log_holds_def)
  have "unat ?b < disksize s" using homes_blk(5) [OF ok] .
  then obtain b t where bt: "bread 1 ?b s = Ret b t" "bio_rest s t" using bread_ok [OF inv, of ?b] room
    by (auto simp: bio_same_def elim!: returnsE)
  have "write_head s = bnd (bread 1 ?b s) (\<lambda>b s. bnd (bwrite b (set_data b (put_head hs (b_data (bcache s ! b))) s)) (\<lambda>_ s. brelse b s))"
    using bt dev n bio_rest_sel(2) [OF bt(2)] by (simp add: write_head_def head_blk_def Let_def put_head_def)
  then show ?thesis using bc.rewrite_block [OF inv, of ?b "put_head hs"] homes_blk(5) [OF ok] room by (simp add: put_all_def)
qed

text \<open>The writes of a commit, in order.\<close>

definition commit_writes :: "int \<Rightarrow> u32 list \<Rightarrow> disk \<Rightarrow> (u32 \<times> block) list" where
  "commit_writes st hs V = log_writes st hs V (length hs) @ [(head_blk st, put_head hs (V (head_blk st)))]
     @ map (\<lambda>h. (h, V h)) hs @ [(head_blk st, put_head [] (put_head hs (V (head_blk st))))]"

lemma apply_writes_log:
  assumes "homes_ok st ls N hs" "k \<le> length hs"
  shows "i < k \<Longrightarrow> apply_writes (log_writes st hs V k) D (log_blk st i) = V (hs ! i)"
    "apply_writes (log_writes st hs V k) D (head_blk st) = D (head_blk st)"
    "\<not> in_log st ls x \<Longrightarrow> apply_writes (log_writes st hs V k) D x = D x"
proof -
  have "inj_on (log_blk st) {0..<k}"
  proof (rule inj_onI, rule ccontr)
    fix i j assume "i \<in> {0..<k}" "j \<in> {0..<k}" "log_blk st i = log_blk st j" "i \<noteq> j"
    then show False using homes_blk(8) [OF assms(1), of i j] assms(2) by simp
  qed
  then have d: "distinct (map fst (log_writes st hs V k))" by (simp add: log_writes_def comp_def distinct_map)
  show "i < k \<Longrightarrow> apply_writes (log_writes st hs V k) D (log_blk st i) = V (hs ! i)"
    by (rule apply_writes_in [OF d]) (simp add: log_writes_def)
  have no: "x \<notin> fst ` set (log_writes st hs V k)" if "\<And>i. i < length hs \<Longrightarrow> x \<noteq> log_blk st i" for x
    using that assms(2) unfolding writes_keys(1) by (metis imageE lessThan_iff order_less_le_trans)
  show "apply_writes (log_writes st hs V k) D (head_blk st) = D (head_blk st)"
    by (rule apply_writes_other, rule no) (metis homes_blk(7) [OF assms(1)])
  show "\<not> in_log st ls x \<Longrightarrow> apply_writes (log_writes st hs V k) D x = D x"
    by (rule apply_writes_other, rule no) (metis homes_blk(4) [OF assms(1)])
qed

lemma commit_ok:
  assumes inv: "bio_inv s n {}" and lg: "log_holds s hs" and d: "dirty_blocks s = set hs" "distinct hs" "hs \<noteq> []"
  shows "returns (commit s) (\<lambda>_ t. bio_inv t n {} \<and> bio_rest (upd_lh (\<lambda>h. h\<lparr>lh_n := 0\<rparr>) s) t
    \<and> cache_view_of t = put_all (commit_writes (log_start (log s)) hs (lview s)) (cache_view_of s))"
proof -
  let ?st = "log_start (log s)" and ?h = "head_blk (log_start (log s))" and ?V = "lview s"
  have ok: "homes_ok ?st (log_size (log s)) (disksize s) hs" and n: "lh_n (lh (log s)) > 0"
    using lg d(3) by (simp_all add: log_holds_def)
  have len: "card (set hs) < NBUF" using ok card_length [of hs] by (simp add: homes_ok_def)
  have hn: "?h \<notin> set hs" using homes_not_log(1) [OF ok] by blast
  obtain t where t: "write_log s = Ret () t" "bio_inv t n {}" "bio_rest s t"
    "cache_view_of t = put_all (log_writes ?st hs ?V (length hs)) (cache_view_of s)"
    using write_log_ok [OF inv lg d(1)] by (auto elim!: returnsE)
  have ltd: "fst ` set (log_writes ?st hs ?V (length hs)) \<inter> set hs = {}"
    using homes_not_log(2) [OF ok] by (auto simp: writes_keys)
  have "cv_dirty (cache_view_of t) = set hs" using t(4) d(1) ltd by auto
  then have dt: "dirty_blocks t = set hs" by simp
  have lt: "log_holds t hs" "log t = log s" using log_holds_rest [OF t(3)] lg bio_rest_sel(2) [OF t(3)] by simp_all
  have "cv_view (cache_view_of t) ?h = ?V ?h" using t(4) apply_writes_log(2) [OF ok order_refl] by simp
  then have "lview t ?h = ?V ?h" by simp
  then obtain u where u: "write_head t = Ret () u" "bio_inv u n {}" "bio_rest t u"
    "cache_view_of u = put_all [(?h, put_head hs (?V ?h))] (cache_view_of t)"
    using write_head_ok [OF t(2) lt(1)] lt(2) dt len by (auto elim!: returnsE)
  have "cv_dirty (cache_view_of u) = set hs" using u(4) dt hn by simp
  then have du: "dirty_blocks u = set hs" by simp
  have lu: "log_holds u hs" "log u = log s" using log_holds_rest [OF u(3)] lt bio_rest_sel(2) [OF u(3)] by simp_all
  have "cv_view (cache_view_of u) (log_blk ?st i) = ?V (hs ! i)" if "i < length hs" for i
    using t(4) u(4) that apply_writes_log(1) [OF ok order_refl that] homes_blk(7) [OF ok that] by simp
  then have "lview u (log_blk ?st i) = ?V (hs ! i)" if "i < length hs" for i using that by simp
  then have hw: "home_writes ?st hs (lview u) (length hs) = map (\<lambda>h. (h, ?V h)) hs"
    by (intro nth_equalityI) (simp_all add: home_writes_def)
  obtain v where v: "install_trans u = Ret () v" "bio_inv v n {}" "bio_rest u v"
    "cache_view_of v = put_all (map (\<lambda>h. (h, ?V h)) hs) (cache_view_of u)"
    using install_trans_ok [OF u(2) lu(1)] du d(2) lu(2) hw by (auto elim!: returnsE)
  have "cv_dirty (cache_view_of v) = {}" using v(4) du by (simp add: image_image)
  then have dv: "dirty_blocks v = {}" by simp
  have hv: "?h \<notin> fst ` set (map (\<lambda>h. (h, ?V h)) hs)" using hn by (simp add: image_image)
  have "cv_view (cache_view_of v) ?h = put_head hs (?V ?h)" using v(4) u(4) by (simp add: apply_writes_other [OF hv])
  then have vh: "lview v ?h = put_head hs (?V ?h)" by simp
  let ?w = "upd_lh (\<lambda>h. h\<lparr>lh_n := 0\<rparr>) v"
  have rsv: "bio_rest s v" using bio_rest_trans [OF t(3) bio_rest_trans [OF u(3) v(3)]] .
  have "log_holds v hs" "log v = log s" using log_holds_rest [OF rsv] lg bio_rest_sel(2) [OF rsv] by simp_all
  then have lw: "log_holds ?w []" "log_start (log ?w) = ?st" by (simp add: log_holds_nil, simp add: upd_lh_def upd_log_def)
  have w: "bio_inv ?w n {}" "cache_view_of ?w = cache_view_of v" "dirty_blocks ?w = {}" "lview ?w ?h = put_head hs (?V ?h)"
    using v(2) dv vh by (simp_all add: upd_lh_def)
  obtain x where x: "write_head ?w = Ret () x" "bio_inv x n {}" "bio_rest ?w x"
    "cache_view_of x = put_all [(?h, put_head [] (put_head hs (?V ?h)))] (cache_view_of v)"
    using write_head_ok [OF w(1) lw(1)] lw(2) w by (auto elim!: returnsE)
  have "commit s = Ret () x" using n t(1) u(1) v(1) x(1) by (simp add: commit_def)
  moreover have "bio_rest (upd_lh (\<lambda>h. h\<lparr>lh_n := 0\<rparr>) s) x"
    using bio_rest_trans [OF _ x(3)] bio_rest_upd_log [OF rsv] by (simp add: upd_lh_def)
  ultimately show ?thesis using x t(4) u(4) v(4) by (simp add: commit_writes_def)
qed

section \<open>Crashes during a commit\<close>

text \<open>
  A disk whose log has an empty header, and a transaction of blocks that differ
  from it in \<open>V\<close>: after any number of the writes of the commit, recovery yields
  the old content of all blocks or the new content of all blocks.
\<close>

lemma crash_before_head:
  assumes ok: "homes_ok st ls N hs" and D: "head_n st D = 0" and j: "j \<le> length hs"
  shows "same_data st ls (recovered st (apply_writes (take j (commit_writes st hs V)) D)) D"
proof -
  have t: "take j (commit_writes st hs V) = log_writes st hs V j"
    using j by (simp add: commit_writes_def log_writes_def take_map)
  let ?D = "apply_writes (log_writes st hs V j) D"
  have "head_n st ?D = 0" using D apply_writes_log(2) [OF ok j] by (simp add: head_n_def)
  then show ?thesis
    using apply_writes_log(3) [OF ok j] homes_blk(3) [OF ok] by (auto simp: t same_data_def recovered_empty)
qed

lemma apply_homes:
  assumes "distinct hs"
  shows "apply_writes (map (\<lambda>h. (h, V h)) hs) D x = (if x \<in> set hs then V x else D x)"
proof (cases "x \<in> set hs")
  case True
  then show ?thesis using assms by (auto intro!: apply_writes_in simp: comp_def)
qed (auto intro!: apply_writes_other)

lemma crash_after_head:
  assumes ok: "homes_ok st ls N hs" and d: "distinct hs" and V: "length (V (head_blk st)) = BSIZE" "\<And>x. x \<notin> set hs \<Longrightarrow> V x = D x"
    and k: "k \<le> length hs"
  shows "same_data st ls (recovered st (apply_writes (log_writes st hs V (length hs) @ [(head_blk st, put_head hs (V (head_blk st)))]
    @ map (\<lambda>h. (h, V h)) (take k hs)) D)) V"
proof -
  let ?h = "head_blk st" and ?H = "put_head hs (V (head_blk st))"
  let ?D = "apply_writes (log_writes st hs V (length hs) @ [(?h, ?H)] @ map (\<lambda>h. (h, V h)) (take k hs)) D"
  have D: "?D x = (if x \<in> set (take k hs) then V x else if x = ?h then ?H else apply_writes (log_writes st hs V (length hs)) D x)" for x
    using apply_homes [of "take k hs"] d by simp
  have n: "x \<noteq> ?h" "x \<noteq> log_blk st i" if "x \<in> set (take k hs)" "i < length hs" for x i
    using that homes_not_log(1) [OF ok, of x] homes_not_log(2) [OF ok, of x i] by (auto dest: in_set_takeD)
  have Dh: "?D ?h = ?H" unfolding D using homes_not_log(1) [OF ok, of ?h] by (auto dest: in_set_takeD)
  have Dl: "?D (log_blk st i) = V (hs ! i)" if "i < length hs" for i
    unfolding D using n(2) [OF _ that] homes_blk(7) [OF ok that] apply_writes_log(1) [OF ok order_refl that] by auto
  note r = recovered_put [where D = ?D, OF Dh V(1) ok d]
  show ?thesis unfolding same_data_def
  proof (intro allI impI)
    fix x assume x: "\<not> in_log st ls x"
    show "recovered st ?D x = V x"
    proof (cases "x \<in> set hs")
      case True
      then obtain i where "i < length hs" "x = hs ! i" by (auto simp: in_set_conv_nth)
      then show ?thesis using r(1) Dl by simp
    next
      case False
      then have "x \<notin> set (take k hs)" "x \<noteq> ?h" using x homes_blk(3) [OF ok] by (auto dest: in_set_takeD)
      then show ?thesis using r(2) [OF False] D V(2) [OF False] apply_writes_log(3) [OF ok order_refl x] by simp
    qed
  qed
qed

lemma crash_after_clear:
  assumes ok: "homes_ok st ls N hs" and d: "distinct hs" and V: "length (V (head_blk st)) = BSIZE" "\<And>x. x \<notin> set hs \<Longrightarrow> V x = D x"
  shows "head_n st (apply_writes (commit_writes st hs V) D) = 0"
    "same_data st ls (apply_writes (commit_writes st hs V) D) V"
    "same_data st ls (recovered st (apply_writes (commit_writes st hs V) D)) V"
proof -
  let ?h = "head_blk st" and ?D = "apply_writes (commit_writes st hs V) D"
  have D: "?D x = (if x = ?h then put_head [] (put_head hs (V ?h)) else if x \<in> set hs then V x
      else apply_writes (log_writes st hs V (length hs)) D x)" for x
    by (auto simp: commit_writes_def apply_homes [OF d])
  have "length (put_head hs (V ?h)) = BSIZE" using V(1) by (simp add: put_head_def)
  then show h: "head_n st ?D = 0" using head_of_put(1) [of ?D st "[]" "put_head hs (V ?h)"] D by simp
  show s: "same_data st ls ?D V" unfolding same_data_def
  proof (intro allI impI)
    fix x assume x: "\<not> in_log st ls x"
    then have "x \<noteq> ?h" using homes_blk(3) [OF ok] by auto
    then show "?D x = V x" unfolding D using V(2) apply_writes_log(3) [OF ok order_refl x] by auto
  qed
  show "same_data st ls (recovered st ?D) V"
    using s homes_blk(3) [OF ok] unfolding recovered_empty [OF h] by (auto simp: same_data_def)
qed

lemma crash_anywhere:
  assumes ok: "homes_ok st ls N hs" and d: "distinct hs" and D: "head_n st D = 0"
    and V: "length (V (head_blk st)) = BSIZE" "\<And>x. x \<notin> set hs \<Longrightarrow> V x = D x"
    and j: "j \<le> length (commit_writes st hs V)"
  shows "same_data st ls (recovered st (apply_writes (take j (commit_writes st hs V)) D)) (if j \<le> length hs then D else V)"
proof -
  let ?n = "length hs" and ?h = "head_blk st"
  have len: "length (log_writes st hs V ?n) = ?n" "length (commit_writes st hs V) = 2 * ?n + 2"
    by (simp_all add: log_writes_def commit_writes_def)
  consider "j \<le> ?n" | "?n < j" "j \<le> 2 * ?n + 1" | "j = 2 * ?n + 2"
    using j len by linarith
  then show ?thesis
  proof cases
    case 1
    then show ?thesis using crash_before_head [OF ok D 1] by simp
  next
    case 2
    define k where "k = j - Suc ?n"
    then have k: "j = Suc (?n + k)" "k \<le> ?n" using 2 by simp_all
    have "take j (commit_writes st hs V) = log_writes st hs V ?n @ [(?h, put_head hs (V ?h))] @ map (\<lambda>h. (h, V h)) (take k hs)"
      using k len by (simp add: commit_writes_def take_map)
    then show ?thesis using crash_after_head [where V = V and D = D, OF ok d V k(2)] k(1) by simp
  next
    case 3
    then show ?thesis using crash_after_clear(3) [where V = V and D = D, OF ok d V] len by simp
  qed
qed

section \<open>Recovery\<close>

lemma home_writes_install:
  assumes "homes_ok st ls N hs"
  shows "k \<le> length hs \<Longrightarrow> apply_writes (home_writes st hs D k) D = fold (copy_home st hs) [0..<k] D"
proof (induction k)
  case (Suc k)
  have "log_blk st k \<notin> set (take k hs)"
    using homes_not_log(2) [OF assms, of "log_blk st k" k] Suc.prems by (auto dest: in_set_takeD)
  then have "fold (copy_home st hs) [0..<k] D (log_blk st k) = D (log_blk st k)" using Suc.prems by (intro copies_other) auto
  then show ?case using Suc by (simp add: writes_Suc copy_home_def [of st hs k])
qed (simp add: home_writes_def)

lemma read_head_ok:
  assumes inv: "bio_inv s n {}" and d: "dirty_blocks s = {}" and l: "log_dev (log s) = 1" "length (lh_block (lh (log s))) = nat LOGSIZE"
    and h: "0 \<le> head_n (log_start (log s)) (memdisk s)"
      "homes_ok (log_start (log s)) (log_size (log s)) (disksize s) (head_homes (log_start (log s)) (memdisk s))"
  shows "returns (read_head s) (\<lambda>_ t. bio_inv t n {} \<and> cache_view_of t = cache_view_of s
    \<and> log_holds t (head_homes (log_start (log s)) (memdisk s)) \<and> log_start (log t) = log_start (log s)
    \<and> log_size (log t) = log_size (log s) \<and> disksize t = disksize s)"
proof -
  let ?st = "log_start (log s)" and ?D = "memdisk s"
  let ?h = "head_blk ?st" and ?hs = "head_homes ?st ?D"
  have v: "lview s ?h = ?D ?h" using bc.clean_or_dirty [OF inv, of ?h] d by simp
  obtain b t where t: "bread 1 ?h s = Ret b t" "bio_inv t n {b}" "b_blockno (bcache t ! b) = ?h" "b_data (bcache t ! b) = ?D ?h"
    "cache_view_of t = cache_view_of s" "bio_rest s t"
    using bc.rd_law [OF inv, of ?h] homes_blk(5) [OF h(2)] d v by (auto elim!: returnsE)
  let ?n = "head_n ?st ?D"
  have len: "length ?hs = nat ?n" "?n \<le> 30" using h by (auto simp: head_homes_def homes_ok_def)
  let ?f = "\<lambda>h. h\<lparr>lh_n := ?n, lh_block := map (\<lambda>i. sint (ld32 (?D ?h) (4 + 4 * i))) [0..<nat ?n] @ drop (nat ?n) (lh_block h)\<rparr>"
  have eq: "read_head s = brelse b (upd_lh ?f t)"
    using t(1,4) l(1) bio_rest_sel(2) [OF t(6)] len by (simp add: read_head_def head_blk_def head_n_def Let_def)
  have "bio_inv (upd_lh ?f t) n {b}" using t(2) by (simp add: upd_lh_def)
  moreover have "b_data (bcache t ! b) = memdisk t (b_blockno (bcache t ! b))"
    using t(3,4,5) by (metis view_sel(2))
  ultimately obtain u where u: "brelse b (upd_lh ?f t) = Ret () u" "bio_inv u n {}" "cache_view_of u = cache_view_of t" "bio_rest (upd_lh ?f t) u"
    using bc.rel_law [of "upd_lh ?f t" n "{b}" b] by (auto simp: upd_lh_def elim!: returnsE)
  have lg: "log u = (log s)\<lparr>lh := ?f (lh (log s))\<rparr>" "disksize u = disksize s"
    using bio_rest_sel(1,2) [OF u(4)] bio_rest_sel(1,2) [OF t(6)] by (simp_all add: upd_lh_def upd_log_def)
  have "map word_of_int (take (length ?hs) (lh_block (lh (log u)))) = ?hs"
    using len by (simp add: lg head_homes_def comp_def)
  then have "log_holds u ?hs" using lg l h len by (simp add: log_holds_def)
  then show ?thesis using eq u t(5) lg by simp
qed

text \<open>The writes of a recovery, in order.\<close>

definition recover_writes :: "int \<Rightarrow> disk \<Rightarrow> (u32 \<times> block) list" where
  "recover_writes st D = home_writes st (head_homes st D) D (length (head_homes st D))
     @ [(head_blk st, put_head [] (install_blocks st (head_homes st D) D (head_blk st)))]"

lemma recover_ok:
  assumes inv: "bio_inv s n {}" and d: "dirty_blocks s = {}" and l: "log_dev (log s) = 1" "length (lh_block (lh (log s))) = nat LOGSIZE"
    and h: "0 \<le> head_n (log_start (log s)) (memdisk s)"
      "homes_ok (log_start (log s)) (log_size (log s)) (disksize s) (head_homes (log_start (log s)) (memdisk s))"
  shows "returns (recover_from_log s) (\<lambda>_ t. bio_inv t n {} \<and> log_holds t [] \<and> dirty_blocks t = {}
    \<and> memdisk t = recovered (log_start (log s)) (memdisk s) \<and> lview t = memdisk t
    \<and> disk_writes t = disk_writes s @ recover_writes (log_start (log s)) (memdisk s))"
proof -
  let ?st = "log_start (log s)" and ?D = "memdisk s"
  let ?h = "head_blk ?st" and ?hs = "head_homes ?st ?D"
  have vs: "lview s = memdisk s" using bc.clean_or_dirty [OF inv] d by auto
  obtain t where t: "read_head s = Ret () t" "bio_inv t n {}" "cache_view_of t = cache_view_of s" "log_holds t ?hs"
    "log_start (log t) = ?st" using read_head_ok [OF assms] by (auto elim!: returnsE)
  have vt: "lview t = ?D" "dirty_blocks t = {}" using t(3) vs d by (metis view_sel(1), metis view_sel(4))
  obtain u where u: "install_trans t = Ret () u" "bio_inv u n {}" "bio_rest t u"
    "cache_view_of u = put_all (home_writes ?st ?hs ?D (length ?hs)) (cache_view_of t)"
    using install_trans_ok [OF t(2,4)] vt t(5) by (auto elim!: returnsE)
  have ok: "homes_ok ?st (log_size (log t)) (disksize t) ?hs" using t(4,5) by (simp add: log_holds_def)
  have du: "dirty_blocks u = {}" and vu: "lview u = install_blocks ?st ?hs ?D" and mu: "memdisk u = install_blocks ?st ?hs ?D"
    using view_sel(4) [of u] view_sel(1) [of u] view_sel(2) [of u] u(4) vt t(3) vs d home_writes_install [OF ok order_refl, of ?D]
    by (simp_all add: install_blocks_def)
  let ?w = "upd_lh (\<lambda>h. h\<lparr>lh_n := 0\<rparr>) u"
  have lu: "log_holds u ?hs" "log u = log t" using log_holds_rest [OF u(3)] t(4) bio_rest_sel(2) [OF u(3)] by simp_all
  then have lw: "log_holds ?w []" "log_start (log ?w) = ?st" using t(5) by (simp add: log_holds_nil, simp add: upd_lh_def upd_log_def)
  have w: "card (dirty_blocks ?w) < NBUF" "bio_inv ?w n {}" using du u(2) by (simp_all add: upd_lh_def)
  obtain x where x: "write_head ?w = Ret () x" "bio_inv x n {}" "bio_rest ?w x"
    "cache_view_of x = put_all [(?h, put_head [] (lview u ?h))] (cache_view_of u)"
    using write_head_ok [OF w(2) lw(1) w(1)] lw(2) by (auto simp: upd_lh_def elim!: returnsE)
  have "memdisk x = recovered ?st ?D" "lview x = recovered ?st ?D" "dirty_blocks x = {}"
    using view_sel(1) [of x] view_sel(2) [of x] view_sel(4) [of x] x(4) vu mu du
    by (simp_all add: recovered_def Let_def put_head_def)
  moreover have "disk_writes x = disk_writes s @ recover_writes ?st ?D"
    using view_sel(3) [of x] view_sel(3) [of s] x(4) u(4) t(3) vu by (simp add: recover_writes_def)
  moreover have "log_holds x []" using log_holds_rest [OF x(3)] lw(1) by simp
  ultimately show ?thesis using t(1) u(1) x by (simp add: recover_from_log_def)
qed

section \<open>Crashes during recovery\<close>

lemma install_twice:
  assumes ok: "homes_ok st ls N hs" and d: "distinct hs" and k: "k \<le> length hs"
  shows "install_blocks st hs (apply_writes (home_writes st hs D k) D) = install_blocks st hs D"
proof
  fix x
  let ?E = "apply_writes (home_writes st hs D k) D"
  have l: "?E (log_blk st i) = D (log_blk st i)" if "i < length hs" for i
  proof (rule apply_writes_other, subst writes_keys(2) [OF k])
    show "log_blk st i \<notin> set (take k hs)" using homes_not_log(2) [OF ok _ that, of "log_blk st i"] by (auto dest: in_set_takeD)
  qed
  show "install_blocks st hs ?E x = install_blocks st hs D x"
  proof (cases "x \<in> set hs")
    case True
    then obtain i where "i < length hs" "x = hs ! i" by (auto simp: in_set_conv_nth)
    then show ?thesis using install_home [OF ok d] l by simp
  next
    case False
    then have "x \<notin> fst ` set (home_writes st hs D k)" by (auto simp: writes_keys(2) [OF k] dest: in_set_takeD)
    then show ?thesis using False by (simp add: install_other apply_writes_other)
  qed
qed

section \<open>Adding a block to the transaction\<close>

definition log_add :: "u32 \<Rightarrow> u32 list \<Rightarrow> u32 list" where
  "log_add x hs = (if x \<in> set hs then hs else hs @ [x])"

lemma log_add_simps [simp]: "set (log_add x hs) = insert x (set hs)" "distinct (log_add x hs) = distinct hs"
  "length hs \<le> length (log_add x hs)" "length (log_add x hs) \<le> Suc (length hs)"
  by (auto simp: log_add_def)

text \<open>The array with its new entry, as \<open>log_write\<close> computes it.\<close>

lemma log_add_array:
  fixes bs :: "int list" and x :: u32
  assumes "map word_of_int (take (length hs) bs) = hs" "length hs < length bs"
  defines "i \<equiv> (case findi (\<lambda>y. word_of_int y = x) (take (length hs) bs) of Some i \<Rightarrow> i | None \<Rightarrow> length hs)"
  shows "i = length hs \<longleftrightarrow> x \<notin> set hs" "map word_of_int (take (length (log_add x hs)) (bs[i := sint x])) = log_add x hs"
proof -
  have st: "set hs = word_of_int ` set (take (length hs) bs)" using assms(1) by (metis set_map)
  show new: "i = length hs \<longleftrightarrow> x \<notin> set hs"
  proof (cases "findi (\<lambda>y. word_of_int y = x) (take (length hs) bs)")
    case None
    then have "x \<notin> set hs" unfolding st by (auto simp: findi_None_iff)
    then show ?thesis using None by (simp add: i_def)
  next
    case (Some j)
    then have "j < length hs" "word_of_int (take (length hs) bs ! j) = x" "take (length hs) bs ! j \<in> set (take (length hs) bs)"
      using findi_SomeD [OF Some] assms(2) by (simp, simp, blast intro: nth_mem)
    then show ?thesis using Some unfolding st by (auto simp: i_def intro: rev_image_eqI)
  qed
  show "map word_of_int (take (length (log_add x hs)) (bs[i := sint x])) = log_add x hs"
  proof (cases "x \<in> set hs")
    case True
    then have f: "findi (\<lambda>y. word_of_int y = x) (take (length hs) bs) = Some i"
      using new by (auto simp: i_def split: option.splits)
    then have i: "i < length hs" "word_of_int (bs ! i) = x" using findi_SomeD [OF f] by simp_all
    then have "hs ! i = x" using arg_cong [OF assms(1), of "\<lambda>l. l ! i"] assms(2) by simp
    then have "(map word_of_int (take (length hs) bs))[i := x] = hs" using assms(1) by (metis list_update_id)
    then show ?thesis using True by (simp add: log_add_def take_update_swap map_update)
  next
    case False
    then have "i = length hs" using new by simp
    then show ?thesis using False assms(1,2) by (simp add: log_add_def take_Suc_conv_app_nth)
  qed
qed

definition pin :: "nat \<Rightarrow> kstate \<Rightarrow> kstate" where
  "pin b = upd_buf b (\<lambda>q. q\<lparr>b_dirty := True\<rparr>)"

lemma pin_ok:
  assumes "bio_inv s n H" "b \<in> H"
  shows "bio_inv (pin b s) n H" "lview (pin b s) = lview s" "dirty_blocks (pin b s) = insert (b_blockno (bcache s ! b)) (dirty_blocks s)"
proof -
  have q: "quiet (pin b s) n" using assms(1) by (auto simp: bio_inv_def pin_def upd_buf_def quiet_def)
  have h: "held_buf s n b" using assms by (auto simp: bio_inv_def)
  then have "lview s (b_blockno (bcache s ! b)) = b_data (bcache s ! b)"
    by (intro lview_cached [OF assms(1)]) (simp_all add: held_buf_def buf_for_def)
  moreover note ch = held_change [OF assms, of "\<lambda>q. q\<lparr>b_dirty := True\<rparr>" "pin b s"]
  ultimately show "bio_inv (pin b s) n H" "lview (pin b s) = lview s"
    using ch(1,2) q by (simp_all add: pin_def upd_buf_eq fun_upd_idem)
  show "dirty_blocks (pin b s) = insert (b_blockno (bcache s ! b)) (dirty_blocks s)"
    using ch(3) q by (simp add: pin_def upd_buf_eq)
qed

lemma log_write_eq:
  assumes "quiet s n" "log_holds s hs" "length hs < 29" "int (length hs) < log_size (log s) - 1" "outstanding (log s) \<ge> 1"
    "unat (b_blockno (bcache s ! b)) < disksize s" "\<not> in_log (log_start (log s)) (log_size (log s)) (b_blockno (bcache s ! b))"
  obtains g where "log_write b s = Ret () (pin b (upd_lh g (s\<lparr>hw := touch (hw s)\<rparr>)))"
    "log_holds (upd_lh g s) (log_add (b_blockno (bcache s ! b)) hs)"
proof -
  let ?x = "b_blockno (bcache s ! b)" and ?h = "lh (log s)"
  let ?i = "case findi (\<lambda>y. word_of_int y = ?x) (take (length hs) (lh_block ?h)) of Some i \<Rightarrow> i | None \<Rightarrow> length hs"
  have l: "lh_n ?h = int (length hs)" "length (lh_block ?h) = 30" "map word_of_int (take (length hs) (lh_block ?h)) = hs"
    "homes_ok (log_start (log s)) (log_size (log s)) (disksize s) hs" "log_dev (log s) = 1"
    using assms(2) by (simp_all add: log_holds_def)
  have len: "length hs < length (lh_block ?h)" using l assms(3) by simp
  define i where "i = ?i"
  note a = log_add_array [OF l(3) len, of ?x, folded i_def]
  let ?g = "\<lambda>h. if i = length hs then h\<lparr>lh_block := (lh_block h)[i := sint ?x], lh_n := lh_n h + 1\<rparr>
     else h\<lparr>lh_block := (lh_block h)[i := sint ?x]\<rparr>"
  have i: "(case findi (\<lambda>y. word_of_int y = ?x) (take (length hs) (lh_block ?h)) of Some i \<Rightarrow> i | None \<Rightarrow> nat (int (length hs))) = i"
    by (simp add: i_def cong: option.case_cong)
  have "log_write b s = Ret () (pin b (upd_lh ?g (s\<lparr>hw := touch (hw s)\<rparr>)))"
    using assms(3-5) l(1) quietD [OF assms(1)]
    by (simp add: log_write_def Let_def lock_simps upd_lh_def upd_log_def upd_buf_def pin_def i)
  moreover have "homes_ok (log_start (log s)) (log_size (log s)) (disksize s) (log_add ?x hs)"
    using l(4) assms(3,4,6,7) by (auto simp: homes_ok_def log_add_def)
  then have "log_holds (upd_lh ?g s) (log_add ?x hs)"
    using l(1,2,5) a by (simp add: log_holds_def upd_lh_def upd_log_def, simp add: log_add_def)
  ultimately show thesis by (rule that)
qed

section \<open>Properties\<close>

text \<open>
  C1: A transaction is atomic with respect to crashes. \<open>commit\<close> of a non-empty
  transaction returns; its writes reach the disk one after the other, and after any
  number \<open>j\<close> of them recovery yields, outside the log, the disk as it was before the
  transaction or the disk with all of its blocks: the old one up to the write of the
  log header, the new one from then on. When the commit is over the disk holds the
  new content, no block is pinned and the log on the disk is empty again. The
  premises describe the log between two operations: the cache invariant holds, the
  logged blocks are the pinned ones, and the header on the disk is empty.
\<close>

theorem commit_crash_atomic:
  assumes "bio_inv s n {}" "log_holds s hs" "hs \<noteq> []" "distinct hs" "dirty_blocks s = set hs"
    "length (lview s (head_blk (log_start (log s)))) = BSIZE" "head_n (log_start (log s)) (memdisk s) = 0"
  shows "\<exists>t W. commit s = Ret () t \<and> disk_writes t = disk_writes s @ W \<and> memdisk t = apply_writes W (memdisk s)
    \<and> (\<forall>j\<le>length W. same_data (log_start (log s)) (log_size (log s))
         (recovered (log_start (log s)) (apply_writes (take j W) (memdisk s)))
         (if j \<le> length hs then memdisk s else lview s))
    \<and> same_data (log_start (log s)) (log_size (log s)) (memdisk t) (lview s)
    \<and> dirty_blocks t = {} \<and> head_n (log_start (log s)) (memdisk t) = 0"
proof -
  let ?st = "log_start (log s)" and ?ls = "log_size (log s)" and ?V = "lview s" and ?D = "memdisk s"
  let ?W = "commit_writes ?st hs ?V"
  have ok: "homes_ok ?st ?ls (disksize s) hs" using assms(2) by (simp add: log_holds_def)
  have V: "?V x = ?D x" if "x \<notin> set hs" for x using that bc.clean_or_dirty [OF assms(1), of x] assms(5) by auto
  obtain t where t: "commit s = Ret () t" "cache_view_of t = put_all ?W (cache_view_of s)"
    using commit_ok [OF assms(1,2,5,4,3)] by (auto elim!: returnsE)
  have v: "disk_writes t = disk_writes s @ ?W" "memdisk t = apply_writes ?W ?D" "dirty_blocks t = dirty_blocks s - fst ` set ?W"
    using view_sel(2-4) [of t] t(2) by simp_all
  have "set hs \<subseteq> fst ` set ?W" by (auto simp: commit_writes_def image_Un image_image)
  then have "dirty_blocks t = {}" using v(3) assms(5) by auto
  moreover note crash_anywhere [where V = ?V and D = ?D, OF ok assms(4,7,6) V]
  moreover note crash_after_clear(1,2) [where V = ?V and D = ?D, OF ok assms(4,6) V]
  ultimately show ?thesis using t(1) v(1,2) by auto
qed

text \<open>One block in the transaction: buffer 0 holds the new content of block 500.\<close>

definition demo_txn :: kstate where
  "demo_txn = upd_log (\<lambda>l. l\<lparr>log_start := 2, log_size := 30, log_dev := 1, outstanding := 1,
       lh := \<lparr>lh_n = 1, lh_block = 500 # replicate 29 0\<rparr>\<rparr>)
     (upd_buf 0 (\<lambda>q. q\<lparr>b_valid := True, b_dirty := True, b_dev := 1, b_blockno := 500, b_data := replicate BSIZE 7\<rparr>) demo_cache)"

lemma demo_txn_ok: "bio_inv demo_txn 3 {}" "dirty_blocks demo_txn = {500}" "lview demo_txn 500 = replicate BSIZE 7"
  "x \<noteq> 500 \<Longrightarrow> lview demo_txn x = replicate BSIZE 0"
proof -
  let ?t = "upd_buf 0 (\<lambda>q. q\<lparr>b_valid := True, b_dirty := True, b_dev := 1, b_blockno := 500, b_data := replicate BSIZE 7\<rparr>) demo_cache"
  have inv: "quiet demo_cache 3" "length (bcache demo_cache) = 31" "\<And>b. b < 30 \<Longrightarrow> idle_buf demo_cache b"
    using demo_cache_ok(1) by (auto simp: bio_inv_def ring_def)
  obtain L where L: "ring (bcache demo_cache) L" "set L = {..<30}" using demo_cache_ok(1) by (auto simp: bio_inv_def)
  have c: "bcache ?t ! c = (if c = 0 then (bcache demo_cache ! 0)\<lparr>b_valid := True, b_dirty := True, b_dev := 1, b_blockno := 500, b_data := replicate BSIZE 7\<rparr> else bcache demo_cache ! c)" for c
    using inv(2) by (simp add: upd_buf_eq nth_lupd)
  have q: "quiet ?t 3" using inv(1) by (rule quiet_cong) (simp_all add: upd_buf_def)
  have nb: "\<not> buf_for demo_cache x b" for x b
    using demo_cache_zero by (auto simp: buf_for_def)
  have "ring (bcache ?t) L" using ring_lupd [OF L(1), of 0] by (simp add: upd_buf_eq)
  then have r: "\<exists>L. ring (bcache ?t) L \<and> set L = {..<30}" using L(2) by blast
  show i: "bio_inv demo_txn 3 {}" unfolding demo_txn_def upd_log_frame
    by (rule bio_inv_change [OF demo_cache_ok(1) q r, where b = 0])
      (use c nb inv(3) [of 0] in \<open>auto simp: upd_buf_eq idle_buf_def\<close>)
  have b: "bcache demo_txn ! c = bcache ?t ! c" for c by (simp add: demo_txn_def)
  have bf: "buf_for demo_txn x c \<longleftrightarrow> x = 500 \<and> c = 0" for x c
    using nb [of x c] by (auto simp: buf_for_def b c)
  show "dirty_blocks demo_txn = {500}" by (auto simp: dirty_blocks_def bf b c)
  show "lview demo_txn 500 = replicate BSIZE 7" using lview_cached [OF i, of 500 0] bf by (simp add: b c)
  show "x \<noteq> 500 \<Longrightarrow> lview demo_txn x = replicate BSIZE 0"
    by (subst lview_uncached) (use bf in \<open>auto simp: demo_txn_def upd_buf_def\<close>)
qed

lemma demo_txn_log: "log_start (log demo_txn) = 2" "log_size (log demo_txn) = 30" "log_holds demo_txn [500]"
  "head_n 2 (memdisk demo_txn) = 0" "memdisk demo_txn = (\<lambda>_. replicate BSIZE 0)"
  by (simp_all add: demo_txn_def upd_log_def upd_buf_def log_holds_def homes_ok_def in_log_def head_n_def ld32_def)

theorem commit_crash_atomic_witness:
  "\<exists>t W. commit demo_txn = Ret () t \<and> memdisk t 500 = replicate BSIZE 7
    \<and> (\<forall>j\<le>length W. recovered 2 (apply_writes (take j W) (memdisk demo_txn)) 500 = (if j \<le> 1 then replicate BSIZE 0 else replicate BSIZE 7))"
proof -
  have "head_blk 2 \<noteq> 500" "\<not> in_log 2 30 500" by (simp_all add: head_blk_def in_log_def)
  then show ?thesis
    using commit_crash_atomic [OF demo_txn_ok(1) demo_txn_log(3)] demo_txn_ok(2-4) demo_txn_log
    unfolding same_data_def by (auto simp: if_distrib split: if_splits) metis
qed

text \<open>
  C33: Recovery. From a clean cache and any log whose header names blocks of the
  disk outside the log, \<open>recover_from_log\<close> returns with the disk that \<open>recovered\<close>
  describes, every block shown as the disk has it, and an empty log.
\<close>

theorem recover_from_log_refines:
  assumes "bio_inv s n {}" "dirty_blocks s = {}" "log_dev (log s) = 1" "length (lh_block (lh (log s))) = nat LOGSIZE"
    "0 \<le> head_n (log_start (log s)) (memdisk s)"
    "homes_ok (log_start (log s)) (log_size (log s)) (disksize s) (head_homes (log_start (log s)) (memdisk s))"
  shows "\<exists>t. recover_from_log s = Ret () t \<and> memdisk t = recovered (log_start (log s)) (memdisk s) \<and> lview t = memdisk t
    \<and> log_holds t [] \<and> dirty_blocks t = {} \<and> bio_inv t n {}"
  using recover_ok [OF assms] by (auto elim!: returnsE)

text \<open>A machine that starts with the disk \<open>D\<close>: nothing is pinned in its cache.\<close>

definition clean_boot :: "kstate \<Rightarrow> int \<Rightarrow> int \<Rightarrow> int \<Rightarrow> nat \<Rightarrow> disk \<Rightarrow> bool" where
  "clean_boot s n st ls N D \<longleftrightarrow> bio_inv s n {} \<and> dirty_blocks s = {} \<and> log_dev (log s) = 1
     \<and> length (lh_block (lh (log s))) = nat LOGSIZE \<and> log_start (log s) = st \<and> log_size (log s) = ls
     \<and> disksize s = N \<and> memdisk s = D"

lemma st32_twice: "st32 (st32 d i v) i w = st32 d i w"
  by (simp add: st32_def list_update_swap)

lemma recovered_writes:
  assumes "homes_ok st ls N (head_homes st D)"
  shows "apply_writes (recover_writes st D) D = recovered st D"
  using home_writes_install [OF assms order_refl, of D]
  by (simp add: recover_writes_def recovered_def install_blocks_def put_head_def Let_def)

text \<open>The disk after any number of the writes of a recovery recovers to the same disk.\<close>

lemma recover_again:
  assumes ok: "homes_ok st ls N (head_homes st D)" and d: "distinct (head_homes st D)" and len: "length (D (head_blk st)) = BSIZE"
    and n: "0 \<le> head_n st D" and j: "j \<le> length (recover_writes st D)"
  defines "E \<equiv> apply_writes (take j (recover_writes st D)) D"
  shows "recovered st E = recovered st D" "0 \<le> head_n st E" "homes_ok st ls N (head_homes st E)"
proof -
  let ?hs = "head_homes st D"
  have "recovered st E = recovered st D \<and> 0 \<le> head_n st E \<and> homes_ok st ls N (head_homes st E)"
  proof (cases "j \<le> length ?hs")
    case True
    then have E: "E = apply_writes (home_writes st ?hs D j) D"
      by (simp add: E_def recover_writes_def home_writes_def take_map)
    have h: "E (head_blk st) = D (head_blk st)" unfolding E
      by (rule apply_writes_other, subst writes_keys(2) [OF True])
        (use homes_not_log(1) [OF ok, of "head_blk st"] in \<open>auto dest: in_set_takeD\<close>)
    then have "head_n st E = head_n st D" by (simp add: head_n_def)
    moreover from this have "head_homes st E = ?hs" using h by (simp add: head_homes_def)
    ultimately show ?thesis using install_twice [OF ok d True] ok n h by (simp add: recovered_def E)
  next
    case False
    then have E: "E = recovered st D"
      using j recovered_writes [OF ok] by (simp add: E_def recover_writes_def home_writes_def)
    then have h: "E (head_blk st) = st32 (D (head_blk st)) 0 0"
      using install_head [OF ok] by (simp add: recovered_def Let_def)
    then have z: "head_n st E = 0" using len by (simp add: head_n_def)
    then have "recovered st E = E" using h by (simp add: recovered_empty st32_twice fun_upd_idem)
    moreover have "head_homes st E = []" using z by (simp add: head_homes_def)
    ultimately show ?thesis using E z ok by (simp add: homes_ok_def)
  qed
  then show "recovered st E = recovered st D" "0 \<le> head_n st E" "homes_ok st ls N (head_homes st E)" by simp_all
qed

text \<open>
  C34: A crash during recovery is harmless. \<open>recover_from_log\<close> on a log that names
  distinct blocks returns with every logged block at its home and an empty log. Its writes
  reach the disk one after the other; if the machine stops after any number \<open>j\<close> of them
  and starts again with a clean cache, \<open>recover_from_log\<close> returns once more and
  leaves exactly the disk that the uninterrupted recovery leaves.
\<close>

theorem recovery_idempotent:
  assumes "clean_boot s n st ls N D" "0 \<le> head_n st D" "homes_ok st ls N (head_homes st D)"
    "distinct (head_homes st D)" "length (D (head_blk st)) = BSIZE"
  shows "\<exists>t W. recover_from_log s = Ret () t \<and> disk_writes t = disk_writes s @ W \<and> memdisk t = apply_writes W D
    \<and> head_n st (memdisk t) = 0
    \<and> (\<forall>i<length (head_homes st D). memdisk t (head_homes st D ! i) = D (log_blk st i))
    \<and> (\<forall>j\<le>length W. \<forall>s' n'. clean_boot s' n' st ls N (apply_writes (take j W) D)
         \<longrightarrow> (\<exists>t'. recover_from_log s' = Ret () t' \<and> memdisk t' = memdisk t))"
proof -
  let ?W = "recover_writes st D"
  obtain t where t: "recover_from_log s = Ret () t" "memdisk t = recovered st D" "disk_writes t = disk_writes s @ ?W"
    using recover_ok [of s n] assms(1-3) by (auto simp: clean_boot_def elim!: returnsE)
  have "memdisk t (head_blk st) = st32 (D (head_blk st)) 0 0"
    using install_head [OF assms(3)] by (simp add: t(2) recovered_def Let_def)
  then have "head_n st (memdisk t) = 0" using assms(5) by (simp add: head_n_def)
  moreover have "memdisk t (head_homes st D ! i) = D (log_blk st i)" if "i < length (head_homes st D)" for i
    using that install_home [OF assms(3,4) that] homes_not_log(1) [OF assms(3), of "head_homes st D ! i"]
    by (simp add: t(2) recovered_def Let_def)
  moreover have "\<exists>t'. recover_from_log s' = Ret () t' \<and> memdisk t' = memdisk t"
    if "j \<le> length ?W" "clean_boot s' n' st ls N (apply_writes (take j ?W) D)" for j s' n'
    using recover_ok [of s' n'] that(2) recover_again [OF assms(3-5,2) that(1)] t(2)
    by (auto simp: clean_boot_def elim!: returnsE)
  ultimately show ?thesis using t recovered_writes [OF assms(3)] by metis
qed

text \<open>A disk whose log holds new content for block 500, and a machine that starts with it.\<close>

definition demo_crash_disk :: disk where
  "demo_crash_disk = (\<lambda>_. replicate BSIZE 0)(2 := put_head [500] (replicate BSIZE 0), 3 := replicate BSIZE 7)"

definition demo_boot :: "disk \<Rightarrow> kstate" where
  "demo_boot D = upd_log (\<lambda>l. l\<lparr>log_start := 2, log_size := 30, log_dev := 1\<rparr>) demo_cache\<lparr>memdisk := D\<rparr>"

lemma demo_boot_clean: "clean_boot (demo_boot D) 3 2 30 1000 D"
proof -
  have l: "length (lh_block (lh (log demo_cache))) = 30"
    by (simp add: demo_cache_def demo_proc_state_def demo_procs_def demo_state_def boot_state_def)
  have b: "bcache (demo_boot D) = bcache demo_cache" "memdisk (demo_boot D) = D" "sleeplocks (demo_boot D) = sleeplocks demo_cache"
    by (simp_all add: demo_boot_def upd_log_def)
  have nb: "\<not> buf_for (demo_boot D) x c" for x c using demo_cache_zero [of c] by (auto simp: buf_for_def b)
  have "quiet demo_cache 3" using demo_cache_ok(1) by (simp add: bio_inv_def)
  then have "quiet (demo_boot D) 3" by (rule quiet_cong) (simp_all add: demo_boot_def upd_log_def)
  then have "bio_inv (demo_boot D) 3 {}"
    using demo_cache_ok(1) nb demo_cache_zero by (auto simp: bio_inv_def idle_buf_def b)
  moreover have "dirty_blocks (demo_boot D) = {}" using nb by (auto simp: dirty_blocks_def)
  ultimately show ?thesis using l by (simp add: clean_boot_def demo_boot_def upd_log_def)
qed

lemma demo_crash_head:
  "head_n 2 demo_crash_disk = 1" "head_homes 2 demo_crash_disk = [500]" "homes_ok 2 30 1000 [500]"
  "length (demo_crash_disk (head_blk 2)) = BSIZE" "demo_crash_disk (log_blk 2 0) = replicate BSIZE 7"
proof -
  have h: "demo_crash_disk (head_blk 2) = put_head [500] (replicate BSIZE 0)"
    by (simp add: demo_crash_disk_def head_blk_def)
  show "head_n 2 demo_crash_disk = 1" "head_homes 2 demo_crash_disk = [500]" 
    using head_of_put [of demo_crash_disk 2 "[500]" "replicate BSIZE 0"] h by simp_all
  show "homes_ok 2 30 1000 [500]" by (simp add: homes_ok_def in_log_def)
  show "length (demo_crash_disk (head_blk 2)) = BSIZE" by (simp add: h put_head_def)
  show "demo_crash_disk (log_blk 2 0) = replicate BSIZE 7" by (simp add: demo_crash_disk_def log_blk_def)
qed

theorem recover_from_log_refines_witness:
  "\<exists>t. recover_from_log (demo_boot demo_crash_disk) = Ret () t \<and> memdisk t = recovered 2 demo_crash_disk
    \<and> lview t 500 = replicate BSIZE 7"
proof -
  have c: "clean_boot (demo_boot demo_crash_disk) 3 2 30 1000 demo_crash_disk" by (rule demo_boot_clean)
  have "recovered 2 demo_crash_disk 500 = replicate BSIZE 7"
    using install_home [of 2 30 1000 "[500]" 0 demo_crash_disk] demo_crash_head
    by (simp add: recovered_def Let_def head_blk_def)
  then show ?thesis
    using recover_from_log_refines [of "demo_boot demo_crash_disk" 3] c demo_crash_head by (auto simp: clean_boot_def)
qed

theorem recovery_idempotent_witness:
  "\<exists>t W t'. recover_from_log (demo_boot demo_crash_disk) = Ret () t \<and> memdisk t 500 = replicate BSIZE 7
    \<and> length W = 2 \<and> memdisk t = apply_writes W demo_crash_disk
    \<and> recover_from_log (demo_boot (apply_writes (take 1 W) demo_crash_disk)) = Ret () t' \<and> memdisk t' = memdisk t"
proof -
  obtain t W where t: "recover_from_log (demo_boot demo_crash_disk) = Ret () t"
    "disk_writes t = disk_writes (demo_boot demo_crash_disk) @ W" "memdisk t = apply_writes W demo_crash_disk"
    "memdisk t 500 = replicate BSIZE 7"
    and again: "\<And>j s' n'. j \<le> length W \<Longrightarrow> clean_boot s' n' 2 30 1000 (apply_writes (take j W) demo_crash_disk)
      \<Longrightarrow> \<exists>t'. recover_from_log s' = Ret () t' \<and> memdisk t' = memdisk t"
    using recovery_idempotent [OF demo_boot_clean, of demo_crash_disk] demo_crash_head by fastforce
  have "disk_writes t = disk_writes (demo_boot demo_crash_disk) @ recover_writes 2 demo_crash_disk"
    using recover_ok [of "demo_boot demo_crash_disk" 3] demo_boot_clean [of demo_crash_disk] demo_crash_head t(1)
    by (auto simp: clean_boot_def)
  then have "length W = 2" using t(2) demo_crash_head(2) by (simp add: recover_writes_def home_writes_def)
  then show ?thesis using t again [of 1, OF _ demo_boot_clean] by auto
qed

text \<open>A consistent transaction of a process that holds the buffers \<open>H\<close>.\<close>

definition txn :: "kstate \<Rightarrow> int \<Rightarrow> nat set \<Rightarrow> u32 list \<Rightarrow> bool" where
  "txn s n H hs \<longleftrightarrow> bio_inv s n H \<and> log_holds s hs \<and> distinct hs \<and> dirty_blocks s = set hs"

text \<open>
  C35: \<open>log_write\<close> keeps the transaction consistent. The blocks recorded in the log
  are exactly the pinned ones, without repetition: writing a block that is already
  in the transaction changes nothing (absorption), a new block is appended. What
  clients see and what the disk holds do not change. A full log or a write outside
  of an operation stops the machine.
\<close>

theorem log_write_transaction:
  assumes "txn s n H hs" "b \<in> H" "\<not> in_log (log_start (log s)) (log_size (log s)) (b_blockno (bcache s ! b))"
    "log_size (log s) \<le> LOGSIZE"
  shows "if log_size (log s) - 1 \<le> int (length hs)
    then log_write b s = Panic ''too big a transaction''
    else if outstanding (log s) < 1 then log_write b s = Panic ''log_write outside of trans''
    else \<exists>t. log_write b s = Ret () t \<and> txn t n H (log_add (b_blockno (bcache s ! b)) hs)
       \<and> lview t = lview s \<and> memdisk t = memdisk s \<and> disk_writes t = disk_writes s"
proof -
  let ?x = "b_blockno (bcache s ! b)"
  have tx: "bio_inv s n H" "log_holds s hs" "distinct hs" "dirty_blocks s = set hs" using assms(1) by (simp_all add: txn_def)
  have n: "lh_n (lh (log s)) = int (length hs)" using tx(2) by (simp add: log_holds_def)
  have q: "quiet s n" and h: "held_buf s n b" using tx(1) assms(2) by (simp_all add: bio_inv_def)
  have "\<exists>t. log_write b s = Ret () t \<and> txn t n H (log_add ?x hs) \<and> lview t = lview s \<and> memdisk t = memdisk s \<and> disk_writes t = disk_writes s"
    if *: "int (length hs) < log_size (log s) - 1" "outstanding (log s) \<ge> 1"
  proof -
    have len: "length hs < 29" using *(1) assms(4) by simp
    obtain g where g: "log_write b s = Ret () (pin b (upd_lh g (s\<lparr>hw := touch (hw s)\<rparr>)))" "log_holds (upd_lh g s) (log_add ?x hs)"
      using log_write_eq [OF q tx(2) len * _ assms(3)] h by (auto simp: held_buf_def)
    let ?u = "upd_lh g (s\<lparr>hw := touch (hw s)\<rparr>)"
    have qt: "quiet (s\<lparr>hw := touch (hw s)\<rparr>) n" using quiet_touch [OF q] .
    have u: "bio_inv ?u n H" using tx(1) bio_inv_cong [OF qt q, of H] by (simp add: upd_lh_def)
    have v: "lview ?u = lview s" "dirty_blocks ?u = set hs" "bcache ?u = bcache s" "memdisk ?u = memdisk s" "disk_writes ?u = disk_writes s"
      using bio_cong [of "s\<lparr>hw := touch (hw s)\<rparr>" s] tx(4) by (simp_all add: upd_lh_def)
    have "log_holds (pin b ?u) (log_add ?x hs)"
      using g(2) by (simp add: log_holds_def pin_def upd_buf_def upd_lh_def upd_log_def)
    then have "txn (pin b ?u) n H (log_add ?x hs)" using pin_ok [OF u assms(2)] tx(3) v by (simp add: txn_def)
    moreover have "memdisk (pin b ?u) = memdisk s" "disk_writes (pin b ?u) = disk_writes s" using v by (simp_all add: pin_def upd_buf_def)
    ultimately show ?thesis using g(1) pin_ok(2) [OF u assms(2)] v by simp
  qed
  moreover have "log_write b s = Panic ''too big a transaction''" if "log_size (log s) - 1 \<le> int (length hs)"
    using that n by (simp add: log_write_def)
  moreover have "log_write b s = Panic ''log_write outside of trans''"
    if "\<not> log_size (log s) - 1 \<le> int (length hs)" "outstanding (log s) < 1"
    using that n assms(4) by (simp add: log_write_def)
  ultimately show ?thesis by (simp add: not_le)
qed

text \<open>The process has read block 600 into buffer 1 and changed it.\<close>

lemma demo_read:
  obtains b t where "bread 1 600 demo_txn = Ret b t" "txn t 3 {b} [500]" "b_blockno (bcache t ! b) = 600" "log t = log demo_txn"
proof -
  have "disksize demo_txn = 1000" "card (dirty_blocks demo_txn) = 1" using demo_txn_ok(2) by (simp_all add: demo_txn_def upd_buf_def)
  then obtain b t where t: "bread 1 600 demo_txn = Ret b t" "bio_inv t 3 {b}" "b_blockno (bcache t ! b) = 600" "bio_same {} demo_txn t"
    using bread_ok [OF demo_txn_ok(1), of 600] by (auto elim!: returnsE)
  then have "txn t 3 {b} [500]" using demo_txn_ok(2) demo_txn_log(3) log_holds_rest [of demo_txn t] by (simp add: txn_def bio_same_def)
  then show thesis using that t bio_rest_sel(2) [of demo_txn t] by (auto simp: bio_same_def)
qed

theorem log_write_transaction_witness:
  "\<exists>b t u. bread 1 600 demo_txn = Ret b t \<and> log_write b t = Ret () u \<and> txn u 3 {b} [500, 600]"
proof -
  obtain b t where t: "bread 1 600 demo_txn = Ret b t" "txn t 3 {b} [500]" "b_blockno (bcache t ! b) = 600" "log t = log demo_txn"
    by (rule demo_read)
  have "outstanding (log demo_txn) = 1" by (simp add: demo_txn_def upd_log_def)
  then have "\<exists>u. log_write b t = Ret () u \<and> txn u 3 {b} (log_add 600 [500])"
    using log_write_transaction [OF t(2), of b] t(3,4) demo_txn_log(1,2) by (auto simp: in_log_def)
  then show ?thesis using t(1) by (auto simp: log_add_def)
qed

lemma end_op_last:
  assumes "quiet s n" "\<not> committing (log s)" "outstanding (log s) = 1"
  shows "end_op s = bnd (commit ((upd_log (\<lambda>l. l\<lparr>outstanding := 0, committing := True\<rparr>) s)\<lparr>hw := touch (hw s)\<rparr>)) (\<lambda>_ s.
      bnd (kacquire Log_lock s) (\<lambda>_ s.
      bnd (wakeup (Some Chan_log) (upd_log (\<lambda>l. l\<lparr>committing := False\<rparr>) s)) (\<lambda>_ s.
      krelease Log_lock s)))"
  using quietD [OF assms(1)] assms(2,3) by (simp add: end_op_def lock_simps upd_log_def Let_def)

lemma end_op_tail:
  assumes "quiet t n"
  obtains u where "bnd (kacquire Log_lock t) (\<lambda>_ s. bnd (wakeup (Some Chan_log) (upd_log f s)) (\<lambda>_ s. krelease Log_lock s)) = Ret () u"
    "quiet u n" "log u = f (log t)" "bcache u = bcache t" "memdisk u = memdisk t" "disk_writes u = disk_writes t"
    "disksize u = disksize t" "sleeplocks u = sleeplocks t"
proof -
  let ?u = "wakeup1 (Some Chan_log) (upd_log f t)\<lparr>hw := touch (hw t)\<rparr>"
  have q: "cpu_ok (hw t)" "\<And>l. locks (hw t) l = free_lock" using quietD [OF assms] by auto
  have "bnd (kacquire Log_lock t) (\<lambda>_ s. bnd (wakeup (Some Chan_log) (upd_log f s)) (\<lambda>_ s. krelease Log_lock s)) = Ret () ?u"
    using q by (simp add: lock_simps upd_log_def wakeup_ok can_lock_def wakeup1_def)
  moreover have "quiet ?u n"
    using quiet_touch [OF assms] by (rule quiet_cong) (use pids_wakeup1 [of "Some Chan_log" "upd_log f t"] in \<open>simp_all add: upd_log_def\<close>)
  ultimately show thesis by (rule that) (simp_all add: wakeup1_def upd_log_def)
qed

text \<open>
  C32: When the last operation of a group ends, its transaction is durable. \<open>end_op\<close>
  with a consistent non-empty transaction returns with the disk holding, outside the
  log, everything the clients saw, with an empty transaction, no operation
  outstanding and no commit in progress, so that the next \<open>begin_op\<close> may start.
\<close>

theorem end_op_durable:
  assumes "txn s n {} hs" "hs \<noteq> []" "\<not> committing (log s)" "outstanding (log s) = 1"
    "length (lview s (head_blk (log_start (log s)))) = BSIZE"
  shows "\<exists>t. end_op s = Ret () t \<and> txn t n {} [] \<and> outstanding (log t) = 0 \<and> \<not> committing (log t)
    \<and> same_data (log_start (log s)) (log_size (log s)) (memdisk t) (lview s)
    \<and> same_data (log_start (log s)) (log_size (log s)) (lview t) (lview s)"
proof -
  let ?u = "(upd_log (\<lambda>l. l\<lparr>outstanding := 0, committing := True\<rparr>) s)\<lparr>hw := touch (hw s)\<rparr>"
  let ?st = "log_start (log s)" and ?ls = "log_size (log s)" and ?V = "lview s"
  have tx: "bio_inv s n {}" "log_holds s hs" "distinct hs" "dirty_blocks s = set hs" using assms(1) by (simp_all add: txn_def)
  have ok: "homes_ok ?st ?ls (disksize s) hs" using tx(2) by (simp add: log_holds_def)
  have q: "quiet s n" using tx(1) by (simp add: bio_inv_def)
  have qu: "quiet ?u n" using quiet_touch [OF q] by (rule quiet_cong) (simp_all add: upd_log_def)
  have "sleeplocks ?u = sleeplocks s" by (simp add: upd_log_def)
  then have c: "lview ?u = lview s" "dirty_blocks ?u = set hs" "memdisk ?u = memdisk s" "bio_inv ?u n {}"
    using bio_cong [of ?u s] tx bio_inv_cong [OF qu q, of "{}"] by simp_all
  have c': "log_holds ?u hs" "log_start (log ?u) = ?st" using tx(2) by (simp_all add: log_holds_def upd_log_def)
  obtain t where t: "commit ?u = Ret () t" "bio_inv t n {}" "bio_rest (upd_lh (\<lambda>h. h\<lparr>lh_n := 0\<rparr>) ?u) t"
    "cache_view_of t = put_all (commit_writes ?st hs ?V) (cache_view_of ?u)"
    using commit_ok [OF c(4) c'(1) c(2) tx(3) assms(2)] c c' by (auto elim!: returnsE)
  have qt: "quiet t n" using t(2) by (simp add: bio_inv_def)
  obtain v where v: "bnd (kacquire Log_lock t) (\<lambda>_ s. bnd (wakeup (Some Chan_log) (upd_log (\<lambda>l. l\<lparr>committing := False\<rparr>) s)) (\<lambda>_ s. krelease Log_lock s)) = Ret () v"
    "quiet v n" "log v = (log t)\<lparr>committing := False\<rparr>" "bcache v = bcache t" "memdisk v = memdisk t" "disk_writes v = disk_writes t"
    "disksize v = disksize t" "sleeplocks v = sleeplocks t"
    by (rule end_op_tail [OF qt])
  have e: "end_op s = Ret () v" using end_op_last [OF q assms(3,4)] t(1) v(1) by simp
  have lt: "log t = (log ?u)\<lparr>lh := (lh (log ?u))\<lparr>lh_n := 0\<rparr>\<rparr>" "disksize t = disksize s"
    using bio_rest_sel(1,2) [OF t(3)] by (simp_all add: upd_lh_def upd_log_def)
  have "log_holds t []" using log_holds_nil [OF c'(1)] log_holds_rest [OF t(3)] by blast
  then have "log_holds v []" using v(3,7) by (simp add: log_holds_def)
  moreover have "bio_inv v n {}" using t(2) bio_inv_cong [OF v(2) qt, of "{}"] v by simp
  moreover have V: "?V x = memdisk s x" if "x \<notin> set hs" for x using that bc.clean_or_dirty [OF tx(1), of x] tx(4) by auto
  have sel: "dirty_blocks t = set hs - fst ` set (commit_writes ?st hs ?V)" "memdisk t = apply_writes (commit_writes ?st hs ?V) (memdisk s)"
    using view_sel(2,4) [of t] t(4) c(2,3) by simp_all
  have "set hs \<subseteq> fst ` set (commit_writes ?st hs ?V)" by (auto simp: commit_writes_def image_Un image_image)
  then have "dirty_blocks t = {}" using sel(1) by auto
  then have d: "dirty_blocks v = {}" using bio_cong(2) [of v t] v by simp
  have "lview v x = memdisk v x" for x using clean_lview [OF \<open>bio_inv v n {}\<close>, of x] d by simp
  then have lv: "lview v = memdisk v" by blast
  ultimately have "txn v n {} []" using d by (simp add: txn_def)
  moreover have "same_data ?st ?ls (memdisk v) ?V"
    using crash_after_clear(2) [where V = ?V and D = "memdisk s", OF ok tx(3) assms(5) V] sel(2) v(5) by simp
  moreover have "outstanding (log v) = 0" "\<not> committing (log v)" using v(3) lt by (simp_all add: upd_log_def)
  ultimately show ?thesis using e lv by auto
qed

theorem end_op_durable_witness:
  "\<exists>t. end_op demo_txn = Ret () t \<and> memdisk t 500 = replicate BSIZE 7 \<and> outstanding (log t) = 0"
proof -
  have "txn demo_txn 3 {} [500]" "\<not> committing (log demo_txn)" "outstanding (log demo_txn) = 1" "head_blk 2 \<noteq> 500"
    using demo_txn_ok(1,2) demo_txn_log(3)
    by (simp_all add: txn_def demo_txn_def upd_log_def upd_buf_def demo_cache_def demo_proc_state_def demo_procs_def
        demo_state_def boot_state_def head_blk_def)
  then show ?thesis
    using end_op_durable [of demo_txn 3 "[500]"] demo_txn_ok(3,4) demo_txn_log(1,2) by (auto simp: same_data_def in_log_def)
qed

end
