(* ===== verification/Fs_Inode.thy ===== *)
theory Fs_Inode
  imports Log Console_Out
begin

text \<open>
  Blocks and inodes of the file system, \<open>fs.c\<close>: the block allocator with its bit
  map, the inode table on the disk, the inode cache, and the block map of an inode.
  An inode pointer is an index into \<open>icache\<close>. The signed 16-bit fields of an inode
  are integers; an on-disk inode takes 64 bytes of its block.
\<close>

abbreviation (input) T_DIR :: int where "T_DIR \<equiv> 1"
abbreviation (input) T_FILE :: int where "T_FILE \<equiv> 2"
abbreviation (input) T_DEV :: int where "T_DEV \<equiv> 3"
abbreviation (input) IPB :: u32 where "IPB \<equiv> 8"
abbreviation (input) BPB :: nat where "BPB \<equiv> 4096"
abbreviation (input) MAXFILE :: nat where "MAXFILE \<equiv> 140"

definition IBLOCK :: "u32 \<Rightarrow> superblock \<Rightarrow> u32" where
  "IBLOCK i b = i div IPB + sb_inodestart b"

definition BBLOCK :: "u32 \<Rightarrow> superblock \<Rightarrow> u32" where
  "BBLOCK b v = b div of_nat BPB + sb_bmapstart v"

definition upd_inode :: "nat \<Rightarrow> (inode \<Rightarrow> inode) \<Rightarrow> kstate \<Rightarrow> kstate" where
  "upd_inode i f s = s\<lparr>icache := (icache s)[i := f (icache s ! i)]\<rparr>"

abbreviation (input) buf_data :: "kstate \<Rightarrow> nat \<Rightarrow> block" where
  "buf_data s b \<equiv> b_data (bcache s ! b)"

section \<open>Blocks\<close>

definition bzero :: "u32 \<Rightarrow> u32 \<Rightarrow> kstate \<Rightarrow> (kstate, unit) outcome" where
  "bzero dev bno s =
     bnd (bread dev bno s) (\<lambda>bp s.
     bnd (log_write bp (set_data bp (replicate BSIZE 0) s)) (\<lambda>_ s.
     brelse bp s))"

definition bit_used :: "block \<Rightarrow> nat \<Rightarrow> bool" where
  "bit_used d bi = bit (d ! (bi div 8)) (bi mod 8)"

definition mark_used :: "block \<Rightarrow> nat \<Rightarrow> block" where
  "mark_used d bi = d[bi div 8 := d ! (bi div 8) OR push_bit (bi mod 8) 1]"

definition mark_free :: "block \<Rightarrow> nat \<Rightarrow> block" where
  "mark_free d bi = d[bi div 8 := d ! (bi div 8) AND NOT (push_bit (bi mod 8) 1)]"

text \<open>The loop over the blocks of the bit map; the list holds the values of \<open>b\<close>.\<close>

fun balloc_loop :: "u32 \<Rightarrow> nat list \<Rightarrow> kstate \<Rightarrow> (kstate, u32) outcome" where
  "balloc_loop dev [] s = Panic ''balloc: out of blocks''"
| "balloc_loop dev (b # bs) s =
     bnd (bread dev (BBLOCK (of_nat b) (sb s)) s) (\<lambda>bp s.
     case find (\<lambda>bi. \<not> bit_used (buf_data s bp) bi) [0..<min BPB (unat (sb_size (sb s)) - b)] of
       Some bi \<Rightarrow>
         bnd (log_write bp (set_data bp (mark_used (buf_data s bp) bi) s)) (\<lambda>_ s.
         bnd (brelse bp s) (\<lambda>_ s.
         bnd (bzero dev (of_nat (b + bi)) s) (\<lambda>_ s.
         Ret (of_nat (b + bi)) s)))
     | None \<Rightarrow> bnd (brelse bp s) (\<lambda>_ s. balloc_loop dev bs s))"

definition balloc :: "u32 \<Rightarrow> kstate \<Rightarrow> (kstate, u32) outcome" where
  "balloc dev s = balloc_loop dev (map (\<lambda>k. BPB * k) [0..<(unat (sb_size (sb s)) + (BPB - 1)) div BPB]) s"

definition bfree :: "u32 \<Rightarrow> u32 \<Rightarrow> kstate \<Rightarrow> (kstate, unit) outcome" where
  "bfree dev b s =
     bnd (bread dev (BBLOCK b (sb s)) s) (\<lambda>bp s.
     let bi = unat b mod BPB in
     if \<not> bit_used (buf_data s bp) bi then Panic ''freeing free block''
     else
       bnd (log_write bp (set_data bp (mark_free (buf_data s bp) bi) s)) (\<lambda>_ s.
       brelse bp s))"

section \<open>Inodes\<close>

definition iinit :: "u32 \<Rightarrow> kstate \<Rightarrow> (kstate, unit) outcome" where
  "iinit dev s =
     (let s = s\<lparr>hw := initlock Icache_lock (hw s)\<rparr>;
          s = fold (\<lambda>i. initsleeplock (Inode_sleeplock i)) [0..<NINODE] s
      in bnd (readsb dev s) (\<lambda>v s.
         let s = s\<lparr>sb := v\<rparr> in
         cprintf ''sb: size %d nblocks %d ninodes %d nlog %d logstart %d inodestart %d bmap start %d\<newline>''
           (map (\<lambda>x. Num (sint x)) [sb_size v, sb_nblocks v, sb_ninodes v, sb_nlog v, sb_logstart v, sb_inodestart v,
              sb_bmapstart v]) s))"

text \<open>The on-disk inode at byte \<open>k\<close> of a block.\<close>

abbreviation (input) dip_at :: "u32 \<Rightarrow> nat" where
  "dip_at inum \<equiv> 64 * unat (inum mod IPB)"

definition dip_type :: "block \<Rightarrow> nat \<Rightarrow> int" where
  "dip_type d k = sint (ld16 d k)"

definition dip_load :: "block \<Rightarrow> nat \<Rightarrow> inode \<Rightarrow> inode" where
  "dip_load d k ip = ip\<lparr>i_type := sint (ld16 d k), i_major := sint (ld16 d (k + 2)), i_minor := sint (ld16 d (k + 4)),
     i_nlink := sint (ld16 d (k + 6)), i_size := ld32 d (k + 8),
     i_addrs := map (\<lambda>i. ld32 d (k + 12 + 4 * i)) [0..<NDIRECT + 1]\<rparr>"

definition dip_store :: "inode \<Rightarrow> nat \<Rightarrow> block \<Rightarrow> block" where
  "dip_store ip k d =
     (let d = st16 d k (word_of_int (i_type ip));
          d = st16 d (k + 2) (word_of_int (i_major ip));
          d = st16 d (k + 4) (word_of_int (i_minor ip));
          d = st16 d (k + 6) (word_of_int (i_nlink ip));
          d = st32 d (k + 8) (i_size ip)
      in st32s d (k + 12) (i_addrs ip))"

text \<open>\<open>memset(dip, 0, sizeof(*dip)); dip->type = type\<close>.\<close>

definition dip_fresh :: "int \<Rightarrow> nat \<Rightarrow> block \<Rightarrow> block" where
  "dip_fresh ty k d = st16 (take k d @ replicate 64 0 @ drop (k + 64) d) k (word_of_int ty)"

definition iget :: "u32 \<Rightarrow> u32 \<Rightarrow> kstate \<Rightarrow> (kstate, nat) outcome" where
  "iget dev inum s =
     bnd (kacquire Icache_lock s) (\<lambda>_ s.
     case findi (\<lambda>ip. i_ref ip > 0 \<and> i_dev ip = dev \<and> i_inum ip = inum) (icache s) of
       Some ip \<Rightarrow>
         bnd (krelease Icache_lock (upd_inode ip (\<lambda>n. n\<lparr>i_ref := i_ref n + 1\<rparr>) s)) (\<lambda>_ s. Ret ip s)
     | None \<Rightarrow>
        (case findi (\<lambda>ip. i_ref ip = 0) (icache s) of
           None \<Rightarrow> Panic ''iget: no inodes''
         | Some ip \<Rightarrow>
             bnd (krelease Icache_lock (upd_inode ip (\<lambda>n. n\<lparr>i_dev := dev, i_inum := inum, i_ref := 1, i_valid := False\<rparr>) s))
               (\<lambda>_ s. Ret ip s)))"

fun ialloc_loop :: "u32 \<Rightarrow> int \<Rightarrow> nat list \<Rightarrow> kstate \<Rightarrow> (kstate, nat) outcome" where
  "ialloc_loop dev ty [] s = Panic ''ialloc: no inodes''"
| "ialloc_loop dev ty (inum # ns) s =
     bnd (bread dev (IBLOCK (of_nat inum) (sb s)) s) (\<lambda>bp s.
     let k = dip_at (of_nat inum) in
     if dip_type (buf_data s bp) k = 0
     then bnd (log_write bp (set_data bp (dip_fresh ty k (buf_data s bp)) s)) (\<lambda>_ s.
          bnd (brelse bp s) (\<lambda>_ s.
          iget dev (of_nat inum) s))
     else bnd (brelse bp s) (\<lambda>_ s. ialloc_loop dev ty ns s))"

definition ialloc :: "u32 \<Rightarrow> int \<Rightarrow> kstate \<Rightarrow> (kstate, nat) outcome" where
  "ialloc dev ty s = ialloc_loop dev ty [1..<unat (sb_ninodes (sb s))] s"

definition iupdate :: "nat \<Rightarrow> kstate \<Rightarrow> (kstate, unit) outcome" where
  "iupdate ip s =
     bnd (bread (i_dev (icache s ! ip)) (IBLOCK (i_inum (icache s ! ip)) (sb s)) s) (\<lambda>bp s.
     let n = icache s ! ip;
         s = set_data bp (dip_store n (dip_at (i_inum n)) (buf_data s bp)) s
     in bnd (log_write bp s) (\<lambda>_ s. brelse bp s))"

definition idup :: "nat option \<Rightarrow> kstate \<Rightarrow> (kstate, nat) outcome" where
  "idup p s =
     bnd (kacquire Icache_lock s) (\<lambda>_ s.
     deref p (\<lambda>ip.
     bnd (krelease Icache_lock (upd_inode ip (\<lambda>n. n\<lparr>i_ref := i_ref n + 1\<rparr>) s)) (\<lambda>_ s. Ret ip s)))"

definition ilock :: "nat option \<Rightarrow> kstate \<Rightarrow> (kstate, unit) outcome" where
  "ilock p s =
     (case p of None \<Rightarrow> Panic ''ilock'' | Some ip \<Rightarrow>
      if i_ref (icache s ! ip) < 1 then Panic ''ilock''
      else
        bnd (acquiresleep (Inode_sleeplock ip) s) (\<lambda>_ s.
        if \<not> i_valid (icache s ! ip)
        then
          bnd (bread (i_dev (icache s ! ip)) (IBLOCK (i_inum (icache s ! ip)) (sb s)) s) (\<lambda>bp s.
          let s = upd_inode ip (dip_load (buf_data s bp) (dip_at (i_inum (icache s ! ip)))) s in
          bnd (brelse bp s) (\<lambda>_ s.
          let s = upd_inode ip (\<lambda>n. n\<lparr>i_valid := True\<rparr>) s in
          if i_type (icache s ! ip) = 0 then Panic ''ilock: no type'' else Ret () s))
        else Ret () s))"

definition iunlock :: "nat option \<Rightarrow> kstate \<Rightarrow> (kstate, unit) outcome" where
  "iunlock p s =
     (case p of None \<Rightarrow> Panic ''iunlock'' | Some ip \<Rightarrow>
      bnd (holdingsleep (Inode_sleeplock ip) s) (\<lambda>h s.
      if \<not> h \<or> i_ref (icache s ! ip) < 1 then Panic ''iunlock''
      else releasesleep (Inode_sleeplock ip) s))"

section \<open>The blocks of an inode\<close>

text \<open>\<open>ip->addrs[k]\<close>, allocated if it is zero.\<close>

definition addr_or_alloc :: "nat \<Rightarrow> nat \<Rightarrow> kstate \<Rightarrow> (kstate, u32) outcome" where
  "addr_or_alloc ip k s =
     (let addr = i_addrs (icache s ! ip) ! k in
      if addr = 0
      then bnd (balloc (i_dev (icache s ! ip)) s) (\<lambda>addr s.
           Ret addr (upd_inode ip (\<lambda>n. n\<lparr>i_addrs := (i_addrs n)[k := addr]\<rparr>) s))
      else Ret addr s)"

definition bmap :: "nat \<Rightarrow> u32 \<Rightarrow> kstate \<Rightarrow> (kstate, u32) outcome" where
  "bmap ip bn s =
     (if unat bn < NDIRECT then addr_or_alloc ip (unat bn) s
      else
        let bn = unat bn - NDIRECT in
        if bn < NINDIRECT
        then
          bnd (addr_or_alloc ip NDIRECT s) (\<lambda>addr s.
          bnd (bread (i_dev (icache s ! ip)) addr s) (\<lambda>bp s.
          let addr = ld32 (buf_data s bp) (4 * bn) in
          bnd (if addr = 0
               then bnd (balloc (i_dev (icache s ! ip)) s) (\<lambda>addr s.
                    bnd (log_write bp (set_data bp (st32 (buf_data s bp) (4 * bn) addr) s)) (\<lambda>_ s.
                    Ret addr s))
               else Ret addr s) (\<lambda>addr s.
          bnd (brelse bp s) (\<lambda>_ s.
          Ret addr s))))
        else Panic ''bmap: out of range'')"

definition itrunc_direct :: "nat \<Rightarrow> nat \<Rightarrow> kstate \<Rightarrow> (kstate, unit) outcome" where
  "itrunc_direct ip i s =
     (let n = icache s ! ip in
      if i_addrs n ! i \<noteq> 0
      then bnd (bfree (i_dev n) (i_addrs n ! i) s) (\<lambda>_ s.
           Ret () (upd_inode ip (\<lambda>n. n\<lparr>i_addrs := (i_addrs n)[i := 0]\<rparr>) s))
      else Ret () s)"

definition itrunc_indirect :: "nat \<Rightarrow> nat \<Rightarrow> nat \<Rightarrow> kstate \<Rightarrow> (kstate, unit) outcome" where
  "itrunc_indirect ip bp j s =
     (let a = ld32 (buf_data s bp) (4 * j) in
      if a \<noteq> 0 then bfree (i_dev (icache s ! ip)) a s else Ret () s)"

definition itrunc :: "nat \<Rightarrow> kstate \<Rightarrow> (kstate, unit) outcome" where
  "itrunc ip s =
     bnd (for_each (itrunc_direct ip) [0..<NDIRECT] s) (\<lambda>_ s.
     bnd (let n = icache s ! ip in
          if i_addrs n ! NDIRECT \<noteq> 0
          then
            bnd (bread (i_dev n) (i_addrs n ! NDIRECT) s) (\<lambda>bp s.
            bnd (for_each (itrunc_indirect ip bp) [0..<NINDIRECT] s) (\<lambda>_ s.
            bnd (brelse bp s) (\<lambda>_ s.
            bnd (bfree (i_dev (icache s ! ip)) (i_addrs (icache s ! ip) ! NDIRECT) s) (\<lambda>_ s.
            Ret () (upd_inode ip (\<lambda>n. n\<lparr>i_addrs := (i_addrs n)[NDIRECT := 0]\<rparr>) s)))))
          else Ret () s) (\<lambda>_ s.
     iupdate ip (upd_inode ip (\<lambda>n. n\<lparr>i_size := 0\<rparr>) s)))"

definition iput :: "nat option \<Rightarrow> kstate \<Rightarrow> (kstate, unit) outcome" where
  "iput p s =
     deref p (\<lambda>ip.
     bnd (acquiresleep (Inode_sleeplock ip) s) (\<lambda>_ s.
     bnd (if i_valid (icache s ! ip) \<and> i_nlink (icache s ! ip) = 0
          then
            bnd (kacquire Icache_lock s) (\<lambda>_ s.
            let r = i_ref (icache s ! ip) in
            bnd (krelease Icache_lock s) (\<lambda>_ s.
            if r = 1
            then
              bnd (itrunc ip s) (\<lambda>_ s.
              bnd (iupdate ip (upd_inode ip (\<lambda>n. n\<lparr>i_type := 0\<rparr>) s)) (\<lambda>_ s.
              Ret () (upd_inode ip (\<lambda>n. n\<lparr>i_valid := False\<rparr>) s)))
            else Ret () s))
          else Ret () s) (\<lambda>_ s.
     bnd (releasesleep (Inode_sleeplock ip) s) (\<lambda>_ s.
     bnd (kacquire Icache_lock s) (\<lambda>_ s.
     krelease Icache_lock (upd_inode ip (\<lambda>n. n\<lparr>i_ref := i_ref n - 1\<rparr>) s))))))"

definition iunlockput :: "nat option \<Rightarrow> kstate \<Rightarrow> (kstate, unit) outcome" where
  "iunlockput p s = bnd (iunlock p s) (\<lambda>_ s. iput p s)"

record stat =
  st_type :: int
  st_dev :: u32
  st_ino :: u32
  st_nlink :: int
  st_size :: u32

definition stati :: "nat \<Rightarrow> kstate \<Rightarrow> stat" where
  "stati ip s = (let n = icache s ! ip in
     \<lparr>st_type = i_type n, st_dev = i_dev n, st_ino = i_inum n, st_nlink = i_nlink n, st_size = i_size n\<rparr>)"

end
