(* ===== verification/Block_Txn.thy ===== *)
theory Block_Txn
  imports Block_Cache
begin

text \<open>
  The contract between the log and the file system. Inside a transaction a client
  reads blocks into buffers, changes them, hands them to the log and gives the
  buffers back. It sees one store of blocks, in which its own changes show at once.
  The invariant carries the set of buffers the client holds, at most two, and the
  number of blocks it may still add to the transaction.
\<close>

locale block_txn =
  fixes ok :: "'s \<Rightarrow> nat set \<Rightarrow> nat \<Rightarrow> bool"
    and view :: "'s \<Rightarrow> u32 \<Rightarrow> u8 list"
    and blk :: "'s \<Rightarrow> nat \<Rightarrow> u32"
    and data :: "'s \<Rightarrow> nat \<Rightarrow> u8 list"
    and good :: "'s \<Rightarrow> u32 \<Rightarrow> bool"
    and rest :: "'s \<Rightarrow> 's \<Rightarrow> bool"
    and rd :: "u32 \<Rightarrow> 's \<Rightarrow> ('s, nat) outcome"
    and lw :: "nat \<Rightarrow> 's \<Rightarrow> ('s, unit) outcome"
    and rel :: "nat \<Rightarrow> 's \<Rightarrow> ('s, unit) outcome"
    and put :: "nat \<Rightarrow> u8 list \<Rightarrow> 's \<Rightarrow> 's"
  assumes rest_refl: "rest s s"
    and rest_trans: "rest s t \<Longrightarrow> rest t u \<Longrightarrow> rest s u"
    and rest_good: "rest s t \<Longrightarrow> good t x = good s x"
    and less_room: "ok s H k \<Longrightarrow> j \<le> k \<Longrightarrow> ok s H j"
    and held_view: "ok s H k \<Longrightarrow> b \<in> H \<Longrightarrow> data s b = view s (blk s b)"
    and held_two: "ok s H k \<Longrightarrow> finite H \<and> card H \<le> 2"
    and rd_law: "ok s H k \<Longrightarrow> card H < 2 \<Longrightarrow> good s x \<Longrightarrow> \<forall>b\<in>H. blk s b \<noteq> x \<Longrightarrow>
      returns (rd x s) (\<lambda>b t. b \<notin> H \<and> ok t (insert b H) k \<and> blk t b = x \<and> view t = view s \<and> (\<forall>c\<in>H. blk t c = blk s c) \<and> rest s t)"
    and lw_law: "ok s H (Suc k) \<Longrightarrow> b \<in> H \<Longrightarrow> good s (blk s b) \<Longrightarrow>
      returns (lw b (put b d s)) (\<lambda>_ t. ok t H k \<and> view t = (view s)(blk s b := d) \<and> (\<forall>c\<in>H. blk t c = blk s c) \<and> rest s t)"
    and rel_law: "ok s H k \<Longrightarrow> b \<in> H \<Longrightarrow>
      returns (rel b s) (\<lambda>_ t. ok t (H - {b}) k \<and> view t = view s \<and> (\<forall>c\<in>H - {b}. blk t c = blk s c) \<and> rest s t)"
begin

text \<open>What an operation on the store leaves behind: the buffers it held before, and a store that differs by \<open>f\<close>.\<close>

definition post :: "'s \<Rightarrow> nat set \<Rightarrow> nat \<Rightarrow> (u32 \<Rightarrow> u8 list) \<Rightarrow> 's \<Rightarrow> bool" where
  "post s H k V t \<longleftrightarrow> ok t H k \<and> view t = V \<and> (\<forall>c\<in>H. blk t c = blk s c) \<and> rest s t"

lemma postD: "post s H k V t \<Longrightarrow> ok t H k" "post s H k V t \<Longrightarrow> view t = V" "post s H k V t \<Longrightarrow> c \<in> H \<Longrightarrow> blk t c = blk s c"
  "post s H k V t \<Longrightarrow> rest s t"
  by (simp_all add: post_def)

lemma post_refl: "ok s H k \<Longrightarrow> post s H k (view s) s"
  by (simp add: post_def rest_refl)

lemma post_trans: "post s H k V t \<Longrightarrow> post t H j W u \<Longrightarrow> post s H j W u"
  using rest_trans by (auto simp: post_def)

text \<open>A buffer that was read is given back unchanged.\<close>

lemma give_back:
  assumes "post s (insert b H) k V t" "b \<notin> H"
  shows "returns (rel b t) (\<lambda>_ u. post s H k V u)"
proof -
  have "returns (rel b t) (\<lambda>_ u. ok u (insert b H - {b}) k \<and> view u = view t \<and> (\<forall>c\<in>insert b H - {b}. blk u c = blk t c) \<and> rest t u)"
    using assms(1) by (intro rel_law) (simp_all add: post_def)
  then show ?thesis
    by (rule returns_mono) (use assms rest_trans in \<open>auto simp: post_def\<close>)
qed

text \<open>A buffer that was read is changed, logged and given back.\<close>

lemma log_and_give_back:
  assumes "ok t (insert b H) (Suc k)" "b \<notin> H" "good t (blk t b)"
  shows "returns (bnd (lw b (put b d t)) (\<lambda>_ s. rel b s)) (\<lambda>_ u. post t H k ((view t)(blk t b := d)) u)"
proof -
  have "returns (lw b (put b d t)) (\<lambda>_ u. post t (insert b H) k ((view t)(blk t b := d)) u)"
    using lw_law [OF assms(1) _ assms(3), of d] by (auto simp: post_def elim!: returns_mono)
  then show ?thesis unfolding returns_bnd by (rule returns_mono) (rule give_back [OF _ assms(2)])
qed

lemma post_from: "rest s t \<Longrightarrow> \<forall>c\<in>H. blk t c = blk s c \<Longrightarrow> post t H k V u \<Longrightarrow> post s H k V u"
  using rest_trans by (auto simp: post_def)

text \<open>Reading a block, computing its new content, logging it and giving it back.\<close>

lemma update_block:
  assumes "ok s H (Suc k)" "card H < 2" "good s x" "\<forall>b\<in>H. blk s b \<noteq> x"
  shows "returns (bnd (rd x s) (\<lambda>b s. bnd (lw b (put b (f (data s b)) s)) (\<lambda>_ s. rel b s)))
    (\<lambda>_ t. post s H k ((view s)(x := f (view s x))) t)"
  unfolding returns_bnd [of "rd x s"]
proof (rule returns_mono [OF rd_law [OF assms]], elim conjE)
  fix b t assume t: "b \<notin> H" "ok t (insert b H) (Suc k)" "blk t b = x" "view t = view s" "\<forall>c\<in>H. blk t c = blk s c" "rest s t"
  have "returns (bnd (lw b (put b (f (data t b)) t)) (\<lambda>_ s. rel b s)) (\<lambda>_ u. post t H k ((view t)(blk t b := f (data t b))) u)"
    using t assms(3) rest_good by (intro log_and_give_back) auto
  moreover have "data t b = view s x" using held_view [OF t(2), of b] t(3,4) by simp
  ultimately show "returns (bnd (lw b (put b (f (data t b)) t)) (\<lambda>_ s. rel b s)) (\<lambda>_ u. post s H k ((view s)(x := f (view s x))) u)"
    using t(3,4) post_from [OF t(6,5)] by (auto elim!: returns_mono)
qed

text \<open>Reading a block and going on with its content: whatever comes after, an error included.\<close>

lemma read_then:
  assumes "ok s H k" "card H < 2" "good s x" "\<forall>b\<in>H. blk s b \<noteq> x"
    and "\<And>b t. b \<notin> H \<Longrightarrow> ok t (insert b H) k \<Longrightarrow> blk t b = x \<Longrightarrow> data t b = view s x \<Longrightarrow>
      view t = view s \<Longrightarrow> \<forall>c\<in>H. blk t c = blk s c \<Longrightarrow> rest s t \<Longrightarrow> R (g b t)"
  shows "R (bnd (rd x s) g)"
proof (rule returns_then [OF rd_law [OF assms(1-4)]], elim conjE)
  fix b t assume t: "b \<notin> H" "ok t (insert b H) k" "blk t b = x" "view t = view s" "\<forall>c\<in>H. blk t c = blk s c" "rest s t"
  moreover have "data t b = view s x" using held_view [OF t(2), of b] t(3,4) by simp
  ultimately show "R (g b t)" by (intro assms(5)) auto
qed

text \<open>Looking at a block and giving it back.\<close>

lemma peek_block:
  assumes "ok s H k" "card H < 2" "good s x" "\<forall>b\<in>H. blk s b \<noteq> x"
    and "\<And>t. post s H k (view s) t \<Longrightarrow> R (g t)"
  shows "R (bnd (rd x s) (\<lambda>b t. bnd (rel b t) (\<lambda>_ u. g u)))"
proof (rule read_then [OF assms(1-4)])
  fix b t assume t: "b \<notin> H" "ok t (insert b H) k" "blk t b = x" "view t = view s" "\<forall>c\<in>H. blk t c = blk s c" "rest s t"
  then have "returns (rel b t) (\<lambda>_ u. post t H k (view s) u)" using post_refl [OF t(2)] by (intro give_back) auto
  then show "R (bnd (rel b t) (\<lambda>_ u. g u))"
    by (rule returns_then [of _ _ R]) (rule assms(5), rule post_from [OF t(6,5)])
qed

end

end
