(* ===== verification/Fs_Txn.thy ===== *)
theory Fs_Txn
  imports Log_Props Fs_Inode Block_Txn
begin

text \<open>
  The log as the file system sees it: inside a transaction, the cache and the log
  together provide the contract of \<open>block_txn\<close>.
\<close>

text \<open>
  A process with the given identifier is inside a transaction; it holds the buffers
  \<open>H\<close>, each of them pinned or as on the disk, and may log \<open>k\<close> more blocks.
\<close>

definition fs_ok :: "int \<Rightarrow> kstate \<Rightarrow> nat set \<Rightarrow> nat \<Rightarrow> bool" where
  "fs_ok n s H k \<longleftrightarrow> 1 \<le> outstanding (log s) \<and> log_size (log s) \<le> LOGSIZE \<and> card H \<le> 2
     \<and> (\<forall>b\<in>H. b_dirty (bcache s ! b) \<or> b_data (bcache s ! b) = memdisk s (b_blockno (bcache s ! b)))
     \<and> (\<exists>hs. txn s n H hs \<and> int (length hs + k) < log_size (log s) \<and> length hs + k + 2 \<le> NBUF)"

text \<open>Blocks of the disk outside the log.\<close>

definition data_block :: "kstate \<Rightarrow> u32 \<Rightarrow> bool" where
  "data_block s x \<longleftrightarrow> unat x < disksize s \<and> \<not> in_log (log_start (log s)) (log_size (log s)) x"

text \<open>Everything but the cache and the list of logged blocks is as before.\<close>

definition fs_rest :: "kstate \<Rightarrow> kstate \<Rightarrow> bool" where
  "fs_rest s t \<longleftrightarrow> (\<exists>g. bio_rest (upd_lh g s) t) \<and> memdisk t = memdisk s \<and> disk_writes t = disk_writes s"

lemma fs_rest_refl [simp]: "fs_rest s s"
proof -
  have "upd_lh (\<lambda>h. h) s = s" by (simp add: upd_lh_def upd_log_def)
  then show ?thesis unfolding fs_rest_def by (metis bio_rest_refl)
qed

lemma fs_rest_trans: "fs_rest s t \<Longrightarrow> fs_rest t u \<Longrightarrow> fs_rest s u"
proof -
  assume *: "fs_rest s t" "fs_rest t u"
  then obtain g h where g: "bio_rest (upd_lh g s) t" "bio_rest (upd_lh h t) u" by (auto simp: fs_rest_def)
  have "upd_lh h (upd_lh g s) = upd_lh (\<lambda>x. h (g x)) s" by (simp add: upd_lh_def upd_log_def)
  with bio_rest_upd_log [OF g(1), of "\<lambda>l. l\<lparr>lh := h (lh l)\<rparr>"] g(2) have "bio_rest (upd_lh (\<lambda>x. h (g x)) s) u"
    by (auto simp: upd_lh_def intro: bio_rest_trans)
  with * show ?thesis by (auto simp: fs_rest_def)
qed

lemma fs_rest_bio: "bio_rest s t \<Longrightarrow> memdisk t = memdisk s \<Longrightarrow> disk_writes t = disk_writes s \<Longrightarrow> fs_rest s t"
proof -
  assume "bio_rest s t" "memdisk t = memdisk s" "disk_writes t = disk_writes s"
  moreover have "upd_lh (\<lambda>h. h) s = s" by (simp add: upd_lh_def upd_log_def)
  ultimately show ?thesis unfolding fs_rest_def by metis
qed

lemma fs_rest_sel:
  assumes "fs_rest s t"
  shows "disksize t = disksize s" "sb t = sb s" "icache t = icache s" "ftable t = ftable s" "mem t = mem s" "cr3 t = cr3 s"
    "sleeplocks t (Inode_sleeplock k) = sleeplocks s (Inode_sleeplock k)" "map pid (ptable t) = map pid (ptable s)"
    "log_start (log t) = log_start (log s)" "log_size (log t) = log_size (log s)" "outstanding (log t) = outstanding (log s)"
    "devsw t = devsw s"
  using assms by (auto simp: fs_rest_def bio_rest_def upd_lh_def upd_log_def)

lemma fs_rest_data_block: "fs_rest s t \<Longrightarrow> data_block t x = data_block s x"
  by (simp add: data_block_def fs_rest_sel)

lemma fs_ok_held: "fs_ok n s H k \<Longrightarrow> b \<in> H \<Longrightarrow> held_buf s n b"
  by (auto simp: fs_ok_def txn_def bio_inv_def)

lemma fs_bread:
  assumes ok: "fs_ok n s H k" and H: "card H < 2" "\<forall>b\<in>H. b_blockno (bcache s ! b) \<noteq> x" and x: "data_block s x"
  shows "returns (bread 1 x s) (\<lambda>b t. b \<notin> H \<and> fs_ok n t (insert b H) k \<and> b_blockno (bcache t ! b) = x \<and> lview t = lview s
    \<and> (\<forall>c\<in>H. b_blockno (bcache t ! c) = b_blockno (bcache s ! c)) \<and> fs_rest s t)"
proof -
  obtain hs where hs: "txn s n H hs" "int (length hs + k) < log_size (log s)" "length hs + k + 2 \<le> NBUF"
    using ok by (auto simp: fs_ok_def)
  then have tx: "bio_inv s n H" "log_holds s hs" "distinct hs" "dirty_blocks s = set hs" by (simp_all add: txn_def)
  have "card (dirty_blocks s) + card H < NBUF" using hs(3) H(1) tx(3,4) distinct_card [of hs] by simp
  moreover have "\<not> buf_for s x b" if "b \<in> H" for b using that H(2) by (auto simp: buf_for_def)
  ultimately have "returns (bread 1 x s) (\<lambda>b t. b < NBUF \<and> b \<notin> H \<and> bio_inv t n (insert b H) \<and> b_blockno (bcache t ! b) = x
     \<and> b_data (bcache t ! b) = lview s x \<and> bio_same H s t)"
    using x by (intro bread_ok [OF tx(1)]) (auto simp: data_block_def)
  then show ?thesis
  proof (rule returns_mono, elim conjE)
    fix b t assume t: "b < NBUF" "b \<notin> H" "bio_inv t n (insert b H)" "b_blockno (bcache t ! b) = x"
      "b_data (bcache t ! b) = lview s x" "bio_same H s t"
    have s: "lview t = lview s" "memdisk t = memdisk s" "disk_writes t = disk_writes s" "dirty_blocks t = dirty_blocks s"
      "bio_rest s t" "\<And>c. c \<in> H \<Longrightarrow> core (bcache t ! c) = core (bcache s ! c)" using t(6) by (auto simp: bio_same_def)
    have fin: "finite H" using tx(1) by (rule held_finite)
    have "txn t n (insert b H) hs" using t(3) s(4,5) tx log_holds_rest [OF s(5)] by (simp add: txn_def)
    moreover have "b_dirty (bcache t ! b) \<or> b_data (bcache t ! b) = memdisk t (b_blockno (bcache t ! b))"
      using held_dirty_iff [OF t(3), of b] t(4,5) s(2,4) clean_lview [OF tx(1) H(2)] by auto
    moreover have "b_dirty (bcache t ! c) \<or> b_data (bcache t ! c) = memdisk t (b_blockno (bcache t ! c))" if "c \<in> H" for c
      using s(2) s(6) [OF that] ok that by (auto simp: core_eq fs_ok_def)
    ultimately have "fs_ok n t (insert b H) k"
      using ok hs(2,3) H(1) t(2) fin bio_rest_sel(2) [OF s(5)] unfolding fs_ok_def by auto
    then show "b \<notin> H \<and> fs_ok n t (insert b H) k \<and> b_blockno (bcache t ! b) = x \<and> lview t = lview s
        \<and> (\<forall>c\<in>H. b_blockno (bcache t ! c) = b_blockno (bcache s ! c)) \<and> fs_rest s t"
      using t(2,4) s fs_rest_bio by (auto simp: core_eq)
  qed
qed

lemma log_write_txn:
  assumes tx: "txn s n H hs" and b: "b \<in> H" "\<not> in_log (log_start (log s)) (log_size (log s)) (b_blockno (bcache s ! b))"
    and room: "int (length hs) < log_size (log s) - 1" "log_size (log s) \<le> LOGSIZE" "outstanding (log s) \<ge> 1"
  shows "returns (log_write b s) (\<lambda>_ t. txn t n H (log_add (b_blockno (bcache s ! b)) hs) \<and> lview t = lview s
    \<and> bcache t = (bcache s)[b := (bcache s ! b)\<lparr>b_dirty := True\<rparr>] \<and> fs_rest s t)"
proof -
  let ?x = "b_blockno (bcache s ! b)"
  have t: "bio_inv s n H" "log_holds s hs" "distinct hs" "dirty_blocks s = set hs" using tx by (simp_all add: txn_def)
  have q: "quiet s n" and h: "held_buf s n b" using t(1) b(1) by (simp_all add: bio_inv_def)
  have len: "length hs < 29" using room by simp
  obtain g where g: "log_write b s = Ret () (pin b (upd_lh g (s\<lparr>hw := touch (hw s)\<rparr>)))" "log_holds (upd_lh g s) (log_add ?x hs)"
    using log_write_eq [OF q t(2) len room(1,3) _ b(2)] h by (auto simp: held_buf_def)
  let ?u = "upd_lh g (s\<lparr>hw := touch (hw s)\<rparr>)"
  have qt: "quiet (s\<lparr>hw := touch (hw s)\<rparr>) n" using quiet_touch [OF q] .
  have u: "bio_inv ?u n H" using t(1) bio_inv_cong [OF qt q, of H] by (simp add: upd_lh_def)
  have v: "lview ?u = lview s" "dirty_blocks ?u = set hs" "bcache ?u = bcache s"
    using bio_cong [of "s\<lparr>hw := touch (hw s)\<rparr>" s] t(4) by (simp_all add: upd_lh_def)
  have "log_holds (pin b ?u) (log_add ?x hs)"
    using g(2) by (simp add: log_holds_def pin_def upd_buf_def upd_lh_def upd_log_def)
  then have "txn (pin b ?u) n H (log_add ?x hs)" using pin_ok [OF u b(1)] t(3) v by (simp add: txn_def)
  moreover have "bio_rest (upd_lh g s) (pin b ?u)" by (rule bio_restI) (simp_all add: pin_def upd_buf_def upd_lh_def upd_log_def)
  then have "fs_rest s (pin b ?u)" unfolding fs_rest_def by (auto simp: pin_def upd_buf_def upd_lh_def upd_log_def)
  moreover have "bcache (pin b ?u) = (bcache s)[b := (bcache s ! b)\<lparr>b_dirty := True\<rparr>]" using v(3) by (simp add: pin_def upd_buf_def)
  ultimately show ?thesis using g(1) pin_ok(2) [OF u b(1)] v(1) by simp
qed

lemma fs_log_write:
  assumes ok: "fs_ok n s H (Suc k)" and b: "b \<in> H" and x: "data_block s (b_blockno (bcache s ! b))"
  shows "returns (log_write b (set_data b d s)) (\<lambda>_ t. fs_ok n t H k \<and> lview t = (lview s)(b_blockno (bcache s ! b) := d)
    \<and> (\<forall>c\<in>H. b_blockno (bcache t ! c) = b_blockno (bcache s ! c)) \<and> fs_rest s t)"
proof -
  let ?u = "set_data b d s" and ?x = "b_blockno (bcache s ! b)"
  obtain hs where hs: "txn s n H hs" "int (length hs + Suc k) < log_size (log s)" "length hs + Suc k + 2 \<le> NBUF"
    using ok by (auto simp: fs_ok_def)
  then have tx: "bio_inv s n H" "log_holds s hs" "distinct hs" "dirty_blocks s = set hs" by (simp_all add: txn_def)
  note sd = set_data_ok [OF tx(1) b, where d = d]
  have txu: "txn ?u n H hs" using sd tx log_holds_rest [OF sd(4)] by (simp add: txn_def)
  have md: "memdisk ?u = memdisk s" "disk_writes ?u = disk_writes s" by (simp_all add: set_data_def upd_buf_def)
  have len: "b < length (bcache s)" using fs_ok_held [OF ok b] tx(1) by (auto simp: bio_inv_def ring_def held_buf_def)
  have "returns (log_write b ?u) (\<lambda>_ t. txn t n H (log_add ?x hs) \<and> lview t = lview ?u
      \<and> bcache t = (bcache ?u)[b := (bcache ?u ! b)\<lparr>b_dirty := True\<rparr>] \<and> fs_rest ?u t)"
    using log_write_txn [OF txu b] x hs(2) ok sd(5) bio_rest_sel(2) [OF sd(4)] by (simp add: data_block_def fs_ok_def)
  then show ?thesis
  proof (rule returns_mono, elim conjE)
    fix t assume t: "txn t n H (log_add ?x hs)" "lview t = lview ?u"
      "bcache t = (bcache ?u)[b := (bcache ?u ! b)\<lparr>b_dirty := True\<rparr>]" "fs_rest ?u t"
    have r: "fs_rest s t" using fs_rest_trans [OF fs_rest_bio [OF sd(4) md] t(4)] .
    have bc: "bcache t ! b = (bcache s ! b)\<lparr>b_data := d, b_dirty := True\<rparr>" "\<And>c. c \<noteq> b \<Longrightarrow> bcache t ! c = bcache s ! c"
      using t(3) sd(5,6) len by (simp_all add: set_data_def upd_buf_def)
    have "\<forall>c\<in>H. b_dirty (bcache t ! c) \<or> b_data (bcache t ! c) = memdisk t (b_blockno (bcache t ! c))"
    proof
      fix c assume "c \<in> H"
      then show "b_dirty (bcache t ! c) \<or> b_data (bcache t ! c) = memdisk t (b_blockno (bcache t ! c))"
        using bc ok r by (cases "c = b") (auto simp: fs_ok_def fs_rest_def)
    qed
    moreover have "int (length (log_add ?x hs) + k) < log_size (log t)" "length (log_add ?x hs) + k + 2 \<le> NBUF"
      using hs(2,3) log_add_simps(4) [of ?x hs] fs_rest_sel(10) [OF r] by linarith+
    ultimately have "fs_ok n t H k" using t(1) ok fs_rest_sel(10,11) [OF r] unfolding fs_ok_def by auto
    moreover have "\<forall>c\<in>H. b_blockno (bcache t ! c) = b_blockno (bcache s ! c)"
      using bc by (metis buf.select_convs(4) buf.surjective buf.update_convs(2,8))
    ultimately show "fs_ok n t H k \<and> lview t = (lview s)(?x := d) \<and> (\<forall>c\<in>H. b_blockno (bcache t ! c) = b_blockno (bcache s ! c)) \<and> fs_rest s t"
      using t(2) sd(2) r by simp
  qed
qed

lemma fs_brelse:
  assumes ok: "fs_ok n s H k" and b: "b \<in> H"
  shows "returns (brelse b s) (\<lambda>_ t. fs_ok n t (H - {b}) k \<and> lview t = lview s
    \<and> (\<forall>c\<in>H - {b}. b_blockno (bcache t ! c) = b_blockno (bcache s ! c)) \<and> fs_rest s t)"
proof -
  obtain hs where hs: "txn s n H hs" "int (length hs + k) < log_size (log s)" "length hs + k + 2 \<le> NBUF"
    using ok by (auto simp: fs_ok_def)
  then have tx: "bio_inv s n H" "log_holds s hs" "distinct hs" "dirty_blocks s = set hs" by (simp_all add: txn_def)
  have "returns (brelse b s) (\<lambda>_ t. bio_inv t n (H - {b}) \<and> bio_same (H - {b}) s t)"
    using ok b by (intro brelse_ok [OF tx(1)]) (auto simp: fs_ok_def)
  then show ?thesis
  proof (rule returns_mono, elim conjE)
    fix t assume t: "bio_inv t n (H - {b})" "bio_same (H - {b}) s t"
    have s: "lview t = lview s" "memdisk t = memdisk s" "disk_writes t = disk_writes s" "dirty_blocks t = dirty_blocks s"
      "bio_rest s t" "\<And>c. c \<in> H - {b} \<Longrightarrow> core (bcache t ! c) = core (bcache s ! c)" using t(2) by (auto simp: bio_same_def)
    have "txn t n (H - {b}) hs" using t(1) s(4,5) tx log_holds_rest [OF s(5)] by (simp add: txn_def)
    moreover have "card (H - {b}) \<le> 2" using ok by (auto simp: fs_ok_def intro: order_trans [OF card_Diff1_le])
    moreover have "b_dirty (bcache t ! c) \<or> b_data (bcache t ! c) = memdisk t (b_blockno (bcache t ! c))" if "c \<in> H - {b}" for c
      using s(2) s(6) [OF that] ok that by (auto simp: core_eq fs_ok_def)
    ultimately have "fs_ok n t (H - {b}) k"
      using ok hs(2,3) bio_rest_sel(2) [OF s(5)] unfolding fs_ok_def by auto
    then show "fs_ok n t (H - {b}) k \<and> lview t = lview s \<and> (\<forall>c\<in>H - {b}. b_blockno (bcache t ! c) = b_blockno (bcache s ! c)) \<and> fs_rest s t"
      using s fs_rest_bio by (auto simp: core_eq)
  qed
qed

interpretation bt: block_txn "fs_ok n" lview "\<lambda>s b. b_blockno (bcache s ! b)" "\<lambda>s b. b_data (bcache s ! b)" data_block fs_rest
  "bread 1" log_write brelse set_data for n
proof (unfold_locales, goal_cases)
  case (2 s t u)
  then show ?case by (rule fs_rest_trans)
next
  case (3 s t x)
  then show ?case by (rule fs_rest_data_block)
next
  case (4 s H k j)
  then obtain hs where "txn s n H hs" "int (length hs + k) < log_size (log s)" "length hs + k + 2 \<le> NBUF" by (auto simp: fs_ok_def)
  moreover from this 4(2) have "int (length hs + j) < log_size (log s)" "length hs + j + 2 \<le> NBUF" by simp_all
  ultimately show ?case using 4(1) unfolding fs_ok_def by blast
next
  case (5 s H k b)
  then have "bio_inv s n H" "held_buf s n b" by (auto simp: fs_ok_def txn_def bio_inv_def)
  then show ?case using lview_cached [of s n H "b_blockno (bcache s ! b)" b] by (simp add: held_buf_def buf_for_def)
next
  case (6 s H k)
  then have "bio_inv s n H" by (auto simp: fs_ok_def txn_def)
  with 6 show ?case using held_finite by (auto simp: fs_ok_def)
next
  case (7 s H k x)
  from fs_bread [OF 7(1,2,4,3)] show ?case .
next
  case (8 s H k b d)
  then show ?case by (rule fs_log_write)
next
  case (9 s H k b)
  then show ?case by (rule fs_brelse)
qed simp_all

end
