(* ===== verification/Fs_Alloc.thy ===== *)
theory Fs_Alloc
  imports Fs_Txn
begin

text \<open>
  The block allocator of \<open>fs.c\<close> against its abstract specification: a set of free
  blocks from which \<open>balloc\<close> takes the lowest and to which \<open>bfree\<close> gives back.
\<close>

section \<open>The bit map\<close>

lemma length_mark [simp]: "length (mark_used d i) = length d" "length (mark_free d i) = length d"
  by (simp_all add: mark_used_def mark_free_def)

lemma bit_position: "(i :: nat) div 8 = j div 8 \<Longrightarrow> i mod 8 = j mod 8 \<Longrightarrow> i = j"
  by (metis div_mult_mod_eq)

lemma bit_one_at: "n < 8 \<Longrightarrow> bit (push_bit k (1 :: u8)) n \<longleftrightarrow> n = k"
  by (auto simp: bit_simps)

lemma bit_used_mark_used: "i div 8 < length d \<Longrightarrow> bit_used (mark_used d i) j \<longleftrightarrow> j = i \<or> bit_used d j"
proof (cases "j div 8 = i div 8")
  case True
  assume "i div 8 < length d"
  moreover have "j mod 8 = i mod 8 \<longleftrightarrow> j = i" using bit_position [of j i] True by blast
  moreover have "j mod 8 < 8" by simp
  ultimately show ?thesis using True bit_one_at [of "j mod 8" "i mod 8"] by (auto simp: bit_used_def mark_used_def bit_or_iff)
qed (auto simp: bit_used_def mark_used_def)

lemma bit_used_mark_free: "i div 8 < length d \<Longrightarrow> bit_used (mark_free d i) j \<longleftrightarrow> j \<noteq> i \<and> bit_used d j"
proof (cases "j div 8 = i div 8")
  case True
  assume "i div 8 < length d"
  moreover have "j mod 8 = i mod 8 \<longleftrightarrow> j = i" using bit_position [of j i] True by blast
  moreover have "j mod 8 < 8" by simp
  ultimately show ?thesis using True bit_one_at [of "j mod 8" "i mod 8"] by (auto simp: bit_used_def mark_free_def bit_and_iff bit_not_iff)
qed (auto simp: bit_used_def mark_free_def)

text \<open>The bit of a block, in a disk with content \<open>V\<close>.\<close>

definition bm_bit :: "superblock \<Rightarrow> (u32 \<Rightarrow> block) \<Rightarrow> u32 \<Rightarrow> bool" where
  "bm_bit v V x = bit_used (V (BBLOCK x v)) (unat x mod BPB)"

lemma BBLOCK_eq_iff: "BBLOCK x v = BBLOCK y v \<longleftrightarrow> unat x div BPB = unat y div BPB"
  using word_unat_eq_iff [of "x div 4096" "y div 4096"] by (simp add: BBLOCK_def unat_div)

lemma same_bit: "BBLOCK x v = BBLOCK y v \<Longrightarrow> unat x mod BPB = unat y mod BPB \<Longrightarrow> x = y"
  by (metis BBLOCK_eq_iff div_mult_mod_eq word_unat_eq_iff)

lemma bit_fits: "(m :: nat) mod BPB div 8 < BSIZE"
  by (rule less_mult_imp_div_less) simp

lemma bm_bit_used:
  assumes "length (V (BBLOCK x v)) = BSIZE"
  shows "bm_bit v (V(BBLOCK x v := mark_used (V (BBLOCK x v)) (unat x mod BPB))) y \<longleftrightarrow> y = x \<or> bm_bit v V y"
proof (cases "BBLOCK y v = BBLOCK x v")
  case True
  then have "unat y mod BPB = unat x mod BPB \<longleftrightarrow> y = x" using same_bit by blast
  with True show ?thesis using bit_fits [of "unat x"] assms by (simp add: bm_bit_def bit_used_mark_used)
qed (auto simp: bm_bit_def)

lemma bm_bit_free:
  assumes "length (V (BBLOCK x v)) = BSIZE"
  shows "bm_bit v (V(BBLOCK x v := mark_free (V (BBLOCK x v)) (unat x mod BPB))) y \<longleftrightarrow> y \<noteq> x \<and> bm_bit v V y"
proof (cases "BBLOCK y v = BBLOCK x v")
  case True
  then have "unat y mod BPB = unat x mod BPB \<longleftrightarrow> y = x" using same_bit by blast
  with True show ?thesis using bit_fits [of "unat x"] assms by (simp add: bm_bit_def bit_used_mark_free)
qed (auto simp: bm_bit_def)

lemma bm_bit_other: "BBLOCK y v \<noteq> x \<Longrightarrow> bm_bit v (V(x := d)) y = bm_bit v V y"
  by (simp add: bm_bit_def)

text \<open>The blocks of the bit map, and the free blocks.\<close>

definition bm_block :: "superblock \<Rightarrow> u32 \<Rightarrow> bool" where
  "bm_block v x \<longleftrightarrow> (\<exists>y < sb_size v. x = BBLOCK y v)"

definition free_blocks :: "kstate \<Rightarrow> u32 set" where
  "free_blocks s = {x. x < sb_size (sb s) \<and> \<not> bm_bit (sb s) (lview s) x}"

text \<open>
  The layout the allocator relies on: the bit map lies in data blocks of the disk,
  and a free block is a data block outside the bit map.
\<close>

definition bmap_ok :: "kstate \<Rightarrow> bool" where
  "bmap_ok s \<longleftrightarrow> (\<forall>x. bm_block (sb s) x \<longrightarrow> data_block s x \<and> length (lview s x) = BSIZE)
     \<and> (\<forall>x\<in>free_blocks s. data_block s x \<and> \<not> bm_block (sb s) x)"

lemma bmap_ok_cong:
  "fs_rest s t \<Longrightarrow> lview t = lview s \<Longrightarrow> bmap_ok t = bmap_ok s"
  "fs_rest s t \<Longrightarrow> lview t = lview s \<Longrightarrow> free_blocks t = free_blocks s"
  by (simp_all add: bmap_ok_def free_blocks_def fs_rest_sel fs_rest_data_block)

lemma bmap_ok_at: "bmap_ok s \<Longrightarrow> x < sb_size (sb s) \<Longrightarrow> data_block s (BBLOCK x (sb s)) \<and> length (lview s (BBLOCK x (sb s))) = BSIZE"
  by (auto simp: bmap_ok_def bm_block_def)

section \<open>Taking a block\<close>

lemma bzero_ok:
  assumes "fs_ok n s H (Suc k)" "card H < 2" "data_block s x" "\<forall>b\<in>H. b_blockno (bcache s ! b) \<noteq> x"
  shows "returns (bzero 1 x s) (\<lambda>_ t. bt.post n s H k ((lview s)(x := replicate BSIZE 0)) t)"
  using bt.update_block [OF assms, of "\<lambda>_. replicate BSIZE 0"] by (simp add: bzero_def)

text \<open>The content of the disk after block \<open>x\<close> was taken.\<close>

definition taken :: "kstate \<Rightarrow> u32 \<Rightarrow> u32 \<Rightarrow> block" where
  "taken s x = (lview s)(BBLOCK x (sb s) := mark_used (lview s (BBLOCK x (sb s))) (unat x mod BPB), x := replicate BSIZE 0)"

text \<open>The bits of one block of the map.\<close>

lemma unat_nat: "n < 2 ^ 32 \<Longrightarrow> unat (of_nat n :: u32) = n"
  by (simp add: unat_of_nat take_bit_nat_eq_self)

lemma bit_in_block:
  assumes "BPB dvd b" "bi < BPB" "b + bi < 2 ^ 32"
  shows "BBLOCK (of_nat (b + bi)) v = BBLOCK (of_nat b) v" "unat (of_nat (b + bi) :: u32) = b + bi" "unat (of_nat (b + bi) :: u32) mod BPB = bi"
proof -
  show u: "unat (of_nat (b + bi) :: u32) = b + bi" using assms(3) by (rule unat_nat)
  moreover have ub: "unat (of_nat b :: u32) = b" using assms(3) by (intro unat_nat) simp
  moreover obtain c where "b = BPB * c" using assms(1) by auto
  ultimately show "BBLOCK (of_nat (b + bi)) v = BBLOCK (of_nat b) v" "unat (of_nat (b + bi) :: u32) mod BPB = bi"
    using assms(2) unfolding BBLOCK_eq_iff by (simp_all del: of_nat_add)
qed

definition in_blocks :: "nat list \<Rightarrow> u32 \<Rightarrow> bool" where
  "in_blocks bs x \<longleftrightarrow> (\<exists>b\<in>set bs. b \<le> unat x \<and> unat x < b + BPB)"

lemma find_free_bit:
  assumes b: "BPB dvd b" "b < unat (sb_size (sb s))" and d: "d = lview s (BBLOCK (of_nat b) (sb s))"
    and f: "r = find (\<lambda>bi. \<not> bit_used d bi) [0..<min BPB (unat (sb_size (sb s)) - b)]"
  shows "r = None \<Longrightarrow> x \<in> free_blocks s \<Longrightarrow> \<not> (b \<le> unat x \<and> unat x < b + BPB)"
    and "r = Some bi \<Longrightarrow> of_nat (b + bi) \<in> free_blocks s \<and> bi < BPB \<and> b + bi < unat (sb_size (sb s))
      \<and> (\<forall>x\<in>free_blocks s. b \<le> unat x \<longrightarrow> unat x < b + BPB \<longrightarrow> (of_nat (b + bi)) \<le> x)"
proof -
  let ?sz = "unat (sb_size (sb s))"
  have sz: "?sz < 2 ^ 32" by (rule u32_lt)
  have bit: "x \<in> free_blocks s \<longleftrightarrow> \<not> bit_used d (unat x - b)" if "b \<le> unat x" "unat x < b + BPB" "unat x < ?sz" for x
  proof -
    have "BBLOCK x (sb s) = BBLOCK (of_nat b) (sb s)" "unat x mod BPB = unat x - b"
      using bit_in_block(1) [OF b(1), of "unat x - b" "sb s"] bit_in_block(3) [OF b(1), of "unat x - b"] that sz by simp_all
    then show ?thesis using that(3) by (simp add: free_blocks_def bm_bit_def d word_less_nat_alt)
  qed
  show "r = None \<Longrightarrow> x \<in> free_blocks s \<Longrightarrow> \<not> (b \<le> unat x \<and> unat x < b + BPB)"
  proof
    assume r: "r = None" "x \<in> free_blocks s" "b \<le> unat x \<and> unat x < b + BPB"
    then have "unat x < ?sz" by (simp add: free_blocks_def word_less_nat_alt)
    then have "\<not> bit_used d (unat x - b)" "unat x - b < min BPB (?sz - b)" using bit [of x] r by auto
    then show False using r(1) f by (auto simp: find_None_iff)
  qed
  assume "r = Some bi"
  then have r: "\<not> bit_used d bi" "bi < min BPB (?sz - b)" "\<And>j. j < bi \<Longrightarrow> bit_used d j"
    using f by (auto simp: find_Some_iff)
  then have lt: "b + bi < ?sz" "bi < BPB" by auto
  have u: "unat (of_nat (b + bi) :: u32) = b + bi" using lt(1) sz by (intro unat_nat) linarith
  have "of_nat (b + bi) \<in> free_blocks s" using bit [of "of_nat (b + bi)"] r(1) lt u by (simp del: of_nat_add)
  moreover have "of_nat (b + bi) \<le> x" if "x \<in> free_blocks s" "b \<le> unat x" "unat x < b + BPB" for x
  proof (rule ccontr)
    assume "\<not> of_nat (b + bi) \<le> x"
    then have "unat x < b + bi" using u by (simp add: word_le_nat_alt)
    then have "bit_used d (unat x - b)" "unat x < ?sz" using that(2) lt r(3) [of "unat x - b"] by simp_all
    then show False using bit [OF that(2,3)] that(1) by simp
  qed
  ultimately show "of_nat (b + bi) \<in> free_blocks s \<and> bi < BPB \<and> b + bi < unat (sb_size (sb s))
      \<and> (\<forall>x\<in>free_blocks s. b \<le> unat x \<longrightarrow> unat x < b + BPB \<longrightarrow> (of_nat (b + bi)) \<le> x)" using lt by blast
qed

text \<open>The buffers a caller holds while it allocates are neither of the map nor of free blocks.\<close>

definition held_apart :: "kstate \<Rightarrow> nat set \<Rightarrow> bool" where
  "held_apart s H \<longleftrightarrow> (\<forall>b\<in>H. \<not> bm_block (sb s) (b_blockno (bcache s ! b)) \<and> b_blockno (bcache s ! b) \<notin> free_blocks s)"

lemma held_apart_post: "bt.post n s H k (lview s) t \<Longrightarrow> held_apart t H = held_apart s H"
  using bmap_ok_cong(2) [of s t] by (auto simp: held_apart_def bt.post_def fs_rest_sel(2))

text \<open>Marking a free block and zeroing it.\<close>

lemma take_block:
  assumes t: "fs_ok n t (insert bp H) (Suc (Suc k))" "bp \<notin> H" "b_blockno (bcache t ! bp) = BBLOCK x (sb s)" "b_data (bcache t ! bp) = lview s (BBLOCK x (sb s))"
      "lview t = lview s" "\<forall>c\<in>H. b_blockno (bcache t ! c) = b_blockno (bcache s ! c)" "fs_rest s t"
    and s: "bmap_ok s" "held_apart s H" "card H < 2" and x: "x \<in> free_blocks s" "unat x mod BPB = bi"
  shows "returns (bnd (log_write bp (set_data bp (mark_used (b_data (bcache t ! bp)) bi) t)) (\<lambda>_ s.
      bnd (brelse bp s) (\<lambda>_ s. bnd (bzero 1 x s) (\<lambda>_ s. Ret x s))))
    (\<lambda>y u. y = x \<and> bt.post n s H k (taken s x) u)"
proof -
  let ?V = "(lview s)(BBLOCK x (sb s) := mark_used (lview s (BBLOCK x (sb s))) bi)"
  have d: "data_block s (BBLOCK x (sb s))" using bmap_ok_at [OF s(1)] x(1) by (auto simp: free_blocks_def)
  have "returns (bnd (log_write bp (set_data bp (mark_used (b_data (bcache t ! bp)) bi) t)) (\<lambda>_ s. brelse bp s))
      (\<lambda>_ u. bt.post n t H (Suc k) ?V u)"
    using bt.log_and_give_back [of n t bp H "Suc k" "mark_used (b_data (bcache t ! bp)) bi"] t d
    by (simp add: fs_rest_data_block)
  then have 1: "returns (bnd (log_write bp (set_data bp (mark_used (b_data (bcache t ! bp)) bi) t)) (\<lambda>_ s. brelse bp s))
      (\<lambda>_ u. bt.post n s H (Suc k) ?V u)" by (rule returns_mono) (rule bt.post_from [OF t(7,6)])
  have 2: "returns (bnd (bzero 1 x u) (\<lambda>_ s. Ret x s)) (\<lambda>y w. y = x \<and> bt.post n s H k (taken s x) w)" if u: "bt.post n s H (Suc k) ?V u" for u
  proof -
    have "data_block u x" using s(1) x(1) bt.postD(4) [OF u] by (auto simp: bmap_ok_def fs_rest_data_block)
    moreover have "\<forall>b\<in>H. b_blockno (bcache u ! b) \<noteq> x" using s(2) x(1) bt.postD(3) [OF u] by (auto simp: held_apart_def)
    ultimately have "returns (bzero 1 x u) (\<lambda>_ w. bt.post n u H k ((lview u)(x := replicate BSIZE 0)) w)"
      using bzero_ok [of n u H k x] bt.postD(1) [OF u] s(3) by simp
    then show ?thesis using bt.post_trans [OF u] bt.postD(2) [OF u] x(2) by (auto simp: returns_bnd taken_def elim!: returns_mono)
  qed
  show ?thesis using returns_then [OF 1, where R = "\<lambda>m. returns m (\<lambda>y w. y = x \<and> bt.post n s H k (taken s x) w)",
      of "\<lambda>_ u. bnd (bzero 1 x u) (\<lambda>_ s. Ret x s)", OF 2] by (simp add: bnd_assoc)
qed

lemma balloc_loop_ok:
  assumes "fs_ok n s H (Suc (Suc k))" "card H < 2" "bmap_ok s" "held_apart s H" "sorted bs" "\<forall>b\<in>set bs. BPB dvd b \<and> b < unat (sb_size (sb s))"
  shows "if \<exists>x\<in>free_blocks s. in_blocks bs x
    then returns (balloc_loop 1 bs s) (\<lambda>x t. x \<in> free_blocks s \<and> (\<forall>y\<in>free_blocks s. in_blocks bs y \<longrightarrow> x \<le> y) \<and> bt.post n s H k (taken s x) t)
    else balloc_loop 1 bs s = Panic ''balloc: out of blocks''"
  using assms
proof (induction bs arbitrary: s)
  case (Cons b bs)
  let ?B = "BBLOCK (of_nat b) (sb s)" and ?ok = "\<lambda>s bs m. if \<exists>x\<in>free_blocks s. in_blocks bs x
    then returns m (\<lambda>x t. x \<in> free_blocks s \<and> (\<forall>y\<in>free_blocks s. in_blocks bs y \<longrightarrow> x \<le> y) \<and> bt.post n s H k (taken s x) t)
    else m = Panic ''balloc: out of blocks''"
  have b: "BPB dvd b" "b < unat (sb_size (sb s))" using Cons.prems(6) by auto
  have "of_nat b < sb_size (sb s)" using b(2) u32_lt [of "sb_size (sb s)"] by (simp add: word_less_nat_alt unat_nat)
  then have B: "data_block s ?B" "\<forall>c\<in>H. b_blockno (bcache s ! c) \<noteq> ?B"
    using bmap_ok_at [OF Cons.prems(3)] Cons.prems(4) by (auto simp: held_apart_def bm_block_def)
  have in_Cons: "in_blocks (b # bs) x \<longleftrightarrow> b \<le> unat x \<and> unat x < b + BPB \<or> in_blocks bs x" for x by (auto simp: in_blocks_def)
  have later: "b \<le> unat x" if "in_blocks bs x" for x using that Cons.prems(5) by (auto simp: in_blocks_def)
  let ?f = "find (\<lambda>bi. \<not> bit_used (lview s ?B) bi) [0..<min BPB (unat (sb_size (sb s)) - b)]"
  have "?ok s (b # bs) (bnd (bread 1 ?B s) (\<lambda>bp s.
     case find (\<lambda>bi. \<not> bit_used (b_data (bcache s ! bp)) bi) [0..<min BPB (unat (sb_size (sb s)) - b)] of
       Some bi \<Rightarrow> bnd (log_write bp (set_data bp (mark_used (b_data (bcache s ! bp)) bi) s)) (\<lambda>_ s.
         bnd (brelse bp s) (\<lambda>_ s. bnd (bzero 1 (of_nat (b + bi)) s) (\<lambda>_ s. Ret (of_nat (b + bi)) s)))
     | None \<Rightarrow> bnd (brelse bp s) (\<lambda>_ s. balloc_loop 1 bs s)))"
  proof (rule bt.read_then [OF Cons.prems(1,2) B, where R = "?ok s (b # bs)"])
    fix bp t assume t: "bp \<notin> H" "fs_ok n t (insert bp H) (Suc (Suc k))" "b_blockno (bcache t ! bp) = ?B" "b_data (bcache t ! bp) = lview s ?B"
      "lview t = lview s" "\<forall>c\<in>H. b_blockno (bcache t ! c) = b_blockno (bcache s ! c)" "fs_rest s t"
    have f: "find (\<lambda>bi. \<not> bit_used (b_data (bcache t ! bp)) bi) [0..<min BPB (unat (sb_size (sb t)) - b)] = ?f"
      using t(4) fs_rest_sel(2) [OF t(7)] by simp
    show "?ok s (b # bs) (case find (\<lambda>bi. \<not> bit_used (b_data (bcache t ! bp)) bi) [0..<min BPB (unat (sb_size (sb t)) - b)] of
       Some bi \<Rightarrow> bnd (log_write bp (set_data bp (mark_used (b_data (bcache t ! bp)) bi) t)) (\<lambda>_ s.
         bnd (brelse bp s) (\<lambda>_ s. bnd (bzero 1 (of_nat (b + bi)) s) (\<lambda>_ s. Ret (of_nat (b + bi)) s)))
     | None \<Rightarrow> bnd (brelse bp t) (\<lambda>_ s. balloc_loop 1 bs s))"
    proof (cases ?f)
      case None
      have "returns (brelse bp t) (\<lambda>_ u. bt.post n t H (Suc (Suc k)) (lview s) u)"
        using bt.post_refl [OF t(2)] t(1,5) by (intro bt.give_back) auto
      then have "returns (brelse bp t) (\<lambda>_ u. bt.post n s H (Suc (Suc k)) (lview s) u)"
        by (rule returns_mono) (rule bt.post_from [OF t(7,6)])
      then have "?ok s bs (bnd (brelse bp t) (\<lambda>_ u. balloc_loop 1 bs u))"
      proof (rule returns_then [where R = "?ok s bs"])
        fix u assume u: "bt.post n s H (Suc (Suc k)) (lview s) u"
        note c = bmap_ok_cong [OF bt.postD(4) [OF u] bt.postD(2) [OF u]] and r = bt.postD(1) [OF u] bt.postD(2) [OF u] bt.postD(4) [OF u]
        have "?ok u bs (balloc_loop 1 bs u)"
          using Cons.prems r(1) c held_apart_post [OF u] fs_rest_sel(2) [OF r(3)] by (intro Cons.IH) auto
        moreover have "taken u = taken s" using r(2) fs_rest_sel(2) [OF r(3)] by (simp add: taken_def fun_eq_iff)
        ultimately show "?ok s bs (balloc_loop 1 bs u)"
          using c bt.post_trans [OF u, of k] by (auto elim!: returns_mono split: if_splits)
      qed
      moreover have "in_blocks (b # bs) x \<longleftrightarrow> in_blocks bs x" if "x \<in> free_blocks s" for x
        using in_Cons [of x] find_free_bit(1) [OF b refl refl None that] by blast
      ultimately show ?thesis unfolding f None by (auto elim!: returns_mono split: if_splits)
    next
      case (Some bi)
      let ?x = "of_nat (b + bi) :: u32"
      note x = find_free_bit(2) [OF b refl refl Some]
      have sz: "unat (sb_size (sb s)) < 2 ^ 32" by (rule u32_lt)
      have p: "BBLOCK ?x (sb s) = ?B" "unat ?x = b + bi" "unat ?x mod BPB = bi" using bit_in_block [OF b(1), of bi] x sz by simp_all
      have "?x \<le> y" if "y \<in> free_blocks s" "in_blocks (b # bs) y" for y
        using x that in_Cons later [of y] p(2) by (cases "unat y < b + BPB") (auto simp: word_le_nat_alt)
      moreover have "in_blocks (b # bs) ?x" using in_Cons p(2) x by auto
      moreover have "returns (bnd (log_write bp (set_data bp (mark_used (b_data (bcache t ! bp)) bi) t)) (\<lambda>_ s.
           bnd (brelse bp s) (\<lambda>_ s. bnd (bzero 1 ?x s) (\<lambda>_ s. Ret ?x s)))) (\<lambda>y u. y = ?x \<and> bt.post n s H k (taken s ?x) u)"
        using t x p Cons.prems by (intro take_block) auto
      ultimately show ?thesis using x unfolding f Some by (auto elim!: returns_mono simp del: of_nat_add)
    qed
  qed
  then show ?case by simp
qed (simp add: in_blocks_def)

lemma all_blocks:
  fixes m :: nat
  defines "bs \<equiv> map (\<lambda>k. BPB * k) [0..<(m + (BPB - 1)) div BPB]"
  shows "sorted bs" "\<forall>b\<in>set bs. BPB dvd b \<and> b < m" "unat x < m \<Longrightarrow> in_blocks bs x"
proof -
  show "sorted bs" by (auto simp: bs_def sorted_iff_nth_mono)
  show "\<forall>b\<in>set bs. BPB dvd b \<and> b < m"
  proof
    fix b assume "b \<in> set bs"
    then obtain k where k: "b = BPB * k" "k < (m + (BPB - 1)) div BPB" by (auto simp: bs_def)
    then have "Suc k * BPB \<le> m + (BPB - 1)" by (simp add: less_eq_div_iff_mult_less_eq [symmetric] Suc_le_eq)
    then show "BPB dvd b \<and> b < m" using k(1) by simp
  qed
  assume x: "unat x < m"
  have q: "unat x div BPB * BPB \<le> unat x" "unat x < unat x div BPB * BPB + BPB"
    using div_mult_mod_eq [of "unat x" BPB] mod_less_divisor [of BPB "unat x"] by linarith+
  then have "Suc (unat x div BPB) * BPB \<le> m + (BPB - 1)" using x by simp
  then have "unat x div BPB < (m + (BPB - 1)) div BPB" by (simp add: less_eq_div_iff_mult_less_eq Suc_le_eq [symmetric])
  then have "BPB * (unat x div BPB) \<in> set bs" by (auto simp: bs_def)
  then show "in_blocks bs x" using q unfolding in_blocks_def by (intro bexI) (auto simp: mult.commute)
qed

lemma balloc_ok:
  assumes "fs_ok n s H (Suc (Suc k))" "card H < 2" "bmap_ok s" "held_apart s H"
  shows "if free_blocks s = {} then balloc 1 s = Panic ''balloc: out of blocks''
    else returns (balloc 1 s) (\<lambda>x t. x \<in> free_blocks s \<and> (\<forall>y\<in>free_blocks s. x \<le> y) \<and> bt.post n s H k (taken s x) t)"
proof -
  have "in_blocks (map (\<lambda>k. BPB * k) [0..<(unat (sb_size (sb s)) + (BPB - 1)) div BPB]) x" if "x \<in> free_blocks s" for x
    using that by (intro all_blocks(3)) (simp add: free_blocks_def word_less_nat_alt)
  then show ?thesis unfolding balloc_def
    using balloc_loop_ok [OF assms all_blocks(1,2)] by (auto elim!: returns_mono split: if_splits)
qed

lemma taken_at: "y \<noteq> x \<Longrightarrow> \<not> bm_block (sb s) y \<Longrightarrow> x \<in> free_blocks s \<Longrightarrow> taken s x y = lview s y" "taken s x x = replicate BSIZE 0"
  by (auto simp: taken_def bm_block_def free_blocks_def)

lemma free_taken:
  assumes "bmap_ok s" "x \<in> free_blocks s" "fs_rest s t" "lview t = taken s x"
  shows "free_blocks t = free_blocks s - {x}" "bmap_ok t"
proof -
  have x: "\<not> bm_block (sb s) x" "length (lview s (BBLOCK x (sb s))) = BSIZE" "x < sb_size (sb s)"
    using assms(1,2) bmap_ok_at [OF assms(1)] by (auto simp: bmap_ok_def free_blocks_def)
  have "bm_bit (sb s) (taken s x) y \<longleftrightarrow> y = x \<or> bm_bit (sb s) (lview s) y" if "y < sb_size (sb s)" for y
    using that x bm_bit_used [of "lview s" x "sb s" y] unfolding taken_def by (subst bm_bit_other) (auto simp: bm_block_def)
  then show f: "free_blocks t = free_blocks s - {x}" using assms(3,4) by (auto simp: free_blocks_def fs_rest_sel)
  have "length (taken s x y) = BSIZE" if "bm_block (sb s) y" for y
    using that assms(1) x by (auto simp: taken_def bmap_ok_def)
  then show "bmap_ok t" using assms f by (auto simp: bmap_ok_def fs_rest_sel fs_rest_data_block)
qed

section \<open>Giving a block back\<close>

lemma bfree_ok:
  assumes s: "fs_ok n s H (Suc k)" "card H < 2" "bmap_ok s" and x: "x < sb_size (sb s)" "\<forall>b\<in>H. b_blockno (bcache s ! b) \<noteq> BBLOCK x (sb s)"
  shows "if x \<in> free_blocks s then bfree 1 x s = Panic ''freeing free block''
    else returns (bfree 1 x s) (\<lambda>_ t. bt.post n s H k ((lview s)(BBLOCK x (sb s) := mark_free (lview s (BBLOCK x (sb s))) (unat x mod BPB))) t)"
    (is "?R (bfree 1 x s)")
proof -
  let ?B = "BBLOCK x (sb s)"
  have B: "data_block s ?B" using bmap_ok_at [OF s(3) x(1)] by simp
  show ?thesis unfolding bfree_def Let_def
  proof (rule bt.read_then [OF s(1,2) B x(2), where R = ?R])
    fix bp t assume t: "bp \<notin> H" "fs_ok n t (insert bp H) (Suc k)" "b_blockno (bcache t ! bp) = ?B" "b_data (bcache t ! bp) = lview s ?B"
      "lview t = lview s" "\<forall>c\<in>H. b_blockno (bcache t ! c) = b_blockno (bcache s ! c)" "fs_rest s t"
    have "returns (bnd (log_write bp (set_data bp d t)) (\<lambda>_ s. brelse bp s)) (\<lambda>_ u. bt.post n s H k ((lview s)(?B := d)) u)" for d
      using bt.log_and_give_back [of n t bp H k d] t B bt.post_from [OF t(7,6)] by (auto simp: fs_rest_data_block elim!: returns_mono)
    then show "?R (if \<not> bit_used (b_data (bcache t ! bp)) (unat x mod BPB) then Panic ''freeing free block''
        else bnd (log_write bp (set_data bp (mark_free (b_data (bcache t ! bp)) (unat x mod BPB)) t)) (\<lambda>_ s. brelse bp s))"
      using t(4) x(1) by (auto simp: free_blocks_def bm_bit_def simp del: fun_upd_apply)
  qed
qed

lemma free_given_back:
  assumes "bmap_ok s" "x < sb_size (sb s)" "fs_rest s t"
    "lview t = (lview s)(BBLOCK x (sb s) := mark_free (lview s (BBLOCK x (sb s))) (unat x mod BPB))"
  shows "free_blocks t = insert x (free_blocks s)" "data_block s x \<Longrightarrow> \<not> bm_block (sb s) x \<Longrightarrow> bmap_ok t"
proof -
  show f: "free_blocks t = insert x (free_blocks s)"
    using assms bm_bit_free [of "lview s" x "sb s"] bmap_ok_at [OF assms(1,2)] by (auto simp: free_blocks_def fs_rest_sel)
  assume "data_block s x" "\<not> bm_block (sb s) x"
  then show "bmap_ok t" using assms f by (auto simp: bmap_ok_def fs_rest_sel fs_rest_data_block)
qed

section \<open>A small file system\<close>

text \<open>
  A disk of 100 blocks: the log from block 2, inodes from block 33, the bit map in
  block 58, the first 64 blocks in use. The running process is inside a transaction.
\<close>

definition demo_sb :: superblock where
  "demo_sb = \<lparr>sb_size = 100, sb_nblocks = 36, sb_ninodes = 16, sb_nlog = 30, sb_logstart = 2, sb_inodestart = 33, sb_bmapstart = 58\<rparr>"

definition demo_disk :: "u32 \<Rightarrow> block" where
  "demo_disk = (\<lambda>_. replicate BSIZE 0)(58 := replicate 8 255 @ replicate 504 0)"

definition demo_fs :: "(u32 \<Rightarrow> block) \<Rightarrow> kstate" where
  "demo_fs D = (upd_log (\<lambda>l. l\<lparr>log_start := 2, log_size := 30, log_dev := 1, outstanding := 1\<rparr>)
     (binit (demo_proc_state\<lparr>memdisk := D\<rparr>)))\<lparr>sb := demo_sb\<rparr>"

lemma demo_sb_size [simp]: "sb_size demo_sb = 100"
  by (simp add: demo_sb_def)

lemma demo_fs_sel [simp]: "sb (demo_fs D) = demo_sb" "data_block (demo_fs D) x \<longleftrightarrow> unat x < 1000 \<and> \<not> in_log 2 30 x"
  by (simp_all add: demo_fs_def data_block_def upd_log_def demo_proc_state_def demo_procs_def demo_state_def boot_state_def)

lemma demo_fs_ok: "k \<le> 28 \<Longrightarrow> fs_ok 3 (demo_fs D) {} k" "lview (demo_fs D) = D"
proof -
  let ?s = "demo_proc_state\<lparr>memdisk := D\<rparr>"
  have "quiet ?s 3" "length (bcache ?s) = NBUF + 1" "\<And>b. b < NBUF \<Longrightarrow> core (bcache ?s ! b) = core zero_buf"
    using demo_quiet by (simp_all add: quiet_def demo_proc_state_def demo_procs_def demo_state_def boot_state_def)
  note b = binit_ok [OF this]
  have q: "quiet (binit ?s) 3" using b by (simp add: bio_inv_def)
  then have q': "quiet (demo_fs D) 3" by (simp add: demo_fs_def quiet_def upd_log_def)
  have e: "bcache (demo_fs D) = bcache (binit ?s)" "memdisk (demo_fs D) = memdisk (binit ?s)" "sleeplocks (demo_fs D) = sleeplocks (binit ?s)"
    by (simp_all add: demo_fs_def upd_log_def)
  show "lview (demo_fs D) = D" using bio_cong(1) [OF e(1,2)] b by simp
  have "txn (demo_fs D) 3 {} []"
    using b bio_inv_cong [OF q' q, of "{}"] bio_cong(2) [OF e(1,2)] e
    by (simp add: txn_def log_holds_def homes_ok_def demo_fs_def upd_log_def demo_proc_state_def demo_procs_def demo_state_def boot_state_def)
  then show "k \<le> 28 \<Longrightarrow> fs_ok 3 (demo_fs D) {} k" unfolding fs_ok_def
    by (intro conjI exI [of _ "[]"]) (simp_all add: demo_fs_def upd_log_def)
qed

lemma demo_BBLOCK: "x < 100 \<Longrightarrow> BBLOCK x demo_sb = 58" "bm_block demo_sb x \<longleftrightarrow> x = 58"
proof -
  show *: "x < 100 \<Longrightarrow> BBLOCK x demo_sb = 58" for x
  proof -
    assume "x < 100"
    then have "unat x div 4096 = 0" by (simp add: word_less_nat_alt)
    then have "x div 4096 = 0" using word_unat_eq_iff [of "x div 4096" 0] by (simp add: unat_div)
    then show ?thesis by (simp add: BBLOCK_def demo_sb_def)
  qed
  show "bm_block demo_sb x \<longleftrightarrow> x = 58" using * [of 0] by (auto simp: bm_block_def demo_sb_def * [unfolded demo_sb_def] intro!: exI [of _ 0])
qed

lemma demo_free: "free_blocks (demo_fs demo_disk) = {x. 64 \<le> x \<and> x < 100}"
proof -
  have "bit_used (demo_disk 58) m \<longleftrightarrow> m < 64" if "m < 100" for m
  proof -
    have "m div 8 < 8 \<longleftrightarrow> m < 64" by auto
    moreover have "bit (255 :: u8) (m mod 8)"
    proof -
      have "(255 :: u8) = mask 8" by (simp add: mask_eq_exp_minus_1)
      then show ?thesis by (simp only: bit_mask_iff) simp
    qed
    ultimately show ?thesis using that by (simp add: bit_used_def demo_disk_def nth_append)
  qed
  then have "bm_bit demo_sb demo_disk x \<longleftrightarrow> x < 64" if "x < 100" for x
    using that demo_BBLOCK(1) [OF that] by (simp add: bm_bit_def word_less_nat_alt)
  then show ?thesis by (auto simp: free_blocks_def demo_fs_ok(2))
qed

lemma demo_bmap_ok: "bmap_ok (demo_fs demo_disk)" "held_apart (demo_fs demo_disk) {}"
proof -
  have "\<not> in_log 2 30 58" "\<not> in_log 2 30 x" if "64 \<le> x" "x < 100" for x
    using that by (auto simp: in_log_def word_le_def word_less_def)
  then show "bmap_ok (demo_fs demo_disk)"
    by (auto simp: bmap_ok_def demo_free demo_BBLOCK(2) demo_fs_ok(2) word_less_nat_alt) (simp_all add: demo_disk_def in_log_def)
qed (simp add: held_apart_def)

section \<open>Properties\<close>

text \<open>
  C22: The block allocator implements its abstract specification, a set of free
  blocks. Inside a transaction with room for two more blocks, \<open>balloc\<close> panics exactly
  when no block is free; otherwise it returns the lowest free block, now no longer
  free and filled with zeros, and no other block outside the bit map changes.
\<close>

theorem balloc_takes_lowest_free:
  assumes "fs_ok n s H (Suc (Suc k))" "card H < 2" "bmap_ok s" "held_apart s H"
  shows "(free_blocks s = {} \<longrightarrow> balloc 1 s = Panic ''balloc: out of blocks'')
    \<and> (free_blocks s \<noteq> {} \<longrightarrow> returns (balloc 1 s) (\<lambda>x t. x \<in> free_blocks s \<and> (\<forall>y\<in>free_blocks s. x \<le> y)
         \<and> free_blocks t = free_blocks s - {x} \<and> lview t x = replicate BSIZE 0
         \<and> (\<forall>y. y \<noteq> x \<longrightarrow> \<not> bm_block (sb s) y \<longrightarrow> lview t y = lview s y) \<and> bmap_ok t \<and> fs_ok n t H k \<and> fs_rest s t))"
proof (cases "free_blocks s = {}")
  case False
  then have "returns (balloc 1 s) (\<lambda>x t. x \<in> free_blocks s \<and> (\<forall>y\<in>free_blocks s. x \<le> y) \<and> bt.post n s H k (taken s x) t)"
    using balloc_ok [OF assms] by simp
  then show ?thesis using False free_taken [OF assms(3)] taken_at(1) [of _ _ s] taken_at(2) [of s]
    by (auto simp: bt.post_def elim!: returns_mono)
qed (use balloc_ok [OF assms] in simp)

theorem balloc_takes_lowest_free_witness:
  "\<exists>t. balloc 1 (demo_fs demo_disk) = Ret 64 t \<and> free_blocks t = {x. 65 \<le> x \<and> x < 100} \<and> lview t 64 = replicate BSIZE 0"
proof -
  let ?s = "demo_fs demo_disk"
  obtain x t where t: "balloc 1 ?s = Ret x t" "x \<in> free_blocks ?s" "\<forall>y\<in>free_blocks ?s. x \<le> y" "free_blocks t = free_blocks ?s - {x}"
    "lview t x = replicate BSIZE 0"
    using balloc_takes_lowest_free [of 3 ?s "{}" 0] demo_fs_ok(1) [of "Suc (Suc 0)"] demo_bmap_ok demo_free by (auto elim!: returnsE)
  moreover have "(64 :: u32) \<in> free_blocks ?s" by (simp add: demo_free)
  ultimately have x: "x = 64" by (auto simp: demo_free intro: order_antisym)
  have "64 \<le> y \<and> y \<noteq> 64 \<longleftrightarrow> 65 \<le> y" for y :: u32
    using word_unat_eq_iff [of y 64] by (auto simp: word_le_nat_alt)
  then show ?thesis using t x by (auto simp: demo_free)
qed

text \<open>
  C23: \<open>bfree\<close> is the inverse on the set of free blocks and detects a double free:
  for a free block it panics, for a block in use it returns with the block free and
  with no block outside the bit map changed.
\<close>

theorem bfree_gives_back:
  assumes "fs_ok n s H (Suc k)" "card H < 2" "bmap_ok s" "held_apart s H" "x < sb_size (sb s)" "data_block s x" "\<not> bm_block (sb s) x"
  shows "(x \<in> free_blocks s \<longrightarrow> bfree 1 x s = Panic ''freeing free block'')
    \<and> (x \<notin> free_blocks s \<longrightarrow> returns (bfree 1 x s) (\<lambda>_ t. free_blocks t = insert x (free_blocks s)
         \<and> (\<forall>y. \<not> bm_block (sb s) y \<longrightarrow> lview t y = lview s y) \<and> bmap_ok t \<and> fs_ok n t H k \<and> fs_rest s t))"
proof -
  have "\<forall>b\<in>H. b_blockno (bcache s ! b) \<noteq> BBLOCK x (sb s)" using assms(4,5) by (auto simp: held_apart_def bm_block_def)
  then show ?thesis using bfree_ok [OF assms(1,2,3,5)] free_given_back [OF assms(3,5)] assms(5-7)
    by (auto simp: bt.post_def bm_block_def elim!: returns_mono)
qed

theorem bfree_gives_back_witness:
  "\<exists>t. bfree 1 60 (demo_fs demo_disk) = Ret () t \<and> 60 \<in> free_blocks t \<and> bfree 1 70 (demo_fs demo_disk) = Panic ''freeing free block''"
  using bfree_gives_back [of 3 "demo_fs demo_disk" "{}" 0 60] bfree_gives_back [of 3 "demo_fs demo_disk" "{}" 0 70]
    demo_fs_ok(1) [of 1 demo_disk] demo_bmap_ok demo_free
  by (auto simp: demo_BBLOCK(2) in_log_def elim!: returnsE)

end
