(* ===== verification/Fs_Table.thy ===== *)
theory Fs_Table
  imports Fs_Alloc
begin

text \<open>
  The table of inodes on the disk against its abstract specification, a function from
  inode numbers to the fields of an inode.
\<close>

section \<open>One entry\<close>

record dinode =
  d_type :: int
  d_major :: int
  d_minor :: int
  d_nlink :: int
  d_size :: u32
  d_addrs :: "u32 list"

definition dinode_at :: "block \<Rightarrow> nat \<Rightarrow> dinode" where
  "dinode_at d k = \<lparr>d_type = sint (ld16 d k), d_major = sint (ld16 d (k + 2)), d_minor = sint (ld16 d (k + 4)),
     d_nlink = sint (ld16 d (k + 6)), d_size = ld32 d (k + 8), d_addrs = map (\<lambda>i. ld32 d (k + 12 + 4 * i)) [0..<NDIRECT + 1]\<rparr>"

definition dinode_of :: "inode \<Rightarrow> dinode" where
  "dinode_of ip = \<lparr>d_type = i_type ip, d_major = i_major ip, d_minor = i_minor ip, d_nlink = i_nlink ip, d_size = i_size ip,
     d_addrs = i_addrs ip\<rparr>"

definition load_dinode :: "dinode \<Rightarrow> inode \<Rightarrow> inode" where
  "load_dinode d ip = ip\<lparr>i_type := d_type d, i_major := d_major d, i_minor := d_minor d, i_nlink := d_nlink d, i_size := d_size d,
     i_addrs := d_addrs d\<rparr>"

lemma dip_load_eq: "dip_load d k ip = load_dinode (dinode_at d k) ip"
  by (simp add: dip_load_def load_dinode_def dinode_at_def)

lemma load_dinode_of [simp]: "dinode_of (load_dinode d ip) = d"
  by (simp add: dinode_of_def load_dinode_def)

text \<open>The 16-bit fields hold what fits; all 13 addresses are there.\<close>

definition short :: "int \<Rightarrow> bool" where
  "short x \<longleftrightarrow> - 32768 \<le> x \<and> x < 32768"

definition dinode_wf :: "dinode \<Rightarrow> bool" where
  "dinode_wf d \<longleftrightarrow> short (d_type d) \<and> short (d_major d) \<and> short (d_minor d) \<and> short (d_nlink d) \<and> length (d_addrs d) = NDIRECT + 1"

lemma sint_short: "short x \<Longrightarrow> sint (word_of_int x :: u16) = x"
  by (simp add: short_def signed_of_int signed_take_bit_int_eq_self)

lemma short_sint: "short (sint (x :: u16))"
  using sint_greater_eq [of x] sint_less [of x] by (simp add: short_def)

lemma dinode_at_wf: "dinode_wf (dinode_at d k)"
  using short_sint by (simp add: dinode_wf_def dinode_at_def)

lemma dinode_at_cong: "(\<And>j. k \<le> j \<Longrightarrow> j < k + 64 \<Longrightarrow> d ! j = e ! j) \<Longrightarrow> dinode_at d k = dinode_at e k"
  by (simp add: dinode_at_def ld16_def ld32_def)

lemma length_dip [simp]: "length (dip_store ip k d) = length d" "k + 64 \<le> length d \<Longrightarrow> length (dip_fresh ty k d) = length d"
  by (simp_all add: dip_store_def Let_def dip_fresh_def)

lemma nth_dip_store:
  "length (i_addrs ip) = NDIRECT + 1 \<Longrightarrow> j < k \<or> k + 64 \<le> j \<Longrightarrow> dip_store ip k d ! j = d ! j"
  by (auto simp: dip_store_def Let_def nth_st32s nth_st32 nth_st16)

lemma dip_store_at:
  assumes "dinode_wf (dinode_of ip)" "k + 64 \<le> length d"
  shows "dinode_at (dip_store ip k d) k = dinode_of ip"
proof -
  let ?d = "st32 (st16 (st16 (st16 (st16 d k (word_of_int (i_type ip))) (k + 2) (word_of_int (i_major ip)))
    (k + 4) (word_of_int (i_minor ip))) (k + 6) (word_of_int (i_nlink ip))) (k + 8) (i_size ip)"
  have len: "length (i_addrs ip) = 13" using assms(1) by (simp add: dinode_wf_def dinode_of_def)
  have b: "dip_store ip k d = st32s ?d (k + 12) (i_addrs ip)" by (simp add: dip_store_def Let_def)
  have a: "map (\<lambda>i. ld32 (dip_store ip k d) (k + 12 + 4 * i)) [0..<NDIRECT + 1] = i_addrs ip"
    using len assms(2) by (intro nth_equalityI) (simp_all add: b ld32_st32s)
  have "ld16 (dip_store ip k d) j = ld16 ?d j" if "j + 1 < k + 12" for j using that by (simp add: b ld16_def nth_st32s)
  moreover have "ld32 (dip_store ip k d) (k + 8) = ld32 ?d (k + 8)" by (simp add: b ld32_st32s_before)
  ultimately show ?thesis using a assms sint_short
    by (simp add: dinode_at_def dinode_of_def dinode_wf_def ld16_other ld16_st32)
qed

lemma dip_fresh_at:
  assumes "short ty" "k + 64 \<le> length d"
  shows "dinode_at (dip_fresh ty k d) k = \<lparr>d_type = ty, d_major = 0, d_minor = 0, d_nlink = 0, d_size = 0, d_addrs = replicate (NDIRECT + 1) 0\<rparr>"
proof -
  let ?z = "take k d @ replicate 64 0 @ drop (k + 64) d"
  have z: "?z ! j = 0" if "k \<le> j" "j < k + 64" for j
  proof -
    have "j - k < 64" using that by simp
    then show ?thesis using that assms(2) by (simp add: nth_append)
  qed
  have n: "dip_fresh ty k d ! j = 0" if "k + 2 \<le> j" "j < k + 64" for j using that z by (simp add: dip_fresh_def nth_st16)
  have "k + 1 < length ?z" using assms(2) by simp
  then have "ld16 (dip_fresh ty k d) k = word_of_int ty" unfolding dip_fresh_def by (rule ld16_st16)
  moreover have "ld16 (dip_fresh ty k d) j = 0" if "k + 2 \<le> j" "j + 1 < k + 64" for j using that n by (simp add: ld16_def)
  moreover have "ld32 (dip_fresh ty k d) j = 0" if "k + 2 \<le> j" "j + 3 < k + 64" for j using that n by (simp add: ld32_def)
  then have "map (\<lambda>i. ld32 (dip_fresh ty k d) (k + 12 + 4 * i)) [0..<NDIRECT + 1] = replicate (NDIRECT + 1) 0"
    "ld32 (dip_fresh ty k d) (k + 8) = 0" by (auto intro!: nth_equalityI)
  ultimately show ?thesis using sint_short [OF assms(1)] unfolding dinode_at_def by simp
qed

lemma nth_dip_fresh: "k + 64 \<le> length d \<Longrightarrow> j < k \<or> k + 64 \<le> j \<Longrightarrow> dip_fresh ty k d ! j = d ! j"
  by (auto simp: dip_fresh_def nth_st16 nth_append)

section \<open>The table\<close>

definition dinodes :: "kstate \<Rightarrow> u32 \<Rightarrow> dinode" where
  "dinodes s i = dinode_at (lview s (IBLOCK i (sb s))) (dip_at i)"

lemma IBLOCK_eq_iff: "IBLOCK i v = IBLOCK j v \<longleftrightarrow> unat i div 8 = unat j div 8"
  using word_unat_eq_iff [of "i div 8" "j div 8"] by (simp add: IBLOCK_def unat_div)

lemma dip_at_range: "dip_at i + 64 \<le> BSIZE"
proof -
  have "unat i mod 8 < 8" by simp
  then show ?thesis by (simp add: unat_mod)
qed

lemma dip_at_apart:
  assumes "IBLOCK i v = IBLOCK j v" "i \<noteq> j"
  shows "dip_at i + 64 \<le> dip_at j \<or> dip_at j + 64 \<le> dip_at i"
proof -
  have "unat i mod 8 \<noteq> unat j mod 8" using assms by (metis IBLOCK_eq_iff div_mult_mod_eq word_unat_eq_iff)
  then show ?thesis by (auto simp: unat_mod)
qed

text \<open>Replacing one entry leaves the others alone.\<close>

lemma dinodes_put:
  assumes "lview t = (lview s)(IBLOCK i (sb s) := d)" "sb t = sb s"
    "\<And>j. j < dip_at i \<or> dip_at i + 64 \<le> j \<Longrightarrow> d ! j = lview s (IBLOCK i (sb s)) ! j" "dinode_at d (dip_at i) = e"
  shows "dinodes t = (dinodes s)(i := e)"
proof
  fix j
  show "dinodes t j = ((dinodes s)(i := e)) j"
  proof (cases "IBLOCK j (sb s) = IBLOCK i (sb s) \<and> j \<noteq> i")
    case True
    then have "dinode_at d (dip_at j) = dinode_at (lview s (IBLOCK i (sb s))) (dip_at j)"
      using dip_at_apart [of j "sb s" i] by (intro dinode_at_cong assms(3)) auto
    then show ?thesis using True assms by (simp add: dinodes_def)
  qed (use assms in \<open>auto simp: dinodes_def\<close>)
qed


text \<open>\<open>iupdate\<close>, in terms of the content of the disk.\<close>

lemma iupdate_ok:
  assumes "fs_ok n s H (Suc k)" "card H < 2" "i_dev (icache s ! ip) = 1"
    "data_block s (IBLOCK (i_inum (icache s ! ip)) (sb s))" "\<forall>b\<in>H. b_blockno (bcache s ! b) \<noteq> IBLOCK (i_inum (icache s ! ip)) (sb s)"
  shows "returns (iupdate ip s) (\<lambda>_ t. bt.post n s H k ((lview s)(IBLOCK (i_inum (icache s ! ip)) (sb s) :=
    dip_store (icache s ! ip) (dip_at (i_inum (icache s ! ip))) (lview s (IBLOCK (i_inum (icache s ! ip)) (sb s))))) t)"
  (is "?R (iupdate ip s)")
proof -
  let ?B = "IBLOCK (i_inum (icache s ! ip)) (sb s)"
  show ?thesis unfolding iupdate_def Let_def assms(3)
  proof (rule bt.read_then [OF assms(1,2,4,5), where R = ?R])
    fix bp t assume t: "bp \<notin> H" "fs_ok n t (insert bp H) (Suc k)" "b_blockno (bcache t ! bp) = ?B" "b_data (bcache t ! bp) = lview s ?B"
      "lview t = lview s" "\<forall>c\<in>H. b_blockno (bcache t ! c) = b_blockno (bcache s ! c)" "fs_rest s t"
    have "returns (bnd (log_write bp (set_data bp d t)) (\<lambda>_ s. brelse bp s)) (\<lambda>_ u. bt.post n s H k ((lview s)(?B := d)) u)" for d
      using bt.log_and_give_back [of n t bp H k d] t assms(4) bt.post_from [OF t(7,6)] by (auto simp: fs_rest_data_block elim!: returns_mono)
    then show "?R (bnd (log_write bp (set_data bp (dip_store (icache t ! ip) (dip_at (i_inum (icache t ! ip))) (b_data (bcache t ! bp))) t)) (\<lambda>_. brelse bp))"
      using t(4) fs_rest_sel(3) [OF t(7)] by (simp del: fun_upd_apply)
  qed
qed

section \<open>Changes to the cached inodes\<close>

lemma fs_ok_cong:
  assumes "fs_ok n s H k" "quiet t n" "bcache t = bcache s" "memdisk t = memdisk s" "disksize t = disksize s" "log t = log s"
    "\<And>b. sleeplocks t (Buf_sleeplock b) = sleeplocks s (Buf_sleeplock b)"
  shows "fs_ok n t H k"
proof -
  obtain hs where hs: "txn s n H hs" "int (length hs + k) < log_size (log s)" "length hs + k + 2 \<le> NBUF"
    using assms(1) by (auto simp: fs_ok_def)
  then have "quiet s n" by (simp add: txn_def bio_inv_def)
  then have "txn t n H hs" using hs(1) bio_inv_cong [OF assms(2) _ assms(3-5,7)] bio_cong(2) [OF assms(3,4)] assms(5,6)
    by (simp add: txn_def log_holds_def)
  then show ?thesis using assms(1,3,4,6) hs(2,3) unfolding fs_ok_def by auto
qed

lemma fs_ok_quiet: "fs_ok n s H k \<Longrightarrow> quiet s n"
  by (auto simp: fs_ok_def txn_def bio_inv_def)

lemma upd_inode_sel [simp]: "sb (upd_inode ip f s) = sb s" "bcache (upd_inode ip f s) = bcache s" "memdisk (upd_inode ip f s) = memdisk s"
  "icache (upd_inode ip f s) = (icache s)[ip := f (icache s ! ip)]" "sleeplocks (upd_inode ip f s) = sleeplocks s"
  "data_block (upd_inode ip f s) x = data_block s x" "log (upd_inode ip f s) = log s" "hw (upd_inode ip f s) = hw s"
  "ptable (upd_inode ip f s) = ptable s" "disksize (upd_inode ip f s) = disksize s" "mem (upd_inode ip f s) = mem s"
  by (simp_all add: upd_inode_def data_block_def)

lemma lview_upd_inode [simp]: "lview (upd_inode ip f s) = lview s"
  by (rule bio_cong) simp_all

lemma fs_ok_upd_inode: "fs_ok n s H k \<Longrightarrow> fs_ok n (upd_inode ip f s) H k"
  by (rule fs_ok_cong) (auto intro: quiet_cong dest: fs_ok_quiet)

text \<open>\<open>iupdate\<close>, in terms of the table.\<close>

lemma iupdate_table:
  assumes "fs_ok n s {} (Suc k)" "i_dev (icache s ! ip) = 1" "dinode_wf (dinode_of (icache s ! ip))"
    "data_block s (IBLOCK (i_inum (icache s ! ip)) (sb s))" "length (lview s (IBLOCK (i_inum (icache s ! ip)) (sb s))) = BSIZE"
  shows "returns (iupdate ip s) (\<lambda>_ t. dinodes t = (dinodes s)(i_inum (icache s ! ip) := dinode_of (icache s ! ip))
    \<and> (\<forall>x. x \<noteq> IBLOCK (i_inum (icache s ! ip)) (sb s) \<longrightarrow> lview t x = lview s x)
    \<and> length (lview t (IBLOCK (i_inum (icache s ! ip)) (sb s))) = BSIZE \<and> fs_ok n t {} k \<and> fs_rest s t)"
proof -
  let ?n = "icache s ! ip" and ?i = "i_inum (icache s ! ip)"
  let ?d = "dip_store ?n (dip_at ?i) (lview s (IBLOCK ?i (sb s)))"
  have "returns (iupdate ip s) (\<lambda>_ t. bt.post n s {} k ((lview s)(IBLOCK ?i (sb s) := ?d)) t)"
    using iupdate_ok [OF assms(1) _ assms(2,4)] by simp
  moreover have "dinodes t = (dinodes s)(?i := dinode_of ?n)" if "bt.post n s {} k ((lview s)(IBLOCK ?i (sb s) := ?d)) t" for t
  proof (rule dinodes_put [OF bt.postD(2) [OF that]])
    show "sb t = sb s" using fs_rest_sel(2) [OF bt.postD(4) [OF that]] .
    show "dinode_at ?d (dip_at ?i) = dinode_of ?n" using dip_at_range [of ?i] assms(3,5) by (intro dip_store_at) simp_all
  qed (rule nth_dip_store, use assms(3) in \<open>simp_all add: dinode_wf_def dinode_of_def\<close>)
  ultimately show ?thesis using assms(5) by (auto simp: bt.post_def elim!: returns_mono)
qed

section \<open>Locking an inode\<close>

lemma ilock_loads:
  assumes s: "fs_ok n s {} k" and ip: "ip < length (icache s)" "i_ref (icache s ! ip) \<ge> 1" "\<not> i_valid (icache s ! ip)"
      "i_dev (icache s ! ip) = 1" "data_block s (IBLOCK (i_inum (icache s ! ip)) (sb s))"
    and lk: "\<not> sl_locked (sleeplocks s (Inode_sleeplock ip))" and d: "d = dinodes s (i_inum (icache s ! ip))"
  shows "if d_type d = 0 then ilock (Some ip) s = Panic ''ilock: no type''
    else returns (ilock (Some ip) s) (\<lambda>_ t. fs_ok n t {} k \<and> lview t = lview s \<and> sb t = sb s
      \<and> icache t = (icache s)[ip := (load_dinode d (icache s ! ip))\<lparr>i_valid := True\<rparr>]
      \<and> (\<forall>j. sleeplocks t (Inode_sleeplock j) = (if j = ip then \<lparr>sl_locked = True, sl_pid = n\<rparr> else sleeplocks s (Inode_sleeplock j))))"
    (is "?R (ilock (Some ip) s)")
proof -
  let ?n = "icache s ! ip"
  let ?s1 = "s\<lparr>sleeplocks := (sleeplocks s)(Inode_sleeplock ip := \<lparr>sl_locked = True, sl_pid = n\<rparr>), hw := touch (hw s)\<rparr>"
  let ?B = "IBLOCK (i_inum ?n) (sb s)"
  have q: "quiet s n" using s by (rule fs_ok_quiet)
  have a: "acquiresleep (Inode_sleeplock ip) s = Ret () ?s1" using quiet_acquiresleep [OF q lk] .
  have q1: "quiet ?s1 n" by (rule quiet_cong [OF quiet_touch [OF q]]) simp_all
  have s1: "fs_ok n ?s1 {} k" "lview ?s1 = lview s" using fs_ok_cong [OF s q1] bio_cong(1) [of ?s1 s] by simp_all
  have db: "data_block ?s1 ?B" using ip(5) by (simp add: data_block_def)
  have eq: "ilock (Some ip) s = bnd (bread 1 ?B ?s1) (\<lambda>bp s.
      let s = upd_inode ip (dip_load (buf_data s bp) (dip_at (i_inum (icache s ! ip)))) s in
      bnd (brelse bp s) (\<lambda>_ s. let s = upd_inode ip (\<lambda>n. n\<lparr>i_valid := True\<rparr>) s in
      if i_type (icache s ! ip) = 0 then Panic ''ilock: no type'' else Ret () s))"
    using ip a by (simp add: ilock_def)
  show ?thesis unfolding eq
  proof (rule bt.read_then [OF s1(1) _ db, where R = ?R])
    fix bp t assume t: "fs_ok n t (insert bp {}) k" "b_blockno (bcache t ! bp) = ?B" "b_data (bcache t ! bp) = lview ?s1 ?B"
      "lview t = lview ?s1" "fs_rest ?s1 t"
    have ic: "icache t = icache s" "sb t = sb s" using fs_rest_sel(2,3) [OF t(5)] by simp_all
    let ?u = "upd_inode ip (load_dinode d) t"
    have u: "upd_inode ip (dip_load (buf_data t bp) (dip_at (i_inum (icache t ! ip)))) t = ?u"
      using t(3) s1(2) ic d by (simp add: upd_inode_def dip_load_eq dinodes_def)
    have "returns (brelse bp ?u) (\<lambda>_ w. bt.post n ?u {} k (lview s) w)"
      using bt.give_back [of n ?u bp "{}" k "lview s" ?u] bt.post_refl [OF fs_ok_upd_inode [OF t(1)]] t(4) s1(2) by simp
    then obtain w where w: "brelse bp ?u = Ret () w" "bt.post n ?u {} k (lview s) w" by (auto elim!: returnsE)
    note r = bt.postD(4) [OF w(2)]
    have i: "icache (upd_inode ip (\<lambda>n. n\<lparr>i_valid := True\<rparr>) w) = (icache s)[ip := (load_dinode d ?n)\<lparr>i_valid := True\<rparr>]"
      using fs_rest_sel(3) [OF r] ic ip(1) by simp
    moreover have "sleeplocks w (Inode_sleeplock j) = (if j = ip then \<lparr>sl_locked = True, sl_pid = n\<rparr> else sleeplocks s (Inode_sleeplock j))" for j
      using fs_rest_sel(7) [OF r, of j] fs_rest_sel(7) [OF t(5), of j] by simp
    moreover have "fs_ok n (upd_inode ip (\<lambda>n. n\<lparr>i_valid := True\<rparr>) w) {} k" "lview w = lview s" "sb w = sb s"
      using fs_ok_upd_inode bt.postD(1,2) [OF w(2)] fs_rest_sel(2) [OF r] ic by simp_all
    ultimately show "?R (let s = upd_inode ip (dip_load (buf_data t bp) (dip_at (i_inum (icache t ! ip)))) t in
      bnd (brelse bp s) (\<lambda>_ s. let s = upd_inode ip (\<lambda>n. n\<lparr>i_valid := True\<rparr>) s in
      if i_type (icache s ! ip) = 0 then Panic ''ilock: no type'' else Ret () s))"
      unfolding u Let_def w(1) using ip(1) by (simp add: load_dinode_def)
  qed simp_all
qed

section \<open>The inode cache\<close>

definition icache_unique :: "kstate \<Rightarrow> bool" where
  "icache_unique s \<longleftrightarrow> (\<forall>i<length (icache s). i_ref (icache s ! i) \<ge> 0)
     \<and> (\<forall>i<length (icache s). \<forall>j<length (icache s). i_ref (icache s ! i) > 0 \<longrightarrow> i_ref (icache s ! j) > 0 \<longrightarrow>
          i_dev (icache s ! i) = i_dev (icache s ! j) \<longrightarrow> i_inum (icache s ! i) = i_inum (icache s ! j) \<longrightarrow> i = j)"

lemma iget_eq:
  assumes "quiet s n"
  shows "iget dev inum s = (case findi (\<lambda>ip. i_ref ip > 0 \<and> i_dev ip = dev \<and> i_inum ip = inum) (icache s) of
      Some ip \<Rightarrow> Ret ip ((upd_inode ip (\<lambda>n. n\<lparr>i_ref := i_ref n + 1\<rparr>) s)\<lparr>hw := touch (hw s)\<rparr>)
    | None \<Rightarrow> (case findi (\<lambda>ip. i_ref ip = 0) (icache s) of None \<Rightarrow> Panic ''iget: no inodes''
        | Some ip \<Rightarrow> Ret ip ((upd_inode ip (\<lambda>n. n\<lparr>i_dev := dev, i_inum := inum, i_ref := 1, i_valid := False\<rparr>) s)\<lparr>hw := touch (hw s)\<rparr>)))"
  using quiet_lock [OF assms, of Icache_lock]
  by (auto simp: iget_def lock_simps upd_inode_def split: option.splits)

text \<open>The entry for an inode: the one in use, or a fresh one.\<close>

lemma iget_spec:
  assumes "quiet s n" "icache_unique s"
  shows "if (\<forall>i<length (icache s). \<not> (i_ref (icache s ! i) > 0 \<and> i_dev (icache s ! i) = dev \<and> i_inum (icache s ! i) = inum) \<and> i_ref (icache s ! i) \<noteq> 0)
    then iget dev inum s = Panic ''iget: no inodes''
    else returns (iget dev inum s) (\<lambda>ip t. icache_unique t \<and> ip < length (icache s) \<and> length (icache t) = length (icache s)
      \<and> i_dev (icache t ! ip) = dev \<and> i_inum (icache t ! ip) = inum \<and> i_ref (icache t ! ip) = i_ref (icache s ! ip) + 1
      \<and> (\<forall>j. j \<noteq> ip \<longrightarrow> icache t ! j = icache s ! j)
      \<and> (if i_ref (icache s ! ip) = 0
         then \<not> i_valid (icache t ! ip) \<and> (\<forall>j<length (icache s). \<not> (i_ref (icache s ! j) > 0 \<and> i_dev (icache s ! j) = dev \<and> i_inum (icache s ! j) = inum))
         else icache t ! ip = (icache s ! ip)\<lparr>i_ref := i_ref (icache s ! ip) + 1\<rparr>))"
proof (cases "findi (\<lambda>ip. i_ref ip > 0 \<and> i_dev ip = dev \<and> i_inum ip = inum) (icache s)")
  case (Some ip)
  then have ip: "ip < length (icache s)" "i_ref (icache s ! ip) > 0" "i_dev (icache s ! ip) = dev" "i_inum (icache s ! ip) = inum"
    by (auto simp: findi_Some_iff)
  have "icache_unique ((upd_inode ip (\<lambda>n. n\<lparr>i_ref := i_ref n + 1\<rparr>) s)\<lparr>hw := touch (hw s)\<rparr>)"
    using assms(2) ip(1,2) unfolding icache_unique_def by (auto simp: nth_list_update)
  then show ?thesis using ip Some by (auto simp: iget_eq [OF assms(1)])
next
  case None
  note no = None
  then have n: "\<forall>i<length (icache s). \<not> (i_ref (icache s ! i) > 0 \<and> i_dev (icache s ! i) = dev \<and> i_inum (icache s ! i) = inum)"
    by (simp add: findi_None_iff all_set_conv_all_nth)
  show ?thesis
  proof (cases "findi (\<lambda>ip. i_ref ip = 0) (icache s)")
    case None
    then have "\<forall>i<length (icache s). i_ref (icache s ! i) \<noteq> 0" by (simp add: findi_None_iff all_set_conv_all_nth)
    then show ?thesis using no n None by (auto simp: iget_eq [OF assms(1)])
  next
    case (Some ip)
    then have ip: "ip < length (icache s)" "i_ref (icache s ! ip) = 0" by (auto simp: findi_Some_iff)
    have "icache_unique ((upd_inode ip (\<lambda>n. n\<lparr>i_dev := dev, i_inum := inum, i_ref := 1, i_valid := False\<rparr>) s)\<lparr>hw := touch (hw s)\<rparr>)"
      using assms(2) ip(1) n unfolding icache_unique_def by (auto simp: nth_list_update)
    then show ?thesis using no n ip Some by (auto simp: iget_eq [OF assms(1)])
  qed
qed

section \<open>Properties\<close>

text \<open>
  C24: \<open>iupdate\<close> implements an assignment to the table of inodes on the disk. Inside
  a transaction it returns; the entry of the inode then has exactly the fields of
  the cached copy, every other entry of the table is as before, although eight of
  them share the block, and so is every block outside the table.
\<close>

theorem inode_table_update:
  assumes "fs_ok n s {} (Suc k)" "i_dev (icache s ! ip) = 1" "dinode_wf (dinode_of (icache s ! ip))"
    "data_block s (IBLOCK (i_inum (icache s ! ip)) (sb s))" "length (lview s (IBLOCK (i_inum (icache s ! ip)) (sb s))) = BSIZE"
  shows "returns (iupdate ip s) (\<lambda>_ t. dinodes t = (dinodes s)(i_inum (icache s ! ip) := dinode_of (icache s ! ip))
    \<and> (\<forall>x. x \<noteq> IBLOCK (i_inum (icache s ! ip)) (sb s) \<longrightarrow> lview t x = lview s x)
    \<and> length (lview t (IBLOCK (i_inum (icache s ! ip)) (sb s))) = BSIZE \<and> fs_ok n t {} k \<and> fs_rest s t)"
  using assms by (rule iupdate_table)

lemma binit_inode_locks: "sleeplocks (binit s) (Inode_sleeplock k) = sleeplocks s (Inode_sleeplock k)"
proof -
  have "sleeplocks (binit_one b s) (Inode_sleeplock k) = sleeplocks s (Inode_sleeplock k)" for b s
    by (simp add: binit_one_def Let_def upd_buf_def initsleeplock_def upd_sleeplock_def)
  then have "sleeplocks (fold binit_one bs s) (Inode_sleeplock k) = sleeplocks s (Inode_sleeplock k)" for bs s
    by (induction bs arbitrary: s) simp_all
  then show ?thesis by (simp add: binit_def Let_def upd_buf_def)
qed

definition demo_inode :: inode where
  "demo_inode = \<lparr>i_dev = 1, i_inum = 5, i_ref = 1, i_valid = True, i_type = T_FILE, i_major = 0, i_minor = 0, i_nlink = 1,
     i_size = 700, i_addrs = [60, 61, 0, 0, 0, 0, 0, 0, 0, 0, 0, 0, 0]\<rparr>"

definition demo_files :: kstate where
  "demo_files = (demo_fs demo_disk)\<lparr>icache := demo_inode # replicate 49 (demo_inode\<lparr>i_ref := 0\<rparr>)\<rparr>"

lemma demo_files_sel [simp]: "sb demo_files = demo_sb" "icache demo_files = demo_inode # replicate 49 (demo_inode\<lparr>i_ref := 0\<rparr>)"
  "data_block demo_files x \<longleftrightarrow> unat x < 1000 \<and> \<not> in_log 2 30 x" "lview demo_files = demo_disk"
  using demo_fs_sel(2) [of demo_disk x] demo_fs_ok(2) [of demo_disk] bio_cong(1) [of demo_files "demo_fs demo_disk"]
  by (simp_all add: demo_files_def data_block_def)

lemma demo_files_ok: "k \<le> 28 \<Longrightarrow> fs_ok 3 demo_files {} k"
proof -
  assume "k \<le> 28"
  note s = demo_fs_ok(1) [OF this, of demo_disk]
  have "quiet demo_files 3" using fs_ok_quiet [OF s] by (rule quiet_cong) (simp_all add: demo_files_def)
  then show ?thesis by (rule fs_ok_cong [OF s]) (simp_all add: demo_files_def)
qed

lemma demo_inode_facts: "dinode_wf (dinode_of demo_inode)" "IBLOCK 5 demo_sb = 33" "\<not> in_log 2 30 33"
  by (simp_all add: dinode_wf_def dinode_of_def demo_inode_def short_def IBLOCK_def demo_sb_def in_log_def)

theorem inode_table_update_witness:
  "\<exists>t. iupdate 0 demo_files = Ret () t \<and> d_size (dinodes t 5) = 700 \<and> d_addrs (dinodes t 5) ! 1 = 61 \<and> dinodes t 4 = dinodes demo_files 4"
  using inode_table_update [of 3 demo_files 0 0] demo_files_ok [of 1] demo_inode_facts
  by (auto simp: demo_inode_def dinode_of_def demo_disk_def elim!: returnsE)

text \<open>
  C25: What \<open>iupdate\<close> writes, \<open>ilock\<close> reads: in any later state with the same disk
  content, locking a cache entry of that inode that is not valid yet loads exactly
  the fields that were stored, and the lock is held by the running process. An
  inode stored with type 0 makes \<open>ilock\<close> panic.
\<close>

theorem iupdate_ilock_roundtrip:
  assumes "fs_ok n s {} (Suc k)" "i_dev (icache s ! ip) = 1" "dinode_wf (dinode_of (icache s ! ip))"
    "data_block s (IBLOCK (i_inum (icache s ! ip)) (sb s))" "length (lview s (IBLOCK (i_inum (icache s ! ip)) (sb s))) = BSIZE"
  shows "returns (iupdate ip s) (\<lambda>_ t. \<forall>u jp. fs_ok n u {} 0 \<longrightarrow> lview u = lview t \<longrightarrow> sb u = sb t \<longrightarrow> disksize u = disksize t \<longrightarrow>
      log u = log t \<longrightarrow> jp < length (icache u) \<longrightarrow> \<not> i_valid (icache u ! jp) \<longrightarrow> i_ref (icache u ! jp) \<ge> 1 \<longrightarrow>
      i_dev (icache u ! jp) = 1 \<longrightarrow> i_inum (icache u ! jp) = i_inum (icache s ! ip) \<longrightarrow> \<not> sl_locked (sleeplocks u (Inode_sleeplock jp)) \<longrightarrow>
      (if i_type (icache s ! ip) = 0 then ilock (Some jp) u = Panic ''ilock: no type''
       else returns (ilock (Some jp) u) (\<lambda>_ w. dinode_of (icache w ! jp) = dinode_of (icache s ! ip) \<and> i_valid (icache w ! jp)
         \<and> sleeplocks w (Inode_sleeplock jp) = \<lparr>sl_locked = True, sl_pid = n\<rparr>)))"
proof (rule returns_mono [OF iupdate_table [OF assms]], elim conjE, intro allI impI)
  fix t u jp
  assume t: "dinodes t = (dinodes s)(i_inum (icache s ! ip) := dinode_of (icache s ! ip))" "fs_rest s t"
    and u: "fs_ok n u {} 0" "lview u = lview t" "sb u = sb t" "disksize u = disksize t" "log u = log t"
    and jp: "jp < length (icache u)" "\<not> i_valid (icache u ! jp)" "i_ref (icache u ! jp) \<ge> 1" "i_dev (icache u ! jp) = 1"
      "i_inum (icache u ! jp) = i_inum (icache s ! ip)" "\<not> sl_locked (sleeplocks u (Inode_sleeplock jp))"
  have "data_block u (IBLOCK (i_inum (icache s ! ip)) (sb u))"
    using assms(4) fs_rest_data_block [OF t(2)] u(3-5) fs_rest_sel(2) [OF t(2)] by (simp add: data_block_def)
  moreover have d: "dinodes u (i_inum (icache s ! ip)) = dinode_of (icache s ! ip)" using t(1) u(2,3) by (simp add: dinodes_def fun_eq_iff)
  have e: "d_type (dinode_of (icache s ! ip)) = i_type (icache s ! ip)" "dinode_of (m\<lparr>i_valid := True\<rparr>) = dinode_of m" for m
    by (simp_all add: dinode_of_def)
  ultimately show "if i_type (icache s ! ip) = 0 then ilock (Some jp) u = Panic ''ilock: no type''
     else returns (ilock (Some jp) u) (\<lambda>_ w. dinode_of (icache w ! jp) = dinode_of (icache s ! ip) \<and> i_valid (icache w ! jp)
       \<and> sleeplocks w (Inode_sleeplock jp) = \<lparr>sl_locked = True, sl_pid = n\<rparr>)"
    using ilock_loads [OF u(1) jp(1,3,2,4) _ jp(6) refl] jp(1,5) by (auto simp: d e elim!: returns_mono split: if_splits)
qed

theorem iupdate_ilock_roundtrip_witness:
  "\<exists>t. iupdate 0 demo_files = Ret () t \<and> (\<exists>w. ilock (Some 0) (upd_inode 0 (\<lambda>n. n\<lparr>i_valid := False, i_size := 0\<rparr>) t) = Ret () w
     \<and> i_size (icache w ! 0) = 700)"
proof -
  obtain t where t: "iupdate 0 demo_files = Ret () t" and r: "fs_ok 3 t {} 0" "fs_rest demo_files t"
    using iupdate_table [of 3 demo_files 0 0] demo_files_ok [of 1] demo_inode_facts
    by (auto simp: demo_inode_def demo_disk_def elim!: returnsE)
  let ?u = "upd_inode 0 (\<lambda>n. n\<lparr>i_valid := False, i_size := 0\<rparr>) t"
  have ic: "icache t = icache demo_files" "\<not> sl_locked (sleeplocks t (Inode_sleeplock 0))"
    using fs_rest_sel(3) [OF r(2)] fs_rest_sel(7) [OF r(2), of 0] by (simp_all add: demo_files_def demo_fs_def upd_log_def binit_inode_locks demo_proc_state_def demo_procs_def demo_state_def boot_state_def)
  have u: "fs_ok 3 ?u {} 0" "lview ?u = lview t" "sb ?u = sb t" "disksize ?u = disksize t" "log ?u = log t"
    "\<not> sl_locked (sleeplocks ?u (Inode_sleeplock 0))" "icache ?u ! 0 = demo_inode\<lparr>i_valid := False, i_size := 0\<rparr>" "0 < length (icache ?u)"
    using fs_ok_upd_inode [OF r(1)] ic by simp_all
  have d: "i_ref demo_inode = 1" "i_dev demo_inode = 1" "i_inum demo_inode = 5" "i_type demo_inode = 2" "i_size demo_inode = 700"
    "icache demo_files ! 0 = demo_inode" "length (demo_disk 33) = BSIZE" by (simp_all add: demo_inode_def demo_disk_def)
  have "returns (ilock (Some 0) ?u) (\<lambda>_ w. dinode_of (icache w ! 0) = dinode_of demo_inode)"
    using iupdate_ilock_roundtrip [of 3 demo_files 0 0, unfolded t returns_Ret, rule_format, of ?u 0] demo_files_ok [of 1] demo_inode_facts u d ic(1)
    by (auto elim!: returns_mono)
  then show ?thesis using t d(5) by (auto simp: dinode_of_def elim!: returnsE)
qed

text \<open>
  C26: The inode cache holds at most one entry in use for an inode, and \<open>iget\<close> keeps
  it so: it returns the entry in use for the inode with one more reference if there
  is one, otherwise an entry nobody referred to, now with one reference and to be
  loaded; it panics exactly when there is neither. No other entry changes.
\<close>

theorem iget_unique:
  assumes "quiet s n" "icache_unique s"
  shows "if (\<forall>i<length (icache s). \<not> (i_ref (icache s ! i) > 0 \<and> i_dev (icache s ! i) = dev \<and> i_inum (icache s ! i) = inum) \<and> i_ref (icache s ! i) \<noteq> 0)
    then iget dev inum s = Panic ''iget: no inodes''
    else returns (iget dev inum s) (\<lambda>ip t. icache_unique t \<and> ip < length (icache s) \<and> length (icache t) = length (icache s)
      \<and> i_dev (icache t ! ip) = dev \<and> i_inum (icache t ! ip) = inum \<and> i_ref (icache t ! ip) = i_ref (icache s ! ip) + 1
      \<and> (\<forall>j. j \<noteq> ip \<longrightarrow> icache t ! j = icache s ! j)
      \<and> (if i_ref (icache s ! ip) = 0
         then \<not> i_valid (icache t ! ip) \<and> (\<forall>j<length (icache s). \<not> (i_ref (icache s ! j) > 0 \<and> i_dev (icache s ! j) = dev \<and> i_inum (icache s ! j) = inum))
         else icache t ! ip = (icache s ! ip)\<lparr>i_ref := i_ref (icache s ! ip) + 1\<rparr>))"
  using assms by (rule iget_spec)

theorem iget_unique_witness:
  "\<exists>ip t. iget 1 5 demo_files = Ret ip t \<and> i_inum (icache t ! ip) = 5 \<and> icache_unique t"
proof -
  have u: "icache_unique demo_files" by (auto simp: icache_unique_def nth_Cons demo_inode_def split: nat.splits)
  have ne: "\<not> (\<forall>i<length (icache demo_files). \<not> (i_ref (icache demo_files ! i) > 0 \<and> i_dev (icache demo_files ! i) = 1
      \<and> i_inum (icache demo_files ! i) = 5) \<and> i_ref (icache demo_files ! i) \<noteq> 0)"
    by (simp, rule exI [of _ 0]) (simp add: demo_inode_def)
  show ?thesis using iget_unique [OF fs_ok_quiet [OF demo_files_ok [of 0]] u, of 1 5] unfolding if_not_P [OF ne] by (auto elim!: returnsE)
qed

end
