(* ===== verification/Proc_Info.thy ===== *)
theory Proc_Info
  imports Prioritylock Usermem
begin

text \<open>
  The listings that the kernel prints: \<open>procdump\<close>, \<open>print_schedule_info\<close> and
  \<open>print_priority_queue\<close>, with the call stack walk of \<open>spinlock.c\<close>. A string is
  given to \<open>cprintf\<close> without its terminating zero.
\<close>

definition cstr :: "string \<Rightarrow> u8 list" where
  "cstr t = map of_char t"

text \<open>The string at the start of a character array.\<close>

definition upto0 :: "u8 list \<Rightarrow> u8 list" where
  "upto0 bs = takeWhile (\<lambda>b. b \<noteq> 0) bs"

text \<open>
  \<open>getcallerpcs\<close> follows the saved frame pointers from \<open>v - 2\<close>; a slot that is not
  reached is zero. Reading the frames is reading memory.
\<close>

fun callerpcs :: "nat \<Rightarrow> u32 \<Rightarrow> kstate \<Rightarrow> (kstate, u32 list) outcome" where
  "callerpcs 0 ebp s = Ret [] s"
| "callerpcs (Suc n) ebp s =
     (if ebp = 0 \<or> ebp < KERNBASE \<or> ebp = 0xffffffff then Ret (replicate (Suc n) 0) s
      else
        bnd (load32 (ebp + 4) s) (\<lambda>pc s.
        bnd (load32 ebp s) (\<lambda>ebp s.
        bnd (callerpcs n ebp s) (\<lambda>pcs s. Ret (pc # pcs) s))))"

definition getcallerpcs :: "u32 \<Rightarrow> kstate \<Rightarrow> (kstate, u32 list) outcome" where
  "getcallerpcs v s = callerpcs 10 (v - 8) s"

fun dump_state :: "procstate \<Rightarrow> string" where
  "dump_state UNUSED = ''unused''"
| "dump_state EMBRYO = ''embryo''"
| "dump_state SLEEPING = ''sleep ''"
| "dump_state RUNNABLE = ''runble''"
| "dump_state RUNNING = ''run   ''"
| "dump_state ZOMBIE = ''zombie''"

definition dump_proc :: "nat \<Rightarrow> kstate \<Rightarrow> (kstate, unit) outcome" where
  "dump_proc i s =
     (let p = ptable s ! i in
      if state p = UNUSED then Ret () s
      else
        bnd (cprintf ''%d %s %s'' [Num (pid p), Str (Some (cstr (dump_state (state p)))), Str (Some (upto0 (name p)))] s) (\<lambda>_ s.
        bnd (if state p = SLEEPING
             then bnd (getcallerpcs (ctx_ebp (ctxt p) + 8) s) (\<lambda>pcs s.
                  for_each (\<lambda>pc. cprintf '' %p'' [Num (sint pc)]) (takeWhile (\<lambda>pc. pc \<noteq> 0) pcs) s)
             else Ret () s) (\<lambda>_ s.
        cprintf ''\<newline>'' [] s)))"

definition procdump :: "kstate \<Rightarrow> (kstate, unit) outcome" where
  "procdump s = for_each dump_proc [0..<length (ptable s)] s"

section \<open>The scheduling table\<close>

function digits_loop :: "int \<Rightarrow> int \<Rightarrow> int" where
  "digits_loop num cnt = (if num = 0 then cnt else digits_loop (cdiv num 10) (cnt + 1))"
  by pat_completeness auto
termination
  by (relation "measure (\<lambda>(num, cnt). nat \<bar>num\<bar>)") (auto simp: cdiv_def abs_mult)

declare digits_loop.simps [simp del]

definition digitcount :: "int \<Rightarrow> int" where
  "digitcount num = (if num = 0 then 1 else digits_loop num 0)"

definition printspaces :: "int \<Rightarrow> kstate \<Rightarrow> (kstate, unit) outcome" where
  "printspaces cnt s = for_each (\<lambda>_. cprintf '' '' []) [0..<nat cnt] s"

fun sched_state :: "procstate \<Rightarrow> string" where
  "sched_state UNUSED = ''unused''"
| "sched_state EMBRYO = ''embryo''"
| "sched_state SLEEPING = ''sleeping''"
| "sched_state RUNNABLE = ''runnable''"
| "sched_state RUNNING = ''running''"
| "sched_state ZOMBIE = ''zombie''"

text \<open>A C conversion of a floating-point number to \<open>int\<close> drops its fraction.\<close>

definition trunc :: "rat \<Rightarrow> int" where
  "trunc x = (if x < 0 then - \<lfloor>- x\<rfloor> else \<lfloor>x\<rfloor>)"

definition print_num :: "int \<Rightarrow> int \<Rightarrow> kstate \<Rightarrow> (kstate, unit) outcome" where
  "print_num col v s =
     bnd (cprintf ''%d'' [Num v] s) (\<lambda>_ s. printspaces (col - digitcount v) s)"

definition print_text :: "int \<Rightarrow> u8 list \<Rightarrow> kstate \<Rightarrow> (kstate, unit) outcome" where
  "print_text col v s =
     bnd (cprintf ''%s'' [Str (Some v)] s) (\<lambda>_ s. printspaces (col - int (length v)) s)"

definition print_sched_row :: "nat \<Rightarrow> kstate \<Rightarrow> (kstate, unit) outcome" where
  "print_sched_row i s =
     (let p = ptable s ! i; si = sched_info p; co = bjf_coeffs si in
      if state p = UNUSED then Ret () s
      else
        bnd (print_text 16 (upto0 (name p)) s) (\<lambda>_ s.
        bnd (print_num 8 (pid p) s) (\<lambda>_ s.
        bnd (print_text 9 (cstr (sched_state (state p))) s) (\<lambda>_ s.
        bnd (for_each (\<lambda>(c, v). print_num c v)
              [(8, queue si), (8, trunc (executed_cycles si)), (8, arrival_time si), (8, priority si),
               (9, trunc (priority_ratio co)), (8, trunc (arrival_time_ratio co)),
               (8, trunc (executed_cycles_ratio co)), (8, trunc (process_size_ratio co))] s) (\<lambda>_ s.
        bnd (cprintf ''%d'' [Num (trunc (calc_process_bjf_rank (fround (arch s)) p))] s) (\<lambda>_ s.
        cprintf ''\<newline>'' [] s))))))"

definition print_schedule_info :: "kstate \<Rightarrow> (kstate, unit) outcome" where
  "print_schedule_info s =
     bnd (cprintf ''Process_Name    PID     State    Queue   Cycle   Arrival  Priority R_Prty  R_Arvl  R_Exec  R_Size  Rank\<newline>------------------------------------------------------------------------------------------------------\<newline>'' [] s) (\<lambda>_ s.
     for_each print_sched_row [0..<length (ptable s)] s)"

section \<open>The queue of the priority lock\<close>

definition print_queue_entry :: "nat \<Rightarrow> kstate \<Rightarrow> (kstate, unit) outcome" where
  "print_queue_entry i s =
     (let lk = userlock s; idx = crem (int i + queue_front lk) 64 in
      if idx < 0 \<or> idx \<ge> int (length (pl_queue lk)) then Fault ''queue''
      else cprintf ''%d, '' [Num (pl_queue lk ! nat idx)] s)"

definition print_priority_queue :: "kstate \<Rightarrow> (kstate, unit) outcome" where
  "print_priority_queue s =
     bnd (kacquire Userlock_lk s) (\<lambda>_ s.
     bnd (cprintf ''Queue: ['' [] s) (\<lambda>_ s.
     bnd (for_each print_queue_entry [0..<nat (queue_size (userlock s) + 1)] s) (\<lambda>_ s.
     bnd (cprintf '']\<newline>'' [] s) (\<lambda>_ s.
     krelease Userlock_lk s))))"

end
