(* ===== verification/Console_In.thy ===== *)
theory Console_In
  imports Fs_Inode Proc_Info
begin

text \<open>
  Console input, \<open>console.c\<close>: the line that is being edited lives in the ring
  \<open>input.buf\<close> between the indices \<open>w\<close> and \<open>end\<close>, with the cursor at \<open>e\<close>; finished
  input waits between \<open>r\<close> and \<open>w\<close>. The indices only grow and are reduced modulo the
  size of the ring at each use; the loops count them as \<open>int\<close>, which is the same as
  long as fewer than two thousand million characters have been typed. The characters that \<open>getc\<close> delivers during one
  interrupt are a list.
\<close>

abbreviation (input) INPUT_BUF :: nat where "INPUT_BUF \<equiv> 128"
abbreviation (input) MAX_HISTORY :: u16 where "MAX_HISTORY \<equiv> 10"
abbreviation (input) MAX_HISTORY_PLUS :: u16 where "MAX_HISTORY_PLUS \<equiv> 11"
abbreviation (input) ARROW_UP :: int where "ARROW_UP \<equiv> 0xE2"
abbreviation (input) ARROW_DOWN :: int where "ARROW_DOWN \<equiv> 0xE3"
abbreviation (input) ctrl_D :: u8 where "ctrl_D \<equiv> 4"

definition ring_at :: "input_buf \<Rightarrow> u32 \<Rightarrow> u8" where
  "ring_at b i = in_buf b ! (unat i mod INPUT_BUF)"

definition ring_set :: "u32 \<Rightarrow> u8 \<Rightarrow> input_buf \<Rightarrow> input_buf" where
  "ring_set i c b = b\<lparr>in_buf := (in_buf b)[unat i mod INPUT_BUF := c]\<rparr>"

definition upd_input :: "(input_buf \<Rightarrow> input_buf) \<Rightarrow> kstate \<Rightarrow> kstate" where
  "upd_input f s = s\<lparr>input := f (input s)\<rparr>"

definition upd_history :: "(history \<Rightarrow> history) \<Rightarrow> kstate \<Rightarrow> kstate" where
  "upd_history f s = s\<lparr>cmd_history := f (cmd_history s)\<rparr>"

section \<open>Editing\<close>

text \<open>The loop of \<open>kill_line\<close>, at most as many times as there are characters up to \<open>w\<close>.\<close>

fun kill_loop :: "nat \<Rightarrow> kstate \<Rightarrow> (kstate, unit) outcome" where
  "kill_loop 0 s = Ret () s"
| "kill_loop (Suc n) s =
     (if ring_at (input s) (in_e (input s) - 1) = 10 then Ret () s
      else
        let s = upd_input (\<lambda>b. b\<lparr>in_e := in_e b - 1\<rparr>) s;
            s = upd_input (\<lambda>b. b\<lparr>in_end := in_end b - 1\<rparr>) s
        in bnd (consputc BACKSPACE s) (\<lambda>_ s. kill_loop n s))"

definition kill_line :: "kstate \<Rightarrow> (kstate, unit) outcome" where
  "kill_line s =
     bnd (consputc GO_END_OF_LINE s) (\<lambda>_ s.
     let s = upd_input (\<lambda>b. b\<lparr>in_e := in_end b\<rparr>) s
     in kill_loop (unat (in_e (input s) - in_w (input s))) s)"

text \<open>
  The copy into the history. Its loop compares the signed \<open>i\<close> with the unsigned
  \<open>input.end\<close> as unsigned numbers; a line longer than a row of the table would
  be written past it.
\<close>

definition line_length :: "input_buf \<Rightarrow> nat" where
  "line_length b = (if in_w b < in_end b then unat (in_end b - in_w b) else 0)"

definition hist_line :: "input_buf \<Rightarrow> u8 list \<Rightarrow> u8 list" where
  "hist_line b old = fold (\<lambda>k l. l[k := ring_at b (in_w b + of_nat k)]) [0..<line_length b] old"

definition push_command_to_history :: "kstate \<Rightarrow> (kstate, unit) outcome" where
  "push_command_to_history s =
     (if in_end (input s) = in_w (input s) + 1 then Ret () s
      else
        let h = cmd_history s;
            last_idx = (h_first h + h_size h) mod MAX_HISTORY_PLUS;
            s = (if h_size h = MAX_HISTORY
                 then upd_history (\<lambda>h. h\<lparr>h_first := (h_first h + 1) mod MAX_HISTORY_PLUS\<rparr>) s else s)
        in if line_length (input s) > INPUT_BUF then Fault ''recent_cmds''
           else
             let s = upd_history (\<lambda>h. h\<lparr>recent_cmds := (recent_cmds h)[unat last_idx :=
                       hist_line (input s) (recent_cmds h ! unat last_idx)]\<rparr>) s;
                 s = (if h_size (cmd_history s) < MAX_HISTORY
                      then upd_history (\<lambda>h. h\<lparr>h_size := h_size h + 1\<rparr>) s else s)
             in Ret () (upd_history (\<lambda>h. h\<lparr>h_cur := (h_size h + h_first h) mod MAX_HISTORY_PLUS\<rparr>) s))"

text \<open>The loop that brings back a command, up to its newline or \<open>C('D')\<close>.\<close>

definition put_back :: "u8 \<Rightarrow> kstate \<Rightarrow> (kstate, unit) outcome" where
  "put_back c s =
     (let s = upd_input (\<lambda>b. ring_set (in_e b) c b) s;
          s = upd_input (\<lambda>b. b\<lparr>in_e := in_e b + 1\<rparr>) s;
          s = upd_input (\<lambda>b. b\<lparr>in_end := in_end b + 1\<rparr>) s
      in consputc (sint c) s)"

definition recall :: "kstate \<Rightarrow> (kstate, unit) outcome" where
  "recall s =
     (let last_cmd = recent_cmds (cmd_history s) ! unat (h_cur (cmd_history s))
      in for_each put_back (takeWhile (\<lambda>c. c \<noteq> 10 \<and> c \<noteq> ctrl_D) (take INPUT_BUF last_cmd)) s)"

text \<open>
  The subtractions of \<open>show_prev_command\<close> are on \<open>int\<close>; the remainder of -1 is -1.
\<close>

definition show_prev_command :: "kstate \<Rightarrow> (kstate, unit) outcome" where
  "show_prev_command s =
     (if h_cur (cmd_history s) = h_first (cmd_history s) then Ret () s
      else
        bnd (kill_line s) (\<lambda>_ s.
        let h = cmd_history s;
            s = (if crem (uint (h_cur h) - 1) 11 \<noteq> crem (uint (h_first h) - 1) 11
                 then upd_history (\<lambda>h. h\<lparr>h_cur := (h_cur h - 1) mod MAX_HISTORY_PLUS\<rparr>) s
                 else s)
        in recall s))"

definition show_next_command :: "kstate \<Rightarrow> (kstate, unit) outcome" where
  "show_next_command s =
     (let h = cmd_history s in
      if h_cur h = (h_first h + h_size h) mod MAX_HISTORY_PLUS then Ret () s
      else
        bnd (kill_line s) (\<lambda>_ s.
        let s = upd_history (\<lambda>h. h\<lparr>h_cur := (h_cur h + 1) mod MAX_HISTORY_PLUS\<rparr>) s;
            h = cmd_history s
        in if h_cur h = (h_first h + h_size h) mod MAX_HISTORY_PLUS then Ret () s
           else recall s))"

definition remove_char :: "kstate \<Rightarrow> (kstate, unit) outcome" where
  "remove_char s =
     (if in_e (input s) = in_w (input s) then Ret () s
      else
        let s = upd_input (\<lambda>b. b\<lparr>in_e := in_e b - 1\<rparr>) s;
            b = input s;
            n = (if in_e b < in_end b then unat (in_end b - in_e b) else 0);
            s = upd_input (fold (\<lambda>k b. ring_set (in_e b + of_nat k) (ring_at b (in_e b + of_nat k + 1)) b) [0..<n]) s;
            s = upd_input (\<lambda>b. b\<lparr>in_end := in_end b - 1\<rparr>) s
        in consputc BACKSPACE s)"

definition clear_screen :: "kstate \<Rightarrow> (kstate, unit) outcome" where
  "clear_screen s =
     (let s = upd_input (\<lambda>b. b\<lparr>in_w := in_e b\<rparr>) s;
          s = upd_input (\<lambda>b. b\<lparr>in_r := in_w b\<rparr>) s;
          s = upd_input (\<lambda>b. b\<lparr>in_end := in_e b\<rparr>) s
      in bnd (consputc CLEAR s) (\<lambda>_ s.
         bnd (consputc 36 s) (\<lambda>_ s.
         consputc 32 s)))"

text \<open>Making room for a character at the cursor: positions \<open>end\<close> down to \<open>e + 1\<close>.\<close>

definition make_room :: "input_buf \<Rightarrow> input_buf" where
  "make_room b =
     (let n = (if in_e b < in_end b then unat (in_end b - in_e b) else 0)
      in fold (\<lambda>k b. ring_set (in_e b + of_nat k + 1) (ring_at b (in_e b + of_nat k)) b) (rev [0..<n]) b)"

definition insert_char :: "int \<Rightarrow> kstate \<Rightarrow> (kstate, unit) outcome" where
  "insert_char c s =
     (if c \<noteq> 0 \<and> in_end (input s) - in_r (input s) < of_nat INPUT_BUF
      then
        let s = (if in_end (input s) \<noteq> in_e (input s) \<and> c \<noteq> newline then upd_input make_room s else s);
            c = (if c = 13 then newline else c)
        in if c = newline \<or> c = 4 \<or> in_end (input s) = in_r (input s) + of_nat INPUT_BUF
           then
             let s = upd_input (\<lambda>b. ring_set (in_end b) (word_of_int c) b) s;
                 s = upd_input (\<lambda>b. b\<lparr>in_end := in_end b + 1\<rparr>) s
             in bnd (push_command_to_history s) (\<lambda>_ s.
                let s = upd_input (\<lambda>b. b\<lparr>in_e := in_end b\<rparr>) s;
                    s = upd_input (\<lambda>b. b\<lparr>in_w := in_e b\<rparr>) s
                in bnd (wakeup (Some Chan_input) s) (\<lambda>_ s. consputc c s))
           else
             let s = upd_input (\<lambda>b. ring_set (in_e b) (word_of_int c) b) s;
                 s = upd_input (\<lambda>b. b\<lparr>in_e := in_e b + 1\<rparr>) s;
                 s = upd_input (\<lambda>b. b\<lparr>in_end := in_end b + 1\<rparr>) s
             in consputc c s
      else Ret () s)"

section \<open>The interrupt handler\<close>

text \<open>One character; the result says whether a process listing was asked for.\<close>

definition console_char :: "int \<Rightarrow> kstate \<Rightarrow> (kstate, unit) outcome" where
  "console_char c s =
     (if c = 16 then Ret () s
      else if c = 21 then kill_line s
      else if c = 8 \<or> c = 127 then remove_char s
      else if c = 12 then clear_screen s
      else if c = 2 then
        (if in_e (input s) > in_w (input s)
         then consputc MOVE_LEFT (upd_input (\<lambda>b. b\<lparr>in_e := in_e b - 1\<rparr>) s) else Ret () s)
      else if c = 6 then
        (if in_e (input s) < in_end (input s)
         then consputc MOVE_RIGHT (upd_input (\<lambda>b. b\<lparr>in_e := in_e b + 1\<rparr>) s) else Ret () s)
      else if c = ARROW_UP then show_prev_command s
      else if c = ARROW_DOWN then show_next_command s
      else insert_char c s)"

definition consoleintr :: "int list \<Rightarrow> kstate \<Rightarrow> (kstate, unit) outcome" where
  "consoleintr cs s =
     bnd (kacquire Cons_lock s) (\<lambda>_ s.
     bnd (for_each console_char cs s) (\<lambda>_ s.
     bnd (krelease Cons_lock s) (\<lambda>_ s.
     if 16 \<in> set cs then procdump s else Ret () s)))"

section \<open>Reading and writing\<close>

definition consoleread_done :: "nat option \<Rightarrow> int \<Rightarrow> kstate \<Rightarrow> (kstate, int) outcome" where
  "consoleread_done ip r s =
     bnd (krelease Cons_lock s) (\<lambda>_ s.
     bnd (ilock ip s) (\<lambda>_ s.
     Ret r s))"

text \<open>
  The outer loop, with the number of bytes still wanted. The wait of the inner loop
  gives up the processor; the reader goes on with \<open>consoleread_resume\<close>.
\<close>

fun consoleread_loop :: "nat option \<Rightarrow> nat \<Rightarrow> u32 \<Rightarrow> nat \<Rightarrow> kstate \<Rightarrow> (kstate, int) outcome" where
  "consoleread_loop ip target dst 0 s = consoleread_done ip (int target) s"
| "consoleread_loop ip target dst (Suc n) s =
     (if in_r (input s) = in_w (input s)
      then
        bnd (myproc s) (\<lambda>p s. deref p (\<lambda>p.
        if killed (ptable s ! p) then consoleread_done ip (- 1) s
        else sleep (Some Chan_input) Cons_lock s))
      else
        let c = ring_at (input s) (in_r (input s));
            s = upd_input (\<lambda>b. b\<lparr>in_r := in_r b + 1\<rparr>) s
        in if c = ctrl_D
           then consoleread_done ip (int target - int (Suc n))
                  (if Suc n < target then upd_input (\<lambda>b. b\<lparr>in_r := in_r b - 1\<rparr>) s else s)
           else
             bnd (store8 dst c s) (\<lambda>_ s.
             if c = 10 then consoleread_done ip (int target - int n) s
             else consoleread_loop ip target (dst + 1) n s))"

definition consoleread :: "nat option \<Rightarrow> u32 \<Rightarrow> int \<Rightarrow> kstate \<Rightarrow> (kstate, int) outcome" where
  "consoleread ip dst n s =
     bnd (iunlock ip s) (\<lambda>_ s.
     bnd (kacquire Cons_lock s) (\<lambda>_ s.
     consoleread_loop ip (nat n) dst (nat n) s))"

definition consoleread_resume :: "nat \<Rightarrow> bool \<Rightarrow> nat option \<Rightarrow> nat \<Rightarrow> u32 \<Rightarrow> nat \<Rightarrow> kstate \<Rightarrow> (kstate, int) outcome" where
  "consoleread_resume i ie ip target dst n s =
     bnd (sleep_resume i ie Cons_lock s) (\<lambda>_ s. consoleread_loop ip target dst n s)"

definition consolewrite :: "nat option \<Rightarrow> u32 \<Rightarrow> int \<Rightarrow> kstate \<Rightarrow> (kstate, int) outcome" where
  "consolewrite ip a n s =
     bnd (iunlock ip s) (\<lambda>_ s.
     bnd (kacquire Cons_lock s) (\<lambda>_ s.
     bnd (for_each (\<lambda>i s. bnd (load8 (a + of_nat i) s) (\<lambda>c s. consputc (uint c) s)) [0..<nat n] s) (\<lambda>_ s.
     bnd (krelease Cons_lock s) (\<lambda>_ s.
     bnd (ilock ip s) (\<lambda>_ s.
     Ret n s)))))"

definition consoleinit :: "kstate \<Rightarrow> kstate" where
  "consoleinit s = s\<lparr>hw := initlock Cons_lock (hw s), devsw := (devsw s)[1 := Some Console_ops], cons_locking := True\<rparr>"

end
