(* ===== verification/Fs_Dir.thy ===== *)
theory Fs_Dir
  imports Console_In
begin

text \<open>
  File content, directories and path names, \<open>fs.c\<close>. The destination of \<open>readi\<close> and
  the source of \<open>writei\<close> are user memory or a structure on the kernel's stack; a
  parameter says how the next bytes are delivered or obtained, with an accumulator
  for what it needs to remember. A device gets the address, so the parameter comes
  with the address that the code would pass to it.
\<close>

section \<open>Content\<close>

record 'a sink =
  snk_put :: "'a \<Rightarrow> u8 list \<Rightarrow> kstate \<Rightarrow> (kstate, 'a) outcome"
  snk_addr :: "'a \<Rightarrow> u32"

record 'a source =
  src_get :: "'a \<Rightarrow> nat \<Rightarrow> kstate \<Rightarrow> (kstate, u8 list \<times> 'a) outcome"
  src_addr :: "'a \<Rightarrow> u32"

text \<open>Bytes in memory: the accumulator is the address of the next one.\<close>

definition mem_sink :: "u32 sink" where
  "mem_sink = \<lparr>snk_put = (\<lambda>a bs s. bnd (stores a bs s) (\<lambda>_ s. Ret (a + of_nat (length bs)) s)), snk_addr = (\<lambda>a. a)\<rparr>"

definition mem_source :: "u32 source" where
  "mem_source = \<lparr>src_get = (\<lambda>a n s. bnd (loads a n s) (\<lambda>bs s. Ret (bs, a + of_nat n) s)), src_addr = (\<lambda>a. a)\<rparr>"

text \<open>Bytes of a local structure: the accumulator is what has been read or is still to be written.\<close>

definition loc_sink :: "(u8 list) sink" where
  "loc_sink = \<lparr>snk_put = (\<lambda>a bs s. Ret (a @ bs) s), snk_addr = (\<lambda>a. KERNBASE)\<rparr>"

definition loc_source :: "(u8 list) source" where
  "loc_source = \<lparr>src_get = (\<lambda>a n s. Ret (take n a, drop n a) s), src_addr = (\<lambda>a. KERNBASE)\<rparr>"

definition dev_ops :: "nat \<Rightarrow> kstate \<Rightarrow> devops option" where
  "dev_ops ip s =
     (let m = i_major (icache s ! ip) in
      if m < 0 \<or> m \<ge> int NDEV then None else devsw s ! nat m)"

definition chunk :: "u32 \<Rightarrow> u32 \<Rightarrow> u32" where
  "chunk left off = min left (of_nat BSIZE - off mod of_nat BSIZE)"

lemma chunk_pos: "0 < left \<Longrightarrow> 0 < chunk left off \<and> chunk left off \<le> left"
proof -
  assume "0 < left"
  moreover have "off mod 512 < 512" by (simp add: word_less_nat_alt unat_mod)
  then have "0 < 512 - off mod 512" by (simp add: word_less_nat_alt unat_sub_if')
  ultimately show ?thesis by (simp add: chunk_def)
qed

text \<open>The loop of \<open>readi\<close>; \<open>left\<close> is \<open>n - tot\<close>.\<close>

function readi_loop :: "'a sink \<Rightarrow> nat \<Rightarrow> 'a \<Rightarrow> u32 \<Rightarrow> u32 \<Rightarrow> kstate \<Rightarrow> (kstate, 'a) outcome" where
  "readi_loop k ip dst off left s =
     (if left = 0 then Ret dst s
      else
        bnd (bmap ip (off div of_nat BSIZE) s) (\<lambda>addr s.
        bnd (bread (i_dev (icache s ! ip)) addr s) (\<lambda>bp s.
        let m = chunk left off in
        bnd (snk_put k dst (take (unat m) (drop (unat (off mod of_nat BSIZE)) (buf_data s bp))) s) (\<lambda>dst s.
        bnd (brelse bp s) (\<lambda>_ s.
        readi_loop k ip dst (off + m) (left - m) s)))))"
  by pat_completeness auto
termination
proof (relation "measure (\<lambda>(k, ip, dst, off, left, s). unat left)", goal_cases)
  case (2 k ip dst off left)
  then show ?case using chunk_pos [of left off] by (auto simp: word_gt_0 unat_sub word_le_nat_alt unat_gt_0)
qed simp

declare readi_loop.simps [simp del]

definition readi :: "'a sink \<Rightarrow> nat \<Rightarrow> 'a \<Rightarrow> u32 \<Rightarrow> u32 \<Rightarrow> kstate \<Rightarrow> (kstate, int \<times> 'a) outcome" where
  "readi k ip dst off n s =
     (if i_type (icache s ! ip) = T_DEV
      then case dev_ops ip s of
             None \<Rightarrow> Ret (- 1, dst) s
           | Some Console_ops \<Rightarrow> bnd (consoleread (Some ip) (snk_addr k dst) (sint n) s) (\<lambda>r s. Ret (r, dst) s)
      else
        let fs = i_size (icache s ! ip) in
        if off > fs \<or> off + n < off then Ret (- 1, dst) s
        else
          let n = (if off + n > fs then fs - off else n) in
          bnd (readi_loop k ip dst off n s) (\<lambda>dst s. Ret (sint n, dst) s))"

function writei_loop :: "'a source \<Rightarrow> nat \<Rightarrow> 'a \<Rightarrow> u32 \<Rightarrow> u32 \<Rightarrow> kstate \<Rightarrow> (kstate, u32) outcome" where
  "writei_loop k ip src off left s =
     (if left = 0 then Ret off s
      else
        bnd (bmap ip (off div of_nat BSIZE) s) (\<lambda>addr s.
        bnd (bread (i_dev (icache s ! ip)) addr s) (\<lambda>bp s.
        let m = chunk left off in
        bnd (src_get k src (unat m) s) (\<lambda>(bs, src) s.
        let d = buf_data s bp; o1 = unat (off mod of_nat BSIZE);
            s = set_data bp (take o1 d @ bs @ drop (o1 + unat m) d) s
        in bnd (log_write bp s) (\<lambda>_ s.
           bnd (brelse bp s) (\<lambda>_ s.
           writei_loop k ip src (off + m) (left - m) s))))))"
  by pat_completeness auto
termination
proof (relation "measure (\<lambda>(k, ip, src, off, left, s). unat left)", goal_cases)
  case (2 k ip src off left)
  then show ?case using chunk_pos [of left off] by (auto simp: word_gt_0 unat_sub word_le_nat_alt unat_gt_0)
qed simp

declare writei_loop.simps [simp del]

definition writei :: "'a source \<Rightarrow> nat \<Rightarrow> 'a \<Rightarrow> u32 \<Rightarrow> u32 \<Rightarrow> kstate \<Rightarrow> (kstate, int) outcome" where
  "writei k ip src off n s =
     (if i_type (icache s ! ip) = T_DEV
      then case dev_ops ip s of
             None \<Rightarrow> Ret (- 1) s
           | Some Console_ops \<Rightarrow> consolewrite (Some ip) (src_addr k src) (sint n) s
      else if off > i_size (icache s ! ip) \<or> off + n < off then Ret (- 1) s
      else if off + n > of_nat (MAXFILE * BSIZE) then Ret (- 1) s
      else
        bnd (writei_loop k ip src off n s) (\<lambda>off s.
        bnd (if n > 0 \<and> off > i_size (icache s ! ip)
             then iupdate ip (upd_inode ip (\<lambda>x. x\<lparr>i_size := off\<rparr>) s)
             else Ret () s) (\<lambda>_ s.
        Ret (sint n) s)))"

section \<open>Directories\<close>

text \<open>
  \<open>strncmp\<close> and \<open>strncpy\<close> of \<open>string.c\<close> on names: an array of \<open>DIRSIZ\<close> bytes, or a
  longer string of which at most \<open>DIRSIZ\<close> bytes count.
\<close>

fun strncmp_eq :: "nat \<Rightarrow> u8 list \<Rightarrow> u8 list \<Rightarrow> bool" where
  "strncmp_eq 0 p q = True"
| "strncmp_eq (Suc n) (a # p) (b # q) = (if a \<noteq> 0 \<and> a = b then strncmp_eq n p q else a = b)"
| "strncmp_eq (Suc n) [] (b # q) = (b = 0)"
| "strncmp_eq (Suc n) (a # p) [] = (a = 0)"
| "strncmp_eq (Suc n) [] [] = True"

definition namecmp_eq :: "u8 list \<Rightarrow> u8 list \<Rightarrow> bool" where
  "namecmp_eq p q = strncmp_eq DIRSIZ p q"

definition strncpy_name :: "u8 list \<Rightarrow> u8 list" where
  "strncpy_name nm = (let t = take DIRSIZ (upto0 nm) in t @ replicate (DIRSIZ - length t) 0)"

definition de_inum :: "u8 list \<Rightarrow> u16" where
  "de_inum de = ld16 de 0"

definition de_name :: "u8 list \<Rightarrow> u8 list" where
  "de_name de = take DIRSIZ (drop 2 de)"

definition read_dirent :: "string \<Rightarrow> nat \<Rightarrow> u32 \<Rightarrow> kstate \<Rightarrow> (kstate, u8 list) outcome" where
  "read_dirent msg dp off s =
     bnd (readi loc_sink dp [] off 16 s) (\<lambda>(r, de) s.
     if r \<noteq> 16 then Panic msg else Ret de s)"

text \<open>
  The loop steps through the offsets below the size, which no operation in it
  changes. The result is the inode and the offset of its entry.
\<close>

fun dirlookup_loop :: "nat \<Rightarrow> u8 list \<Rightarrow> nat list \<Rightarrow> kstate \<Rightarrow> (kstate, (nat \<times> u32) option) outcome" where
  "dirlookup_loop dp nm [] s = Ret None s"
| "dirlookup_loop dp nm (off # offs) s =
     bnd (read_dirent ''dirlookup read'' dp (of_nat off) s) (\<lambda>de s.
     if de_inum de = 0 then dirlookup_loop dp nm offs s
     else if namecmp_eq nm (de_name de)
     then bnd (iget (i_dev (icache s ! dp)) (ucast (de_inum de)) s) (\<lambda>ip s. Ret (Some (ip, of_nat off)) s)
     else dirlookup_loop dp nm offs s)"

definition dir_offs :: "u32 \<Rightarrow> nat list" where
  "dir_offs n = map (\<lambda>k. 16 * k) [0..<(unat n + 15) div 16]"

definition dirlookup :: "nat \<Rightarrow> u8 list \<Rightarrow> kstate \<Rightarrow> (kstate, (nat \<times> u32) option) outcome" where
  "dirlookup dp nm s =
     (if i_type (icache s ! dp) \<noteq> T_DIR then Panic ''dirlookup not DIR''
      else dirlookup_loop dp nm (dir_offs (i_size (icache s ! dp))) s)"

text \<open>The offset of the first free entry, or the end of the directory.\<close>

fun free_entry :: "nat \<Rightarrow> nat list \<Rightarrow> nat \<Rightarrow> kstate \<Rightarrow> (kstate, nat) outcome" where
  "free_entry dp [] off s = Ret off s"
| "free_entry dp (off # offs) prev s =
     bnd (read_dirent ''dirlink read'' dp (of_nat off) s) (\<lambda>de s.
     if de_inum de = 0 then Ret off s else free_entry dp offs (off + 16) s)"

definition dirlink :: "nat \<Rightarrow> u8 list \<Rightarrow> u32 \<Rightarrow> kstate \<Rightarrow> (kstate, int) outcome" where
  "dirlink dp nm inum s =
     bnd (dirlookup dp nm s) (\<lambda>r s.
     case r of
       Some (ip, _) \<Rightarrow> bnd (iput (Some ip) s) (\<lambda>_ s. Ret (- 1) s)
     | None \<Rightarrow>
         bnd (free_entry dp (dir_offs (i_size (icache s ! dp))) 0 s) (\<lambda>off s.
         bnd (writei loc_source dp (bytes16 (ucast inum) @ strncpy_name nm) (of_nat off) 16 s) (\<lambda>r s.
         if r \<noteq> 16 then Panic ''dirlink'' else Ret 0 s)))"

section \<open>Path names\<close>

text \<open>A path is the bytes of the string, without the terminating zero.\<close>

abbreviation (input) slash :: u8 where "slash \<equiv> 47"

definition skip_slashes :: "u8 list \<Rightarrow> u8 list" where
  "skip_slashes path = dropWhile (\<lambda>c. c = slash) path"

text \<open>
  \<open>name\<close> is an array of \<open>DIRSIZ\<close> bytes that keeps what it held behind a short element.
\<close>

definition skipelem :: "u8 list \<Rightarrow> u8 list \<Rightarrow> (u8 list \<times> u8 list) option" where
  "skipelem path nm =
     (let path = skip_slashes path in
      if path = [] then None
      else
        let el = takeWhile (\<lambda>c. c \<noteq> slash) path;
            path = dropWhile (\<lambda>c. c \<noteq> slash) path;
            nm = (if length el \<ge> DIRSIZ then take DIRSIZ el else el @ [0] @ drop (length el + 1) nm)
        in Some (skip_slashes path, nm))"

lemma skip_slashes_length: "length (skip_slashes p) \<le> length p"
  by (simp add: skip_slashes_def length_dropWhile_le)

lemma skipelem_shorter:
  assumes "skipelem path nm = Some (p, m)"
  shows "length p < length path"
proof -
  let ?p = "skip_slashes path"
  have ne: "?p \<noteq> []" and p: "p = skip_slashes (dropWhile (\<lambda>c. c \<noteq> slash) ?p)"
    using assms by (auto simp: skipelem_def Let_def split: if_splits)
  have "hd ?p \<noteq> slash" using ne unfolding skip_slashes_def by (rule hd_dropWhile)
  then have "length (dropWhile (\<lambda>c. c \<noteq> slash) ?p) < length ?p"
    using ne by (cases ?p) (auto intro: le_imp_less_Suc length_dropWhile_le)
  then show ?thesis
    using skip_slashes_length [of "dropWhile (\<lambda>c. c \<noteq> slash) ?p"] skip_slashes_length [of path] p by simp
qed

text \<open>The result is the inode, if there is one, and the content of \<open>name\<close>.\<close>

function namex_loop :: "bool \<Rightarrow> nat \<Rightarrow> u8 list \<Rightarrow> u8 list \<Rightarrow> kstate \<Rightarrow> (kstate, nat option \<times> u8 list) outcome" where
  "namex_loop nameiparent ip path nm s =
     (case skipelem path nm of
        None \<Rightarrow>
          if nameiparent then bnd (iput (Some ip) s) (\<lambda>_ s. Ret (None, nm) s) else Ret (Some ip, nm) s
      | Some (path, nm) \<Rightarrow>
          bnd (ilock (Some ip) s) (\<lambda>_ s.
          if i_type (icache s ! ip) \<noteq> T_DIR
          then bnd (iunlockput (Some ip) s) (\<lambda>_ s. Ret (None, nm) s)
          else if nameiparent \<and> path = []
          then bnd (iunlock (Some ip) s) (\<lambda>_ s. Ret (Some ip, nm) s)
          else
            bnd (dirlookup ip nm s) (\<lambda>r s.
            case r of
              None \<Rightarrow> bnd (iunlockput (Some ip) s) (\<lambda>_ s. Ret (None, nm) s)
            | Some (next, _) \<Rightarrow>
                bnd (iunlockput (Some ip) s) (\<lambda>_ s.
                namex_loop nameiparent next path nm s))))"
  by pat_completeness auto
termination
  by (relation "measure (\<lambda>(np, ip, path, nm, s). length path)") (auto dest: skipelem_shorter)

declare namex_loop.simps [simp del]

definition namex :: "u8 list \<Rightarrow> bool \<Rightarrow> u8 list \<Rightarrow> kstate \<Rightarrow> (kstate, nat option \<times> u8 list) outcome" where
  "namex path nameiparent nm s =
     bnd (if path \<noteq> [] \<and> hd path = slash then iget ROOTDEV ROOTINO s
          else bnd (myproc s) (\<lambda>p s. deref p (\<lambda>p. idup (cwd (ptable s ! p)) s))) (\<lambda>ip s.
     namex_loop nameiparent ip path nm s)"

text \<open>The array \<open>name\<close> starts with arbitrary bytes, of which nothing is ever looked at.\<close>

definition namei :: "u8 list \<Rightarrow> kstate \<Rightarrow> (kstate, nat option) outcome" where
  "namei path s = bnd (namex path False (replicate DIRSIZ 0) s) (\<lambda>(ip, _) s. Ret ip s)"

definition nameiparent :: "u8 list \<Rightarrow> kstate \<Rightarrow> (kstate, nat option \<times> u8 list) outcome" where
  "nameiparent path s = namex path True (replicate DIRSIZ 0) s"

end
