(* ===== verification/Fs_Map.thy ===== *)
theory Fs_Map
  imports Fs_Table Fs_Dir
begin

text \<open>
  The blocks of a file: the invariant of an inode's block map, and what \<open>bmap\<close> does
  to it when the block is there and when it has to be allocated.
\<close>

section \<open>The blocks of a file\<close>

definition ind_addr :: "kstate \<Rightarrow> nat \<Rightarrow> u32" where
  "ind_addr s ip = i_addrs (icache s ! ip) ! NDIRECT"

definition file_addr :: "kstate \<Rightarrow> nat \<Rightarrow> nat \<Rightarrow> u32" where
  "file_addr s ip bn = (if bn < NDIRECT then i_addrs (icache s ! ip) ! bn
     else if ind_addr s ip = 0 then 0 else ld32 (lview s (ind_addr s ip)) (4 * (bn - NDIRECT)))"

text \<open>All addresses, the one of the indirect block last; zero stands for no block.\<close>

definition blks :: "kstate \<Rightarrow> nat \<Rightarrow> u32 list" where
  "blks s ip = map (file_addr s ip) [0..<MAXFILE] @ [ind_addr s ip]"

definition owned :: "kstate \<Rightarrow> nat \<Rightarrow> u32 set" where
  "owned s ip = set (blks s ip) - {0}"

definition nz_distinct :: "u32 list \<Rightarrow> bool" where
  "nz_distinct xs \<longleftrightarrow> (\<forall>i<length xs. \<forall>j<length xs. xs ! i = xs ! j \<longrightarrow> xs ! i \<noteq> 0 \<longrightarrow> i = j)"

abbreviation (input) itable :: "kstate \<Rightarrow> nat \<Rightarrow> u32" where
  "itable s ip \<equiv> IBLOCK (i_inum (icache s ! ip)) (sb s)"

text \<open>A block in use for data.\<close>

definition in_use :: "kstate \<Rightarrow> u32 \<Rightarrow> bool" where
  "in_use s x \<longleftrightarrow> data_block s x \<and> \<not> bm_block (sb s) x \<and> x \<notin> free_blocks s \<and> length (lview s x) = BSIZE"

definition file_ok :: "kstate \<Rightarrow> nat \<Rightarrow> bool" where
  "file_ok s ip \<longleftrightarrow> ip < length (icache s) \<and> i_dev (icache s ! ip) = 1 \<and> length (i_addrs (icache s ! ip)) = NDIRECT + 1
     \<and> bmap_ok s \<and> 0 \<notin> free_blocks s \<and> in_use s (itable s ip) \<and> itable s ip \<notin> owned s ip
     \<and> nz_distinct (blks s ip) \<and> (\<forall>x\<in>owned s ip. in_use s x)"

lemma length_blks [simp]: "length (blks s ip) = MAXFILE + 1"
  by (simp add: blks_def)

lemma nth_blks: "bn < MAXFILE \<Longrightarrow> blks s ip ! bn = file_addr s ip bn" "blks s ip ! MAXFILE = ind_addr s ip"
  by (simp_all add: blks_def nth_append)

lemma owned_file: "bn < MAXFILE \<Longrightarrow> file_addr s ip bn \<noteq> 0 \<Longrightarrow> file_addr s ip bn \<in> owned s ip"
  using nth_mem [of bn "blks s ip"] by (simp add: owned_def nth_blks)

lemma owned_ind: "ind_addr s ip \<noteq> 0 \<Longrightarrow> ind_addr s ip \<in> owned s ip"
  using nth_mem [of MAXFILE "blks s ip"] by (simp add: owned_def nth_blks)

lemma file_in_use: "file_ok s ip \<Longrightarrow> bn < MAXFILE \<Longrightarrow> file_addr s ip bn \<noteq> 0 \<Longrightarrow> in_use s (file_addr s ip bn)"
  "file_ok s ip \<Longrightarrow> ind_addr s ip \<noteq> 0 \<Longrightarrow> in_use s (ind_addr s ip)"
  using owned_file owned_ind by (auto simp: file_ok_def)

lemma nz_distinct_update:
  assumes "nz_distinct xs" "x \<notin> set xs"
  shows "nz_distinct (xs[m := x])"
proof (unfold nz_distinct_def, intro allI impI)
  fix i j assume ij: "i < length (xs[m := x])" "j < length (xs[m := x])" "xs[m := x] ! i = xs[m := x] ! j" "xs[m := x] ! i \<noteq> 0"
  then have "i = m \<longleftrightarrow> j = m" using assms(2) nth_mem [of i xs] nth_mem [of j xs] by (cases "i = m"; cases "j = m") auto
  with ij show "i = j" using assms(1) unfolding nz_distinct_def by (cases "i = m") simp_all
qed

lemma owned_update: "m < MAXFILE + 1 \<Longrightarrow> blks s ip ! m = 0 \<Longrightarrow> blks t ip = (blks s ip)[m := x] \<Longrightarrow> owned t ip \<subseteq> insert x (owned s ip)"
  using set_update_subset_insert [of "blks s ip" m x] by (auto simp: owned_def)

text \<open>Nothing but locks, the cache and the list of logged blocks differs.\<close>

lemma file_cong:
  assumes "fs_rest s t" "lview t = lview s"
  shows "ind_addr t ip = ind_addr s ip" "file_addr t ip = file_addr s ip" "blks t ip = blks s ip" "file_ok t ip = file_ok s ip"
proof -
  note r = fs_rest_sel [OF assms(1)] fs_rest_data_block [OF assms(1)] bmap_ok_cong [OF assms]
  show i: "ind_addr t ip = ind_addr s ip" using r by (simp add: ind_addr_def)
  then show a: "file_addr t ip = file_addr s ip" using r assms(2) by (simp add: file_addr_def fun_eq_iff)
  then show b: "blks t ip = blks s ip" using i by (simp add: blks_def)
  then show "file_ok t ip = file_ok s ip" using r assms(2) by (simp add: file_ok_def owned_def in_use_def)
qed

text \<open>
  How the map of a file grows: other cached inodes stay, blocks in the map stay in
  the map, new ones were free, and only free blocks, the bit map and the indirect
  block change.
\<close>

definition grows :: "nat \<Rightarrow> kstate \<Rightarrow> kstate \<Rightarrow> bool" where
  "grows ip s t \<longleftrightarrow> fs_rest (s\<lparr>icache := icache t\<rparr>) t
     \<and> icache t = (icache s)[ip := (icache s ! ip)\<lparr>i_addrs := i_addrs (icache t ! ip)\<rparr>]
     \<and> (\<forall>m<MAXFILE + 1. blks t ip ! m = blks s ip ! m \<or> blks s ip ! m = 0 \<and> blks t ip ! m \<in> free_blocks s)
     \<and> free_blocks t \<subseteq> free_blocks s
     \<and> (\<forall>x. x \<notin> free_blocks s \<longrightarrow> \<not> bm_block (sb s) x \<longrightarrow> x \<notin> owned s ip \<longrightarrow> lview t x = lview s x)"

lemma fs_rest_icache: "fs_rest (s\<lparr>icache := a\<rparr>) t \<Longrightarrow> fs_rest t u \<Longrightarrow> fs_rest (s\<lparr>icache := icache u\<rparr>) u"
proof -
  assume *: "fs_rest (s\<lparr>icache := a\<rparr>) t" "fs_rest t u"
  then have "icache u = a" using fs_rest_sel(3) by fastforce
  with fs_rest_trans [OF *] show ?thesis by simp
qed

lemma fs_rest_set_icache: "fs_rest s t \<Longrightarrow> fs_rest (s\<lparr>icache := a\<rparr>) (t\<lparr>icache := a\<rparr>)"
proof -
  assume "fs_rest s t"
  then obtain g where g: "bio_rest (upd_lh g s) t" "memdisk t = memdisk s" "disk_writes t = disk_writes s" by (auto simp: fs_rest_def)
  then obtain h pt sl bc md dw where t: "t = (upd_lh g s)\<lparr>hw := h, ptable := pt, sleeplocks := sl, bcache := bc, memdisk := md, disk_writes := dw\<rparr>"
    "map pid pt = map pid (ptable (upd_lh g s))" "\<forall>k. sl (Inode_sleeplock k) = sleeplocks (upd_lh g s) (Inode_sleeplock k)"
    by (auto simp: bio_rest_def)
  have "t\<lparr>icache := a\<rparr> = (upd_lh g (s\<lparr>icache := a\<rparr>))\<lparr>hw := h, ptable := pt, sleeplocks := sl, bcache := bc, memdisk := md, disk_writes := dw\<rparr>"
    unfolding t(1) by (rule kstate.equality) (simp_all add: upd_lh_def upd_log_def)
  then have "bio_rest (upd_lh g (s\<lparr>icache := a\<rparr>)) (t\<lparr>icache := a\<rparr>)"
    using t(2,3) unfolding bio_rest_def
    by (intro exI [of _ h] exI [of _ pt] exI [of _ sl] exI [of _ bc] exI [of _ md] exI [of _ dw]) (simp add: upd_lh_def upd_log_def)
  then show ?thesis using g(2,3) by (auto simp: fs_rest_def)
qed

lemma grows_sel:
  assumes "grows ip s t"
  shows "sb t = sb s" "data_block t x = data_block s x" "mem t = mem s" "cr3 t = cr3 s" "length (icache t) = length (icache s)"
    "j \<noteq> ip \<Longrightarrow> icache t ! j = icache s ! j" "i_inum (icache t ! ip) = i_inum (icache s ! ip)" "i_dev (icache t ! ip) = i_dev (icache s ! ip)"
    "i_size (icache t ! ip) = i_size (icache s ! ip)" "i_type (icache t ! ip) = i_type (icache s ! ip)"
    "bn < MAXFILE \<Longrightarrow> file_addr s ip bn \<noteq> 0 \<Longrightarrow> file_addr t ip bn = file_addr s ip bn"
proof -
  obtain as where ic: "icache t = (icache s)[ip := (icache s ! ip)\<lparr>i_addrs := as\<rparr>]" using assms unfolding grows_def by blast
  have r: "fs_rest (s\<lparr>icache := icache t\<rparr>) t"
    and b: "\<forall>m<MAXFILE + 1. blks t ip ! m = blks s ip ! m \<or> blks s ip ! m = 0 \<and> blks t ip ! m \<in> free_blocks s"
    using assms by (auto simp: grows_def)
  have *: "icache t ! ip = icache s ! ip \<or> icache t ! ip = (icache s ! ip)\<lparr>i_addrs := as\<rparr>"
    by (cases "ip < length (icache s)") (simp_all add: ic list_update_beyond)
  show "sb t = sb s" "mem t = mem s" "cr3 t = cr3 s" using fs_rest_sel(2,5,6) [OF r] by simp_all
  show "data_block t x = data_block s x" using fs_rest_data_block [OF r, of x] by (simp add: data_block_def)
  show "length (icache t) = length (icache s)" by (simp add: ic)
  show "j \<noteq> ip \<Longrightarrow> icache t ! j = icache s ! j" by (simp add: ic)
  show "i_inum (icache t ! ip) = i_inum (icache s ! ip)" "i_dev (icache t ! ip) = i_dev (icache s ! ip)"
    "i_size (icache t ! ip) = i_size (icache s ! ip)" "i_type (icache t ! ip) = i_type (icache s ! ip)"
    using * by auto
  show "bn < MAXFILE \<Longrightarrow> file_addr s ip bn \<noteq> 0 \<Longrightarrow> file_addr t ip bn = file_addr s ip bn"
    using b [rule_format, of bn] by (auto simp: nth_blks)
qed

lemma grows_refl: "fs_rest s t \<Longrightarrow> lview t = lview s \<Longrightarrow> grows ip s t"
  using file_cong(3) [of s t ip] bmap_ok_cong(2) [of s t] fs_rest_sel(3) [of s t] by (simp add: grows_def)

lemma grows_owned: "grows ip s t \<Longrightarrow> x \<in> owned t ip \<Longrightarrow> x \<in> owned s ip \<or> x \<in> free_blocks s"
proof -
  assume g: "grows ip s t" "x \<in> owned t ip"
  then obtain m where m: "m < MAXFILE + 1" "x = blks t ip ! m" "x \<noteq> 0" by (auto simp: owned_def in_set_conv_nth)
  then have "x = blks s ip ! m \<or> x \<in> free_blocks s" using g(1) unfolding grows_def by metis
  then show ?thesis using m nth_mem [of m "blks s ip"] by (auto simp: owned_def)
qed

lemma grows_trans:
  assumes "grows ip s t" "grows ip t u"
  shows "grows ip s u"
proof -
  obtain as where t: "icache t = (icache s)[ip := (icache s ! ip)\<lparr>i_addrs := as\<rparr>]" using assms(1) unfolding grows_def by blast
  have u: "icache u = (icache t)[ip := (icache t ! ip)\<lparr>i_addrs := i_addrs (icache u ! ip)\<rparr>]" using assms(2) unfolding grows_def by blast
  have ic: "icache u = (icache s)[ip := (icache s ! ip)\<lparr>i_addrs := i_addrs (icache u ! ip)\<rparr>]"
    by (subst u, cases "ip < length (icache s)") (simp_all add: t list_update_beyond)
  have "fs_rest (s\<lparr>icache := icache t\<rparr>) t" "fs_rest (t\<lparr>icache := icache u\<rparr>) u" using assms by (auto simp: grows_def)
  then have r: "fs_rest (s\<lparr>icache := icache u\<rparr>) u" using fs_rest_set_icache [of "s\<lparr>icache := icache t\<rparr>" t "icache u"] fs_rest_trans by auto
  show ?thesis unfolding grows_def
  proof (intro conjI ic r)
    show "\<forall>m<MAXFILE + 1. blks u ip ! m = blks s ip ! m \<or> blks s ip ! m = 0 \<and> blks u ip ! m \<in> free_blocks s"
      using assms unfolding grows_def by (metis subsetD)
    show "free_blocks u \<subseteq> free_blocks s" using assms unfolding grows_def by blast
    show "\<forall>x. x \<notin> free_blocks s \<longrightarrow> \<not> bm_block (sb s) x \<longrightarrow> x \<notin> owned s ip \<longrightarrow> lview u x = lview s x"
      using assms grows_owned [OF assms(1)] grows_sel(1) [OF assms(1)] unfolding grows_def by (metis subsetD)
  qed
qed

text \<open>One more block in the map.\<close>

lemma grow_one:
  assumes s: "file_ok s ip" and m: "m < MAXFILE + 1" "blks s ip ! m = 0" and x: "x \<in> free_blocks s"
    and t: "blks t ip = (blks s ip)[m := x]" "free_blocks t = free_blocks s - {x}" "bmap_ok t" "length (lview t x) = BSIZE"
      "icache t = (icache s)[ip := (icache s ! ip)\<lparr>i_addrs := i_addrs (icache t ! ip)\<rparr>]" "length (i_addrs (icache t ! ip)) = NDIRECT + 1"
      "fs_rest (s\<lparr>icache := icache t\<rparr>) t"
      "\<And>y. y \<notin> free_blocks s \<Longrightarrow> \<not> bm_block (sb s) y \<Longrightarrow> y \<notin> owned s ip \<Longrightarrow> lview t y = lview s y"
      "\<And>y. y \<in> owned s ip \<Longrightarrow> length (lview t y) = BSIZE"
  shows "file_ok t ip" "grows ip s t"
proof -
  have x0: "x \<noteq> 0" "x \<notin> owned s ip" "x \<noteq> itable s ip" using s x by (auto simp: file_ok_def in_use_def)
  then have xs: "x \<notin> set (blks s ip)" by (simp add: owned_def)
  have b: "blks t ip ! j = (if j = m then x else blks s ip ! j)" if "j < MAXFILE + 1" for j using t(1) m(1) that by simp
  show g: "grows ip s t" unfolding grows_def
    using t(2,5,7,8) m x b by (intro conjI) auto
  note gs = grows_sel [OF g]
  have o: "owned t ip \<subseteq> insert x (owned s ip)" by (rule owned_update [OF m t(1)])
  have ux: "in_use t x" using s x t(2,4) gs(1,2) by (auto simp: in_use_def file_ok_def bmap_ok_def)
  have uo: "in_use t y" if "y \<in> owned s ip" for y using s that t(2,9) gs(1,2) by (auto simp: in_use_def file_ok_def)
  have ut: "in_use t (itable s ip)" using s t(2,8) gs(1,2) by (auto simp: in_use_def file_ok_def)
  have it: "itable t ip = itable s ip" using gs by simp
  show "file_ok t ip" unfolding file_ok_def it
    using s gs t(1-3,6) x0 o ux uo ut nz_distinct_update [OF _ xs] by (auto simp: file_ok_def)
qed

section \<open>bmap\<close>

lemma bmap_ok_upd_inode [simp]: "bmap_ok (upd_inode ip f s) = bmap_ok s" "free_blocks (upd_inode ip f s) = free_blocks s"
  by (simp_all add: bmap_ok_def free_blocks_def)

lemma ld32_zeros: "k + 3 < BSIZE \<Longrightarrow> ld32 (replicate BSIZE 0) k = 0"
  by (simp add: ld32_def)

lemma blks_eqI:
  assumes "\<And>bn. bn < MAXFILE \<Longrightarrow> file_addr t ip bn = xs ! bn" "ind_addr t ip = xs ! MAXFILE" "length xs = MAXFILE + 1"
  shows "blks t ip = xs"
proof (rule nth_equalityI)
  fix i assume "i < length (blks t ip)"
  then have "i < MAXFILE \<or> i = MAXFILE" by auto
  then show "blks t ip ! i = xs ! i" using assms nth_blks by auto
qed (use assms in simp)

text \<open>Growing the map changes no block of data.\<close>

definition keeps_data :: "nat \<Rightarrow> kstate \<Rightarrow> kstate \<Rightarrow> bool" where
  "keeps_data ip s t \<longleftrightarrow> (\<forall>x. x \<notin> free_blocks s \<longrightarrow> \<not> bm_block (sb s) x \<longrightarrow> x \<noteq> ind_addr s ip \<longrightarrow> lview t x = lview s x)"

lemma keeps_data_trans:
  assumes "keeps_data ip s t" "keeps_data ip t u" "grows ip s t"
  shows "keeps_data ip s u"
proof -
  have "ind_addr t ip = ind_addr s ip \<or> ind_addr t ip \<in> free_blocks s" "free_blocks t \<subseteq> free_blocks s"
    using assms(3) nth_blks(2) unfolding grows_def by (metis less_add_one)+
  with assms(1,2) grows_sel(1) [OF assms(3)] show ?thesis unfolding keeps_data_def by (metis subsetD)
qed

text \<open>A free block becomes the block at one of the 13 addresses of the inode.\<close>

lemma attach_addr:
  assumes s: "file_ok s ip" and j: "j \<le> NDIRECT" "i_addrs (icache s ! ip) ! j = 0" and x: "x \<in> free_blocks s"
    and t: "fs_rest s t" "lview t = taken s x"
  defines "u \<equiv> upd_inode ip (\<lambda>n. n\<lparr>i_addrs := (i_addrs n)[j := x]\<rparr>) t"
  shows "file_ok u ip" "grows ip s u" "i_addrs (icache u ! ip) ! j = x" "keeps_data ip s u"
proof -
  let ?m = "if j < NDIRECT then j else MAXFILE"
  have len: "ip < length (icache s)" "length (i_addrs (icache s ! ip)) = 13" using s by (simp_all add: file_ok_def)
  have ic: "icache u = (icache s)[ip := (icache s ! ip)\<lparr>i_addrs := (i_addrs (icache s ! ip))[j := x]\<rparr>]"
    using fs_rest_sel(3) [OF t(1)] by (simp add: u_def)
  have lv: "lview u = taken s x" using t(2) by (simp add: u_def)
  have keep: "lview u y = lview s y" if "y \<notin> free_blocks s" "\<not> bm_block (sb s) y" for y
    using that x taken_at(1) [of y x s] by (auto simp: lv)
  have ind: "lview u (ind_addr s ip) = lview s (ind_addr s ip)" if "ind_addr s ip \<noteq> 0"
    using file_in_use(2) [OF s that] keep by (simp add: in_use_def)
  have b: "blks u ip = (blks s ip)[?m := x]"
  proof (rule blks_eqI)
    show "ind_addr u ip = (blks s ip)[?m := x] ! MAXFILE" using len j by (auto simp: ind_addr_def ic nth_blks nth_list_update)
    fix bn assume bn: "bn < MAXFILE"
    show "file_addr u ip bn = (blks s ip)[?m := x] ! bn"
    proof (cases "j < NDIRECT")
      case True
      then have "ind_addr u ip = ind_addr s ip" using len by (simp add: ind_addr_def ic)
      then show ?thesis using True bn len ind by (auto simp: file_addr_def nth_blks ic nth_list_update)
    next
      case False
      then have "ind_addr u ip = x" "ind_addr s ip = 0" using len j by (auto simp: ind_addr_def ic)
      then show ?thesis using False bn len j ld32_zeros [of "4 * (bn - NDIRECT)"] by (auto simp: file_addr_def nth_blks ic lv taken_at(2))
    qed
  qed simp
  have m: "?m < MAXFILE + 1" "blks s ip ! ?m = 0" using j by (auto simp: nth_blks file_addr_def ind_addr_def)
  have bm: "bmap_ok s" using s by (simp add: file_ok_def)
  note ft = free_taken [OF bm x t]
  note g = grow_one [OF s m x b]
  have r: "fs_rest (s\<lparr>icache := icache u\<rparr>) u" using fs_rest_set_icache [OF t(1), of "icache u"] by (simp add: u_def upd_inode_def)
  have "length (lview u y) = BSIZE" if "y \<in> owned s ip" for y using s that keep [of y] by (auto simp: file_ok_def in_use_def)
  moreover have "length (lview u x) = BSIZE" by (simp add: lv taken_at(2))
  ultimately show "file_ok u ip" "grows ip s u" using g ft keep r len ic by (auto simp: u_def)
  show "i_addrs (icache u ! ip) ! j = x" using len j by (simp add: ic)
  show "keeps_data ip s u" using keep by (simp add: keeps_data_def)
qed

lemma free_other:
  assumes "fs_rest u t" "lview t = (lview u)(y := d)" "\<not> bm_block (sb u) y"
  shows "free_blocks t = free_blocks u" "bmap_ok t = bmap_ok u"
proof -
  have "bm_bit (sb u) (lview t) x = bm_bit (sb u) (lview u) x" if "x < sb_size (sb u)" for x
    using that assms(2,3) bm_bit_other [of x "sb u" y "lview u" d] by (auto simp: bm_block_def)
  then show f: "free_blocks t = free_blocks u" using fs_rest_sel(2) [OF assms(1)] by (auto simp: free_blocks_def)
  have "lview t x = lview u x" if "bm_block (sb u) x" for x using that assms(2,3) by auto
  then show "bmap_ok t = bmap_ok u" using f fs_rest_sel(2) [OF assms(1)] fs_rest_data_block [OF assms(1)] by (auto simp: bmap_ok_def)
qed

text \<open>A free block becomes the block of an entry of the indirect block.\<close>

lemma attach_entry:
  assumes s: "file_ok s ip" and I: "ind_addr s ip \<noteq> 0" and bn: "NDIRECT \<le> bn" "bn < MAXFILE" "file_addr s ip bn = 0"
    and x: "x \<in> free_blocks s" and u: "fs_rest s u" "lview u = taken s x"
    and t: "fs_rest u t" "lview t = (lview u)(ind_addr s ip := st32 (lview s (ind_addr s ip)) (4 * (bn - NDIRECT)) x)"
  shows "file_ok t ip" "grows ip s t" "file_addr t ip bn = x" "icache t = icache s" "keeps_data ip s t"
proof -
  let ?I = "ind_addr s ip"
  have len: "ip < length (icache s)" "length (i_addrs (icache s ! ip)) = 13" using s by (simp_all add: file_ok_def)
  have o: "?I \<in> owned s ip" and iu: "in_use s ?I" using owned_ind [OF I] file_in_use(2) [OF s I] by simp_all
  have r: "fs_rest s t" using fs_rest_trans [OF u(1) t(1)] .
  show ic: "icache t = icache s" using fs_rest_sel(3) [OF r] .
  have keep: "lview t y = lview s y" if "y \<notin> free_blocks s" "\<not> bm_block (sb s) y" "y \<noteq> ?I" for y
    using that x taken_at(1) [of y x s] by (auto simp: t(2) u(2))
  then show "keeps_data ip s t" by (simp add: keeps_data_def)
  have lI: "lview t ?I = st32 (lview s ?I) (4 * (bn - NDIRECT)) x" by (simp add: t(2))
  have b: "blks t ip = (blks s ip)[bn := x]"
  proof (rule blks_eqI)
    show "ind_addr t ip = (blks s ip)[bn := x] ! MAXFILE" using bn by (simp add: ind_addr_def ic nth_blks)
    fix bm assume "bm < MAXFILE"
    moreover have "ld32 (lview t ?I) (4 * (bm - NDIRECT)) = (if bm = bn then x else ld32 (lview s ?I) (4 * (bm - NDIRECT)))" if "NDIRECT \<le> bm"
    proof (cases "bm = bn")
      case False
      with that bn(1) have "4 * (bm - NDIRECT) + 3 < 4 * (bn - NDIRECT) \<or> 4 * (bn - NDIRECT) + 3 < 4 * (bm - NDIRECT)" by arith
      with False show ?thesis by (simp add: lI ld32_other)
    qed (use bn iu in \<open>simp add: lI in_use_def\<close>)
    ultimately show "file_addr t ip bm = (blks s ip)[bn := x] ! bm"
      using bn I by (auto simp: file_addr_def ind_addr_def ic nth_blks nth_list_update)
  qed simp
  have bm: "bmap_ok s" "\<not> bm_block (sb u) ?I" using s iu fs_rest_sel(2) [OF u(1)] by (simp_all add: file_ok_def in_use_def)
  note ft = free_taken [OF bm(1) x u] and fo = free_other [OF t bm(2)]
  have m: "bn < MAXFILE + 1" "blks s ip ! bn = 0" using bn by (simp_all add: nth_blks)
  have "length (lview t y) = BSIZE" if "y \<in> owned s ip" for y
    using s that keep [of y] lI iu by (cases "y = ?I") (auto simp: file_ok_def in_use_def)
  moreover have "x \<noteq> ?I" using x iu by (auto simp: in_use_def)
  then have "length (lview t x) = BSIZE" by (simp add: t(2) u(2) taken_at(2))
  moreover have "icache t = (icache s)[ip := (icache s ! ip)\<lparr>i_addrs := i_addrs (icache t ! ip)\<rparr>]" by (simp add: ic)
  moreover have "fs_rest (s\<lparr>icache := icache t\<rparr>) t" using r by (simp add: ic)
  ultimately show "file_ok t ip" "grows ip s t" using grow_one [OF s m x b] ft fo keep o len(2) by (auto simp: ic)
  show "file_addr t ip bn = x" using arg_cong [OF b, of "\<lambda>l. l ! bn"] bn by (simp add: nth_blks)
qed

text \<open>What \<open>bmap\<close> leaves: a file whose map has grown, with \<open>c\<close> free blocks or more.\<close>

definition grown :: "int \<Rightarrow> nat \<Rightarrow> nat \<Rightarrow> nat \<Rightarrow> kstate \<Rightarrow> kstate \<Rightarrow> bool" where
  "grown n ip k c s t \<longleftrightarrow> file_ok t ip \<and> grows ip s t \<and> fs_ok n t {} k \<and> c \<le> card (free_blocks t)"

lemma grown_trans: "grown n ip k c s t \<Longrightarrow> grown n ip k' c' t u \<Longrightarrow> grown n ip k' c' s u"
  using grows_trans by (auto simp: grown_def)

definition mapped :: "int \<Rightarrow> nat \<Rightarrow> nat \<Rightarrow> nat \<Rightarrow> kstate \<Rightarrow> kstate \<Rightarrow> bool" where
  "mapped n ip k c s t \<longleftrightarrow> grown n ip k c s t \<and> keeps_data ip s t"

lemma mapped_trans: "mapped n ip k c s t \<Longrightarrow> mapped n ip k' c' t u \<Longrightarrow> mapped n ip k' c' s u"
  using grown_trans keeps_data_trans unfolding mapped_def grown_def by blast

lemma free_left: "Suc c \<le> card (free_blocks s) \<Longrightarrow> x \<in> free_blocks s \<Longrightarrow> free_blocks t = free_blocks s - {x} \<Longrightarrow> c \<le> card (free_blocks t)"
  by simp

lemma addr_or_alloc_ok:
  assumes s: "file_ok s ip" "fs_ok n s {} (Suc (Suc k))" "Suc c \<le> card (free_blocks s)" and j: "j \<le> NDIRECT"
  shows "returns (addr_or_alloc ip j s) (\<lambda>a t. a = i_addrs (icache t ! ip) ! j \<and> a \<noteq> 0 \<and> mapped n ip k c s t
    \<and> (i_addrs (icache s ! ip) ! j \<noteq> 0 \<longrightarrow> icache t = icache s))"
proof (cases "i_addrs (icache s ! ip) ! j = 0")
  case False
  then show ?thesis using s grows_refl [of s s] bt.less_room [OF s(2), of k] by (auto simp: addr_or_alloc_def mapped_def grown_def keeps_data_def)
next
  case True
  have dev: "i_dev (icache s ! ip) = 1" and bm: "bmap_ok s" and z: "0 \<notin> free_blocks s" using s(1) by (simp_all add: file_ok_def)
  have "held_apart s {}" "free_blocks s \<noteq> {}" using s(3) by (auto simp: held_apart_def)
  then have "returns (balloc 1 s) (\<lambda>x t. x \<in> free_blocks s \<and> bt.post n s {} k (taken s x) t)"
    using balloc_ok [OF s(2) _ bm] by (auto elim!: returns_mono)
  then obtain x t where t: "balloc 1 s = Ret x t" "x \<in> free_blocks s" "bt.post n s {} k (taken s x) t" by (auto elim!: returnsE)
  let ?u = "upd_inode ip (\<lambda>n. n\<lparr>i_addrs := (i_addrs n)[j := x]\<rparr>) t"
  note p = bt.postD [OF t(3)]
  have a: "file_ok ?u ip" "grows ip s ?u" "i_addrs (icache ?u ! ip) ! j = x" "keeps_data ip s ?u"
    using attach_addr [OF s(1) j True t(2) p(4) p(2)] by simp_all
  have "c \<le> card (free_blocks ?u)" using free_left [OF s(3) t(2)] free_taken(1) [OF bm t(2) p(4) p(2)] by simp
  moreover have "x \<noteq> 0" using t(2) z by auto
  ultimately show ?thesis using t(1) True dev a fs_ok_upd_inode [OF p(1)] by (simp add: addr_or_alloc_def mapped_def grown_def)
qed

lemma ind_entry_ok:
  assumes s: "file_ok s ip" "fs_ok n s {} (Suc (Suc (Suc k)))" "Suc c \<le> card (free_blocks s)"
    and I: "ind_addr s ip \<noteq> 0" and bn: "NDIRECT \<le> bn" "bn < MAXFILE"
  shows "returns (bnd (bread 1 (ind_addr s ip) s) (\<lambda>bp s.
      let addr = ld32 (b_data (bcache s ! bp)) (4 * (bn - NDIRECT)) in
      bnd (if addr = 0
           then bnd (balloc 1 s) (\<lambda>addr s.
                bnd (log_write bp (set_data bp (st32 (b_data (bcache s ! bp)) (4 * (bn - NDIRECT)) addr) s)) (\<lambda>_ s. Ret addr s))
           else Ret addr s) (\<lambda>addr s. bnd (brelse bp s) (\<lambda>_ s. Ret addr s))))
    (\<lambda>a t. a = file_addr t ip bn \<and> a \<noteq> 0 \<and> mapped n ip k c s t \<and> icache t = icache s)" (is "returns _ ?Q")
proof (rule bt.read_then [OF s(2), where R = "\<lambda>m. returns m ?Q"])
  let ?I = "ind_addr s ip"
  have iu: "in_use s ?I" and bm: "bmap_ok s" and z: "0 \<notin> free_blocks s" using file_in_use(2) [OF s(1) I] s(1) by (simp_all add: file_ok_def)
  then show "data_block s ?I" by (simp add: in_use_def)
  fix bp t assume t: "fs_ok n t (insert bp {}) (Suc (Suc (Suc k)))" "b_blockno (bcache t ! bp) = ?I" "b_data (bcache t ! bp) = lview s ?I"
    "lview t = lview s" "fs_rest s t"
  have a: "ld32 (b_data (bcache t ! bp)) (4 * (bn - NDIRECT)) = file_addr s ip bn" using bn I t(3) by (simp add: file_addr_def)
  let ?g = "\<lambda>addr s. bnd (brelse bp s) (\<lambda>_ s. Ret addr s)"
  have rel: "returns (?g x u) (\<lambda>a w. a = x \<and> bt.post n u {} k (lview u) w)" if "fs_ok n u {bp} k" for x u
    using bt.give_back [of n u bp "{}" k "lview u" u] bt.post_refl [OF that] by (auto simp: returns_bnd elim!: returns_mono)
  show "returns (let addr = ld32 (b_data (bcache t ! bp)) (4 * (bn - NDIRECT)) in
      bnd (if addr = 0 then bnd (balloc 1 t) (\<lambda>addr s.
             bnd (log_write bp (set_data bp (st32 (b_data (bcache s ! bp)) (4 * (bn - NDIRECT)) addr) s)) (\<lambda>_ s. Ret addr s))
           else Ret addr t) ?g) ?Q"
  proof (cases "file_addr s ip bn = 0")
    case False
    have k: "fs_ok n t {bp} k" using bt.less_room [OF t(1), of k] by simp
    have "?Q x w" if "x = file_addr s ip bn" "bt.post n t {} k (lview t) w" for x w
    proof -
      have r: "fs_rest s w" "lview w = lview s" using fs_rest_trans [OF t(5) bt.postD(4) [OF that(2)]] bt.postD(2) [OF that(2)] t(4) by simp_all
      then show ?thesis using that False s(1,3) bt.postD(1) [OF that(2)] file_cong [OF r] grows_refl [OF r] bmap_ok_cong(2) [OF r] fs_rest_sel(3) [OF r(1)]
        by (simp add: mapped_def grown_def keeps_data_def)
    qed
    then show ?thesis using False rel [OF k, of "file_addr s ip bn"] by (auto simp: a elim!: returns_mono)
  next
    case True
    have ha: "held_apart t {bp}" "free_blocks t = free_blocks s" "bmap_ok t" "free_blocks s \<noteq> {}"
      using iu t(2) bm bmap_ok_cong [OF t(5,4)] fs_rest_sel(2) [OF t(5)] s(3) by (auto simp: held_apart_def in_use_def)
    have tk: "taken t = taken s" using t(4) fs_rest_sel(2) [OF t(5)] by (simp add: taken_def fun_eq_iff)
    have "returns (balloc 1 t) (\<lambda>x u. x \<in> free_blocks s \<and> bt.post n t {bp} (Suc k) (taken s x) u)"
      using balloc_ok [of n t "{bp}" "Suc k"] t(1) ha tk by (auto elim!: returns_mono)
    then obtain x u where u: "balloc 1 t = Ret x u" "x \<in> free_blocks s" "bt.post n t {bp} (Suc k) (taken s x) u" by (auto elim!: returnsE)
    note p = bt.postD [OF u(3)]
    have blk: "b_blockno (bcache u ! bp) = ?I" using p(3) t(2) by simp
    moreover have "x \<noteq> ?I" using u(2) iu by (auto simp: in_use_def)
    ultimately have d: "b_data (bcache u ! bp) = lview s ?I"
      using bt.held_view [OF p(1), of bp] p(2) taken_at(1) [of ?I x s] iu u(2) by (auto simp: in_use_def)
    have ru: "fs_rest s u" using fs_rest_trans [OF t(5) p(4)] .
    let ?d = "st32 (lview s ?I) (4 * (bn - NDIRECT)) x"
    have "data_block u ?I" using iu fs_rest_data_block [OF ru] by (simp add: in_use_def)
    then have "returns (bnd (log_write bp (set_data bp ?d u)) (\<lambda>_ s. brelse bp s)) (\<lambda>_ w. bt.post n u {} k ((lview u)(?I := ?d)) w)"
      using bt.log_and_give_back [of n u bp "{}" k ?d] p(1) blk by simp
    then obtain w where w: "bnd (log_write bp (set_data bp ?d u)) (\<lambda>_ s. brelse bp s) = Ret () w" "bt.post n u {} k ((lview u)(?I := ?d)) w"
      by (auto elim!: returnsE)
    note q = bt.postD [OF w(2)]
    note ae = attach_entry [OF s(1) I bn True u(2) ru p(2) q(4) q(2)]
    have "free_blocks w = free_blocks s - {x}" using free_taken(1) [OF bm u(2) ru p(2)] free_other(1) [OF q(4) q(2)] iu fs_rest_sel(2) [OF ru]
      by (simp add: in_use_def)
    then have "mapped n ip k c s w" using ae q(1) free_left [OF s(3) u(2)] by (simp add: mapped_def grown_def)
    moreover have "x \<noteq> 0" using u(2) z by auto
    ultimately show ?thesis using ae w(1) True by (auto simp: a u(1) d bnd_assoc bnd_Ret_iff)
  qed
qed simp_all

lemma bmap_grows:
  assumes s: "file_ok s ip" "fs_ok n s {} (k + 5)" "c + 2 \<le> card (free_blocks s)" and b: "unat b < MAXFILE"
  shows "returns (bmap ip b s) (\<lambda>a t. a = file_addr t ip (unat b) \<and> a \<noteq> 0 \<and> mapped n ip k c s t
    \<and> (file_addr s ip (unat b) \<noteq> 0 \<longrightarrow> icache t = icache s))"
proof (cases "unat b < NDIRECT")
  case True
  have "fs_ok n s {} (Suc (Suc k))" "Suc c \<le> card (free_blocks s)" using bt.less_room [OF s(2), of "Suc (Suc k)"] s(3) by simp_all
  from addr_or_alloc_ok [OF s(1) this, of "unat b"] True show ?thesis
    by (auto simp: bmap_def file_addr_def elim!: returns_mono)
next
  case False
  let ?bn = "unat b"
  have lt: "?bn - NDIRECT < NINDIRECT" using False b by simp
  have "fs_ok n s {} (Suc (Suc (k + 3)))" "Suc (Suc c) \<le> card (free_blocks s)" using s(2,3) by (simp_all add: eval_nat_numeral)
  from addr_or_alloc_ok [OF s(1) this, of NDIRECT]
  obtain t where t: "addr_or_alloc ip NDIRECT s = Ret (ind_addr t ip) t" "ind_addr t ip \<noteq> 0" "mapped n ip (k + 3) (Suc c) s t"
    "ind_addr s ip \<noteq> 0 \<longrightarrow> icache t = icache s"
    by (auto simp: ind_addr_def elim!: returnsE)
  have g: "file_ok t ip" "fs_ok n t {} (Suc (Suc (Suc k)))" "Suc c \<le> card (free_blocks t)"
    using t(3) by (simp_all add: mapped_def grown_def eval_nat_numeral)
  have dev: "i_dev (icache t ! ip) = 1" using g(1) by (simp add: file_ok_def)
  have d: "i_dev (icache u ! ip) = 1" if "fs_rest t u" for u using fs_rest_sel(3) [OF that] dev by simp
  have "bmap ip b s = bnd (bread 1 (ind_addr t ip) t) (\<lambda>bp s.
      let addr = ld32 (b_data (bcache s ! bp)) (4 * (?bn - NDIRECT)) in
      bnd (if addr = 0
           then bnd (balloc (i_dev (icache s ! ip)) s) (\<lambda>addr s.
                bnd (log_write bp (set_data bp (st32 (b_data (bcache s ! bp)) (4 * (?bn - NDIRECT)) addr) s)) (\<lambda>_ s. Ret addr s))
           else Ret addr s) (\<lambda>addr s. bnd (brelse bp s) (\<lambda>_ s. Ret addr s)))"
    using False lt t(1) dev by (simp add: bmap_def Let_def)
  also have "\<dots> = bnd (bread 1 (ind_addr t ip) t) (\<lambda>bp s.
      let addr = ld32 (b_data (bcache s ! bp)) (4 * (?bn - NDIRECT)) in
      bnd (if addr = 0
           then bnd (balloc 1 s) (\<lambda>addr s.
                bnd (log_write bp (set_data bp (st32 (b_data (bcache s ! bp)) (4 * (?bn - NDIRECT)) addr) s)) (\<lambda>_ s. Ret addr s))
           else Ret addr s) (\<lambda>addr s. bnd (brelse bp s) (\<lambda>_ s. Ret addr s)))"
  proof -
    have "in_use t (ind_addr t ip)" using file_in_use(2) [OF g(1) t(2)] .
    then have "returns (bread 1 (ind_addr t ip) t) (\<lambda>bp u. fs_rest t u)"
      using fs_bread [OF g(2), of "ind_addr t ip"] by (auto simp: in_use_def elim!: returns_mono)
    then show ?thesis using d by (auto simp: Let_def elim!: returnsE)
  qed
  finally have e: "bmap ip b s = \<dots>" .
  have "file_addr s ip ?bn \<noteq> 0 \<Longrightarrow> ind_addr s ip \<noteq> 0" using False by (auto simp: file_addr_def)
  then show ?thesis unfolding e
    using ind_entry_ok [OF g t(2), of ?bn] False b t(3,4) mapped_trans by (auto elim!: returns_mono)
qed

text \<open>A block that is there: nothing changes.\<close>

lemma bmap_present:
  assumes s: "file_ok s ip" "fs_ok n s {} k" and b: "unat b < MAXFILE" "file_addr s ip (unat b) \<noteq> 0"
  shows "returns (bmap ip b s) (\<lambda>a t. a = file_addr s ip (unat b) \<and> bt.post n s {} k (lview s) t)"
proof (cases "unat b < NDIRECT")
  case True
  then show ?thesis using b bt.post_refl [OF s(2)] by (simp add: bmap_def file_addr_def addr_or_alloc_def)
next
  case False
  have lt: "unat b - NDIRECT < NINDIRECT" using False b by simp
  have I: "ind_addr s ip \<noteq> 0" "file_addr s ip (unat b) = ld32 (lview s (ind_addr s ip)) (4 * (unat b - NDIRECT))"
    using False b by (auto simp: file_addr_def)
  have dev: "i_dev (icache s ! ip) = 1" and "in_use s (ind_addr s ip)" using file_in_use(2) [OF s(1) I(1)] s(1) by (simp_all add: file_ok_def)
  then have db: "data_block s (ind_addr s ip)" by (simp add: in_use_def)
  have e: "bmap ip b s = bnd (bread 1 (ind_addr s ip) s) (\<lambda>bp s.
      let addr = ld32 (b_data (bcache s ! bp)) (4 * (unat b - NDIRECT)) in
      bnd (if addr = 0
           then bnd (balloc (i_dev (icache s ! ip)) s) (\<lambda>addr s.
                bnd (log_write bp (set_data bp (st32 (b_data (bcache s ! bp)) (4 * (unat b - NDIRECT)) addr) s)) (\<lambda>_ s. Ret addr s))
           else Ret addr s) (\<lambda>addr s. bnd (brelse bp s) (\<lambda>_ s. Ret addr s)))"
    using False lt I(1) dev by (simp add: bmap_def Let_def addr_or_alloc_def ind_addr_def)
  let ?Q = "\<lambda>a t. a = file_addr s ip (unat b) \<and> bt.post n s {} k (lview s) t"
  show ?thesis unfolding e
  proof (rule bt.read_then [OF s(2) _ db, where R = "\<lambda>m. returns m ?Q"])
    fix bp t assume t: "fs_ok n t (insert bp {}) k" "b_data (bcache t ! bp) = lview s (ind_addr s ip)" "lview t = lview s"
      "\<forall>c\<in>{}. b_blockno (bcache t ! c) = b_blockno (bcache s ! c)" "fs_rest s t"
    have "returns (brelse bp t) (\<lambda>_ w. bt.post n s {} k (lview s) w)"
      using bt.give_back [of n t bp "{}" k "lview t" t] bt.post_refl [OF t(1)] bt.post_from [OF t(5,4)] t(3) by (auto elim!: returns_mono)
    then show "returns (let addr = ld32 (b_data (bcache t ! bp)) (4 * (unat b - NDIRECT)) in
      bnd (if addr = 0
           then bnd (balloc (i_dev (icache t ! ip)) t) (\<lambda>addr s.
                bnd (log_write bp (set_data bp (st32 (b_data (bcache s ! bp)) (4 * (unat b - NDIRECT)) addr) s)) (\<lambda>_ s. Ret addr s))
           else Ret addr t) (\<lambda>addr s. bnd (brelse bp s) (\<lambda>_ s. Ret addr s))) ?Q"
      using b(2) I(2) t(2) by (auto simp: returns_bnd elim!: returns_mono)
  qed simp_all
qed

end
