(* ===== verification/Fs_Rw.thy ===== *)
theory Fs_Rw
  imports Fs_Map Usermem_Props
begin

text \<open>
  The content of a file: \<open>readi\<close> and \<open>writei\<close> against their abstract specification
  on lists of bytes. Two contracts say what they need of the place the bytes go to
  and of the place they come from.
\<close>

section \<open>Content\<close>

lemma sint_small: "unat (x :: u32) < 2 ^ 31 \<Longrightarrow> sint x = int (unat x)"
proof -
  assume "unat x < 2 ^ 31"
  then have "int (unat x) < int (2 ^ 31)" by (simp only: of_nat_less_iff)
  then have "uint x < 2 ^ 31" by simp
  then have "signed_take_bit 31 (uint x) = uint x"
    using uint_ge_0 [of x] by (intro signed_take_bit_int_eq_self) linarith+
  then have "sint x = uint x" by (simp add: sint_uint)
  then show ?thesis by simp
qed

definition file_byte :: "kstate \<Rightarrow> nat \<Rightarrow> nat \<Rightarrow> u8" where
  "file_byte s ip p = lview s (file_addr s ip (p div BSIZE)) ! (p mod BSIZE)"

definition file_content :: "kstate \<Rightarrow> nat \<Rightarrow> u8 list" where
  "file_content s ip = map (file_byte s ip) [0..<unat (i_size (icache s ! ip))]"

text \<open>A file without holes, no longer than the map allows.\<close>

definition no_holes :: "kstate \<Rightarrow> nat \<Rightarrow> bool" where
  "no_holes s ip \<longleftrightarrow> unat (i_size (icache s ! ip)) \<le> MAXFILE * BSIZE
     \<and> (\<forall>p<unat (i_size (icache s ! ip)). file_addr s ip (p div BSIZE) \<noteq> 0)"

lemma length_file_content [simp]: "length (file_content s ip) = unat (i_size (icache s ! ip))"
  by (simp add: file_content_def)

text \<open>One piece of a transfer, within a block.\<close>

lemma unat_chunk: "unat (chunk l off) = min (unat l) (BSIZE - unat off mod BSIZE)"
proof -
  have "off mod 512 \<le> 512" by (simp add: word_le_nat_alt unat_mod less_imp_le)
  then show ?thesis by (simp add: chunk_def min_def word_le_nat_alt unat_sub unat_mod)
qed

lemma in_one_block: "i < BSIZE - off mod BSIZE \<Longrightarrow> (off + i) div BSIZE = off div BSIZE \<and> (off + i) mod BSIZE = off mod BSIZE + i"
  for off i :: nat
proof -
  assume i: "i < BSIZE - off mod BSIZE"
  have e: "off + i = (off mod BSIZE + i) + BSIZE * (off div BSIZE)" using div_mult_mod_eq [of off BSIZE] by linarith
  have "((off mod BSIZE + i) + BSIZE * (off div BSIZE)) div BSIZE = off div BSIZE" using i by (subst div_mult_self2) simp_all
  moreover have "((off mod BSIZE + i) + BSIZE * (off div BSIZE)) mod BSIZE = off mod BSIZE + i" using i by (subst mod_mult_self2) simp
  ultimately show ?thesis using e by metis
qed

section \<open>Where bytes go and where they come from\<close>

text \<open>A destination that takes the bytes \<open>bs\<close> piece by piece; \<open>mm j\<close> is the memory after \<open>j\<close> of them.\<close>

locale byte_sink =
  fixes k :: "'a sink" and acc :: "nat \<Rightarrow> 'a" and bs :: "u8 list" and mm :: "nat \<Rightarrow> memory" and pd :: u32
  assumes put: "j + m \<le> length bs \<Longrightarrow> mem (s :: kstate) = mm j \<Longrightarrow> cr3 s = pd \<Longrightarrow>
    snk_put k (acc j) (take m (drop j bs)) s = Ret (acc (j + m)) (s\<lparr>mem := mm (j + m)\<rparr>)"

text \<open>A source that yields the bytes \<open>bs\<close> piece by piece, while the memory is \<open>mm\<close>.\<close>

locale byte_source =
  fixes k :: "'a source" and acc :: "nat \<Rightarrow> 'a" and bs :: "u8 list" and mm :: memory and pd :: u32
  assumes get: "j + m \<le> length bs \<Longrightarrow> mem (s :: kstate) = mm \<Longrightarrow> cr3 s = pd \<Longrightarrow>
    src_get k (acc j) m s = Ret (take m (drop j bs), acc (j + m)) s"

interpretation ls: byte_sink loc_sink "\<lambda>j. a @ take j bs" bs "\<lambda>_. m" pd for a bs m pd
  by unfold_locales (simp add: loc_sink_def take_add)

interpretation lo: byte_source loc_source "\<lambda>j. drop j bs" bs m pd for bs m pd
  by unfold_locales (simp add: loc_source_def add.commute)

lemma user_bytes_part:
  assumes "j + m \<le> n"
  shows "user_bytes (a + of_nat j) m s = take m (drop j (user_bytes a n s))" "readable a n s \<Longrightarrow> readable (a + of_nat j) m s"
proof -
  show "user_bytes (a + of_nat j) m s = take m (drop j (user_bytes a n s))"
    using assms by (intro nth_equalityI) (simp_all add: user_bytes_def add.assoc)
  show "readable a n s \<Longrightarrow> readable (a + of_nat j) m s"
    unfolding readable_def using assms by (metis add.assoc add_less_cancel_left of_nat_add order_less_le_trans)
qed

text \<open>User memory with the page tables and the content of \<open>s\<close>.\<close>

lemma mem_source_ok: "readable a n s \<Longrightarrow> byte_source mem_source (\<lambda>j. a + of_nat j) (user_bytes a n s) (mem s) (cr3 s)"
proof
  fix j m and t :: kstate assume r: "readable a n s" "j + m \<le> length (user_bytes a n s)" "mem t = mem s" "cr3 t = cr3 s"
  then have "readable (a + of_nat j) m t" using user_bytes_part(2) [of j m n a t] readable_cong [of t s a n] by simp
  then show "src_get mem_source (a + of_nat j) m t = Ret (take m (drop j (user_bytes a n s)), a + of_nat (j + m)) t"
    using r user_bytes_part(1) [of j m n a t] user_bytes_cong [of t s a n] by (simp add: mem_source_def loads_ok add.assoc)
qed

lemma put_bytes_append: "put_bytes f (xs @ ys) m = put_bytes (\<lambda>k. f (length xs + k)) ys (put_bytes f xs m)"
proof (induction ys rule: rev_induct)
  case (snoc c ys)
  then show ?case unfolding append_assoc [symmetric] put_bytes_snoc by simp
qed (simp add: put_bytes_def)

lemma writable_part:
  assumes "writable_buf a n f s" "j + m \<le> n" "\<And>x. x \<notin> f ` {..<n} \<Longrightarrow> mem t x = mem s x" "cr3 t = cr3 s"
  shows "writable_buf (a + of_nat j) m (\<lambda>k. f (j + k)) t"
proof -
  have "inj_on f {..<n}" using assms(1) by (simp add: writable_buf_def)
  then have "j + x = j + y" if "f (j + x) = f (j + y)" "x < m" "y < m" for x y
    using that assms(2) by (intro inj_onD [of f "{..<n}"]) auto
  then have "inj_on (\<lambda>k. f (j + k)) {..<m}" by (auto intro: inj_onI)
  moreover have "translate True (a + of_nat j + of_nat k) (t\<lparr>mem := M\<rparr>) = Some (f (j + k))"
    if M: "\<forall>x. x \<notin> (\<lambda>k. f (j + k)) ` {..<m} \<longrightarrow> M x = mem t x" and k: "k < m" for M k
  proof -
    have "M x = mem s x" if "x \<notin> f ` {..<n}" for x
    proof -
      have "x \<notin> (\<lambda>k. f (j + k)) ` {..<m}" using that assms(2) by auto
      then show ?thesis using M assms(3) [OF that] by simp
    qed
    then have "translate True (a + of_nat (j + k)) (s\<lparr>mem := M\<rparr>) = Some (f (j + k))"
      using assms(1,2) k unfolding writable_buf_def by (auto simp del: of_nat_add)
    moreover have "translate True (a + of_nat (j + k)) (t\<lparr>mem := M\<rparr>) = translate True (a + of_nat (j + k)) (s\<lparr>mem := M\<rparr>)"
      using assms(4) by (intro translate_cong) simp_all
    ultimately show ?thesis by (simp add: add.assoc)
  qed
  ultimately show ?thesis unfolding writable_buf_def by blast
qed

lemma mem_sink_ok:
  assumes "writable_buf a (length bs) f s"
  shows "byte_sink mem_sink (\<lambda>j. a + of_nat j) bs (\<lambda>j. put_bytes f (take j bs) (mem s)) (cr3 s)"
proof
  fix j m and t :: kstate assume t: "j + m \<le> length bs" "mem t = put_bytes f (take j bs) (mem s)" "cr3 t = cr3 s"
  have "mem t x = mem s x" if "x \<notin> f ` {..<length bs}" for x
    unfolding t(2) by (rule put_bytes_other) (use that in auto)
  from writable_part [OF assms t(1) this t(3)] have "writable_buf (a + of_nat j) (length (take m (drop j bs))) (\<lambda>k. f (j + k)) t"
    using t(1) by simp
  from stores_ok [OF this] show "snk_put mem_sink (a + of_nat j) (take m (drop j bs)) t
      = Ret (a + of_nat (j + m)) (t\<lparr>mem := put_bytes f (take (j + m) bs) (mem s)\<rparr>)"
    using t(1,2) by (simp add: mem_sink_def take_add put_bytes_append add.assoc min_absorb2)
qed

section \<open>Reading\<close>

lemma upd_mem_sel [simp]: "lview (s\<lparr>mem := m\<rparr>) = lview s" "data_block (s\<lparr>mem := m\<rparr>) x = data_block s x"
  by (rule bio_cong) (simp_all add: data_block_def)

lemma fs_ok_upd_mem: "fs_ok n s H r \<Longrightarrow> fs_ok n (s\<lparr>mem := m\<rparr>) H r"
  by (rule fs_ok_cong) (auto intro: quiet_cong dest: fs_ok_quiet)

lemma fs_rest_set_mem: "fs_rest s t \<Longrightarrow> fs_rest (s\<lparr>mem := a\<rparr>) (t\<lparr>mem := a\<rparr>)"
proof -
  assume "fs_rest s t"
  then obtain g where g: "bio_rest (upd_lh g s) t" "memdisk t = memdisk s" "disk_writes t = disk_writes s" by (auto simp: fs_rest_def)
  then obtain h pt sl bc md dw where t: "t = (upd_lh g s)\<lparr>hw := h, ptable := pt, sleeplocks := sl, bcache := bc, memdisk := md, disk_writes := dw\<rparr>"
    "map pid pt = map pid (ptable (upd_lh g s))" "\<forall>k. sl (Inode_sleeplock k) = sleeplocks (upd_lh g s) (Inode_sleeplock k)"
    by (auto simp: bio_rest_def)
  have "t\<lparr>mem := a\<rparr> = (upd_lh g (s\<lparr>mem := a\<rparr>))\<lparr>hw := h, ptable := pt, sleeplocks := sl, bcache := bc, memdisk := md, disk_writes := dw\<rparr>"
    unfolding t(1) by (rule kstate.equality) (simp_all add: upd_lh_def upd_log_def)
  then have "bio_rest (upd_lh g (s\<lparr>mem := a\<rparr>)) (t\<lparr>mem := a\<rparr>)"
    using t(2,3) unfolding bio_rest_def
    by (intro exI [of _ h] exI [of _ pt] exI [of _ sl] exI [of _ bc] exI [of _ md] exI [of _ dw]) (simp add: upd_lh_def upd_log_def)
  then show ?thesis using g(2,3) by (auto simp: fs_rest_def)
qed

text \<open>A state that differs by memory and by what \<open>fs_rest\<close> allows.\<close>

definition only_mem :: "kstate \<Rightarrow> kstate \<Rightarrow> bool" where
  "only_mem s t \<longleftrightarrow> fs_rest (s\<lparr>mem := mem t\<rparr>) t \<and> lview t = lview s"

lemma only_mem_trans: "only_mem s t \<Longrightarrow> only_mem t u \<Longrightarrow> only_mem s u"
  using fs_rest_set_mem [of "s\<lparr>mem := mem t\<rparr>" t "mem u"] fs_rest_trans [of "s\<lparr>mem := mem u\<rparr>"] by (auto simp: only_mem_def)

lemma only_mem_rest: "fs_rest s t \<Longrightarrow> lview t = lview s \<Longrightarrow> only_mem s t" "only_mem s (s\<lparr>mem := m\<rparr>)"
  using fs_rest_sel(5) [of s t] by (auto simp: only_mem_def)

lemma file_upd_mem: "ind_addr (s\<lparr>mem := m\<rparr>) ip = ind_addr s ip" "file_addr (s\<lparr>mem := m\<rparr>) ip = file_addr s ip"
  "file_ok (s\<lparr>mem := m\<rparr>) ip = file_ok s ip"
proof -
  show i: "ind_addr (s\<lparr>mem := m\<rparr>) ip = ind_addr s ip" by (simp add: ind_addr_def)
  then show f: "file_addr (s\<lparr>mem := m\<rparr>) ip = file_addr s ip" by (simp add: file_addr_def fun_eq_iff)
  have "blks (s\<lparr>mem := m\<rparr>) ip = blks s ip" using i f by (simp add: blks_def)
  then show "file_ok (s\<lparr>mem := m\<rparr>) ip = file_ok s ip" by (simp add: file_ok_def owned_def in_use_def bmap_ok_def free_blocks_def)
qed

lemma only_mem_file: "only_mem s t \<Longrightarrow> file_ok t ip = file_ok s ip" "only_mem s t \<Longrightarrow> file_addr t ip = file_addr s ip"
  "only_mem s t \<Longrightarrow> icache t = icache s" "only_mem s t \<Longrightarrow> cr3 t = cr3 s"
  using file_cong(2,4) [of "s\<lparr>mem := mem t\<rparr>" t ip] fs_rest_sel(3,6) [of "s\<lparr>mem := mem t\<rparr>" t] by (auto simp: only_mem_def file_upd_mem)

text \<open>The piece of a block that holds part of the file.\<close>

lemma block_piece:
  assumes "length d = BSIZE" "m \<le> BSIZE - off mod BSIZE" "j + m \<le> length bs"
    "\<And>i. i < m \<Longrightarrow> bs ! (j + i) = d ! ((off + i) mod BSIZE)"
  shows "take m (drop (off mod BSIZE) d) = take m (drop j bs)"
proof (rule nth_equalityI)
  fix i assume "i < length (take m (drop (off mod BSIZE) d))"
  then have i: "i < m" by simp
  then have "(off + i) mod BSIZE = off mod BSIZE + i" using assms(2) in_one_block [of i off] by simp
  then show "take m (drop (off mod BSIZE) d) ! i = take m (drop j bs) ! i" using i assms by simp
qed (use assms in simp)

lemma chunk_step:
  assumes "left \<noteq> 0" "unat off + unat left \<le> MAXFILE * BSIZE"
  defines "m \<equiv> chunk left off"
  shows "unat m = min (unat left) (BSIZE - unat off mod BSIZE)" "0 < unat m" "unat m \<le> unat left" "unat (left - m) = unat left - unat m"
    "unat (off + m) = unat off + unat m" "unat (off div of_nat BSIZE) = unat off div BSIZE" "unat off div BSIZE < MAXFILE"
    "unat (off mod of_nat BSIZE) = unat off mod BSIZE"
proof -
  have pos: "0 < unat left" using assms(1) by (simp add: unat_gt_0)
  show m: "unat m = min (unat left) (BSIZE - unat off mod BSIZE)" unfolding m_def by (rule unat_chunk)
  then show "0 < unat m" and le: "unat m \<le> unat left" using pos by auto
  show "unat (left - m) = unat left - unat m" using le by (simp add: unat_sub word_le_nat_alt)
  have "unat off + unat m < 2 ^ 32" using le assms(2) by simp
  then show "unat (off + m) = unat off + unat m" by (simp add: unat_word_ariths)
  have "unat off < MAXFILE * BSIZE" using pos assms(2) by simp
  then show "unat off div BSIZE < MAXFILE" by (rule less_mult_imp_div_less)
qed (simp_all add: unat_div unat_mod)

context byte_sink
begin

lemma readi_loop_content:
  assumes "file_ok s ip" "fs_ok n s {} r" "mem s = mm j" "cr3 s = pd" "j + unat left = length bs" "unat off + unat left \<le> MAXFILE * BSIZE"
    "\<And>i. i < unat left \<Longrightarrow> file_addr s ip ((unat off + i) div BSIZE) \<noteq> 0 \<and> bs ! (j + i) = file_byte s ip (unat off + i)"
  shows "returns (readi_loop k ip (acc j) off left s) (\<lambda>d t. d = acc (length bs) \<and> mem t = mm (length bs) \<and> fs_ok n t {} r \<and> only_mem s t)"
  using assms
proof (induction "unat left" arbitrary: left off s j rule: less_induct)
  case less
  show ?case
  proof (cases "left = 0")
    case True
    then show ?thesis using less.prems by (simp add: readi_loop.simps [of k ip _ off 0] only_mem_rest)
  next
    case False
    let ?m = "chunk left off" and ?b = "off div of_nat BSIZE" and ?A = "file_addr s ip (unat off div BSIZE)"
    note c = chunk_step [OF False less.prems(6)]
    have A: "?A \<noteq> 0" using less.prems(7) [of 0] c(2,3) by simp
    then have iu: "in_use s ?A" using file_in_use(1) [OF less.prems(1) c(7)] by simp
    obtain t where t: "bmap ip ?b s = Ret ?A t" "bt.post n s {} r (lview s) t"
      using bmap_present [OF less.prems(1,2), of ?b] A c(6,7) by (auto elim!: returnsE)
    note p = bt.postD [OF t(2)]
    have dev: "i_dev (icache t ! ip) = 1" using less.prems(1) fs_rest_sel(3) [OF p(4)] by (simp add: file_ok_def)
    have db: "data_block t ?A" using iu fs_rest_data_block [OF p(4)] by (simp add: in_use_def)
    let ?Q = "\<lambda>d t. d = acc (length bs) \<and> mem t = mm (length bs) \<and> fs_ok n t {} r \<and> only_mem s t"
    have "returns (bnd (bread 1 ?A t) (\<lambda>bp s. bnd (snk_put k (acc j) (take (unat ?m) (drop (unat (off mod of_nat BSIZE)) (b_data (bcache s ! bp)))) s)
        (\<lambda>dst s. bnd (brelse bp s) (\<lambda>_ s. readi_loop k ip dst (off + ?m) (left - ?m) s)))) ?Q"
    proof (rule bt.read_then [OF p(1) _ db, where R = "\<lambda>m. returns m ?Q"])
      fix bp u assume u: "fs_ok n u (insert bp {}) r" "b_data (bcache u ! bp) = lview t ?A" "lview u = lview t" "fs_rest t u"
      have su: "fs_rest s u" "lview u = lview s" using fs_rest_trans [OF p(4) u(4)] p(2) u(3) by simp_all
      have mu: "mem u = mm j" "cr3 u = pd" using fs_rest_sel(5,6) [OF su(1)] less.prems(3,4) by simp_all
      have "take (unat ?m) (drop (unat (off mod of_nat BSIZE)) (b_data (bcache u ! bp))) = take (unat ?m) (drop j bs)"
        unfolding c(8)
      proof (rule block_piece)
        show "length (b_data (bcache u ! bp)) = BSIZE" using iu u(2) p(2) by (simp add: in_use_def)
        fix i assume "i < unat ?m"
        then show "bs ! (j + i) = b_data (bcache u ! bp) ! ((unat off + i) mod BSIZE)"
          using less.prems(7) [of i] c(1) in_one_block [of i "unat off"] u(2) p(2) by (simp add: file_byte_def)
      qed (use c(1,3) less.prems(5) in simp_all)
      moreover have "j + unat ?m \<le> length bs" using c(3) less.prems(5) by simp
      ultimately have put1: "snk_put k (acc j) (take (unat ?m) (drop (unat (off mod of_nat BSIZE)) (b_data (bcache u ! bp)))) u
          = Ret (acc (j + unat ?m)) (u\<lparr>mem := mm (j + unat ?m)\<rparr>)" using put [OF _ mu, of "unat ?m"] by simp
      let ?v = "u\<lparr>mem := mm (j + unat ?m)\<rparr>"
      obtain w where w: "brelse bp ?v = Ret () w" "bt.post n ?v {} r (lview ?v) w"
        using bt.give_back [of n ?v bp "{}" r "lview ?v" ?v] bt.post_refl [OF fs_ok_upd_mem [OF u(1)]] by (auto elim!: returnsE)
      note q = bt.postD [OF w(2)]
      have sw: "only_mem s w" using only_mem_trans [OF only_mem_rest(1) [OF su] only_mem_trans [OF only_mem_rest(2) only_mem_rest(1) [OF q(4) q(2)]]] .
      note f = only_mem_file [OF sw]
      have "returns (readi_loop k ip (acc (j + unat ?m)) (off + ?m) (left - ?m) w)
         (\<lambda>d t. d = acc (length bs) \<and> mem t = mm (length bs) \<and> fs_ok n t {} r \<and> only_mem w t)"
      proof (rule less.hyps)
        show "unat (left - ?m) < unat left" using c(2-4) by simp
        show "mem w = mm (j + unat ?m)" using fs_rest_sel(5) [OF q(4)] by simp
        fix i assume "i < unat (left - ?m)"
        then have "unat ?m + i < unat left" using c(4) by simp
        from less.prems(7) [OF this] show "file_addr w ip ((unat (off + ?m) + i) div BSIZE) \<noteq> 0 \<and> bs ! (j + unat ?m + i) = file_byte w ip (unat (off + ?m) + i)"
          using c(5) f(2) sw by (simp add: file_byte_def only_mem_def add.assoc)
      qed (use less.prems(1,4-6) c(3-5) f(1,4) q(1) in simp_all)
      then show "returns (bnd (snk_put k (acc j) (take (unat ?m) (drop (unat (off mod of_nat BSIZE)) (b_data (bcache u ! bp)))) u)
        (\<lambda>dst s. bnd (brelse bp s) (\<lambda>_ s. readi_loop k ip dst (off + ?m) (left - ?m) s))) ?Q"
        unfolding put1 using w(1) only_mem_trans [OF sw] by (auto elim!: returns_mono)
    qed simp_all
    then show ?thesis using False t(1) dev by (simp add: readi_loop.simps [of k ip "acc j" off left] Let_def)
  qed
qed

text \<open>The whole call: the part of the content that lies in the range.\<close>

lemma readi_content:
  assumes s: "file_ok s ip" "no_holes s ip" "fs_ok n s {} r" "i_type (icache s ! ip) \<noteq> T_DEV" "mem s = mm 0" "cr3 s = pd"
    and off: "off \<le> i_size (icache s ! ip)" "off \<le> off + cnt" and bs: "bs = take (unat cnt) (drop (unat off) (file_content s ip))"
  shows "returns (readi k ip (acc 0) off cnt s) (\<lambda>(v, d) t. v = int (length bs) \<and> d = acc (length bs) \<and> mem t = mm (length bs)
    \<and> fs_ok n t {} r \<and> only_mem s t)"
proof -
  let ?z = "i_size (icache s ! ip)"
  let ?n = "if off + cnt > ?z then ?z - off else cnt"
  have sum: "unat (off + cnt) = unat off + unat cnt" using off(2) by (simp add: unat_plus_simple)
  have z: "unat off \<le> unat ?z" "unat ?z \<le> MAXFILE * BSIZE" using off(1) s(2) by (simp_all add: word_le_nat_alt no_holes_def)
  have len: "length bs = min (unat ?z - unat off) (unat cnt)" using bs by simp
  have n: "unat ?n = length bs"
  proof (cases "off + cnt > ?z")
    case True
    then have "unat ?z < unat off + unat cnt" using sum by (simp add: word_less_nat_alt)
    then show ?thesis using True unat_sub [OF off(1)] len by simp
  next
    case False
    then have "unat off + unat cnt \<le> unat ?z" using sum by (simp add: word_less_nat_alt)
    then show ?thesis using False len by simp
  qed
  have le: "unat off + length bs \<le> unat ?z" using z len by simp
  have "sint ?n = int (length bs)"
  proof -
    have "length bs < 2 ^ 31" using le z by simp
    then show ?thesis using n sint_small [of ?n] by simp
  qed
  moreover have "returns (readi_loop k ip (acc 0) off ?n s) (\<lambda>d t. d = acc (length bs) \<and> mem t = mm (length bs) \<and> fs_ok n t {} r \<and> only_mem s t)"
  proof (rule readi_loop_content [OF s(1,3,5,6)])
    fix i assume "i < unat ?n"
    then have i: "i < length bs" using n by simp
    then have "bs ! i = file_content s ip ! (unat off + i)" using z(1) unfolding bs by simp
    also have "\<dots> = file_byte s ip (unat off + i)" using i le by (simp add: file_content_def)
    finally have "bs ! i = file_byte s ip (unat off + i)" .
    then show "file_addr s ip ((unat off + i) div BSIZE) \<noteq> 0 \<and> bs ! (0 + i) = file_byte s ip (unat off + i)"
      using s(2) i le by (simp add: no_holes_def)
  next
    show "0 + unat ?n = length bs" using n by simp
    show "unat off + unat ?n \<le> MAXFILE * BSIZE" unfolding n using le z(2) by linarith
  qed
  moreover have "readi k ip (acc 0) off cnt s = bnd (readi_loop k ip (acc 0) off ?n s) (\<lambda>d t. Ret (sint ?n, d) t)"
  proof -
    have "\<not> (off > ?z \<or> off + cnt < off)" using off by (simp add: not_less)
    then show ?thesis using s(4) unfolding readi_def Let_def by (simp only: if_False)
  qed
  ultimately show ?thesis by (auto simp only: returns_bnd returns_Ret split_conv elim!: returns_mono)
qed

end

section \<open>Writing\<close>

lemma nz_distinctD: "nz_distinct xs \<Longrightarrow> i < length xs \<Longrightarrow> j < length xs \<Longrightarrow> xs ! i = xs ! j \<Longrightarrow> xs ! i \<noteq> 0 \<Longrightarrow> i = j"
  unfolding nz_distinct_def by blast

text \<open>New content for a block of the file: the map stays.\<close>

lemma write_data:
  assumes t: "file_ok t ip" and bn: "bn < MAXFILE" "file_addr t ip bn \<noteq> 0"
    and u: "fs_rest t u" "lview u = (lview t)(file_addr t ip bn := d)" "length d = BSIZE"
  shows "file_ok u ip" "grows ip t u" "bm < MAXFILE \<Longrightarrow> file_addr u ip bm = file_addr t ip bm" "free_blocks u = free_blocks t" "icache u = icache t"
proof -
  let ?A = "file_addr t ip bn"
  have iu: "in_use t ?A" using file_in_use(1) [OF t bn] .
  show ic: "icache u = icache t" using fs_rest_sel(3) [OF u(1)] .
  have sb: "sb u = sb t" "\<And>x. data_block u x = data_block t x" using fs_rest_sel(2) [OF u(1)] fs_rest_data_block [OF u(1)] by simp_all
  have bm: "free_blocks u = free_blocks t" "bmap_ok u = bmap_ok t"
    using free_other [OF u(1,2)] iu by (simp_all add: in_use_def)
  then show "free_blocks u = free_blocks t" by simp
  have "?A \<noteq> ind_addr t ip"
  proof
    assume "?A = ind_addr t ip"
    then have "blks t ip ! bn = blks t ip ! MAXFILE" using bn by (simp add: nth_blks)
    moreover have "nz_distinct (blks t ip)" using t by (simp add: file_ok_def)
    ultimately have "bn = MAXFILE" using bn by (intro nz_distinctD [of "blks t ip"]) (simp_all add: nth_blks)
    then show False using bn(1) by simp
  qed
  then have i: "ind_addr u ip = ind_addr t ip" "lview u (ind_addr t ip) = lview t (ind_addr t ip)"
    using u(2) by (simp_all add: ind_addr_def ic)
  then have f: "file_addr u ip = file_addr t ip" by (simp add: file_addr_def fun_eq_iff ic)
  then show "bm < MAXFILE \<Longrightarrow> file_addr u ip bm = file_addr t ip bm" by simp
  have b: "blks u ip = blks t ip" using f i by (simp add: blks_def)
  then have o: "owned u ip = owned t ip" by (simp add: owned_def)
  have "in_use u x = in_use t x" for x using u(2,3) iu sb bm(1) by (simp add: in_use_def)
  then show "file_ok u ip" using t b o bm(2) sb unfolding file_ok_def by (simp add: ic bm(1))
  have "lview u x = lview t x" if "x \<notin> owned t ip" for x using that u(2) owned_file [OF bn] by auto
  then show "grows ip t u" using u(1) b bm(1) unfolding grows_def by (simp add: ic)
qed

text \<open>The number of blocks a transfer touches.\<close>

definition pieces :: "nat \<Rightarrow> nat \<Rightarrow> nat" where
  "pieces off l = (if l = 0 then 0 else (off mod BSIZE + l + 511) div BSIZE)"

lemma pieces_step:
  assumes "l \<noteq> 0" "m = min l (BSIZE - off mod BSIZE)"
  shows "pieces off l = Suc (pieces (off + m) (l - m))"
proof (cases "l \<le> BSIZE - off mod BSIZE")
  case True
  then have "(off mod BSIZE + l + 511) div BSIZE = 1" using assms(1) by (intro div_nat_eqI) simp_all
  then show ?thesis using True assms by (simp add: pieces_def)
next
  case False
  then have m: "m = BSIZE - off mod BSIZE" "m < l" using assms(2) by simp_all
  have e: "off + m = BSIZE * Suc (off div BSIZE)" 
  proof -
    have "off mod BSIZE < BSIZE" by simp
    then show ?thesis using m(1) div_mult_mod_eq [of off BSIZE] unfolding mult_Suc_right by linarith
  qed
  have "off mod BSIZE + l + 511 = (l - m + 511) + BSIZE" using m by simp
  then have "(off mod BSIZE + l + 511) div BSIZE = Suc ((l - m + 511) div BSIZE)" by simp
  moreover have "(off + m) mod BSIZE = 0" unfolding e by simp
  moreover have "l - m \<noteq> 0" using m by simp
  ultimately show ?thesis using assms(1) by (simp only: pieces_def if_False add_0)
qed

text \<open>New bytes within a block.\<close>

lemma put_block:
  assumes "length d = BSIZE" "o1 + length bs \<le> BSIZE"
  shows "length (take o1 d @ bs @ drop (o1 + length bs) d) = BSIZE"
    "j < BSIZE \<Longrightarrow> (take o1 d @ bs @ drop (o1 + length bs) d) ! j = (if o1 \<le> j \<and> j < o1 + length bs then bs ! (j - o1) else d ! j)"
  using assms by (auto simp: nth_append)

text \<open>The bytes of blocks that were in the map survive its growth.\<close>

lemma mapped_byte:
  assumes "mapped n ip k c s t" "file_ok s ip" "p div BSIZE < MAXFILE" "file_addr s ip (p div BSIZE) \<noteq> 0"
  shows "file_addr t ip (p div BSIZE) = file_addr s ip (p div BSIZE)" "file_byte t ip p = file_byte s ip p"
proof -
  let ?A = "file_addr s ip (p div BSIZE)"
  show f: "file_addr t ip (p div BSIZE) = ?A" using assms(1,3,4) grows_sel(11) [of ip s t] by (auto simp: mapped_def grown_def)
  have iu: "in_use s ?A" using file_in_use(1) [OF assms(2-4)] .
  have "?A \<noteq> ind_addr s ip"
  proof
    assume "?A = ind_addr s ip"
    moreover have "nz_distinct (blks s ip)" using assms(2) by (simp add: file_ok_def)
    ultimately have "p div BSIZE = MAXFILE" using assms(3,4) by (intro nz_distinctD [of "blks s ip"]) (simp_all add: nth_blks)
    then show False using assms(3) by simp
  qed
  then have "lview t ?A = lview s ?A" using assms(1) iu by (auto simp: mapped_def keeps_data_def in_use_def)
  then show "file_byte t ip p = file_byte s ip p" using f by (simp add: file_byte_def)
qed

lemma write_bytes:
  assumes t: "file_ok t ip" and b: "off div BSIZE < MAXFILE" "file_addr t ip (off div BSIZE) \<noteq> 0" and m: "length bs \<le> BSIZE - off mod BSIZE"
    and d: "d = take (off mod BSIZE) (lview t (file_addr t ip (off div BSIZE))) @ bs @ drop (off mod BSIZE + length bs) (lview t (file_addr t ip (off div BSIZE)))"
    and u: "fs_rest t u" "lview u = (lview t)(file_addr t ip (off div BSIZE) := d)"
  shows "length d = BSIZE" "i < length bs \<Longrightarrow> file_byte u ip (off + i) = bs ! i"
    "p div BSIZE < MAXFILE \<Longrightarrow> file_addr t ip (p div BSIZE) \<noteq> 0 \<Longrightarrow> p < off \<or> off + length bs \<le> p \<Longrightarrow> file_byte u ip p = file_byte t ip p"
proof -
  let ?A = "file_addr t ip (off div BSIZE)"
  have len: "length (lview t ?A) = BSIZE" using file_in_use(1) [OF t b] by (simp add: in_use_def)
  have m': "off mod BSIZE + length bs \<le> BSIZE" using m by simp
  show ld: "length d = BSIZE" unfolding d using put_block(1) [OF len m'] .
  have nth: "d ! j = (if off mod BSIZE \<le> j \<and> j < off mod BSIZE + length bs then bs ! (j - off mod BSIZE) else lview t ?A ! j)" if "j < BSIZE" for j
    unfolding d using put_block(2) [OF len m' that] .
  have fa: "file_addr u ip q = file_addr t ip q" if "q < MAXFILE" for q using write_data(3) [OF t b u ld that] .
  show "file_byte u ip (off + i) = bs ! i" if "i < length bs"
    using that m in_one_block [of i off] fa [OF b(1)] nth [of "off mod BSIZE + i"] u(2) by (simp add: file_byte_def)
  assume p: "p div BSIZE < MAXFILE" "file_addr t ip (p div BSIZE) \<noteq> 0" "p < off \<or> off + length bs \<le> p"
  show "file_byte u ip p = file_byte t ip p"
  proof (cases "p div BSIZE = off div BSIZE")
    case True
    have "\<not> (off mod BSIZE \<le> p mod BSIZE \<and> p mod BSIZE < off mod BSIZE + length bs)"
      using p(3) True div_mult_mod_eq [of p BSIZE] div_mult_mod_eq [of off BSIZE] by linarith
    then have "d ! (p mod BSIZE) = lview t ?A ! (p mod BSIZE)" using nth [of "p mod BSIZE"] by (simp only: if_False)
    then show ?thesis using True fa [OF b(1)] u(2) by (simp add: file_byte_def)
  next
    case False
    have "nz_distinct (blks t ip)" using t by (simp add: file_ok_def)
    then have "file_addr t ip (p div BSIZE) \<noteq> ?A"
      using False p(1,2) b nz_distinctD [of "blks t ip" "p div BSIZE" "off div BSIZE"] by (auto simp: nth_blks)
    then show ?thesis using fa [OF p(1)] u(2) by (simp add: file_byte_def)
  qed
qed

text \<open>What a transfer leaves: the new bytes in the range, the old ones outside.\<close>

definition wrote :: "nat \<Rightarrow> nat \<Rightarrow> u8 list \<Rightarrow> kstate \<Rightarrow> kstate \<Rightarrow> bool" where
  "wrote ip off bs s t \<longleftrightarrow> (\<forall>i<length bs. file_addr t ip ((off + i) div BSIZE) \<noteq> 0 \<and> file_byte t ip (off + i) = bs ! i)
     \<and> (\<forall>p. p div BSIZE < MAXFILE \<longrightarrow> file_addr s ip (p div BSIZE) \<noteq> 0 \<longrightarrow> p < off \<or> off + length bs \<le> p \<longrightarrow>
          file_byte t ip p = file_byte s ip p)
     \<and> ((\<forall>i<length bs. file_addr s ip ((off + i) div BSIZE) \<noteq> 0) \<longrightarrow> icache t = icache s)"

text \<open>One round of the loop: the block is found or made, filled, logged and given back.\<close>

lemma write_piece:
  assumes s: "file_ok s ip" "fs_ok n s {} (r + 6)" "c + 2 \<le> card (free_blocks s)"
    and left: "left \<noteq> 0" "unat off + unat left \<le> MAXFILE * BSIZE" and bs: "length bs = unat (chunk left off)"
  obtains a t bp u w where "bmap ip (off div of_nat BSIZE) s = Ret a t" "i_dev (icache t ! ip) = 1" "bread 1 a t = Ret bp u" "mem u = mem s" "cr3 u = cr3 s"
    "bnd (log_write bp (set_data bp (take (unat (off mod of_nat BSIZE)) (b_data (bcache u ! bp)) @ bs
        @ drop (unat (off mod of_nat BSIZE) + unat (chunk left off)) (b_data (bcache u ! bp))) u)) (\<lambda>_ s. brelse bp s) = Ret () w"
    "grown n ip r c s w" "wrote ip (unat off) bs s w"
proof -
  let ?b = "off div of_nat BSIZE" and ?bn = "unat off div BSIZE"
  note ch = chunk_step [OF left]
  have "fs_ok n s {} (Suc r + 5)" using s(2) by (simp add: eval_nat_numeral)
  then obtain a t where t: "bmap ip ?b s = Ret a t" "a = file_addr t ip ?bn" "a \<noteq> 0" "mapped n ip (Suc r) c s t" "file_addr s ip ?bn \<noteq> 0 \<longrightarrow> icache t = icache s"
    using bmap_grows [OF s(1) _ s(3), of n "Suc r" ?b] ch(6,7) by (auto elim!: returnsE)
  have g: "file_ok t ip" "grows ip s t" "fs_ok n t {} (Suc r)" "c \<le> card (free_blocks t)" using t(4) by (simp_all add: mapped_def grown_def)
  have b: "?bn < MAXFILE" "file_addr t ip ?bn \<noteq> 0" using ch(7) t(2,3) by simp_all
  have iu: "in_use t a" using file_in_use(1) [OF g(1) b] t(2) by simp
  then have db: "data_block t a" by (simp add: in_use_def)
  obtain bp u where u: "bread 1 a t = Ret bp u" "fs_ok n u {bp} (Suc r)" "b_blockno (bcache u ! bp) = a" "lview u = lview t" "fs_rest t u"
    using fs_bread [OF g(3) _ _ db] by (auto elim!: returnsE)
  have bd: "b_data (bcache u ! bp) = lview t a" using bt.held_view [OF u(2), of bp] u(3,4) by simp
  let ?d = "take (unat (off mod of_nat BSIZE)) (b_data (bcache u ! bp)) @ bs @ drop (unat (off mod of_nat BSIZE) + unat (chunk left off)) (b_data (bcache u ! bp))"
  have d: "?d = take (unat off mod BSIZE) (lview t (file_addr t ip ?bn)) @ bs @ drop (unat off mod BSIZE + length bs) (lview t (file_addr t ip ?bn))"
    using ch(8) bs bd t(2) by simp
  have "data_block u a" using db fs_rest_data_block [OF u(5)] by simp
  then obtain w where w: "bnd (log_write bp (set_data bp ?d u)) (\<lambda>_ s. brelse bp s) = Ret () w" "bt.post n u {} r ((lview u)(a := ?d)) w"
    using bt.log_and_give_back [of n u bp "{}" r ?d] u(2,3) by (auto elim!: returnsE)
  note q = bt.postD [OF w(2)]
  have rw: "fs_rest t w" "lview w = (lview t)(file_addr t ip ?bn := ?d)" using fs_rest_trans [OF u(5) q(4)] q(2) u(4) t(2) by simp_all
  have m: "length bs \<le> BSIZE - unat off mod BSIZE" using bs ch(1) by simp
  note wb = write_bytes [OF g(1) b m d rw]
  note wd = write_data [OF g(1) b rw wb(1)]
  have "grown n ip r c s w" using wd(1,2,4) grows_trans [OF g(2) wd(2)] q(1) g(4) by (simp add: grown_def)
  moreover have old: "file_byte w ip p = file_byte s ip p"
    if "p div BSIZE < MAXFILE" "file_addr s ip (p div BSIZE) \<noteq> 0" "p < unat off \<or> unat off + length bs \<le> p" for p
    using mapped_byte [OF t(4) s(1) that(1,2)] wb(3) [OF that(1) _ that(3)] that(2) by simp
  moreover have "i_dev (icache t ! ip) = 1" using g(1) by (simp add: file_ok_def)
  moreover have "mem u = mem s" "cr3 u = cr3 s" using fs_rest_sel(5,6) [OF u(5)] grows_sel(3,4) [OF g(2)] by simp_all
  moreover have "(unat off + i) div BSIZE = ?bn" if "i < length bs" for i using in_one_block [of i "unat off"] that m by simp
  then have "wrote ip (unat off) bs s w" unfolding wrote_def using wd(3) [OF b(1)] b(2) wb(2) wd(5) t(5) old bs ch(2) by auto
  ultimately show thesis using that [OF t(1) _ u(1) _ _ w(1)] by simp
qed

lemma wrote_append:
  assumes w: "wrote ip off xs s w" "wrote ip (off + length xs) ys w t" and g: "grows ip s w" "grows ip w t"
    and le: "off + length xs + length ys \<le> MAXFILE * BSIZE"
  shows "wrote ip off (xs @ ys) s t"
proof -
  have lt: "(off + i) div BSIZE < MAXFILE" if "i < length xs + length ys" for i
    using that le by (intro less_mult_imp_div_less) simp
  have 1: "file_addr t ip ((off + i) div BSIZE) \<noteq> 0 \<and> file_byte t ip (off + i) = (xs @ ys) ! i" if i: "i < length (xs @ ys)" for i
  proof (cases "i < length xs")
    case True
    then have a: "file_addr w ip ((off + i) div BSIZE) \<noteq> 0" "file_byte w ip (off + i) = xs ! i" using w(1) by (auto simp: wrote_def)
    have l: "(off + i) div BSIZE < MAXFILE" using lt i by simp
    have "file_byte t ip (off + i) = file_byte w ip (off + i)" using w(2) a(1) l True unfolding wrote_def by auto
    then show ?thesis using True a grows_sel(11) [OF g(2) l a(1)] by (simp add: nth_append)
  next
    case False
    then have "i - length xs < length ys" "off + length xs + (i - length xs) = off + i" using i by auto
    then show ?thesis using False w(2) unfolding wrote_def by (metis nth_append)
  qed
  have 2: "file_byte t ip p = file_byte s ip p"
    if p: "p div BSIZE < MAXFILE" "file_addr s ip (p div BSIZE) \<noteq> 0" "p < off \<or> off + length (xs @ ys) \<le> p" for p
  proof -
    have "file_byte w ip p = file_byte s ip p" using w(1) p unfolding wrote_def by auto
    moreover have "file_byte t ip p = file_byte w ip p" using w(2) p grows_sel(11) [OF g(1) p(1,2)] unfolding wrote_def by auto
    ultimately show ?thesis by simp
  qed
  have 3: "icache t = icache s" if all: "\<forall>i<length (xs @ ys). file_addr s ip ((off + i) div BSIZE) \<noteq> 0"
  proof -
    have "icache w = icache s" using w(1) all unfolding wrote_def by simp
    moreover have "file_addr w ip ((off + length xs + i) div BSIZE) \<noteq> 0" if "i < length ys" for i
      using all [rule_format, of "length xs + i"] that grows_sel(11) [OF g(1) lt [of "length xs + i"]] by (simp add: add.assoc)
    then have "icache t = icache w" using w(2) unfolding wrote_def by simp
    ultimately show ?thesis by simp
  qed
  show ?thesis unfolding wrote_def using 1 2 3 by blast
qed

text \<open>The content after a transfer.\<close>

definition put_at :: "u8 list \<Rightarrow> nat \<Rightarrow> u8 list \<Rightarrow> u8 list" where
  "put_at c off bs = take off c @ bs @ drop (off + length bs) c"

lemma content_put_at:
  assumes "off \<le> unat (i_size (icache s ! ip))" "unat (i_size (icache t ! ip)) = max (unat (i_size (icache s ! ip))) (off + length bs)"
    "\<And>p. p < unat (i_size (icache t ! ip)) \<Longrightarrow> file_byte t ip p = (if off \<le> p \<and> p < off + length bs then bs ! (p - off) else file_byte s ip p)"
  shows "file_content t ip = put_at (file_content s ip) off bs"
proof (rule nth_equalityI)
  let ?z = "unat (i_size (icache s ! ip))"
  show len: "length (file_content t ip) = length (put_at (file_content s ip) off bs)" using assms(1,2) by (simp add: put_at_def)
  fix p assume "p < length (file_content t ip)"
  then have p: "p < unat (i_size (icache t ! ip))" by simp
  then have t: "file_content t ip ! p = (if off \<le> p \<and> p < off + length bs then bs ! (p - off) else file_byte s ip p)"
    using assms(3) by (simp add: file_content_def)
  have old: "file_content s ip ! q = file_byte s ip q" if "q < ?z" for q using that by (simp add: file_content_def)
  consider "p < off" | "off \<le> p" "p < off + length bs" | "off + length bs \<le> p" "p < ?z" using p assms(2) by linarith
  then show "file_content t ip ! p = put_at (file_content s ip) off bs ! p"
  proof cases
    case 1
    then show ?thesis using t old assms(1) by (simp add: put_at_def nth_append)
  next
    case 2
    then have "p - off < length bs" by simp
    with 2 show ?thesis using t assms(1) by (simp add: put_at_def nth_append)
  next
    case 3
    then have "\<not> p - off < length bs" by simp
    with 3 show ?thesis using t old [of p] assms(1) by (simp add: put_at_def nth_append)
  qed
qed

text \<open>A new size for the cached inode, and a new entry in the table: the blocks of the file stay.\<close>

lemma resize:
  assumes w: "file_ok w ip" and u: "fs_rest (upd_inode ip (\<lambda>x. x\<lparr>i_size := z\<rparr>) w) u" "\<forall>x. x \<noteq> itable w ip \<longrightarrow> lview u x = lview w x"
      "length (lview u (itable w ip)) = BSIZE"
  shows "file_ok u ip" "bn < MAXFILE \<Longrightarrow> file_addr u ip bn = file_addr w ip bn"
    "bn < MAXFILE \<Longrightarrow> file_addr w ip bn \<noteq> 0 \<Longrightarrow> lview u (file_addr w ip bn) = lview w (file_addr w ip bn)" "free_blocks u = free_blocks w"
proof -
  let ?v = "upd_inode ip (\<lambda>x. x\<lparr>i_size := z\<rparr>) w" and ?I = "itable w ip"
  have ip: "ip < length (icache w)" "?I \<notin> owned w ip" "in_use w ?I" using w by (simp_all add: file_ok_def)
  have ic: "icache u = (icache w)[ip := (icache w ! ip)\<lparr>i_size := z\<rparr>]" using fs_rest_sel(3) [OF u(1)] by simp
  have sb: "sb u = sb w" "\<And>x. data_block u x = data_block w x" using fs_rest_sel(2) [OF u(1)] fs_rest_data_block [OF u(1)] by simp_all
  have lv: "lview u = (lview ?v)(?I := lview u ?I)" using u(2) by auto
  have bm: "free_blocks u = free_blocks w" "bmap_ok u = bmap_ok w" using free_other [OF u(1) lv] ip(3) by (simp_all add: in_use_def)
  then show "free_blocks u = free_blocks w" by simp
  have i: "ind_addr u ip = ind_addr w ip" using ip(1) by (simp add: ind_addr_def ic)
  have li: "lview u (ind_addr w ip) = lview w (ind_addr w ip)" if "ind_addr w ip \<noteq> 0" using owned_ind [OF that] ip(2) u(2) by metis
  have f: "file_addr u ip = file_addr w ip" using i li ip(1) by (auto simp: file_addr_def fun_eq_iff ic)
  then show "bn < MAXFILE \<Longrightarrow> file_addr u ip bn = file_addr w ip bn" by simp
  have b: "blks u ip = blks w ip" using f i by (simp add: blks_def)
  then have o: "owned u ip = owned w ip" by (simp add: owned_def)
  have iu: "in_use u x = in_use w x" for x using u(2,3) ip(3) sb bm(1) by (cases "x = ?I") (simp_all add: in_use_def)
  have it: "itable u ip = ?I" using ip(1) sb by (simp add: ic)
  show "file_ok u ip" using w b o bm(2) iu it unfolding file_ok_def by (simp add: ic bm(1))
  show "bn < MAXFILE \<Longrightarrow> file_addr w ip bn \<noteq> 0 \<Longrightarrow> lview u (file_addr w ip bn) = lview w (file_addr w ip bn)"
    using owned_file ip(2) u(2) by metis
qed

text \<open>What a write leaves of everything else: other cached inodes, other entries of the table, blocks of other files.\<close>

definition others_kept :: "nat \<Rightarrow> kstate \<Rightarrow> kstate \<Rightarrow> bool" where
  "others_kept ip s t \<longleftrightarrow> (\<forall>j. j \<noteq> ip \<longrightarrow> icache t ! j = icache s ! j)
     \<and> (\<forall>i. i \<noteq> i_inum (icache s ! ip) \<longrightarrow> IBLOCK i (sb s) = itable s ip \<longrightarrow> dinodes t i = dinodes s i)
     \<and> (\<forall>x. x \<notin> free_blocks s \<longrightarrow> \<not> bm_block (sb s) x \<longrightarrow> x \<notin> owned s ip \<longrightarrow> x \<noteq> itable s ip \<longrightarrow> lview t x = lview s x)"

lemma grows_table:
  assumes "grows ip s w" "file_ok s ip"
  shows "itable w ip = itable s ip" "lview w (itable s ip) = lview s (itable s ip)" "IBLOCK i (sb s) = itable s ip \<Longrightarrow> dinodes w i = dinodes s i"
    "others_kept ip s w"
proof -
  have iu: "in_use s (itable s ip)" "itable s ip \<notin> owned s ip" using assms(2) by (simp_all add: file_ok_def)
  show "itable w ip = itable s ip" using grows_sel(1,7) [OF assms(1)] by simp
  show l: "lview w (itable s ip) = lview s (itable s ip)" using assms(1) iu unfolding grows_def in_use_def by blast
  show d: "dinodes w i = dinodes s i" if "IBLOCK i (sb s) = itable s ip" for i
    unfolding dinodes_def grows_sel(1) [OF assms(1)] that l ..
  show "others_kept ip s w" unfolding others_kept_def using assms(1) d grows_sel(6) [OF assms(1)] unfolding grows_def by auto
qed

text \<open>The end of a write that makes the file longer: the new size goes into the cached inode and into the table.\<close>

lemma iupdate_size:
  assumes g: "grown n ip (Suc 0) c s w" and s: "file_ok s ip" "dinode_wf (dinode_of (icache s ! ip))"
  shows "returns (iupdate ip (upd_inode ip (\<lambda>x. x\<lparr>i_size := z\<rparr>) w)) (\<lambda>_ u. fs_ok n u {} 0 \<and> file_ok u ip \<and> others_kept ip s u
    \<and> i_size (icache u ! ip) = z \<and> dinodes u (i_inum (icache s ! ip)) = dinode_of (icache u ! ip)
    \<and> (\<forall>bn<MAXFILE. file_addr u ip bn = file_addr w ip bn) \<and> (\<forall>p. p div BSIZE < MAXFILE \<longrightarrow> file_addr w ip (p div BSIZE) \<noteq> 0 \<longrightarrow> file_byte u ip p = file_byte w ip p))"
proof -
  let ?v = "upd_inode ip (\<lambda>x. x\<lparr>i_size := z\<rparr>) w" and ?i = "i_inum (icache s ! ip)"
  have w: "file_ok w ip" "grows ip s w" "fs_ok n w {} (Suc 0)" using g by (simp_all add: grown_def)
  obtain as where ic: "icache w = (icache s)[ip := (icache s ! ip)\<lparr>i_addrs := as\<rparr>]" using w(2) unfolding grows_def by blast
  have ip: "ip < length (icache s)" "ip < length (icache w)" "length (i_addrs (icache w ! ip)) = NDIRECT + 1" "i_dev (icache w ! ip) = 1"
    using s(1) w(1) by (simp_all add: file_ok_def)
  note gt = grows_table [OF w(2) s(1)]
  have iu: "in_use w (itable s ip)" using w(1) gt(1) by (simp add: file_ok_def)
  have vi: "icache ?v ! ip = (icache w ! ip)\<lparr>i_size := z\<rparr>" "i_inum (icache w ! ip) = ?i" using ip ic by simp_all
  have wf: "dinode_wf (dinode_of (icache ?v ! ip))" using s(2) ip vi ic by (auto simp: dinode_wf_def dinode_of_def)
  have dv: "dinodes ?v = dinodes w" by (simp add: dinodes_def fun_eq_iff)
  have "returns (iupdate ip ?v) (\<lambda>_ u. dinodes u = (dinodes ?v)(?i := dinode_of (icache ?v ! ip))
      \<and> (\<forall>x. x \<noteq> itable s ip \<longrightarrow> lview u x = lview ?v x) \<and> length (lview u (itable s ip)) = BSIZE \<and> fs_ok n u {} 0 \<and> fs_rest ?v u)"
    using iupdate_table [of n ?v 0 ip] fs_ok_upd_inode [OF w(3)] wf ip vi iu gt(1) grows_sel(1) [OF w(2)] by (simp add: in_use_def)
  then show ?thesis
  proof (rule returns_mono, elim conjE)
    fix u assume u: "dinodes u = (dinodes ?v)(?i := dinode_of (icache ?v ! ip))" "\<forall>x. x \<noteq> itable s ip \<longrightarrow> lview u x = lview ?v x"
      "length (lview u (itable s ip)) = BSIZE" "fs_ok n u {} 0" "fs_rest ?v u"
    have lv: "\<forall>x. x \<noteq> itable s ip \<longrightarrow> lview u x = lview w x" using u(2) by simp
    note rs = resize [OF w(1) u(5), unfolded gt(1), OF lv u(3)]
    have ui: "icache u = icache ?v" using fs_rest_sel(3) [OF u(5)] .
    have "others_kept ip s u" using gt(4) u(1) lv unfolding others_kept_def by (auto simp: ui dv)
    moreover have "file_byte u ip p = file_byte w ip p" if "p div BSIZE < MAXFILE" "file_addr w ip (p div BSIZE) \<noteq> 0" for p
      using rs(2) [OF that(1)] rs(3) [OF that] by (simp add: file_byte_def)
    ultimately show "fs_ok n u {} 0 \<and> file_ok u ip \<and> others_kept ip s u
      \<and> i_size (icache u ! ip) = z \<and> dinodes u ?i = dinode_of (icache u ! ip)
      \<and> (\<forall>bn<MAXFILE. file_addr u ip bn = file_addr w ip bn) \<and> (\<forall>p. p div BSIZE < MAXFILE \<longrightarrow> file_addr w ip (p div BSIZE) \<noteq> 0 \<longrightarrow> file_byte u ip p = file_byte w ip p)"
      using u(1,4) rs(1,2) ui vi ip(2) by auto
  qed
qed

context byte_source
begin

lemma writei_loop_content:
  assumes "file_ok s ip" "fs_ok n s {} (r + 6 * pieces (unat off) (unat left))" "c + 2 * pieces (unat off) (unat left) \<le> card (free_blocks s)"
    "mem s = mm" "cr3 s = pd" "j + unat left = length bs" "unat off + unat left \<le> MAXFILE * BSIZE"
  shows "returns (writei_loop k ip (acc j) off left s) (\<lambda>e t. e = off + left \<and> grown n ip r c s t \<and> wrote ip (unat off) (drop j bs) s t)"
  using assms
proof (induction "unat left" arbitrary: left off s j rule: less_induct)
  case less
  show ?case
  proof (cases "left = 0")
    case True
    then show ?thesis using less.prems grows_refl [of s s]
      by (simp add: writei_loop.simps [of k ip _ off 0] wrote_def grown_def pieces_def)
  next
    case False
    let ?m = "chunk left off"
    note ch = chunk_step [OF False less.prems(7)]
    let ?xs = "take (unat ?m) (drop j bs)"
    have pc: "pieces (unat off) (unat left) = Suc (pieces (unat (off + ?m)) (unat (left - ?m)))"
      using pieces_step [OF _ ch(1)] ch(2,3) by (simp only: ch(4,5))
    let ?q = "pieces (unat (off + ?m)) (unat (left - ?m))"
    have room: "fs_ok n s {} (r + 6 * ?q + 6)" "c + 2 * ?q + 2 \<le> card (free_blocks s)" using less.prems(2,3) unfolding pc
      by (simp_all only: mult_Suc_right) (simp_all add: ac_simps)
    have len: "length ?xs = unat ?m" using ch(3) less.prems(6) by simp
    obtain a t bp u w where w: "bmap ip (off div of_nat BSIZE) s = Ret a t" "i_dev (icache t ! ip) = 1" "bread 1 a t = Ret bp u" "mem u = mem s" "cr3 u = cr3 s"
      "bnd (log_write bp (set_data bp (take (unat (off mod of_nat BSIZE)) (b_data (bcache u ! bp)) @ ?xs
        @ drop (unat (off mod of_nat BSIZE) + unat ?m) (b_data (bcache u ! bp))) u)) (\<lambda>_ s. brelse bp s) = Ret () w"
      "grown n ip (r + 6 * ?q) (c + 2 * ?q) s w" "wrote ip (unat off) ?xs s w"
      by (rule write_piece [OF less.prems(1) room False less.prems(7) len])
    have g: "file_ok w ip" "grows ip s w" "fs_ok n w {} (r + 6 * ?q)" "c + 2 * ?q \<le> card (free_blocks w)" using w(7) by (simp_all add: grown_def)
    have "returns (writei_loop k ip (acc (j + unat ?m)) (off + ?m) (left - ?m) w)
        (\<lambda>e t. e = off + ?m + (left - ?m) \<and> grown n ip r c w t \<and> wrote ip (unat (off + ?m)) (drop (j + unat ?m) bs) w t)"
    proof (rule less.hyps)
      show "unat (left - ?m) < unat left" using ch(2-4) by simp
      show "mem w = mm" "cr3 w = pd" using less.prems(4,5) grows_sel(3,4) [OF g(2)] by simp_all
    qed (use less.prems(6,7) g ch(3-5) in simp_all)
    then have "returns (writei_loop k ip (acc (j + unat ?m)) (off + ?m) (left - ?m) w)
        (\<lambda>e t. e = off + left \<and> grown n ip r c s t \<and> wrote ip (unat off) (drop j bs) s t)"
    proof (rule returns_mono, elim conjE)
      fix e t assume t: "e = off + ?m + (left - ?m)" "grown n ip r c w t" "wrote ip (unat (off + ?m)) (drop (j + unat ?m) bs) w t"
      have "drop j bs = ?xs @ drop (j + unat ?m) bs" by (metis add.commute append_take_drop_id drop_drop)
      moreover have "wrote ip (unat off) (?xs @ drop (j + unat ?m) bs) s t"
        using w(8) t(2,3) g(2) ch(3,5) len less.prems(6,7) by (intro wrote_append [of _ _ _ _ w]) (simp_all add: grown_def)
      ultimately show "e = off + left \<and> grown n ip r c s t \<and> wrote ip (unat off) (drop j bs) s t" using t(1) grown_trans [OF w(7) t(2)] by simp
    qed
    moreover have "src_get k (acc j) (unat ?m) u = Ret (?xs, acc (j + unat ?m)) u"
      using get [of j "unat ?m" u] w(4,5) less.prems(4-6) ch(3) by simp
    moreover obtain v where "log_write bp (set_data bp (take (unat (off mod of_nat BSIZE)) (b_data (bcache u ! bp)) @ ?xs
        @ drop (unat (off mod of_nat BSIZE) + unat ?m) (b_data (bcache u ! bp))) u) = Ret () v" "brelse bp v = Ret () w"
      using w(6) by (auto simp: bnd_Ret_iff)
    ultimately show ?thesis using False w(1-3) by (simp add: writei_loop.simps [of k ip "acc j" off left] Let_def)
  qed
qed

lemma writei_loop_whole:
  assumes s: "file_ok s ip" "no_holes s ip" "fs_ok n s {} (Suc (6 * pieces (unat off) (length bs)))" "2 * pieces (unat off) (length bs) \<le> card (free_blocks s)"
      "mem s = mm" "cr3 s = pd" and off: "off \<le> i_size (icache s ! ip)" "unat off + length bs \<le> MAXFILE * BSIZE" "unat cnt = length bs"
  shows "returns (writei_loop k ip (acc 0) off cnt s) (\<lambda>e w. unat e = unat off + length bs \<and> grown n ip (Suc 0) 0 s w \<and> wrote ip (unat off) bs s w
    \<and> (unat off + length bs \<le> unat (i_size (icache s ! ip)) \<longrightarrow> icache w = icache s)
    \<and> (\<forall>p<max (unat (i_size (icache s ! ip))) (unat off + length bs). file_addr w ip (p div BSIZE) \<noteq> 0
         \<and> file_byte w ip p = (if unat off \<le> p \<and> p < unat off + length bs then bs ! (p - unat off) else file_byte s ip p)))"
proof -
  let ?z = "unat (i_size (icache s ! ip))"
  have "returns (writei_loop k ip (acc 0) off cnt s) (\<lambda>e w. e = off + cnt \<and> grown n ip (Suc 0) 0 s w \<and> wrote ip (unat off) bs s w)"
    using writei_loop_content [of s ip n "Suc 0" off cnt 0 0] s off by simp
  then show ?thesis
  proof (rule returns_mono, elim conjE)
    fix e w assume w: "grown n ip (Suc 0) 0 s w" "wrote ip (unat off) bs s w" "e = off + cnt"
    have g: "grows ip s w" using w(1) by (simp add: grown_def)
    have z: "unat off \<le> ?z" "?z \<le> MAXFILE * BSIZE" "\<And>p. p < ?z \<Longrightarrow> file_addr s ip (p div BSIZE) \<noteq> 0"
      using off(1) s(2) by (simp_all add: word_le_nat_alt no_holes_def)
    have "unat off + unat cnt < 2 ^ 32" using off(2,3) by simp
    then have e: "unat e = unat off + length bs" using w(3) off(3) by (simp add: unat_word_ariths)
    have bytes: "file_addr w ip (p div BSIZE) \<noteq> 0 \<and> file_byte w ip p = (if unat off \<le> p \<and> p < unat off + length bs then bs ! (p - unat off) else file_byte s ip p)"
      if p: "p < max ?z (unat off + length bs)" for p
    proof (cases "unat off \<le> p \<and> p < unat off + length bs")
      case True
      then have "p - unat off < length bs" "unat off + (p - unat off) = p" by auto
      then show ?thesis using True w(2) unfolding wrote_def by (metis (no_types, lifting))
    next
      case False
      then have "p < ?z" "p < unat off \<or> unat off + length bs \<le> p" using p z(1) by auto
      moreover have "p div BSIZE < MAXFILE" using \<open>p < ?z\<close> z(2) by (intro less_mult_imp_div_less) simp
      ultimately show ?thesis using False w(2) z(3) grows_sel(11) [OF g] unfolding wrote_def by auto
    qed
    have "icache w = icache s" if "unat off + length bs \<le> ?z"
      using w(2) that z(3) unfolding wrote_def by auto
    with w(1,2) e bytes show "unat e = unat off + length bs \<and> grown n ip (Suc 0) 0 s w \<and> wrote ip (unat off) bs s w
      \<and> (unat off + length bs \<le> ?z \<longrightarrow> icache w = icache s)
      \<and> (\<forall>p<max ?z (unat off + length bs). file_addr w ip (p div BSIZE) \<noteq> 0
           \<and> file_byte w ip p = (if unat off \<le> p \<and> p < unat off + length bs then bs ! (p - unat off) else file_byte s ip p))" by blast
  qed
qed

lemma writei_content:
  assumes s: "file_ok s ip" "no_holes s ip" "fs_ok n s {} (Suc (6 * pieces (unat off) (length bs)))" "2 * pieces (unat off) (length bs) \<le> card (free_blocks s)"
      "mem s = mm" "cr3 s = pd" "i_type (icache s ! ip) \<noteq> T_DEV" "dinode_wf (dinode_of (icache s ! ip))"
    and off: "off \<le> i_size (icache s ! ip)" "unat off + length bs \<le> MAXFILE * BSIZE" "unat cnt = length bs"
  shows "returns (writei k ip (acc 0) off cnt s) (\<lambda>v t. v = int (length bs) \<and> file_content t ip = put_at (file_content s ip) (unat off) bs
    \<and> file_ok t ip \<and> no_holes t ip \<and> fs_ok n t {} 0 \<and> others_kept ip s t
    \<and> (dinodes s (i_inum (icache s ! ip)) = dinode_of (icache s ! ip) \<longrightarrow> dinodes t (i_inum (icache s ! ip)) = dinode_of (icache t ! ip)))"
    (is "returns _ ?Q")
proof -
  let ?z = "unat (i_size (icache s ! ip))" and ?e = "unat off + length bs" and ?i = "i_inum (icache s ! ip)"
  have sum: "unat (off + cnt) = ?e" using off(2,3) by (simp add: unat_word_ariths)
  have guard: "\<not> (off > i_size (icache s ! ip) \<or> off + cnt < off)" "\<not> off + cnt > of_nat (MAXFILE * BSIZE)"
    using off sum by (simp_all add: word_less_nat_alt word_le_nat_alt)
  have sint: "sint cnt = int (length bs)" using sint_small [of cnt] off by simp
  have z: "unat off \<le> ?z" "?z \<le> MAXFILE * BSIZE" using off(1) s(2) by (simp_all add: word_le_nat_alt no_holes_def)
  obtain e w where w: "writei_loop k ip (acc 0) off cnt s = Ret e w" "unat e = ?e" "grown n ip (Suc 0) 0 s w"
      "?e \<le> ?z \<longrightarrow> icache w = icache s"
      "\<And>p. p < max ?z ?e \<Longrightarrow> file_addr w ip (p div BSIZE) \<noteq> 0
         \<and> file_byte w ip p = (if unat off \<le> p \<and> p < ?e then bs ! (p - unat off) else file_byte s ip p)"
    using writei_loop_whole [OF s(1-6) off] by (elim returnsE) blast
  have g: "grows ip s w" "fs_ok n w {} (Suc 0)" "file_ok w ip" using w(3) by (simp_all add: grown_def)
  note gt = grows_table [OF g(1) s(1)]
  have wz: "i_size (icache w ! ip) = i_size (icache s ! ip)" using grows_sel(9) [OF g(1)] .
  have eq: "writei k ip (acc 0) off cnt s = bnd (if cnt > 0 \<and> e > i_size (icache w ! ip) then iupdate ip (upd_inode ip (\<lambda>x. x\<lparr>i_size := e\<rparr>) w) else Ret () w)
      (\<lambda>_ t. Ret (sint cnt) t)"
    using s(7) guard w(1) by (simp add: writei_def)
  have lt: "p div BSIZE < MAXFILE" if "p < max ?z ?e" for p using that z(2) off(2) by (intro less_mult_imp_div_less) simp
  show ?thesis
  proof (cases "cnt > 0 \<and> e > i_size (icache w ! ip)")
    case True
    then have big: "?z < ?e" using w(2) wz by (simp add: word_less_nat_alt)
    have "?Q (int (length bs)) u" if u: "fs_ok n u {} 0" "file_ok u ip" "others_kept ip s u" "i_size (icache u ! ip) = e"
      "dinodes u ?i = dinode_of (icache u ! ip)" "\<forall>bn<MAXFILE. file_addr u ip bn = file_addr w ip bn"
      "\<forall>p. p div BSIZE < MAXFILE \<longrightarrow> file_addr w ip (p div BSIZE) \<noteq> 0 \<longrightarrow> file_byte u ip p = file_byte w ip p" for u
    proof -
      have "file_content u ip = put_at (file_content s ip) (unat off) bs"
        using u(4,7) w(2,5) z(1) big lt by (intro content_put_at) auto
      moreover have "no_holes u ip" using u(4,6) w(2,5) off(2) big lt by (auto simp: no_holes_def)
      ultimately show ?thesis using u by blast
    qed
    then show ?thesis using iupdate_size [OF w(3) s(1,8), of e] True by (auto simp: eq returns_bnd sint elim!: returns_mono)
  next
    case False
    then have small: "?e \<le> ?z" using w(2) wz off z(1) by (auto simp: word_less_nat_alt)
    have "file_content w ip = put_at (file_content s ip) (unat off) bs"
      using w(5) z(1) small wz by (intro content_put_at) (simp_all add: max_absorb1)
    moreover have "no_holes w ip" using w(5) z small wz by (auto simp: no_holes_def)
    moreover have "dinodes w ?i = dinodes s ?i" using gt(3) by simp
    ultimately have "?Q (int (length bs)) w" using g(3) gt(4) bt.less_room [OF g(2), of 0] w(4) small by simp
    then show ?thesis using False by (auto simp: eq sint)
  qed
qed

end

section \<open>A file\<close>

text \<open>The file of the small file system: 700 bytes in blocks 60 and 61.\<close>

lemma demo_addr: "ind_addr demo_files 0 = 0" "bn < MAXFILE \<Longrightarrow> file_addr demo_files 0 bn = (if bn = 0 then 60 else if bn = 1 then 61 else 0)"
proof -
  show i: "ind_addr demo_files 0 = 0" by (simp add: ind_addr_def demo_inode_def)
  have "i_addrs demo_inode ! bn = (if bn = 0 then 60 else if bn = 1 then 61 else 0)" if "bn < NDIRECT"
    using that by (cases bn rule: nat.exhaust) (auto simp: demo_inode_def less_Suc_eq numeral_eq_Suc)
  then show "bn < MAXFILE \<Longrightarrow> file_addr demo_files 0 bn = (if bn = 0 then 60 else if bn = 1 then 61 else 0)"
    using i by (auto simp: file_addr_def)
qed

lemma demo_blks: "i < MAXFILE + 1 \<Longrightarrow> blks demo_files 0 ! i = (if i = 0 then 60 else if i = 1 then 61 else 0)"
proof (cases "i < MAXFILE")
  case False
  moreover assume "i < MAXFILE + 1"
  ultimately have "i = MAXFILE" by simp
  then show ?thesis using demo_addr(1) nth_blks(2) [of demo_files 0] by simp
qed (simp add: nth_blks demo_addr)

lemma demo_file_ok: "file_ok demo_files 0" "no_holes demo_files 0"
proof -
  have o: "owned demo_files 0 = {60, 61}"
  proof -
    have "x \<in> owned demo_files 0 \<longleftrightarrow> (\<exists>i<MAXFILE + 1. x = blks demo_files 0 ! i) \<and> x \<noteq> 0" for x by (auto simp: owned_def in_set_conv_nth)
    then have "owned demo_files 0 \<subseteq> {60, 61}" using demo_blks by (auto split: if_splits)
    then show ?thesis using owned_file [of 0 demo_files 0] owned_file [of 1 demo_files 0] demo_addr(2) by auto
  qed
  have nd: "nz_distinct (blks demo_files 0)" unfolding nz_distinct_def using demo_blks by (auto split: if_splits)
  have fr: "free_blocks demo_files = {x. 64 \<le> x \<and> x < 100}" using demo_free by (simp add: free_blocks_def demo_fs_ok(2))
  have bm: "bmap_ok demo_files" using demo_bmap_ok(1) fr demo_free by (simp add: bmap_ok_def demo_fs_ok(2))
  have iu: "in_use demo_files x" if "x \<in> {33, 60, 61}" for x
    using that by (auto simp: in_use_def fr demo_BBLOCK(2) in_log_def demo_disk_def)
  show "file_ok demo_files 0" unfolding file_ok_def
    using o nd bm iu fr demo_inode_facts(2) by (simp add: demo_inode_def)
  show "no_holes demo_files 0" unfolding no_holes_def
  proof (intro conjI allI impI)
    fix p assume "p < unat (i_size (icache demo_files ! 0))"
    then have "p div BSIZE < 2" by (intro less_mult_imp_div_less) (simp add: demo_inode_def)
    then show "file_addr demo_files 0 (p div BSIZE) \<noteq> 0" using demo_addr(2) [of "p div BSIZE"] by auto
  qed (simp add: demo_inode_def)
qed

lemma kernel_addr:
  assumes "k < 1000"
  shows "unat (KERNBASE + of_nat k) = 2147483648 + k" "translate w (KERNBASE + of_nat k) s = Some (KERNBASE + of_nat k)"
proof -
  have "unat (of_nat k :: u32) = k" using assms by (intro unat_nat) simp
  then have "unat (KERNBASE + of_nat k) = (2147483648 + k) mod 2 ^ 32" unfolding unat_word_ariths(1) by simp
  then show u: "unat (KERNBASE + of_nat k) = 2147483648 + k" using assms by (subst (asm) mod_less) simp_all
  have "KERNBASE \<le> KERNBASE + of_nat k" unfolding word_le_nat_alt u by simp
  then show "translate w (KERNBASE + of_nat k) s = Some (KERNBASE + of_nat k)" unfolding translate_def by (simp only: if_True)
qed

lemma kernel_buf: "n < 1000 \<Longrightarrow> readable KERNBASE n s" "n < 1000 \<Longrightarrow> writable_buf KERNBASE n (\<lambda>k. KERNBASE + of_nat k) s"
proof -
  show "n < 1000 \<Longrightarrow> readable KERNBASE n s" unfolding readable_def using kernel_addr(2) [of _ False s] by auto
  assume n: "n < 1000"
  have "inj_on (\<lambda>k. KERNBASE + of_nat k) {..<n}"
  proof (rule inj_onI)
    fix x y assume "x \<in> {..<n}" "y \<in> {..<n}" and e: "KERNBASE + of_nat x = KERNBASE + of_nat y"
    then have "2147483648 + x = 2147483648 + y" using kernel_addr(1) [of x] kernel_addr(1) [of y] n unfolding e by simp
    then show "x = y" by simp
  qed
  moreover have "translate True (KERNBASE + of_nat k) (s\<lparr>mem := m\<rparr>) = Some (KERNBASE + of_nat k)" if "k < n" for k m
    using that n by (intro kernel_addr(2)) simp
  ultimately show "writable_buf KERNBASE n (\<lambda>k. KERNBASE + of_nat k) s" unfolding writable_buf_def by blast
qed

section \<open>Properties\<close>

text \<open>
  C21: \<open>readi\<close> delivers the content of the file. For a file without holes it copies
  exactly the bytes of the requested range that lie in the file to the destination,
  returns their number, and changes nothing else: the blocks, the inodes and the
  transaction are as before. A range that starts past the end or wraps around is
  refused with -1.
\<close>

theorem readi_delivers_content:
  assumes "file_ok s ip" "no_holes s ip" "fs_ok n s {} r" "i_type (icache s ! ip) \<noteq> T_DEV"
    "bs = take (unat cnt) (drop (unat off) (file_content s ip))" "writable_buf a (length bs) f s"
  shows "if off \<le> i_size (icache s ! ip) \<and> off \<le> off + cnt
    then returns (readi mem_sink ip a off cnt s) (\<lambda>(v, _) t. v = int (length bs) \<and> map (\<lambda>j. mem t (f j)) [0..<length bs] = bs
      \<and> (\<forall>x. x \<notin> f ` {..<length bs} \<longrightarrow> mem t x = mem s x) \<and> lview t = lview s \<and> icache t = icache s \<and> fs_ok n t {} r)
    else readi mem_sink ip a off cnt s = Ret (- 1, a) s"
proof (cases "off \<le> i_size (icache s ! ip) \<and> off \<le> off + cnt")
  case True
  note snk = mem_sink_ok [OF assms(6)]
  have inj: "inj_on f {..<length bs}" using assms(6) by (simp add: writable_buf_def)
  have "returns (readi mem_sink ip a off cnt s) (\<lambda>(v, d) t. v = int (length bs) \<and> d = a + of_nat (length bs)
      \<and> mem t = put_bytes f bs (mem s) \<and> fs_ok n t {} r \<and> only_mem s t)"
    using byte_sink.readi_content [OF snk assms(1-4) _ refl _ _ assms(5)] True by (simp add: put_bytes_def)
  moreover have "put_bytes f bs (mem s) x = mem s x" if "x \<notin> f ` {..<length bs}" for x using that by (intro put_bytes_other) auto
  ultimately show ?thesis using True put_bytes_read [OF inj, of "mem s"] only_mem_file(3) by (auto simp: only_mem_def elim!: returns_mono)
next
  case False
  then show ?thesis using assms(4) by (auto simp: readi_def not_le)
qed

theorem readi_delivers_content_witness:
  "\<exists>d t. readi mem_sink 0 KERNBASE 698 8 demo_files = Ret (2, d) t \<and> icache t = icache demo_files
     \<and> readi mem_sink 0 KERNBASE 701 8 demo_files = Ret (- 1, KERNBASE) demo_files"
proof -
  let ?f = "\<lambda>k. KERNBASE + of_nat k"
  have d: "i_size (icache demo_files ! 0) = 700" "i_type (icache demo_files ! 0) \<noteq> T_DEV" by (simp_all add: demo_inode_def)
  have l: "length (take (unat (8 :: u32)) (drop (unat (698 :: u32)) (file_content demo_files 0))) = 2"
    "length (take (unat (8 :: u32)) (drop (unat (701 :: u32)) (file_content demo_files 0))) = 0" using d by simp_all
  have "returns (readi mem_sink 0 KERNBASE 698 8 demo_files) (\<lambda>(v, _) t. v = 2 \<and> icache t = icache demo_files)"
    using readi_delivers_content [OF demo_file_ok demo_files_ok [of 0] d(2) refl, where f = ?f and off = 698 and cnt = 8 and a = KERNBASE]
    unfolding l d(1) using kernel_buf(2) [of 2] by (auto elim!: returns_mono)
  moreover have "readi mem_sink 0 KERNBASE 701 8 demo_files = Ret (- 1, KERNBASE) demo_files"
    using readi_delivers_content [OF demo_file_ok demo_files_ok [of 0] d(2) refl, where f = ?f and off = 701 and cnt = 8 and a = KERNBASE]
    unfolding l d(1) using kernel_buf(2) [of 0] by simp
  ultimately show ?thesis by (auto elim!: returnsE)
qed

text \<open>
  C2: \<open>writei\<close> implements an overwrite of the file's content, a list of bytes.
  Inside a transaction with room for what it may log and with enough free blocks, it
  returns the number of bytes; the content then has the bytes of the source from the
  offset on, whether the range lies in the file, extends it, or needs new direct and
  indirect blocks. The block map stays well formed and without holes, the inode on
  the disk follows the cached one, and no other file, no other inode and no other
  block in use changes. A range that starts past the end, wraps around or exceeds
  the largest file is refused with -1 and without effect.
\<close>

theorem writei_overwrites_content:
  assumes "file_ok s ip" "no_holes s ip" "fs_ok n s {} (Suc (6 * pieces (unat off) (unat cnt)))" "2 * pieces (unat off) (unat cnt) \<le> card (free_blocks s)"
    "i_type (icache s ! ip) \<noteq> T_DEV" "dinode_wf (dinode_of (icache s ! ip))" "readable a (unat cnt) s"
  shows "if off \<le> i_size (icache s ! ip) \<and> unat off + unat cnt \<le> MAXFILE * BSIZE
    then returns (writei mem_source ip a off cnt s) (\<lambda>v t. v = int (unat cnt)
      \<and> file_content t ip = put_at (file_content s ip) (unat off) (user_bytes a (unat cnt) s)
      \<and> file_ok t ip \<and> no_holes t ip \<and> fs_ok n t {} 0 \<and> others_kept ip s t
      \<and> (dinodes s (i_inum (icache s ! ip)) = dinode_of (icache s ! ip) \<longrightarrow> dinodes t (i_inum (icache s ! ip)) = dinode_of (icache t ! ip)))
    else writei mem_source ip a off cnt s = Ret (- 1) s"
proof (cases "off \<le> i_size (icache s ! ip) \<and> unat off + unat cnt \<le> MAXFILE * BSIZE")
  case True
  then show ?thesis
    using byte_source.writei_content [OF mem_source_ok [OF assms(7)] assms(1,2), of n off cnt] assms by simp
next
  case False
  have "off > i_size (icache s ! ip) \<or> off + cnt < off \<or> off + cnt > of_nat (MAXFILE * BSIZE)"
  proof (rule ccontr)
    assume *: "\<not> ?thesis"
    then have "unat (off + cnt) = unat off + unat cnt" by (simp add: unat_plus_simple not_less)
    with * False show False by (simp add: word_less_nat_alt word_le_nat_alt)
  qed
  with False show ?thesis using assms(5) by (auto simp: writei_def)
qed

theorem writei_overwrites_content_witness:
  "\<exists>t. writei mem_source 0 KERNBASE 700 10 demo_files = Ret 10 t \<and> length (file_content t 0) = 710
     \<and> take 700 (file_content t 0) = file_content demo_files 0 \<and> file_ok t 0"
proof -
  have d: "i_size demo_inode = 700" "i_type demo_inode = 2" by (simp_all add: demo_inode_def)
  have "free_blocks demo_files = {x. 64 \<le> x \<and> x < 100}" using demo_free by (simp add: free_blocks_def demo_fs_ok(2))
  then have "{64, 65} \<subseteq> free_blocks demo_files" by simp
  then have "2 \<le> card (free_blocks demo_files)" using card_mono [of "free_blocks demo_files" "{64, 65}"] by simp
  moreover have "pieces 700 10 = 1" by (simp add: pieces_def)
  ultimately obtain t where t: "writei mem_source 0 KERNBASE 700 10 demo_files = Ret 10 t" "file_ok t 0"
      "file_content t 0 = put_at (file_content demo_files 0) 700 (user_bytes KERNBASE 10 demo_files)"
    using writei_overwrites_content [OF demo_file_ok demo_files_ok, of 700 10 KERNBASE] kernel_buf(1) [of 10 demo_files] d demo_inode_facts(1)
    by (auto elim!: returnsE)
  have "length (file_content t 0) = 710" "take 700 (file_content t 0) = file_content demo_files 0"
    unfolding t(3) put_at_def using d by simp_all
  then show ?thesis using t(1,2) by blast
qed

end
