(* ===== verification/Fs_Names.thy ===== *)
theory Fs_Names
  imports Fs_Rw
begin

text \<open>
  Directories and path names: \<open>dirlookup\<close> and \<open>dirlink\<close> against the list of entries
  that a directory's content stands for, and the elements of a path.
\<close>

section \<open>Names\<close>

text \<open>The name in an array of bytes: up to the first zero, at most \<open>DIRSIZ\<close> bytes.\<close>

definition cname :: "u8 list \<Rightarrow> u8 list" where
  "cname p = take DIRSIZ (upto0 p)"

lemma upto0_simps [simp]: "upto0 [] = []" "upto0 (a # p) = (if a = 0 then [] else a # upto0 p)"
  by (simp_all add: upto0_def)

lemma strncmp_eq_iff: "strncmp_eq n p q \<longleftrightarrow> take n (upto0 p) = take n (upto0 q)"
  by (induction n p q rule: strncmp_eq.induct) auto

lemma namecmp_cname: "namecmp_eq p q \<longleftrightarrow> cname p = cname q"
  by (simp add: namecmp_eq_def cname_def strncmp_eq_iff)

lemma upto0_pad: "0 \<notin> set t \<Longrightarrow> upto0 (t @ replicate k 0) = t"
  by (induction t) (cases k; auto)+

lemma upto0_zeros [simp]: "upto0 (replicate k 0) = []"
  using upto0_pad [of "[]"] by simp

lemma cname_strncpy: "length (strncpy_name nm) = DIRSIZ" "cname (strncpy_name nm) = cname nm"
proof -
  have "0 \<notin> set (upto0 nm)" by (auto simp: upto0_def dest: set_takeWhileD)
  then have "0 \<notin> set (take DIRSIZ (upto0 nm))" using in_set_takeD by fastforce
  then show "cname (strncpy_name nm) = cname nm" by (simp add: strncpy_name_def cname_def Let_def upto0_pad)
qed (simp add: strncpy_name_def Let_def)

section \<open>The entries of a directory\<close>

definition dirent :: "u8 list \<Rightarrow> nat \<Rightarrow> u8 list" where
  "dirent c i = take 16 (drop (16 * i) c)"

definition names :: "u8 list \<Rightarrow> u8 list \<Rightarrow> nat \<Rightarrow> bool" where
  "names c nm i \<longleftrightarrow> de_inum (dirent c i) \<noteq> 0 \<and> cname (de_name (dirent c i)) = cname nm"

text \<open>A directory: its content is a list of whole entries.\<close>

definition dir_ok :: "kstate \<Rightarrow> nat \<Rightarrow> bool" where
  "dir_ok s dp \<longleftrightarrow> file_ok s dp \<and> no_holes s dp \<and> i_type (icache s ! dp) = T_DIR \<and> 16 dvd unat (i_size (icache s ! dp))"

definition entries :: "kstate \<Rightarrow> nat \<Rightarrow> nat" where
  "entries s dp = unat (i_size (icache s ! dp)) div 16"

lemma dir_offs_eq: "16 dvd unat z \<Longrightarrow> dir_offs z = map (\<lambda>k. 16 * k) [0..<unat z div 16]"
proof -
  assume "16 dvd unat z"
  then obtain m where "unat z = 16 * m" by auto
  then show ?thesis by (simp add: dir_offs_def)
qed

text \<open>Reading one entry changes nothing the directory depends on.\<close>

definition quietly :: "int \<Rightarrow> nat \<Rightarrow> kstate \<Rightarrow> kstate \<Rightarrow> bool" where
  "quietly n r s t \<longleftrightarrow> fs_ok n t {} r \<and> lview t = lview s \<and> icache t = icache s \<and> fs_rest s t"

lemma quietly_trans: "quietly n r s t \<Longrightarrow> quietly n r t u \<Longrightarrow> quietly n r s u"
  using fs_rest_trans by (auto simp: quietly_def)

lemma quietly_dir: "quietly n r s t \<Longrightarrow> dir_ok t dp = dir_ok s dp" "quietly n r s t \<Longrightarrow> file_content t dp = file_content s dp"
  "quietly n r s t \<Longrightarrow> entries t dp = entries s dp"
  using file_cong(2,4) [of s t dp] by (auto simp: quietly_def dir_ok_def no_holes_def file_content_def file_byte_def entries_def)

lemma read_dirent_ok:
  assumes s: "dir_ok s dp" "fs_ok n s {} r" and i: "i < entries s dp"
  shows "returns (read_dirent msg dp (of_nat (16 * i)) s) (\<lambda>de t. de = dirent (file_content s dp) i \<and> length de = 16 \<and> quietly n r s t)"
proof -
  let ?z = "unat (i_size (icache s ! dp))" and ?o = "of_nat (16 * i) :: u32"
  have d: "file_ok s dp" "no_holes s dp" "i_type (icache s ! dp) \<noteq> T_DEV" "16 dvd ?z" using s(1) by (auto simp: dir_ok_def)
  have z: "16 * i + 16 \<le> ?z" using i d(4) by (auto simp: entries_def)
  have lt: "?z < 2 ^ 32" by (rule u32_lt)
  have u: "unat ?o = 16 * i" using z lt by (intro unat_nat) linarith
  have off: "?o \<le> i_size (icache s ! dp)" unfolding word_le_nat_alt u using z by linarith
  have "unat ?o + unat (16 :: u32) < 2 ^ 32" unfolding u using z d(2) by (simp add: no_holes_def)
  then have ov: "?o \<le> ?o + 16" unfolding word_le_nat_alt by (subst unat_add_lem [THEN iffD1]) simp_all
  let ?bs = "take (unat (16 :: u32)) (drop (unat ?o) (file_content s dp))"
  have bs: "?bs = dirent (file_content s dp) i" "length ?bs = 16" unfolding u using z by (simp_all add: dirent_def)
  have "returns (readi loc_sink dp [] ?o 16 s) (\<lambda>(v, d) t. v = 16 \<and> d = ?bs \<and> mem t = mem s \<and> fs_ok n t {} r \<and> only_mem s t)"
    using ls.readi_content [OF d(1,2) s(2) d(3) refl refl off ov refl, of "[]"] bs(2) by simp
  moreover have "quietly n r s t" if "mem t = mem s" "fs_ok n t {} r" "only_mem s t" for t
    using that only_mem_file(3) [OF that(3)] by (auto simp: quietly_def only_mem_def)
  ultimately show ?thesis unfolding read_dirent_def returns_bnd using bs by (auto elim!: returns_mono)
qed

section \<open>A directory as a map from names to inode numbers\<close>

definition dir_map :: "u8 list \<Rightarrow> u8 list \<rightharpoonup> u16" where
  "dir_map c x = map_option (\<lambda>i. de_inum (dirent c i)) (find (\<lambda>i. de_inum (dirent c i) \<noteq> 0 \<and> cname (de_name (dirent c i)) = x) [0..<length c div 16])"

lemma find_upt_iff: "find P [0..<m] = Some i \<longleftrightarrow> i < m \<and> P i \<and> (\<forall>j<i. \<not> P j)"
  by (auto simp: find_Some_iff)

lemma find_upt_cong:
  assumes "\<And>j. j < m' \<and> P' j \<longleftrightarrow> j < m \<and> P j"
  shows "find P' [0..<m'] = find P [0..<m]"
proof (rule option.expand)
  show "(find P' [0..<m'] = None) = (find P [0..<m] = None)" using assms by (auto simp: find_None_iff)
next
  assume "find P' [0..<m'] \<noteq> None" "find P [0..<m] \<noteq> None"
  then obtain i j where *: "find P' [0..<m'] = Some i" "find P [0..<m] = Some j" by auto
  then have "i < m' \<and> P' i" "j < m \<and> P j" "\<forall>k<i. \<not> P' k" "\<forall>k<j. \<not> P k" by (auto simp: find_upt_iff)
  then have "\<not> i < j" "\<not> j < i" using assms by (meson less_trans)+
  then show "the (find P' [0..<m']) = the (find P [0..<m])" using * by simp
qed

lemma dirent_put_at:
  assumes "length e = 16" "16 * i \<le> length c"
  shows "dirent (put_at c (16 * i) e) j = (if j = i then e else dirent c j)"
proof -
  have "take 16 (drop (16 * j) (put_at c (16 * i) e)) = take 16 (drop (16 * j) c)" if "j < i"
  proof -
    have "drop (16 * j) (put_at c (16 * i) e) = drop (16 * j) (take (16 * i) c) @ e @ drop (16 * i + 16) c"
      using that assms by (simp add: put_at_def)
    then show ?thesis using that assms by (simp add: take_drop min_def)
  qed
  moreover have "drop (16 * j) (put_at c (16 * i) e) = drop (16 * j) c" if "i < j"
  proof -
    have "16 * j - 16 * i = 16 + (16 * j - 16 * i - 16)" "16 * i + 16 + (16 * j - 16 * i - 16) = 16 * j" using that by simp_all
    then show ?thesis using that assms by (simp add: put_at_def)
  qed
  ultimately show ?thesis using assms by (cases j i rule: linorder_cases) (simp_all add: dirent_def, simp add: put_at_def)
qed

text \<open>An entry put into a free place, or behind the last one, extends the map.\<close>

lemma dir_map_put_at:
  assumes c: "length c = 16 * m" "i \<le> m" "i = m \<or> de_inum (dirent c i) = 0" and e: "length e = 16" "de_inum e \<noteq> 0"
    and new: "dir_map c (cname (de_name e)) = None"
  shows "dir_map (put_at c (16 * i) e) = (dir_map c)(cname (de_name e) \<mapsto> de_inum e)"
proof
  fix x
  let ?c = "put_at c (16 * i) e" and ?n = "if i = m then Suc m else m"
  let ?P = "\<lambda>c j. de_inum (dirent c j) \<noteq> 0 \<and> cname (de_name (dirent c j)) = x"
  have d: "dirent ?c j = (if j = i then e else dirent c j)" for j using dirent_put_at e(1) c(1,2) by simp
  have n: "length ?c div 16 = ?n" "i < ?n" using c e(1) by (auto simp: put_at_def)
  show "dir_map ?c x = ((dir_map c)(cname (de_name e) \<mapsto> de_inum e)) x"
  proof (cases "x = cname (de_name e)")
    case True
    then have no: "\<not> ?P c j" if "j < m" for j using new that c(1) by (auto simp: dir_map_def find_None_iff)
    then have "find (?P ?c) [0..<?n] = Some i" unfolding find_upt_iff using n(2) c(2) e(2) True by (auto simp: d)
    then show ?thesis using True unfolding dir_map_def n(1) by (simp add: d)
  next
    case False
    have "(j < ?n \<and> ?P ?c j) = (j < m \<and> ?P c j)" for j using False c(2,3) by (auto simp: d split: if_splits)
    then have f: "find (?P ?c) [0..<?n] = find (?P c) [0..<m]" by (rule find_upt_cong)
    have "de_inum (dirent ?c j) = de_inum (dirent c j)" if "find (?P c) [0..<m] = Some j" for j
      using that c(3) by (auto simp: d find_upt_iff)
    then show ?thesis using False c(1) unfolding dir_map_def n(1) f by (simp cong: map_option_cong add: map_option_case split: option.split)
  qed
qed

section \<open>Looking up and linking\<close>

lemma dirlookup_loop_ok:
  assumes "dir_ok s dp" "fs_ok n s {} r" "\<forall>i\<in>set xs. i < entries s dp"
  shows "\<exists>u. quietly n r s u \<and> dirlookup_loop dp nm (map (\<lambda>k. 16 * k) xs) s =
    (case find (names (file_content s dp) nm) xs of None \<Rightarrow> Ret None u
     | Some i \<Rightarrow> bnd (iget (i_dev (icache s ! dp)) (ucast (de_inum (dirent (file_content s dp) i))) u) (\<lambda>ip t. Ret (Some (ip, of_nat (16 * i))) t))"
  using assms
proof (induction xs arbitrary: s)
  case Nil
  then show ?case by (auto simp: quietly_def)
next
  case (Cons i xs)
  let ?de = "dirent (file_content s dp) i"
  obtain t where t: "read_dirent ''dirlookup read'' dp (of_nat (16 * i)) s = Ret ?de t" and q: "quietly n r s t"
    using read_dirent_ok [OF Cons.prems(1,2), of i] Cons.prems(3) by (auto elim!: returnsE)
  have ic: "icache t = icache s" using q by (simp add: quietly_def)
  show ?case
  proof (cases "names (file_content s dp) nm i")
    case True
    then show ?thesis using t q ic by (intro exI [of _ t]) (simp add: names_def namecmp_cname del: of_nat_mult)
  next
    case False
    obtain u where u: "quietly n r t u" "dirlookup_loop dp nm (map (\<lambda>k. 16 * k) xs) t =
      (case find (names (file_content s dp) nm) xs of None \<Rightarrow> Ret None u
       | Some i \<Rightarrow> bnd (iget (i_dev (icache s ! dp)) (ucast (de_inum (dirent (file_content s dp) i))) u) (\<lambda>ip t. Ret (Some (ip, of_nat (16 * i))) t))"
      using Cons.IH [of t, unfolded quietly_dir [OF q] ic] Cons.prems q by (auto simp: quietly_def)
    have "dirlookup_loop dp nm (map (\<lambda>k. 16 * k) (i # xs)) s = dirlookup_loop dp nm (map (\<lambda>k. 16 * k) xs) t"
      using False t by (auto simp: names_def namecmp_cname simp del: of_nat_mult)
    then show ?thesis using u(2) False quietly_trans [OF q u(1)] by auto
  qed
qed

lemma dirlookup_eq:
  assumes "dir_ok s dp" "fs_ok n s {} r"
  shows "\<exists>u. quietly n r s u \<and> dirlookup dp nm s =
    (case find (names (file_content s dp) nm) [0..<entries s dp] of None \<Rightarrow> Ret None u
     | Some i \<Rightarrow> bnd (iget 1 (ucast (de_inum (dirent (file_content s dp) i))) u) (\<lambda>ip t. Ret (Some (ip, of_nat (16 * i))) t))"
proof -
  have "i_dev (icache s ! dp) = 1" using assms(1) by (simp add: dir_ok_def file_ok_def)
  then show ?thesis using dirlookup_loop_ok [OF assms, of "[0..<entries s dp]" nm, unfolded \<open>i_dev (icache s ! dp) = 1\<close>] assms(1)
    by (simp add: dirlookup_def dir_ok_def dir_offs_eq entries_def)
qed

lemma find_names: "find (names (file_content s dp) nm) [0..<entries s dp] = None \<longleftrightarrow> dir_map (file_content s dp) (cname nm) = None"
  "find (names (file_content s dp) nm) [0..<entries s dp] = Some i \<Longrightarrow> dir_map (file_content s dp) (cname nm) = Some (de_inum (dirent (file_content s dp) i))"
  by (simp_all add: dir_map_def names_def [abs_def] entries_def)

lemma free_entry_ok:
  assumes "dir_ok s dp" "fs_ok n s {} r" "a \<le> entries s dp" "prev = 16 * a"
  shows "returns (free_entry dp (map (\<lambda>k. 16 * k) [a..<entries s dp]) prev s) (\<lambda>off t. quietly n r s t
    \<and> (\<exists>i\<le>entries s dp. off = 16 * i \<and> (i = entries s dp \<or> de_inum (dirent (file_content s dp) i) = 0)))"
  using assms
proof (induction "entries s dp - a" arbitrary: a s prev)
  case 0
  then show ?case by (auto simp: quietly_def)
next
  case (Suc k)
  then have a: "a < entries s dp" "[a..<entries s dp] = a # [Suc a..<entries s dp]" by (simp_all add: upt_rec)
  obtain t where t: "read_dirent ''dirlink read'' dp (of_nat (16 * a)) s = Ret (dirent (file_content s dp) a) t" and q: "quietly n r s t"
    using read_dirent_ok [OF Suc.prems(1,2) a(1)] by (auto elim!: returnsE)
  note e = quietly_dir [OF q, of dp]
  show ?case
  proof (cases "de_inum (dirent (file_content s dp) a) = 0")
    case True
    then show ?thesis using t q a(1) unfolding a(2) by (auto simp del: of_nat_mult intro!: exI [of _ a])
  next
    case False
    have "fs_ok n t {} r" using q by (simp add: quietly_def)
    then have "returns (free_entry dp (map (\<lambda>k. 16 * k) [Suc a..<entries t dp]) (16 * a + 16) t) (\<lambda>off u. quietly n r t u
      \<and> (\<exists>i\<le>entries t dp. off = 16 * i \<and> (i = entries t dp \<or> de_inum (dirent (file_content t dp) i) = 0)))"
      using Suc.hyps(2) Suc.prems a(1) e by (intro Suc.hyps(1)) simp_all
    then show ?thesis unfolding e using False t a quietly_trans [OF q] by (auto simp del: of_nat_mult elim!: returns_mono)
  qed
qed

lemma iget_disk: "quiet s n \<Longrightarrow> iget dev inum s = Ret ip t \<Longrightarrow> lview t = lview s"
  by (rule bio_cong) (auto simp: iget_eq split: option.splits)

text \<open>The entry that \<open>dirlink\<close> writes.\<close>

definition entry :: "u8 list \<Rightarrow> u32 \<Rightarrow> u8 list" where
  "entry nm inum = bytes16 (ucast inum) @ strncpy_name nm"

lemma entry_facts: "length (entry nm inum) = 16" "de_inum (entry nm inum) = ucast inum" "cname (de_name (entry nm inum)) = cname nm"
  using join_bytes16 [of "ucast inum"] cname_strncpy [of nm]
  by (simp_all add: entry_def bytes16_def de_inum_def de_name_def ld16_def)

lemma quietly_others: "quietly n r s t \<Longrightarrow> others_kept dp t u = others_kept dp s u" "quietly n r s t \<Longrightarrow> free_blocks t = free_blocks s"
proof -
  assume q: "quietly n r s t"
  then have e: "icache t = icache s" "lview t = lview s" "sb t = sb s" "owned t dp = owned s dp"
    using file_cong(3) [of s t dp] fs_rest_sel(2) [of s t] by (simp_all add: quietly_def owned_def)
  then show "free_blocks t = free_blocks s" by (simp add: free_blocks_def)
  then show "others_kept dp t u = others_kept dp s u" using e by (simp add: others_kept_def dinodes_def)
qed

text \<open>An entry lies within one block.\<close>

lemma pieces_entry: "pieces (16 * i) 16 = 1"
proof -
  have "16 * i mod BSIZE = 16 * (i mod 32)" using mult_mod_right [of 16 i 32] by simp
  moreover have "i mod 32 \<le> 31" using mod_less_divisor [of 32 i] by linarith
  ultimately have "(16 * i mod BSIZE + 16 + 511) div BSIZE = 1" by (intro div_nat_eqI) simp_all
  then show ?thesis by (simp add: pieces_def)
qed

lemma write_entry:
  assumes s: "dir_ok s dp" "fs_ok n s {} 7" "2 \<le> card (free_blocks s)" "dinode_wf (dinode_of (icache s ! dp))"
    and i: "i \<le> entries s dp" "unat (i_size (icache s ! dp)) + 16 \<le> MAXFILE * BSIZE" and e: "length e = 16"
  shows "returns (writei loc_source dp e (of_nat (16 * i)) 16 s) (\<lambda>v t. v = 16
    \<and> file_content t dp = put_at (file_content s dp) (16 * i) e \<and> file_ok t dp \<and> no_holes t dp \<and> fs_ok n t {} 0 \<and> others_kept dp s t)"
proof -
  have le: "16 * i \<le> unat (i_size (icache s ! dp))" using i(1) s(1) by (auto simp: entries_def dir_ok_def)
  have u: "unat (of_nat (16 * i) :: u32) = 16 * i" using le i(2) by (intro unat_nat) simp
  have d: "file_ok s dp" "no_holes s dp" "i_type (icache s ! dp) \<noteq> T_DEV" using s(1) by (auto simp: dir_ok_def)
  have "of_nat (16 * i) \<le> i_size (icache s ! dp)" unfolding word_le_nat_alt u by (rule le)
  moreover have "16 * i + 16 \<le> MAXFILE * BSIZE" using le i(2) by linarith
  ultimately show ?thesis
    using lo.writei_content [OF d(1,2) _ _ refl refl d(3) s(4), of n "of_nat (16 * i)" e 16, unfolded u e pieces_entry] s(2,3) e
    by (auto elim!: returns_mono simp del: of_nat_mult)
qed

section \<open>Path elements\<close>

fun elements :: "u8 list \<Rightarrow> u8 list \<Rightarrow> u8 list list" where
  "elements el [] = (if el = [] then [] else [el])"
| "elements el (a # p) = (if a = slash then (if el = [] then elements [] p else el # elements [] p) else elements (el @ [a]) p)"

lemma elements_take: "el @ takeWhile (\<lambda>c. c \<noteq> slash) p \<noteq> [] \<Longrightarrow>
    elements el p = (el @ takeWhile (\<lambda>c. c \<noteq> slash) p) # elements [] (dropWhile (\<lambda>c. c \<noteq> slash) p)"
  by (induction el p rule: elements.induct) auto

lemma elements_skip [simp]: "elements [] (skip_slashes p) = elements [] p"
  by (induction p) (simp_all add: skip_slashes_def)

lemma upto0_ext: "0 \<notin> set p \<Longrightarrow> upto0 (p @ q) = p @ upto0 q"
  by (induction p) auto

section \<open>A directory\<close>

text \<open>A directory of two entries, the first one naming inode 7 as \<open>a\<close> and the second one free.\<close>

definition dir_block :: block where
  "dir_block = [7, 0, 97] @ replicate 509 0"

definition demo_dir :: kstate where
  "demo_dir = (demo_fs (demo_disk(60 := dir_block)))\<lparr>icache :=
     demo_inode\<lparr>i_type := T_DIR, i_size := 32\<rparr> # replicate 49 (demo_inode\<lparr>i_ref := 0\<rparr>)\<rparr>"

lemma demo_dir_sel [simp]: "sb demo_dir = demo_sb" "icache demo_dir = demo_inode\<lparr>i_type := T_DIR, i_size := 32\<rparr> # replicate 49 (demo_inode\<lparr>i_ref := 0\<rparr>)"
  "data_block demo_dir x \<longleftrightarrow> unat x < 1000 \<and> \<not> in_log 2 30 x" "lview demo_dir = demo_disk(60 := dir_block)"
  using demo_fs_sel(2) [of "demo_disk(60 := dir_block)" x] demo_fs_ok(2) [of "demo_disk(60 := dir_block)"]
    bio_cong(1) [of demo_dir "demo_fs (demo_disk(60 := dir_block))"]
  by (simp_all add: demo_dir_def data_block_def)

lemma demo_dir_fs: "k \<le> 28 \<Longrightarrow> fs_ok 3 demo_dir {} k"
proof -
  assume "k \<le> 28"
  note s = demo_fs_ok(1) [OF this, of "demo_disk(60 := dir_block)"]
  have "quiet demo_dir 3" using fs_ok_quiet [OF s] by (rule quiet_cong) (simp_all add: demo_dir_def)
  then show ?thesis by (rule fs_ok_cong [OF s]) (simp_all add: demo_dir_def)
qed

lemma demo_dir_blocks: "free_blocks demo_dir = free_blocks demo_files" "2 \<le> card (free_blocks demo_dir)"
proof -
  have "bm_bit demo_sb (demo_disk(60 := dir_block)) x = bm_bit demo_sb demo_disk x" if "x < 100" for x
    using demo_BBLOCK(1) [OF that] by (simp add: bm_bit_def)
  then show e: "free_blocks demo_dir = free_blocks demo_files" by (auto simp: free_blocks_def)
  have "free_blocks demo_files = {x. 64 \<le> x \<and> x < 100}" using demo_free by (simp add: free_blocks_def demo_fs_ok(2))
  then have "{64, 65} \<subseteq> free_blocks demo_dir" unfolding e by simp
  then show "2 \<le> card (free_blocks demo_dir)" using card_mono [of "free_blocks demo_dir" "{64, 65}"] by simp
qed

lemma demo_dir_addr: "ind_addr demo_dir 0 = ind_addr demo_files 0" "file_addr demo_dir 0 = file_addr demo_files 0" "blks demo_dir 0 = blks demo_files 0"
proof -
  show i: "ind_addr demo_dir 0 = ind_addr demo_files 0" by (simp add: ind_addr_def)
  then show a: "file_addr demo_dir 0 = file_addr demo_files 0" using demo_addr(1) by (simp add: file_addr_def fun_eq_iff)
  show "blks demo_dir 0 = blks demo_files 0" unfolding blks_def a i ..
qed

lemma demo_dir_ok: "dir_ok demo_dir 0" "icache_unique demo_dir"
proof -
  have len: "length (lview demo_dir x) = length (lview demo_files x)" for x by (simp add: dir_block_def demo_disk_def)
  have u: "in_use demo_dir x = in_use demo_files x" for x unfolding in_use_def using len [of x] demo_dir_blocks(1) by simp
  have o: "owned demo_dir 0 = owned demo_files 0" by (simp add: owned_def demo_dir_addr)
  have b: "bmap_ok demo_dir = bmap_ok demo_files" unfolding bmap_ok_def len demo_dir_blocks(1) by simp
  have "file_ok demo_dir 0" using demo_file_ok(1) unfolding file_ok_def u o b demo_dir_addr demo_dir_blocks(1) by simp
  moreover have "file_addr demo_dir 0 (p div BSIZE) \<noteq> 0" if "p < 32" for p unfolding demo_dir_addr(2) using that demo_addr(2) [of 0] by simp
  then have "no_holes demo_dir 0" unfolding no_holes_def by simp
  ultimately show "dir_ok demo_dir 0" by (simp add: dir_ok_def)
  show "icache_unique demo_dir" by (auto simp: icache_unique_def demo_inode_def nth_Cons' split: if_splits)
qed

lemma demo_dir_content: "file_content demo_dir 0 = [7, 0, 97] @ replicate 29 0"
proof -
  have "file_byte demo_dir 0 p = dir_block ! p" if "p < 32" for p
    unfolding file_byte_def demo_dir_addr(2) using that demo_addr(2) [of 0] by simp
  then show ?thesis by (intro nth_equalityI) (auto simp: file_content_def dir_block_def nth_Cons')
qed

lemma demo_dir_map: "dir_map (file_content demo_dir 0) [97] = Some 7" "dir_map (file_content demo_dir 0) [98] = None"
proof -
  let ?c = "[7, 0, 97] @ replicate 29 (0 :: u8)"
  have l: "[0..<length ?c div 16] = [0, 1]" by (simp add: upt_rec)
  have "dirent ?c 0 = [7, 0, 97] @ replicate 13 0" "dirent ?c 1 = replicate 16 0" by (simp_all add: dirent_def)
  then have d: "de_inum (dirent ?c 0) = 7" "cname (de_name (dirent ?c 0)) = [97]" "de_inum (dirent ?c 1) = 0"
    by (simp_all add: de_inum_def de_name_def ld16_def cname_def)
  show "dir_map (file_content demo_dir 0) [97] = Some 7" "dir_map (file_content demo_dir 0) [98] = None"
    unfolding demo_dir_content dir_map_def l using d by simp_all
qed

section \<open>Properties\<close>

text \<open>
  C11: A directory is a map from names to inode numbers, and \<open>dirlookup\<close> is its lookup. It
  ends without a panic; a name that the map does not have gives no inode and no
  change. For any other name the result is the place of an entry with that name
  and a cache entry for the inode number found there, with one more reference, no
  other cache entry being touched. The content of the disk does not change.
\<close>

theorem dirlookup_is_lookup:
  assumes "dir_ok s dp" "fs_ok n s {} r" "icache_unique s" "\<exists>j<length (icache s). i_ref (icache s ! j) = 0"
  shows "returns (dirlookup dp nm s) (\<lambda>v t. lview t = lview s
    \<and> (case dir_map (file_content s dp) (cname nm) of
         None \<Rightarrow> v = None \<and> icache t = icache s
       | Some inum \<Rightarrow> \<exists>ip i. v = Some (ip, of_nat (16 * i)) \<and> i < entries s dp \<and> names (file_content s dp) nm i
           \<and> de_inum (dirent (file_content s dp) i) = inum \<and> i_dev (icache t ! ip) = 1 \<and> i_inum (icache t ! ip) = ucast inum
           \<and> i_ref (icache t ! ip) = i_ref (icache s ! ip) + 1 \<and> (\<forall>j. j \<noteq> ip \<longrightarrow> icache t ! j = icache s ! j) \<and> icache_unique t))"
proof -
  let ?c = "file_content s dp" and ?f = "find (names (file_content s dp) nm) [0..<entries s dp]"
  obtain u where q: "quietly n r s u" and eq: "dirlookup dp nm s = (case ?f of None \<Rightarrow> Ret None u
      | Some i \<Rightarrow> bnd (iget 1 (ucast (de_inum (dirent ?c i))) u) (\<lambda>ip t. Ret (Some (ip, of_nat (16 * i))) t))"
    using dirlookup_eq [OF assms(1,2)] by blast
  have ic: "icache u = icache s" "lview u = lview s" "quiet u n" using q fs_ok_quiet by (auto simp: quietly_def)
  have un: "icache_unique u" using assms(3) ic(1) by (simp add: icache_unique_def)
  show ?thesis
  proof (cases ?f)
    case None
    then show ?thesis using find_names(1) [of s dp nm] by (simp add: eq ic)
  next
    case (Some i)
    then have i: "i < entries s dp" "names ?c nm i" by (auto simp: find_upt_iff)
    obtain ip t where g: "iget 1 (ucast (de_inum (dirent ?c i))) u = Ret ip t" "icache_unique t"
        "i_dev (icache t ! ip) = 1" "i_inum (icache t ! ip) = ucast (de_inum (dirent ?c i))"
        "i_ref (icache t ! ip) = i_ref (icache s ! ip) + 1" "\<forall>j. j = ip \<or> icache t ! j = icache s ! j"
      using iget_spec [OF ic(3) un, of 1 "ucast (de_inum (dirent ?c i))"] assms(4) ic(1) by (auto elim!: returnsE split: if_splits)
    have "lview t = lview s" using iget_disk [OF ic(3) g(1)] ic(2) by simp
    then show ?thesis using g i find_names(2) [OF Some] Some by (auto simp: eq simp del: of_nat_mult)
  qed
qed

theorem dirlookup_is_lookup_witness:
  "\<exists>ip off t. dirlookup 0 [97, 0] demo_dir = Ret (Some (ip, off)) t \<and> i_inum (icache t ! ip) = 7"
proof -
  have "cname [97, 0] = [97]" by (simp add: cname_def)
  moreover have "\<exists>j<length (icache demo_dir). i_ref (icache demo_dir ! j) = 0" by (intro exI [of _ 1]) simp
  ultimately show ?thesis
    using dirlookup_is_lookup [OF demo_dir_ok(1) demo_dir_fs [of 0] demo_dir_ok(2), of "[97, 0]"] demo_dir_map(1)
    by (auto elim!: returnsE)
qed

text \<open>
  C10: \<open>dirlink\<close> extends the map of a directory: for a name that it does not have and a
  number other than 0 it returns 0, the name is then mapped to the number, and every
  other name to what it was before. The directory stays a list of whole entries in
  a well-formed file, and no other inode and no other block in use changes.
\<close>

theorem dirlink_extends_map:
  assumes "dir_ok s dp" "fs_ok n s {} 7" "2 \<le> card (free_blocks s)" "dinode_wf (dinode_of (icache s ! dp))"
    "unat (i_size (icache s ! dp)) + 16 \<le> MAXFILE * BSIZE" "dir_map (file_content s dp) (cname nm) = None" "(ucast inum :: u16) \<noteq> 0"
  shows "returns (dirlink dp nm inum s) (\<lambda>v t. v = 0
    \<and> dir_map (file_content t dp) = (dir_map (file_content s dp))(cname nm \<mapsto> ucast inum)
    \<and> 16 dvd length (file_content t dp) \<and> file_ok t dp \<and> no_holes t dp \<and> fs_ok n t {} 0 \<and> others_kept dp s t)"
proof -
  let ?c = "file_content s dp" and ?e = "entry nm inum"
  have len: "length ?c = 16 * entries s dp" using assms(1) by (simp add: dir_ok_def entries_def)
  obtain u where q: "quietly n 7 s u" and look: "dirlookup dp nm s = Ret None u"
    using dirlookup_eq [OF assms(1,2), of nm] find_names(1) [of s dp nm] assms(6) by auto
  have offs: "dir_offs (i_size (icache u ! dp)) = map (\<lambda>k. 16 * k) [0..<entries u dp]"
    using dir_offs_eq quietly_dir(1) [OF q, of dp] assms(1) by (simp add: dir_ok_def entries_def)
  have u: "fs_ok n u {} 7" using q by (simp add: quietly_def)
  obtain i v where i: "i \<le> entries s dp" "i = entries s dp \<or> de_inum (dirent ?c i) = 0"
    and fe: "free_entry dp (map (\<lambda>k. 16 * k) [0..<entries u dp]) 0 u = Ret (16 * i) v" "quietly n 7 u v"
    using free_entry_ok [OF _ u, of dp 0 0] quietly_dir [OF q, of dp] assms(1) by (auto elim!: returnsE)
  have w: "quietly n 7 s v" by (rule quietly_trans [OF q fe(2)])
  note e = quietly_dir [OF w, of dp] quietly_others [OF w]
  have v: "fs_ok n v {} 7" "icache v = icache s" using w by (simp_all add: quietly_def)
  have "returns (writei loc_source dp ?e (of_nat (16 * i)) 16 v) (\<lambda>m t. m = 16
    \<and> file_content t dp = put_at ?c (16 * i) ?e \<and> file_ok t dp \<and> no_holes t dp \<and> fs_ok n t {} 0 \<and> others_kept dp s t)"
    using write_entry [of v dp n i ?e] assms(1,3,4,5) i(1) v entry_facts(1) [of nm inum] by (simp add: e del: of_nat_mult)
  moreover have "dir_map (put_at ?c (16 * i) ?e) = (dir_map ?c)(cname nm \<mapsto> ucast inum)"
    using dir_map_put_at [OF len i entry_facts(1) [of nm inum]] assms(6,7) by (simp add: entry_facts)
  moreover have "16 dvd length (put_at ?c (16 * i) ?e)" using i(1) len by (auto simp: put_at_def entry_facts)
  ultimately show ?thesis
    unfolding dirlink_def look by (auto simp: offs fe(1) entry_def [symmetric] elim!: returnsE simp del: of_nat_mult length_file_content)
qed

theorem dirlink_extends_map_witness:
  "\<exists>t. dirlink 0 [98, 0] 9 demo_dir = Ret 0 t \<and> dir_map (file_content t 0) [97] = Some 7 \<and> dir_map (file_content t 0) [98] = Some 9"
proof -
  have "cname [98, 0] = [98]" by (simp add: cname_def)
  moreover have "dinode_wf (dinode_of (icache demo_dir ! 0))" using demo_inode_facts(1) by (simp add: dinode_wf_def dinode_of_def short_def)
  ultimately show ?thesis
    using dirlink_extends_map [OF demo_dir_ok(1) demo_dir_fs demo_dir_blocks(2), of "[98, 0]" 9] demo_dir_map
    by (auto elim!: returnsE)
qed

text \<open>
  C27: \<open>skipelem\<close> takes a path apart at its slashes: it refuses a path without elements,
  and from any other it copies the first element, cut to \<open>DIRSIZ\<close> bytes, into the
  name, whatever the array held before, and leaves a shorter path that has the other
  elements and no leading slash.
\<close>

theorem skipelem_first_element:
  assumes "0 \<notin> set path"
  shows "case skipelem path nm of
      None \<Rightarrow> elements [] path = []
    | Some (p, m) \<Rightarrow> elements [] path \<noteq> [] \<and> cname m = take DIRSIZ (hd (elements [] path)) \<and> elements [] p = tl (elements [] path)
        \<and> length p < length path \<and> (p \<noteq> [] \<longrightarrow> hd p \<noteq> slash)"
proof -
  let ?p = "skip_slashes path" and ?el = "takeWhile (\<lambda>c. c \<noteq> slash) (skip_slashes path)"
  show ?thesis
  proof (cases "?p = []")
    case True
    then show ?thesis using elements_skip [of path] by (simp add: skipelem_def)
  next
    case False
    then have hd: "hd ?p \<noteq> slash" unfolding skip_slashes_def by (rule hd_dropWhile)
    then have "?el \<noteq> []" using False by (cases ?p) auto
    then have el: "elements [] path = ?el # elements [] (dropWhile (\<lambda>c. c \<noteq> slash) ?p)"
      using elements_take [of "[]" ?p] by simp
    have "0 \<notin> set ?el" using assms by (auto simp: skip_slashes_def dest!: set_takeWhileD set_dropWhileD)
    then have "0 \<notin> set ?el" "0 \<notin> set (take DIRSIZ ?el)" using in_set_takeD by fastforce+
    then have "cname (if length ?el \<ge> DIRSIZ then take DIRSIZ ?el else ?el @ [0] @ drop (length ?el + 1) nm) = take DIRSIZ ?el"
      using upto0_ext [of "take DIRSIZ ?el" "[]"] upto0_ext [of ?el "0 # drop (length ?el + 1) nm"]
      by (auto simp: cname_def)
    moreover obtain m where sk: "skipelem path nm = Some (skip_slashes (dropWhile (\<lambda>c. c \<noteq> slash) ?p), m)"
      and m: "m = (if length ?el \<ge> DIRSIZ then take DIRSIZ ?el else ?el @ [0] @ drop (length ?el + 1) nm)"
      using False by (simp add: skipelem_def Let_def)
    moreover have "q \<noteq> [] \<longrightarrow> hd q \<noteq> slash" if "q = skip_slashes r" for q r
      using that hd_dropWhile [of "\<lambda>c. c = slash" r] by (auto simp: skip_slashes_def)
    ultimately show ?thesis using skipelem_shorter [OF sk] el by simp
  qed
qed

theorem skipelem_first_element_witness:
  "elements [] [slash, 97, 98, slash, slash, 99] = [[97, 98], [99]] \<and> (\<exists>m. skipelem [slash, 97, 98, slash, slash, 99] [1, 1, 1, 1] = Some ([99], m) \<and> cname m = [97, 98])"
proof -
  have "elements [] [slash, 97, 98, slash, slash, 99] = [[97, 98], [99]]" by simp
  moreover obtain m where "skipelem [slash, 97, 98, slash, slash, 99] [1, 1, 1, 1] = Some ([99], m)"
    by (simp add: skipelem_def skip_slashes_def)
  ultimately show ?thesis using skipelem_first_element [of "[slash, 97, 98, slash, slash, 99]" "[1, 1, 1, 1]"] by simp
qed

end
