(* ===== verification/Pipe.thy ===== *)
theory Pipe
  imports Fs_Dir
begin

text \<open>
  Pipes, \<open>pipe.c\<close>. A pipe is named by the address of the page that holds it; its
  fields are in \<open>pipes\<close>. A reader or writer that has to wait gives up the processor
  and goes on with the corresponding resume operation.
\<close>

abbreviation (input) PIPESIZE :: nat where "PIPESIZE \<equiv> 512"

definition upd_pipe :: "u32 \<Rightarrow> (pipe \<Rightarrow> pipe) \<Rightarrow> kstate \<Rightarrow> kstate" where
  "upd_pipe p f s = s\<lparr>pipes := (pipes s)(p := f (pipes s p))\<rparr>"

definition pipeclose :: "u32 \<Rightarrow> bool \<Rightarrow> kstate \<Rightarrow> (kstate, unit) outcome" where
  "pipeclose p writable s =
     bnd (kacquire (Pipe_lock p) s) (\<lambda>_ s.
     bnd (if writable
          then wakeup (Some (Chan_pipe_nread p)) (upd_pipe p (\<lambda>q. q\<lparr>p_writeopen := False\<rparr>) s)
          else wakeup (Some (Chan_pipe_nwrite p)) (upd_pipe p (\<lambda>q. q\<lparr>p_readopen := False\<rparr>) s)) (\<lambda>_ s.
     if \<not> p_readopen (pipes s p) \<and> \<not> p_writeopen (pipes s p)
     then bnd (krelease (Pipe_lock p) s) (\<lambda>_ s. kfree p s)
     else krelease (Pipe_lock p) s))"

definition mykilled :: "kstate \<Rightarrow> (kstate, bool) outcome" where
  "mykilled s = bnd (myproc s) (\<lambda>p s. deref p (\<lambda>i. Ret (killed (ptable s ! i)) s))"

definition pipe_put :: "u8 \<Rightarrow> pipe \<Rightarrow> pipe" where
  "pipe_put c q = q\<lparr>p_data := (p_data q)[unat (p_nwrite q) mod PIPESIZE := c], p_nwrite := p_nwrite q + 1\<rparr>"

text \<open>The loop of \<open>pipewrite\<close> with the number of bytes still to be written.\<close>

fun pipewrite_loop :: "u32 \<Rightarrow> u32 \<Rightarrow> int \<Rightarrow> nat \<Rightarrow> kstate \<Rightarrow> (kstate, int) outcome" where
  "pipewrite_loop p a n 0 s =
     bnd (wakeup (Some (Chan_pipe_nread p)) s) (\<lambda>_ s.
     bnd (krelease (Pipe_lock p) s) (\<lambda>_ s.
     Ret n s))"
| "pipewrite_loop p a n (Suc left) s =
     (let q = pipes s p in
      if p_nwrite q = p_nread q + of_nat PIPESIZE
      then
        bnd (if \<not> p_readopen q then Ret True s else mykilled s) (\<lambda>stop s.
        if stop then bnd (krelease (Pipe_lock p) s) (\<lambda>_ s. Ret (- 1) s)
        else
          bnd (wakeup (Some (Chan_pipe_nread p)) s) (\<lambda>_ s.
          sleep (Some (Chan_pipe_nwrite p)) (Pipe_lock p) s))
      else
        bnd (load8 a s) (\<lambda>c s.
        pipewrite_loop p (a + 1) n left (upd_pipe p (pipe_put c) s)))"

definition pipewrite :: "u32 \<Rightarrow> u32 \<Rightarrow> int \<Rightarrow> kstate \<Rightarrow> (kstate, int) outcome" where
  "pipewrite p a n s = bnd (kacquire (Pipe_lock p) s) (\<lambda>_ s. pipewrite_loop p a n (nat n) s)"

definition pipewrite_resume :: "nat \<Rightarrow> bool \<Rightarrow> u32 \<Rightarrow> u32 \<Rightarrow> int \<Rightarrow> nat \<Rightarrow> kstate \<Rightarrow> (kstate, int) outcome" where
  "pipewrite_resume i ie p a n left s =
     bnd (sleep_resume i ie (Pipe_lock p) s) (\<lambda>_ s. pipewrite_loop p a n left s)"

definition pipe_head :: "pipe \<Rightarrow> u8" where
  "pipe_head q = p_data q ! (unat (p_nread q) mod PIPESIZE)"

definition pipe_drop :: "pipe \<Rightarrow> pipe" where
  "pipe_drop q = q\<lparr>p_nread := p_nread q + 1\<rparr>"

fun piperead_copy :: "u32 \<Rightarrow> u32 \<Rightarrow> int \<Rightarrow> nat \<Rightarrow> kstate \<Rightarrow> (kstate, int) outcome" where
  "piperead_copy p a i 0 s = Ret i s"
| "piperead_copy p a i (Suc left) s =
     (let q = pipes s p in
      if p_nread q = p_nwrite q then Ret i s
      else
        bnd (store8 a (pipe_head q) (upd_pipe p pipe_drop s)) (\<lambda>_ s.
        piperead_copy p (a + 1) (i + 1) left s))"

definition piperead_loop :: "u32 \<Rightarrow> u32 \<Rightarrow> int \<Rightarrow> kstate \<Rightarrow> (kstate, int) outcome" where
  "piperead_loop p a n s =
     (let q = pipes s p in
      if p_nread q = p_nwrite q \<and> p_writeopen q
      then
        bnd (mykilled s) (\<lambda>k s.
        if k then bnd (krelease (Pipe_lock p) s) (\<lambda>_ s. Ret (- 1) s)
        else sleep (Some (Chan_pipe_nread p)) (Pipe_lock p) s)
      else
        bnd (piperead_copy p a 0 (nat n) s) (\<lambda>i s.
        bnd (wakeup (Some (Chan_pipe_nwrite p)) s) (\<lambda>_ s.
        bnd (krelease (Pipe_lock p) s) (\<lambda>_ s.
        Ret i s))))"

definition piperead :: "u32 \<Rightarrow> u32 \<Rightarrow> int \<Rightarrow> kstate \<Rightarrow> (kstate, int) outcome" where
  "piperead p a n s = bnd (kacquire (Pipe_lock p) s) (\<lambda>_ s. piperead_loop p a n s)"

definition piperead_resume :: "nat \<Rightarrow> bool \<Rightarrow> u32 \<Rightarrow> u32 \<Rightarrow> int \<Rightarrow> kstate \<Rightarrow> (kstate, int) outcome" where
  "piperead_resume i ie p a n s = bnd (sleep_resume i ie (Pipe_lock p) s) (\<lambda>_ s. piperead_loop p a n s)"

end
