(* ===== verification/Ring.thy ===== *)
theory Ring
  imports Xv6_Prelude
begin

text \<open>
  Ring buffers with free-running 32-bit counters, as the pipes and the console use
  them, and the contract of a bounded first-in first-out queue that they provide.
\<close>

section \<open>Slots\<close>

text \<open>A counter selects a slot modulo the size of the ring, which divides \<open>2 ^ 32\<close>.\<close>

lemma slot_add:
  assumes "n dvd 2 ^ 32"
  shows "unat ((r :: u32) + of_nat k) mod n = (unat r + k) mod n"
proof -
  have "unat (r + of_nat k) = (unat r + k) mod 2 ^ 32"
    by (simp add: unat_word_ariths unat_of_nat take_bit_eq_mod mod_add_right_eq)
  then show ?thesis using assms by (simp only: mod_mod_cancel)
qed

lemma slots_differ:
  assumes "(a + j) mod n = (a + k) mod (n :: nat)" "j < k" "k < j + n"
  shows False
proof -
  have "n dvd (a + k) - (a + j)" using assms mod_eq_dvd_iff_nat [of "a + j" "a + k" n] by simp
  then have "n dvd k - j" by simp
  moreover have "0 < k - j" "k - j < n" using assms by simp_all
  ultimately show False by (auto dest: dvd_imp_le)
qed

lemma dvd_ring [simp]: "(512 :: nat) dvd 2 ^ 32" "(128 :: nat) dvd 2 ^ 32"
  by simp_all

section \<open>Bounded queues\<close>

locale fifo =
  fixes items :: "'q \<Rightarrow> 'a list"
    and ok :: "'q \<Rightarrow> bool"
    and cap :: nat
    and enq :: "'a \<Rightarrow> 'q \<Rightarrow> 'q"
    and front :: "'q \<Rightarrow> 'a"
    and deq :: "'q \<Rightarrow> 'q"
  assumes bounded: "ok q \<Longrightarrow> length (items q) \<le> cap"
    and enq_spec: "ok q \<Longrightarrow> length (items q) < cap \<Longrightarrow> ok (enq x q) \<and> items (enq x q) = items q @ [x]"
    and deq_spec: "ok q \<Longrightarrow> items q \<noteq> [] \<Longrightarrow> ok (deq q) \<and> items q = front q # items (deq q)"
begin

lemma enq_all:
  "ok q \<Longrightarrow> length (items q) + length xs \<le> cap \<Longrightarrow> ok (fold enq xs q) \<and> items (fold enq xs q) = items q @ xs"
proof (induction xs arbitrary: q)
  case (Cons x xs)
  then show ?case using enq_spec [of q x] Cons.IH [of "enq x q"] by simp
qed simp

lemma deq_all: "ok q \<Longrightarrow> n \<le> length (items q) \<Longrightarrow> ok ((deq ^^ n) q) \<and> items q = map (\<lambda>k. front ((deq ^^ k) q)) [0..<n] @ items ((deq ^^ n) q)"
proof (induction n)
  case (Suc n)
  then have *: "ok ((deq ^^ n) q)" "items q = map (\<lambda>k. front ((deq ^^ k) q)) [0..<n] @ items ((deq ^^ n) q)" by auto
  then have "length (items q) = n + length (items ((deq ^^ n) q))" by (metis diff_zero length_append length_map length_upt)
  then have "items ((deq ^^ n) q) \<noteq> []" using Suc.prems(2) by auto
  from deq_spec [OF *(1) this] show ?case using *(2) by simp
qed simp

end

end
