(* ===== verification/Pipe_Props.thy ===== *)
theory Pipe_Props
  imports Pipe Ring Usermem_Props
begin

text \<open>
  A pipe as a queue of bytes: its ring holds the bytes accepted and not yet
  delivered, in order, and readers receive what writers sent.
\<close>

section \<open>The ring\<close>

definition pipe_len :: "pipe \<Rightarrow> nat" where
  "pipe_len q = unat (p_nwrite q - p_nread q)"

definition pipe_bytes :: "pipe \<Rightarrow> u8 list" where
  "pipe_bytes q = map (\<lambda>k. p_data q ! ((unat (p_nread q) + k) mod PIPESIZE)) [0..<pipe_len q]"

definition pipe_ok :: "pipe \<Rightarrow> bool" where
  "pipe_ok q \<longleftrightarrow> length (p_data q) = PIPESIZE \<and> pipe_len q \<le> PIPESIZE"

lemma length_pipe_bytes [simp]: "length (pipe_bytes q) = pipe_len q"
  by (simp add: pipe_bytes_def)

lemma pipe_len_put: "pipe_len q < PIPESIZE \<Longrightarrow> pipe_len (pipe_put c q) = Suc (pipe_len q)"
proof -
  assume *: "pipe_len q < PIPESIZE"
  have eq: "p_nwrite q + 1 - p_nread q = (p_nwrite q - p_nread q) + 1" by simp
  have "unat ((p_nwrite q - p_nread q) + 1) = Suc (unat (p_nwrite q - p_nread q))"
    using * by (subst unat_word_ariths) (simp add: pipe_len_def)
  then show ?thesis unfolding eq [symmetric] by (simp add: pipe_len_def pipe_put_def)
qed

lemma pipe_len_drop: "0 < pipe_len q \<Longrightarrow> pipe_len q = Suc (pipe_len (pipe_drop q))"
proof -
  assume "0 < pipe_len q"
  then have "p_nwrite q - p_nread q \<noteq> 0" by (auto simp: pipe_len_def)
  from unat_minus_one [OF this] \<open>0 < pipe_len q\<close> show ?thesis
    by (simp add: pipe_len_def pipe_drop_def diff_diff_eq [symmetric])
qed

lemma pipe_nwrite_slot: "unat (p_nwrite q) mod PIPESIZE = (unat (p_nread q) + pipe_len q) mod PIPESIZE"
  using slot_add [of PIPESIZE "p_nread q" "pipe_len q"] by (simp add: pipe_len_def)

lemma pipe_bytes_put:
  assumes "pipe_ok q" "pipe_len q < PIPESIZE"
  shows "pipe_bytes (pipe_put c q) = pipe_bytes q @ [c]"
proof -
  let ?r = "unat (p_nread q)" and ?n = "pipe_len q"
  have "p_data (pipe_put c q) ! ((?r + k) mod PIPESIZE) = p_data q ! ((?r + k) mod PIPESIZE)" if "k < ?n" for k
  proof -
    have "(?r + k) mod PIPESIZE \<noteq> (?r + ?n) mod PIPESIZE"
      using slots_differ [of ?r k PIPESIZE ?n] that assms(2) by auto
    then show ?thesis using pipe_nwrite_slot [of q] by (simp add: pipe_put_def)
  qed
  moreover have "p_data (pipe_put c q) ! ((?r + ?n) mod PIPESIZE) = c"
    using assms(1) pipe_nwrite_slot [of q] by (simp add: pipe_put_def pipe_ok_def)
  moreover have "p_nread (pipe_put c q) = p_nread q" by (simp add: pipe_put_def)
  ultimately show ?thesis using assms(2) by (simp add: pipe_bytes_def pipe_len_put)
qed

lemma pipe_bytes_drop:
  assumes "0 < pipe_len q"
  shows "pipe_bytes q = pipe_head q # pipe_bytes (pipe_drop q)"
proof -
  have "unat (p_nread q + 1) mod PIPESIZE = (unat (p_nread q) + 1) mod PIPESIZE"
    using slot_add [of PIPESIZE "p_nread q" 1] by simp
  then have "(unat (p_nread (pipe_drop q)) + k) mod PIPESIZE = (unat (p_nread q) + Suc k) mod PIPESIZE" for k
    by (simp add: pipe_drop_def) (metis add.commute add_Suc mod_add_left_eq plus_1_eq_Suc)
  moreover have "p_data (pipe_drop q) = p_data q" by (simp add: pipe_drop_def)
  ultimately show ?thesis
    unfolding pipe_bytes_def pipe_len_drop [OF assms]
    by (simp add: upt_conv_Cons map_Suc_upt [symmetric] pipe_head_def del: upt_Suc)
qed

text \<open>The pipe provides the contract of a bounded queue.\<close>

interpretation pq_fifo: fifo pipe_bytes pipe_ok PIPESIZE pipe_put pipe_head pipe_drop
proof
  fix q
  show "pipe_ok q \<Longrightarrow> length (pipe_bytes q) \<le> PIPESIZE" by (simp add: pipe_ok_def)
  show "pipe_ok q \<Longrightarrow> length (pipe_bytes q) < PIPESIZE \<Longrightarrow>
      pipe_ok (pipe_put x q) \<and> pipe_bytes (pipe_put x q) = pipe_bytes q @ [x]" for x
    using pipe_bytes_put [of q x] by (simp add: pipe_ok_def pipe_len_put) (simp add: pipe_put_def)
  show "pipe_ok q \<Longrightarrow> pipe_bytes q \<noteq> [] \<Longrightarrow>
      pipe_ok (pipe_drop q) \<and> pipe_bytes q = pipe_head q # pipe_bytes (pipe_drop q)"
  proof -
    assume *: "pipe_ok q" "pipe_bytes q \<noteq> []"
    then have "0 < pipe_len q" by (metis length_greater_0_conv length_pipe_bytes)
    from pipe_len_drop [OF this] pipe_bytes_drop [OF this] * show ?thesis
      by (simp add: pipe_ok_def) (simp add: pipe_drop_def)
  qed
qed

lemma pipe_full: "pipe_ok q \<Longrightarrow> p_nwrite q = p_nread q + of_nat PIPESIZE \<longleftrightarrow> pipe_len q = PIPESIZE"
proof -
  have "p_nwrite q = p_nread q + 512 \<longleftrightarrow> p_nwrite q - p_nread q = 512" by (simp add: diff_eq_eq add.commute)
  also have "\<dots> \<longleftrightarrow> unat (p_nwrite q - p_nread q) = unat (512 :: u32)" by (simp add: unsigned_word_eqI word_unat_eq_iff)
  finally show ?thesis by (simp add: pipe_len_def)
qed

lemma pipe_empty: "p_nread q = p_nwrite q \<longleftrightarrow> pipe_bytes q = []"
proof -
  have "pipe_bytes q = [] \<longleftrightarrow> pipe_len q = 0" by (metis length_0_conv length_pipe_bytes)
  then show ?thesis by (auto simp: pipe_len_def unat_eq_zero)
qed

section \<open>Writers and readers\<close>

lemma mykilled_keeps [frame]: "hw_free P \<Longrightarrow> P s \<Longrightarrow> keeps (mykilled s) P"
  by (auto simp: mykilled_def deref_def split: option.split intro!: frame)

lemma pipe_free [simp]: "pt_free (\<lambda>t. pipes t p = q)" "pt_free (\<lambda>t. pipes t p = q \<and> mem t = m)"
  by (simp_all add: pt_free_def)

lemma pipe_hw_free [simp]: "hw_free (\<lambda>t. pipes t p = q)" "hw_free (\<lambda>t. pipes t p = q \<and> mem t = m)"
  by (simp_all add: hw_free_def)

lemma upd_pipe_sel [simp]:
  "pipes (upd_pipe p f s) p = f (pipes s p)" "mem (upd_pipe p f s) = mem s" "cr3 (upd_pipe p f s) = cr3 s"
  "hw (upd_pipe p f s) = hw s"
  by (simp_all add: upd_pipe_def)

text \<open>However a writer leaves the loop, the ring has gained the first bytes of its buffer.\<close>

lemma pipewrite_loop_keeps:
  "pipe_ok (pipes s p) \<Longrightarrow> keeps (pipewrite_loop p a n left s)
     (\<lambda>t. \<exists>k. pipe_len (pipes s p) + k \<le> PIPESIZE \<and> pipes t p = fold pipe_put (user_bytes a k s) (pipes s p))"
proof (induction left arbitrary: a s)
  case 0
  have "keeps (pipewrite_loop p a n 0 s) (\<lambda>t. pipes t p = pipes s p)" by (auto intro!: frame)
  then show ?case using 0 by (elim keeps_mono) (auto simp: pipe_ok_def intro!: exI [of _ 0])
next
  case (Suc left)
  let ?q = "pipes s p"
  show ?case
  proof (cases "p_nwrite ?q = p_nread ?q + of_nat PIPESIZE")
    case True
    then have "keeps (pipewrite_loop p a n (Suc left) s) (\<lambda>t. pipes t p = ?q)"
      by (auto simp: Let_def intro!: frame)
    then show ?thesis using Suc.prems by (elim keeps_mono) (auto simp: pipe_ok_def intro!: exI [of _ 0])
  next
    case False
    have room: "pipe_len ?q < PIPESIZE" using False Suc.prems pipe_full [of ?q] by (auto simp: pipe_ok_def)
    show ?thesis
    proof (cases "translate False a s")
      case None
      with False show ?thesis by (simp add: load8_def)
    next
      case (Some x)
      let ?c = "user_byte a s" and ?s = "upd_pipe p (pipe_put (user_byte a s)) s"
      have ok: "pipe_ok (pipes ?s p)" using pq_fifo.enq_spec [of ?q ?c] Suc.prems room by (simp add: upd_pipe_def)
      have ub: "user_bytes (a + 1) k ?s = user_bytes (a + 1) k s" for k
        by (rule user_bytes_cong) (simp_all add: upd_pipe_def)
      have "pipewrite_loop p a n (Suc left) s = pipewrite_loop p (a + 1) n left ?s"
        using False Some by (simp add: load8_ok)
      moreover have "keeps (pipewrite_loop p (a + 1) n left ?s) (\<lambda>t. \<exists>k. pipe_len (pipes s p) + k \<le> PIPESIZE
          \<and> pipes t p = fold pipe_put (user_bytes a k s) ?q)"
      proof (rule keeps_mono [OF Suc.IH [OF ok]], elim exE conjE)
        fix t k assume "pipe_len (pipes ?s p) + k \<le> PIPESIZE"
          "pipes t p = fold pipe_put (user_bytes (a + 1) k ?s) (pipes ?s p)"
        then show "\<exists>k. pipe_len ?q + k \<le> PIPESIZE \<and> pipes t p = fold pipe_put (user_bytes a k s) ?q"
          using room by (intro exI [of _ "Suc k"]) (simp add: ub user_bytes_Suc pipe_len_put)
      qed
      ultimately show ?thesis by simp
    qed
  qed
qed

lemma piperead_copy_eq:
  "pipe_ok (pipes s p) \<Longrightarrow> writable_buf a left f s \<Longrightarrow> m = min left (pipe_len (pipes s p)) \<Longrightarrow>
   piperead_copy p a i left s = Ret (i + int m)
     (upd_pipe p (pipe_drop ^^ m) s\<lparr>mem := put_bytes f (take m (pipe_bytes (pipes s p))) (mem s)\<rparr>)"
proof (induction left arbitrary: a f i m s)
  case 0
  then show ?case by (simp add: upd_pipe_def put_bytes_def)
next
  case (Suc left)
  let ?q = "pipes s p"
  show ?case
  proof (cases "pipe_bytes ?q = []")
    case True
    then have "pipe_len ?q = 0" by (metis length_pipe_bytes list.size(3))
    with True pipe_empty [of ?q] Suc.prems show ?thesis by (simp add: upd_pipe_def put_bytes_def)
  next
    case False
    let ?u = "upd_pipe p pipe_drop s\<lparr>mem := (mem s)(f 0 := pipe_head ?q)\<rparr>"
    have dq: "pipe_ok (pipe_drop ?q)" "pipe_bytes ?q = pipe_head ?q # pipe_bytes (pipe_drop ?q)"
      using pq_fifo.deq_spec [OF Suc.prems(1) False] by simp_all
    then have len: "pipe_len ?q = Suc (pipe_len (pipe_drop ?q))" by (metis length_Cons length_pipe_bytes)
    have wb: "writable_buf a (Suc left) f (upd_pipe p pipe_drop s)"
      using writable_buf_put [OF Suc.prems(2), of "[]" "upd_pipe p pipe_drop s"] by (simp add: put_bytes_def upd_pipe_def)
    have "store8 a (pipe_head ?q) (upd_pipe p pipe_drop s) = Ret () ?u"
      using store8_ok [OF wb, of 0 "pipe_head ?q"] by (simp add: upd_pipe_def)
    then have step: "piperead_copy p a i (Suc left) s = piperead_copy p (a + 1) (i + 1) left ?u"
      using False pipe_empty [of ?q] by (simp add: Let_def)
    let ?m = "min left (pipe_len (pipe_drop ?q))"
    have wb': "writable_buf (a + 1) left (\<lambda>k. f (Suc k)) ?u"
      using writable_buf_shift [OF wb, of "pipe_head ?q"] by simp
    have "piperead_copy p (a + 1) (i + 1) left ?u = Ret (i + 1 + int ?m)
        (upd_pipe p (pipe_drop ^^ ?m) ?u\<lparr>mem := put_bytes (\<lambda>k. f (Suc k)) (take ?m (pipe_bytes (pipe_drop ?q))) (mem ?u)\<rparr>)"
      using dq(1) by (subst Suc.IH [OF _ wb', of ?m]) simp_all
    also have "upd_pipe p (pipe_drop ^^ ?m) ?u = upd_pipe p (pipe_drop ^^ Suc ?m) s\<lparr>mem := mem ?u\<rparr>"
      by (simp add: upd_pipe_def funpow_Suc_right del: funpow.simps)
    also have "put_bytes (\<lambda>k. f (Suc k)) (take ?m (pipe_bytes (pipe_drop ?q))) (mem ?u)
        = put_bytes f (take (Suc ?m) (pipe_bytes ?q)) (mem s)"
      unfolding dq(2) by (simp add: put_bytes_Cons)
    finally have fin: "piperead_copy p (a + 1) (i + 1) left ?u = Ret (i + 1 + int ?m)
        (upd_pipe p (pipe_drop ^^ Suc ?m) s\<lparr>mem := mem ?u, mem := put_bytes f (take (Suc ?m) (pipe_bytes ?q)) (mem s)\<rparr>)" .
    have "m = Suc ?m" using Suc.prems(3) len by simp
    then show ?thesis unfolding step fin by (simp add: comp_def)
  qed
qed

lemma piperead_loop_Ret:
  assumes "piperead_loop p a n s = Ret r t" "pipe_ok (pipes s p)" "writable_buf a (nat n) f s"
  shows "\<exists>m. m \<le> pipe_len (pipes s p) \<and> nat r = m \<and> pipes t p = (pipe_drop ^^ m) (pipes s p)
    \<and> map (\<lambda>k. mem t (f k)) [0..<m] = take m (pipe_bytes (pipes s p))"
proof (cases "p_nread (pipes s p) = p_nwrite (pipes s p) \<and> p_writeopen (pipes s p)")
  case True
  have "keeps (mykilled s) (\<lambda>t. pipes t p = pipes s p)"
    "\<And>u. pipes u p = pipes s p \<Longrightarrow> keeps (krelease (Pipe_lock p) u) (\<lambda>t. pipes t p = pipes s p)"
    by (auto intro!: frame)
  then have "nat r = 0 \<and> pipes t p = pipes s p"
    using assms(1) True by (auto simp: piperead_loop_def bnd_Ret_iff sleep_not_Ret dest: keepsD split: if_splits)
  then show ?thesis by simp
next
  case False
  let ?q = "pipes s p"
  define m where "m = min (nat n) (pipe_len ?q)"
  let ?u = "upd_pipe p (pipe_drop ^^ m) s\<lparr>mem := put_bytes f (take m (pipe_bytes ?q)) (mem s)\<rparr>"
  let ?P = "\<lambda>t. pipes t p = pipes ?u p \<and> mem t = mem ?u"
  have "keeps (bnd (wakeup (Some (Chan_pipe_nwrite p)) ?u) (\<lambda>_ s. bnd (krelease (Pipe_lock p) s) (\<lambda>_ s. Ret (int m) s))) ?P"
    by (auto intro!: frame)
  moreover have "bnd (wakeup (Some (Chan_pipe_nwrite p)) ?u) (\<lambda>_ s. bnd (krelease (Pipe_lock p) s) (\<lambda>_ s. Ret (int m) s)) = Ret r t"
    using assms(1) False piperead_copy_eq [OF assms(2,3) m_def, of 0] by (simp add: piperead_loop_def Let_def)
  ultimately have t: "?P t" "r = int m" by (auto simp: bnd_Ret_iff dest: keepsD)
  have len: "length (take m (pipe_bytes ?q)) = m" by (simp add: m_def)
  have "inj_on f {..<nat n}" using assms(3) by (simp add: writable_buf_def)
  then have "inj_on f {..<length (take m (pipe_bytes ?q))}" by (rule inj_on_subset) (simp add: m_def)
  from put_bytes_read [OF this, of "mem s"] t show ?thesis unfolding len by (simp add: m_def)
qed

lemma piperead_loop_Swtch: "piperead_loop p a n s = Swtch t \<Longrightarrow> pipe_ok (pipes s p) \<Longrightarrow> writable_buf a (nat n) f s \<Longrightarrow>
  pipes t p = pipes s p"
proof -
  assume *: "piperead_loop p a n s = Swtch t" "pipe_ok (pipes s p)" "writable_buf a (nat n) f s"
  let ?m = "min (nat n) (pipe_len (pipes s p))"
  have "stays (bnd (wakeup ch u) (\<lambda>_ s. bnd (krelease (Pipe_lock p) s) (\<lambda>_ s. Ret r s)))" for ch u and r :: int
    by (auto intro!: frame)
  then have "p_nread (pipes s p) = p_nwrite (pipes s p) \<and> p_writeopen (pipes s p)"
    using *(1) piperead_copy_eq [OF *(2,3) refl, of 0]
    by (auto simp: piperead_loop_def Let_def split: if_splits dest: arg_cong [where f = stays])
  then have "keeps (piperead_loop p a n s) (\<lambda>t. pipes t p = pipes s p)"
    by (auto simp: piperead_loop_def Let_def intro!: frame)
  with *(1) show ?thesis by simp
qed

section \<open>The life of a pipe\<close>

text \<open>
  A history of one pipe: processes write to it and read from it, wait for room or for
  data and come back, either end is closed, and in between anything may happen that
  leaves the ring alone. The lists are the bytes that the writers' calls have handed
  over and the bytes that the readers' calls have left in the buffers of the callers.
\<close>

inductive pipe_run :: "u32 \<Rightarrow> kstate \<Rightarrow> u8 list \<Rightarrow> u8 list \<Rightarrow> bool" for p where
  start: "pipe_ok (pipes s p) \<Longrightarrow> p_nread (pipes s p) = p_nwrite (pipes s p) \<Longrightarrow> pipe_run p s [] []"
| other: "pipe_run p s W R \<Longrightarrow> pipes t p = pipes s p \<Longrightarrow> pipe_run p t W R"
| send: "pipe_run p s W R \<Longrightarrow> m = pipewrite p a n s \<or> m = pipewrite_resume i ie p a n left s \<Longrightarrow>
    m = Ret r t \<or> m = Swtch t \<Longrightarrow>
    pipe_run p t (W @ user_bytes a (unat (p_nwrite (pipes t p) - p_nwrite (pipes s p))) s) R"
| receive: "pipe_run p s W R \<Longrightarrow> m = piperead p a n s \<or> m = piperead_resume i ie p a n s \<Longrightarrow>
    writable_buf a (nat n) f s \<Longrightarrow> m = Ret r t \<Longrightarrow> pipe_run p t W (R @ map (\<lambda>k. mem t (f k)) [0..<nat r])"
| hold: "pipe_run p s W R \<Longrightarrow> m = piperead p a n s \<or> m = piperead_resume i ie p a n s \<Longrightarrow>
    writable_buf a (nat n) f s \<Longrightarrow> m = Swtch t \<Longrightarrow> pipe_run p t W R"
| shut: "pipe_run p s W R \<Longrightarrow> pipeclose p w s = Ret () t \<Longrightarrow> pipe_run p t W R"

lemma cr3_free [simp]: "pt_free (\<lambda>t. pipes t p = q \<and> mem t = m \<and> cr3 t = c)" "hw_free (\<lambda>t. pipes t p = q \<and> mem t = m \<and> cr3 t = c)"
  by (simp_all add: pt_free_def hw_free_def)

text \<open>What precedes the loop, on entry or after a sleep, changes neither the ring nor memory.\<close>

definition pipe_entry :: "u32 \<Rightarrow> kstate \<Rightarrow> kstate \<Rightarrow> bool" where
  "pipe_entry p s u \<longleftrightarrow> pipes u p = pipes s p \<and> mem u = mem s \<and> cr3 u = cr3 s"

lemma pipe_entry_keeps: "keeps (kacquire (Pipe_lock p) s) (pipe_entry p s)" "keeps (sleep_resume i ie (Pipe_lock p) s) (pipe_entry p s)"
  unfolding pipe_entry_def by (auto intro!: frame)

lemma stays_sleep_resume [frame]: "stays (sleep_resume i ie l s)"
  by (auto simp: sleep_resume_def sched_resume_def Let_def intro!: frame)

lemma pipewrite_enters:
  assumes "m = pipewrite p a n s \<or> m = pipewrite_resume i ie p a n left s" "m = Ret r t \<or> m = Swtch t"
  shows "\<exists>u k. pipe_entry p s u \<and> m = pipewrite_loop p a n k u"
  using assms(1)
proof
  assume "m = pipewrite p a n s"
  from bnd_entered [OF this [unfolded pipewrite_def] assms(2) pipe_entry_keeps(1) stays_kernel(1)]
  show ?thesis by blast
next
  assume "m = pipewrite_resume i ie p a n left s"
  from bnd_entered [OF this [unfolded pipewrite_resume_def] assms(2) pipe_entry_keeps(2) stays_sleep_resume]
  show ?thesis by blast
qed

lemma piperead_enters:
  assumes "m = piperead p a n s \<or> m = piperead_resume i ie p a n s" "m = Ret r t \<or> m = Swtch t"
  shows "\<exists>u. pipe_entry p s u \<and> m = piperead_loop p a n u"
  using assms(1)
proof
  assume "m = piperead p a n s"
  from bnd_entered [OF this [unfolded piperead_def] assms(2) pipe_entry_keeps(1) stays_kernel(1)]
  show ?thesis by blast
next
  assume "m = piperead_resume i ie p a n s"
  from bnd_entered [OF this [unfolded piperead_resume_def] assms(2) pipe_entry_keeps(2) stays_sleep_resume]
  show ?thesis by blast
qed

lemma p_nwrite_fold: "p_nwrite (fold pipe_put bs q) = p_nwrite q + of_nat (length bs)"
  by (induction bs arbitrary: q) (simp_all add: pipe_put_def)

lemma kfree_pipes: "pipes s p = q \<Longrightarrow> keeps (kfree a s) (\<lambda>t. pipes t p = q)"
  by (auto simp: kfree_def Let_def intro!: frame)

definition same_ring :: "pipe \<Rightarrow> pipe \<Rightarrow> bool" where
  "same_ring q q' \<longleftrightarrow> pipe_bytes q' = pipe_bytes q \<and> pipe_ok q' = pipe_ok q"

lemma same_ring_open: "same_ring q (q\<lparr>p_writeopen := w\<rparr>)" "same_ring q (q\<lparr>p_readopen := w\<rparr>)"
  by (simp_all add: same_ring_def pipe_bytes_def pipe_ok_def pipe_len_def)

lemma ring_free [simp]: "pt_free (\<lambda>t. P (pipes t p))" "hw_free (\<lambda>t. P (pipes t p))"
  by (simp_all add: pt_free_def hw_free_def)

lemma pipeclose_keeps: "keeps (pipeclose p w s) (\<lambda>t. same_ring (pipes s p) (pipes t p))"
proof -
  have kf: "same_ring (pipes s p) (pipes u p) \<Longrightarrow> keeps (kfree p u) (\<lambda>t. same_ring (pipes s p) (pipes t p))" for u
    by (rule keeps_mono [OF kfree_pipes [where s = u and p = p, OF refl]]) simp
  have eq: "pipes u p = pipes s p \<Longrightarrow>
      same_ring (pipes s p) (pipes (upd_pipe p (\<lambda>q. q\<lparr>p_writeopen := False\<rparr>) u) p)
      \<and> same_ring (pipes s p) (pipes (upd_pipe p (\<lambda>q. q\<lparr>p_readopen := False\<rparr>) u) p)" for u
    using same_ring_open [of "pipes s p"] by simp
  have "keeps (if w then wakeup c (upd_pipe p (\<lambda>q. q\<lparr>p_writeopen := False\<rparr>) u)
      else wakeup d (upd_pipe p (\<lambda>q. q\<lparr>p_readopen := False\<rparr>) u)) (\<lambda>t. same_ring (pipes s p) (pipes t p))"
    if "pipes u p = pipes s p" for u c d
    using eq [OF that] by (auto intro!: frame)
  then show ?thesis
    unfolding pipeclose_def
    by (cases "kacquire (Pipe_lock p) s") (use keepsD(1) [OF pipe_entry_keeps(1) [of p s]] stays_kernel(1) [of "Pipe_lock p" s]
      in \<open>auto simp: pipe_entry_def intro!: keeps_bnd [where P = "\<lambda>t. same_ring (pipes s p) (pipes t p)"] frame kf same_ring_open\<close>)
qed

lemma pipe_run_bytes: "pipe_run p s W R \<Longrightarrow> pipe_ok (pipes s p) \<and> W = R @ pipe_bytes (pipes s p)"
proof (induction rule: pipe_run.induct)
  case (start s)
  then show ?case by (simp add: pipe_empty)
next
  case (send s W R m a n i ie left r t)
  from pipewrite_enters [OF send.hyps(2,3)] obtain u k where
    u: "pipe_entry p s u" "m = pipewrite_loop p a n k u" by blast
  then have ok: "pipe_ok (pipes u p)" using send.IH by (simp add: pipe_entry_def)
  from pipewrite_loop_keeps [OF ok, of a n k] obtain j where
    j: "pipe_len (pipes u p) + j \<le> PIPESIZE" "pipes t p = fold pipe_put (user_bytes a j u) (pipes u p)"
    using send.hyps(3) u(2) by auto
  then have t: "pipe_ok (pipes t p)" "pipe_bytes (pipes t p) = pipe_bytes (pipes s p) @ user_bytes a j s"
    using pq_fifo.enq_all [OF ok, of "user_bytes a j u"] u(1) user_bytes_cong [of u s a j] by (simp_all add: pipe_entry_def)
  have "unat (p_nwrite (pipes t p) - p_nwrite (pipes s p)) = j"
    using j u(1) by (simp add: p_nwrite_fold pipe_entry_def unat_of_nat take_bit_nat_eq_self)
  with t send.IH show ?case by simp
next
  case (receive s W R m a n i ie f r t)
  from piperead_enters [OF receive.hyps(2)] receive.hyps(4) obtain u where
    u: "pipe_entry p s u" "piperead_loop p a n u = Ret r t" by metis
  have "writable_buf a (nat n) f u"
    using writable_buf_put [OF receive.hyps(3), of "[]" u] u(1) by (simp add: put_bytes_def pipe_entry_def)
  moreover have ok: "pipe_ok (pipes u p)" using u(1) receive.IH by (simp add: pipe_entry_def)
  ultimately obtain m where m: "m \<le> pipe_len (pipes u p)" "nat r = m" "pipes t p = (pipe_drop ^^ m) (pipes u p)"
      "map (\<lambda>k. mem t (f k)) [0..<m] = take m (pipe_bytes (pipes u p))"
    using piperead_loop_Ret [OF u(2)] by blast
  from pq_fifo.deq_all [OF ok, of m] m(1,3) have d: "pipe_ok (pipes t p)"
      "pipe_bytes (pipes u p) = take m (pipe_bytes (pipes u p)) @ pipe_bytes (pipes t p)"
    by (auto simp: append_eq_conv_conj)
  with m(2,4) receive.IH u(1) show ?case by (simp add: pipe_entry_def)
next
  case (hold s W R m a n i ie f t)
  from piperead_enters [OF hold.hyps(2)] hold.hyps(4) obtain u where
    u: "pipe_entry p s u" "piperead_loop p a n u = Swtch t" by metis
  have "writable_buf a (nat n) f u"
    using writable_buf_put [OF hold.hyps(3), of "[]" u] u(1) by (simp add: put_bytes_def pipe_entry_def)
  then have "pipes t p = pipes u p"
    using piperead_loop_Swtch [OF u(2)] hold.IH u(1) by (simp add: pipe_entry_def)
  with hold.IH u(1) show ?case by (simp add: pipe_entry_def)
next
  case (shut s W R w t)
  then show ?case using keepsD(1) [OF pipeclose_keeps [of p w s]] by (simp add: same_ring_def)
qed simp

section \<open>Properties\<close>

text \<open>
  C9: A pipe neither loses nor reorders nor invents bytes. At any time in its life,
  what its readers have received so far, followed by what its ring holds, is what its
  writers have handed over, and the ring never holds more than 512 bytes. Calls that
  wait in the middle, counters that wrap around and ends that are closed do not
  matter.
\<close>

theorem pipe_fifo:
  assumes "pipe_run p s W R"
  shows "W = R @ pipe_bytes (pipes s p) \<and> length (pipe_bytes (pipes s p)) \<le> 512"
  using pipe_run_bytes [OF assms] pq_fifo.bounded by auto

lemma pipewrite_loop_ok:
  assumes "hw s = lock_in (Pipe_lock p) h" "cpu_ok h" "locks h (Pipe_lock p) = free_lock" "locks h Ptable_lock = free_lock"
    "pipe_ok (pipes s p)" "pipe_len (pipes s p) + left \<le> PIPESIZE" "readable a left s"
  shows "pipewrite_loop p a n left s = Ret n
    (wakeup1 (Some (Chan_pipe_nread p)) (upd_pipe p (fold pipe_put (user_bytes a left s)) s)\<lparr>hw := touch h\<rparr>)"
  using assms
proof (induction left arbitrary: a s)
  case 0
  then show ?case by (simp add: wakeup_ok can_lock_def krelease_lock_in upd_pipe_def)
next
  case (Suc left)
  let ?s = "upd_pipe p (pipe_put (user_byte a s)) s"
  have ok: "pipe_ok (pipes ?s p)" "pipe_len (pipes ?s p) + left \<le> PIPESIZE"
    using pq_fifo.enq_spec [of "pipes s p" "user_byte a s"] Suc.prems by (simp_all add: pipe_len_put)
  have r: "translate False a s \<noteq> None" "readable (a + 1) left ?s"
    using Suc.prems(7) readable_cong [of ?s s "a + 1" left] by (simp_all add: readable_Suc)
  have "pipe_len (pipes s p) \<noteq> PIPESIZE" using Suc.prems(6) by simp
  then have "pipewrite_loop p a n (Suc left) s = pipewrite_loop p (a + 1) n left ?s"
    using pipe_full [of "pipes s p"] Suc.prems(5) r(1) by (simp add: Let_def load8_ok)
  moreover have "upd_pipe p (fold pipe_put bs) ?s = upd_pipe p (fold pipe_put (user_byte a s # bs)) s" for bs
    by (simp add: upd_pipe_def)
  moreover have "user_bytes (a + 1) left ?s = user_bytes (a + 1) left s" by (rule user_bytes_cong) simp_all
  ultimately show ?case using Suc.IH [of ?s "a + 1"] Suc.prems(1-4) ok r(2) by (simp add: user_bytes_Suc comp_def)
qed

lemma pipewrite_ok:
  assumes "cpu_ok (hw s)" "locks (hw s) (Pipe_lock p) = free_lock" "locks (hw s) Ptable_lock = free_lock"
    "pipe_ok (pipes s p)" "pipe_len (pipes s p) + nat n \<le> PIPESIZE" "readable a (nat n) s"
  shows "pipewrite p a n s = Ret n (wakeup1 (Some (Chan_pipe_nread p))
    (upd_pipe p (fold pipe_put (user_bytes a (nat n) s)) s)\<lparr>hw := touch (hw s)\<rparr>)"
proof -
  let ?u = "s\<lparr>hw := lock_in (Pipe_lock p) (hw s)\<rparr>"
  have "user_bytes a (nat n) ?u = user_bytes a (nat n) s" "readable a (nat n) ?u"
    using user_bytes_cong [of ?u s] readable_cong [of ?u s] assms(6) by simp_all
  then show ?thesis
    using pipewrite_loop_ok [of ?u p "hw s" "nat n" a n] assms
    by (simp add: pipewrite_def kacquire_free upd_pipe_def wakeup1_def)
qed

text \<open>
  C12: What one process writes into an empty pipe, another reads from it: a write of at
  most 512 bytes returns at once with their number, and a read of as many bytes then
  returns at once too, leaves the bytes in the reader's buffer and the pipe empty.
\<close>

theorem pipe_transfer:
  assumes "cpu_ok (hw s)" "locks (hw s) (Pipe_lock p) = free_lock" "locks (hw s) Ptable_lock = free_lock"
    and "pipe_ok (pipes s p)" "pipe_bytes (pipes s p) = []" "0 < n" "n \<le> 512"
    and "readable a (nat n) s" "writable_buf b (nat n) f s"
  shows "returns (pipewrite p a n s) (\<lambda>r t. r = n \<and> returns (piperead p b n t) (\<lambda>r u. r = n
    \<and> map (\<lambda>k. mem u (f k)) [0..<nat n] = user_bytes a (nat n) s \<and> pipe_bytes (pipes u p) = []))"
proof -
  let ?q = "pipes s p" and ?bs = "user_bytes a (nat n) s"
  have "pipe_len ?q = 0" using assms(5) by (metis length_pipe_bytes list.size(3))
  let ?t = "wakeup1 (Some (Chan_pipe_nread p)) (upd_pipe p (fold pipe_put ?bs) s)\<lparr>hw := touch (hw s)\<rparr>"
  have w: "pipewrite p a n s = Ret n ?t" using pipewrite_ok assms \<open>pipe_len ?q = 0\<close> by simp
  define q where "q = fold pipe_put ?bs ?q"
  have q: "pipe_ok q" "pipe_bytes q = ?bs"
    using pq_fifo.enq_all [OF assms(4), of ?bs] assms(5,7) by (simp_all add: q_def)
  then have lq: "pipe_len q = nat n" by (metis length_pipe_bytes length_user_bytes)
  let ?v = "?t\<lparr>hw := lock_in (Pipe_lock p) (touch (hw s))\<rparr>"
  have v: "pipes ?v p = q" "mem ?v = mem s" "cr3 ?v = cr3 s" by (simp_all add: q_def wakeup1_def)
  have "writable_buf b (nat n) f ?v"
    using writable_buf_put [OF assms(9), of "[]" ?v] v by (simp add: put_bytes_def)
  moreover have "p_nread q \<noteq> p_nwrite q" using pipe_empty [of q] q(2) assms(6) by (metis length_0_conv length_user_bytes less_irrefl zero_less_nat_eq)
  ultimately have x: "piperead p b n ?t = Ret n (wakeup1 (Some (Chan_pipe_nwrite p))
      (upd_pipe p (pipe_drop ^^ nat n) ?v\<lparr>mem := put_bytes f ?bs (mem s)\<rparr>)\<lparr>hw := touch (hw s)\<rparr>)"
    using piperead_copy_eq [of ?v p b "nat n" f "nat n" 0] v q lq assms(1-3,6)
    by (simp add: piperead_def piperead_loop_def kacquire_free wakeup_ok can_lock_def krelease_lock_in)
  have "inj_on f {..<length ?bs}" using assms(9) by (simp add: writable_buf_def)
  from put_bytes_read [OF this, of "mem s"] have rd: "map (\<lambda>k. put_bytes f ?bs (mem s) (f k)) [0..<nat n] = ?bs" by simp
  have e: "pipe_bytes ((pipe_drop ^^ nat n) q) = []"
  proof -
    have "pipe_bytes q = map (\<lambda>k. pipe_head ((pipe_drop ^^ k) q)) [0..<nat n] @ pipe_bytes ((pipe_drop ^^ nat n) q)"
      using pq_fifo.deq_all [OF q(1), of "nat n"] lq by simp
    from arg_cong [OF this, of length] lq have "pipe_len ((pipe_drop ^^ nat n) q) = 0" by simp
    then show ?thesis by (metis length_0_conv length_pipe_bytes)
  qed
  have wk: "mem (wakeup1 c z) = mem z" "pipes (wakeup1 c z) = pipes z" for c z by (simp_all add: wakeup1_def)
  show ?thesis unfolding w returns_Ret x using rd e by (simp add: wk q_def)
qed

text \<open>Two buffers in the kernel's own memory and an empty pipe.\<close>

definition demo_pipe_state :: kstate where
  "demo_pipe_state = demo_state\<lparr>mem := (\<lambda>x. ucast x)\<rparr>"

lemma translate_kernel: "KERNBASE \<le> a \<Longrightarrow> translate w a s = Some a"
  by (simp add: translate_def)

lemma less_3_cases: "(k :: nat) < 3 \<longleftrightarrow> k = 0 \<or> k = 1 \<or> k = 2"
  by auto

lemma demo_pipe_bufs:
  "readable 0x80200000 3 demo_pipe_state" "writable_buf 0x80300000 3 (\<lambda>k. 0x80300000 + of_nat k) demo_pipe_state"
  "user_bytes 0x80200000 3 demo_pipe_state = [0, 1, 2]"
  unfolding readable_def writable_buf_def user_bytes_def user_byte_def less_3_cases lessThan_def
  by (auto simp: translate_kernel inj_on_def less_3_cases demo_pipe_state_def upt_rec)

lemma demo_pipe_ok:
  "pipe_ok (pipes demo_pipe_state p)" "pipe_len (pipes demo_pipe_state p) = 0" "pipe_bytes (pipes demo_pipe_state p) = []"
  "hw demo_pipe_state = demo_hw"
  by (simp_all add: demo_pipe_state_def demo_state_def boot_state_def zero_pipe_def pipe_ok_def pipe_len_def pipe_bytes_def)

lemma pipe_fifo_witness:
  "\<exists>s. pipe_run 0x80400000 s [0, 1, 2] [] \<and> pipe_bytes (pipes s 0x80400000) = [0, 1, 2]"
proof -
  let ?p = "0x80400000" and ?s = demo_pipe_state
  obtain t where t: "pipewrite ?p 0x80200000 3 ?s = Ret 3 t" "pipes t ?p = fold pipe_put [0, 1, 2] (pipes ?s ?p)"
    using pipewrite_ok [of ?s ?p 3 "0x80200000"] demo_pipe_bufs demo_pipe_ok by (simp add: wakeup1_def)
  have "p_nwrite (pipes t ?p) - p_nwrite (pipes ?s ?p) = 3" unfolding t(2) p_nwrite_fold by simp
  then have n: "unat (p_nwrite (pipes t ?p) - p_nwrite (pipes ?s ?p)) = 3" by simp
  have "pipe_run ?p ?s [] []"
    using demo_pipe_ok pipe_empty by (intro pipe_run.start) blast+
  from pipe_run.send [OF this, of "pipewrite ?p 0x80200000 3 ?s" "0x80200000" 3 0 True 0 3 t] t
  have "pipe_run ?p t [0, 1, 2] []" unfolding n demo_pipe_bufs by simp
  with pipe_fifo [OF this] show ?thesis by auto
qed

lemma pipe_transfer_witness:
  "returns (pipewrite 0x80400000 0x80200000 3 demo_pipe_state) (\<lambda>r t. r = 3
     \<and> returns (piperead 0x80400000 0x80300000 3 t) (\<lambda>r u. r = 3
        \<and> map (\<lambda>k. mem u (0x80300000 + of_nat k)) [0..<3] = [0, 1, 2] \<and> pipe_bytes (pipes u 0x80400000) = []))"
  using pipe_transfer [of demo_pipe_state "0x80400000" 3 "0x80200000" "0x80300000" "\<lambda>k. 0x80300000 + of_nat k"]
    demo_pipe_bufs demo_pipe_ok by simp

end
