(* ===== verification/File.thy ===== *)
theory File
  imports Pipe
begin

text \<open>
  Open files, \<open>file.c\<close>, and \<open>pipealloc\<close> of \<open>pipe.c\<close>, which creates two of them. A
  file pointer is an index into \<open>ftable\<close>.
\<close>

definition upd_file :: "nat \<Rightarrow> (file_rec \<Rightarrow> file_rec) \<Rightarrow> kstate \<Rightarrow> kstate" where
  "upd_file f g s = s\<lparr>ftable := (ftable s)[f := g (ftable s ! f)]\<rparr>"

definition fileinit :: "kstate \<Rightarrow> kstate" where
  "fileinit s = s\<lparr>hw := initlock Ftable_lock (hw s)\<rparr>"

definition filealloc :: "kstate \<Rightarrow> (kstate, nat option) outcome" where
  "filealloc s =
     bnd (kacquire Ftable_lock s) (\<lambda>_ s.
     case findi (\<lambda>f. f_ref f = 0) (ftable s) of
       Some f \<Rightarrow> bnd (krelease Ftable_lock (upd_file f (\<lambda>r. r\<lparr>f_ref := 1\<rparr>) s)) (\<lambda>_ s. Ret (Some f) s)
     | None \<Rightarrow> bnd (krelease Ftable_lock s) (\<lambda>_ s. Ret None s))"

definition filedup :: "nat \<Rightarrow> kstate \<Rightarrow> (kstate, nat) outcome" where
  "filedup f s =
     bnd (kacquire Ftable_lock s) (\<lambda>_ s.
     if f_ref (ftable s ! f) < 1 then Panic ''filedup''
     else bnd (krelease Ftable_lock (upd_file f (\<lambda>r. r\<lparr>f_ref := f_ref r + 1\<rparr>) s)) (\<lambda>_ s. Ret f s))"

definition fileclose :: "nat \<Rightarrow> kstate \<Rightarrow> (kstate, unit) outcome" where
  "fileclose f s =
     bnd (kacquire Ftable_lock s) (\<lambda>_ s.
     if f_ref (ftable s ! f) < 1 then Panic ''fileclose''
     else
       let s = upd_file f (\<lambda>r. r\<lparr>f_ref := f_ref r - 1\<rparr>) s in
       if f_ref (ftable s ! f) > 0 then krelease Ftable_lock s
       else
         let ff = ftable s ! f;
             s = upd_file f (\<lambda>r. r\<lparr>f_ref := 0, f_type := FD_NONE\<rparr>) s
         in bnd (krelease Ftable_lock s) (\<lambda>_ s.
            case f_type ff of
              FD_PIPE \<Rightarrow> pipeclose (f_pipe ff) (f_writable ff) s
            | FD_INODE \<Rightarrow> bnd (begin_op s) (\<lambda>_ s. bnd (iput (f_ip ff) s) (\<lambda>_ s. end_op s))
            | FD_NONE \<Rightarrow> Ret () s))"

text \<open>\<open>struct stat\<close> in memory: 20 bytes, of which two pairs are padding that is not written.\<close>

definition store_stat :: "u32 \<Rightarrow> stat \<Rightarrow> kstate \<Rightarrow> (kstate, unit) outcome" where
  "store_stat a v s =
     bnd (store32 (a + 4) (st_dev v) s) (\<lambda>_ s.
     bnd (store32 (a + 8) (st_ino v) s) (\<lambda>_ s.
     bnd (stores a (bytes16 (word_of_int (st_type v))) s) (\<lambda>_ s.
     bnd (stores (a + 12) (bytes16 (word_of_int (st_nlink v))) s) (\<lambda>_ s.
     store32 (a + 16) (st_size v) s))))"

definition filestat :: "nat \<Rightarrow> u32 \<Rightarrow> kstate \<Rightarrow> (kstate, int) outcome" where
  "filestat f a s =
     (let r = ftable s ! f in
      if f_type r = FD_INODE
      then
        bnd (ilock (f_ip r) s) (\<lambda>_ s. deref (f_ip r) (\<lambda>ip.
        bnd (store_stat a (stati ip s) s) (\<lambda>_ s.
        bnd (iunlock (f_ip r) s) (\<lambda>_ s.
        Ret 0 s))))
      else Ret (- 1) s)"

definition fileread :: "nat \<Rightarrow> u32 \<Rightarrow> int \<Rightarrow> kstate \<Rightarrow> (kstate, int) outcome" where
  "fileread f a n s =
     (let r = ftable s ! f in
      if \<not> f_readable r then Ret (- 1) s
      else case f_type r of
        FD_PIPE \<Rightarrow> piperead (f_pipe r) a n s
      | FD_INODE \<Rightarrow>
          bnd (ilock (f_ip r) s) (\<lambda>_ s. deref (f_ip r) (\<lambda>ip.
          bnd (readi mem_sink ip a (f_off (ftable s ! f)) (word_of_int n) s) (\<lambda>(k, _) s.
          let s = (if k > 0 then upd_file f (\<lambda>r. r\<lparr>f_off := f_off r + word_of_int k\<rparr>) s else s)
          in bnd (iunlock (f_ip r) s) (\<lambda>_ s.
             Ret k s))))
      | FD_NONE \<Rightarrow> Panic ''fileread'')"

text \<open>\<open>((MAXOPBLOCKS-1-1-2) / 2) * 512\<close>.\<close>

definition write_max :: int where
  "write_max = (MAXOPBLOCKS - 1 - 1 - 2) div 2 * 512"

text \<open>The loop of \<open>filewrite\<close>; every round but the last writes \<open>write_max\<close> bytes.\<close>

function filewrite_loop :: "nat \<Rightarrow> u32 \<Rightarrow> int \<Rightarrow> int \<Rightarrow> kstate \<Rightarrow> (kstate, int) outcome" where
  "filewrite_loop f a n i s =
     (if \<not> i < n then Ret (if i = n then n else - 1) s
      else
        let n1 = (if n - i > write_max then write_max else n - i) in
        bnd (begin_op s) (\<lambda>_ s.
        bnd (ilock (f_ip (ftable s ! f)) s) (\<lambda>_ s. deref (f_ip (ftable s ! f)) (\<lambda>ip.
        bnd (writei mem_source ip (a + word_of_int i) (f_off (ftable s ! f)) (word_of_int n1) s) (\<lambda>r s.
        let s = (if r > 0 then upd_file f (\<lambda>x. x\<lparr>f_off := f_off x + word_of_int r\<rparr>) s else s)
        in bnd (iunlock (f_ip (ftable s ! f)) s) (\<lambda>_ s.
           bnd (end_op s) (\<lambda>_ s.
           if r < 0 then Ret (if i = n then n else - 1) s
           else if r \<noteq> n1 then Panic ''short filewrite''
           else filewrite_loop f a n (i + r) s)))))))"
  by pat_completeness auto
termination
  by (relation "measure (\<lambda>(f, a, n, i, s). nat (n - i))") (auto simp: write_max_def)

declare filewrite_loop.simps [simp del]

definition filewrite :: "nat \<Rightarrow> u32 \<Rightarrow> int \<Rightarrow> kstate \<Rightarrow> (kstate, int) outcome" where
  "filewrite f a n s =
     (let r = ftable s ! f in
      if \<not> f_writable r then Ret (- 1) s
      else case f_type r of
        FD_PIPE \<Rightarrow> pipewrite (f_pipe r) a n s
      | FD_INODE \<Rightarrow> filewrite_loop f a n 0 s
      | FD_NONE \<Rightarrow> Panic ''filewrite'')"

section \<open>A new pipe\<close>

definition pipe_bad :: "u32 \<Rightarrow> nat option \<Rightarrow> nat option \<Rightarrow> kstate \<Rightarrow> (kstate, (nat \<times> nat) option) outcome" where
  "pipe_bad p f0 f1 s =
     bnd (if p \<noteq> 0 then kfree p s else Ret () s) (\<lambda>_ s.
     bnd (case f0 of None \<Rightarrow> Ret () s | Some f \<Rightarrow> fileclose f s) (\<lambda>_ s.
     bnd (case f1 of None \<Rightarrow> Ret () s | Some f \<Rightarrow> fileclose f s) (\<lambda>_ s.
     Ret None s)))"

definition pipealloc :: "kstate \<Rightarrow> (kstate, (nat \<times> nat) option) outcome" where
  "pipealloc s =
     bnd (filealloc s) (\<lambda>f0 s.
     case f0 of None \<Rightarrow> pipe_bad 0 None None s | Some r \<Rightarrow>
     bnd (filealloc s) (\<lambda>f1 s.
     case f1 of None \<Rightarrow> pipe_bad 0 f0 None s | Some w \<Rightarrow>
     bnd (kalloc s) (\<lambda>p s.
     if p = 0 then pipe_bad 0 f0 f1 s
     else
       let s = upd_pipe p (\<lambda>q. q\<lparr>p_readopen := True, p_writeopen := True, p_nwrite := 0, p_nread := 0\<rparr>) s;
           s = s\<lparr>hw := initlock (Pipe_lock p) (hw s)\<rparr>;
           s = upd_file r (\<lambda>f. f\<lparr>f_type := FD_PIPE, f_readable := True, f_writable := False, f_pipe := p\<rparr>) s;
           s = upd_file w (\<lambda>f. f\<lparr>f_type := FD_PIPE, f_readable := False, f_writable := True, f_pipe := p\<rparr>) s
       in Ret (Some (r, w)) s)))"

end
