(* ===== verification/Proc.thy ===== *)
theory Proc
  imports File
begin

text \<open>
  The life of a process, \<open>proc.c\<close>: creation, growth, \<open>fork\<close>, \<open>exit\<close> and \<open>wait\<close>. The
  trap frame and the saved context of a process are records; the addresses that the
  code computes for them are kept beside. \<open>exit\<close> ends in the scheduler, \<open>wait\<close> goes on
  with \<open>wait_resume\<close> when a child has exited.
\<close>

definition safestrcpy :: "u8 list \<Rightarrow> u8 list \<Rightarrow> nat \<Rightarrow> u8 list" where
  "safestrcpy old t n =
     (if n = 0 then old
      else
        let k = take (n - 1) (upto0 t);
            z = (if length (upto0 t) < n - 1 then [0, 0] else [0])
        in k @ z @ drop (length k + length z) old)"

section \<open>Creation\<close>

text \<open>The initial scheduling information that \<open>allocproc\<close> gives a process.\<close>

definition fresh_sched :: "int \<Rightarrow> u32 \<Rightarrow> scheduling_info" where
  "fresh_sched n t =
     zero_sched\<lparr>queue := (if n = 1 \<or> n = 2 then RR else LCFS), priority := 3, arrival_time := sint t, last_run := sint t,
       bjf_coeffs := \<lparr>priority_ratio = 1, arrival_time_ratio = 1, executed_cycles_ratio = 1, process_size_ratio = 1\<rparr>\<rparr>"

definition allocproc :: "kstate \<Rightarrow> (kstate, nat option) outcome" where
  "allocproc s =
     bnd (kacquire Ptable_lock s) (\<lambda>_ s.
     case findi (\<lambda>p. state p = UNUSED) (ptable s) of
       None \<Rightarrow> bnd (krelease Ptable_lock s) (\<lambda>_ s. Ret None s)
     | Some i \<Rightarrow>
         let s = upd_proc i (\<lambda>p. p\<lparr>state := EMBRYO, pid := nextpid s\<rparr>) s;
             s = s\<lparr>nextpid := i32 (nextpid s + 1)\<rparr>;
             s = upd_proc i (\<lambda>p. p\<lparr>start_time := ticks s div 100\<rparr>) s
         in bnd (krelease Ptable_lock s) (\<lambda>_ s.
            bnd (kalloc s) (\<lambda>k s.
            let s = upd_proc i (\<lambda>p. p\<lparr>kstack := k\<rparr>) s in
            if k = 0 then Ret None (upd_proc i (\<lambda>p. p\<lparr>state := UNUSED\<rparr>) s)
            else
              let sp = k + KSTACKSIZE - 76;
                  s = upd_proc i (\<lambda>p. p\<lparr>tf_ptr := sp\<rparr>) s;
                  sp = sp - 4;
                  s = s\<lparr>mem := write32 (mem s) sp (l_trapret (arch s))\<rparr>;
                  sp = sp - 20;
                  s = upd_proc i (\<lambda>p. p\<lparr>ctxt_ptr := sp, ctxt := zero_ctxt\<lparr>ctx_eip := l_forkret (arch s)\<rparr>\<rparr>) s;
                  s = upd_proc i (\<lambda>p. p\<lparr>sched_info := fresh_sched (pid p) (ticks s)\<rparr>) s
              in Ret (Some i) s)))"

abbreviation (input) USER_CS :: u16 where "USER_CS \<equiv> 0x1B"
abbreviation (input) USER_DS :: u16 where "USER_DS \<equiv> 0x23"
abbreviation (input) FL_IF :: u32 where "FL_IF \<equiv> 0x200"

text \<open>The code of the first process is linked into the kernel.\<close>

definition userinit :: "u8 list \<Rightarrow> kstate \<Rightarrow> (kstate, unit) outcome" where
  "userinit initcode s =
     bnd (allocproc s) (\<lambda>p s.
     let s = s\<lparr>initproc := p\<rparr> in
     bnd (setupkvm s) (\<lambda>pd s. deref p (\<lambda>i.
     let s = upd_proc i (\<lambda>q. q\<lparr>pgdir := pd\<rparr>) s in
     if pd = 0 then Panic ''userinit: out of memory?''
     else
       bnd (inituvm pd initcode s) (\<lambda>_ s.
       let s = upd_proc i (\<lambda>q. q\<lparr>sz := PGSIZE, tf := zero_tf\<lparr>tf_cs := USER_CS, tf_ds := USER_DS, tf_es := USER_DS,
                 tf_ss := USER_DS, tf_eflags := FL_IF, tf_esp := PGSIZE, tf_eip := 0\<rparr>\<rparr>) s;
           s = upd_proc i (\<lambda>q. q\<lparr>name := safestrcpy (name q) (cstr ''initcode'') 16\<rparr>) s
       in bnd (namei [slash] s) (\<lambda>c s.
          let s = upd_proc i (\<lambda>q. q\<lparr>cwd := c\<rparr>) s in
          bnd (kacquire Ptable_lock s) (\<lambda>_ s.
          krelease Ptable_lock (upd_proc i (\<lambda>q. q\<lparr>state := RUNNABLE, sched_info := (sched_info q)\<lparr>queue := RR\<rparr>\<rparr>) s)))))))"

definition growproc :: "int \<Rightarrow> kstate \<Rightarrow> (kstate, int) outcome" where
  "growproc n s =
     bnd (myproc s) (\<lambda>p s. deref p (\<lambda>i.
     let q = ptable s ! i; old = sz q in
     bnd (if n > 0 then allocuvm (pgdir q) old (old + word_of_int n) s
          else if n < 0 then deallocuvm (pgdir q) old (old + word_of_int n) s
          else Ret old s) (\<lambda>new s.
     if n \<noteq> 0 \<and> new = 0 then Ret (- 1) s
     else
       bnd (switchuvm (Some i) (upd_proc i (\<lambda>q. q\<lparr>sz := new\<rparr>) s)) (\<lambda>_ s.
       Ret 0 s))))"

text \<open>The descriptor loop of \<open>fork\<close>.\<close>

definition fork_file :: "nat \<Rightarrow> nat \<Rightarrow> nat \<Rightarrow> kstate \<Rightarrow> (kstate, unit) outcome" where
  "fork_file cp np i s =
     (case ofile (ptable s ! cp) ! i of
        None \<Rightarrow> Ret () s
      | Some f \<Rightarrow> bnd (filedup f s) (\<lambda>f s. Ret () (upd_proc np (\<lambda>q. q\<lparr>ofile := (ofile q)[i := Some f]\<rparr>) s)))"

definition fork :: "kstate \<Rightarrow> (kstate, int) outcome" where
  "fork s =
     bnd (myproc s) (\<lambda>p s.
     bnd (allocproc s) (\<lambda>np s.
     case np of None \<Rightarrow> Ret (- 1) s
     | Some np \<Rightarrow> deref p (\<lambda>cp.
       bnd (copyuvm (pgdir (ptable s ! cp)) (sz (ptable s ! cp)) s) (\<lambda>pd s.
       let s = upd_proc np (\<lambda>q. q\<lparr>pgdir := pd\<rparr>) s in
       if pd = 0
       then bnd (kfree (kstack (ptable s ! np)) s) (\<lambda>_ s.
            Ret (- 1) (upd_proc np (\<lambda>q. q\<lparr>kstack := 0, state := UNUSED\<rparr>) s))
       else
         let c = ptable s ! cp;
             s = upd_proc np (\<lambda>q. q\<lparr>sz := sz c, parent := Some cp, tf := (tf c)\<lparr>tf_eax := 0\<rparr>\<rparr>) s
         in bnd (for_each (fork_file cp np) [0..<NOFILE] s) (\<lambda>_ s.
            bnd (idup (cwd (ptable s ! cp)) s) (\<lambda>d s.
            let s = upd_proc np (\<lambda>q. q\<lparr>cwd := Some d\<rparr>) s;
                s = upd_proc np (\<lambda>q. q\<lparr>name := safestrcpy (name q) (name (ptable s ! cp)) 16\<rparr>) s;
                n = pid (ptable s ! np)
            in bnd (kacquire Ptable_lock s) (\<lambda>_ s.
               bnd (krelease Ptable_lock (upd_proc np (\<lambda>q. q\<lparr>state := RUNNABLE\<rparr>) s)) (\<lambda>_ s.
               Ret n s))))))))"

section \<open>The end of a process\<close>

definition close_fd :: "nat \<Rightarrow> nat \<Rightarrow> kstate \<Rightarrow> (kstate, unit) outcome" where
  "close_fd i fd s =
     (case ofile (ptable s ! i) ! fd of
        None \<Rightarrow> Ret () s
      | Some f \<Rightarrow> bnd (fileclose f s) (\<lambda>_ s. Ret () (upd_proc i (\<lambda>q. q\<lparr>ofile := (ofile q)[fd := None]\<rparr>) s)))"

text \<open>Handing an orphan to \<open>init\<close>.\<close>

definition reparent :: "nat \<Rightarrow> nat \<Rightarrow> kstate \<Rightarrow> kstate" where
  "reparent i j s =
     (if parent (ptable s ! j) = Some i
      then
        let s = upd_proc j (\<lambda>q. q\<lparr>parent := initproc s\<rparr>) s
        in if state (ptable s ! j) = ZOMBIE then wakeup1 (map_option Chan_proc (initproc s)) s else s
      else s)"

definition exit :: "kstate \<Rightarrow> (kstate, 'a) outcome" where
  "exit s =
     bnd (myproc s) (\<lambda>p s.
     if p = initproc s then Panic ''init exiting''
     else deref p (\<lambda>i.
       bnd (if pid (ptable s ! i) = pl_pid (userlock s) then releasepriority s else Ret 0 s) (\<lambda>_ s.
       bnd (for_each (close_fd i) [0..<NOFILE] s) (\<lambda>_ s.
       bnd (begin_op s) (\<lambda>_ s.
       bnd (iput (cwd (ptable s ! i)) s) (\<lambda>_ s.
       bnd (end_op s) (\<lambda>_ s.
       let s = upd_proc i (\<lambda>q. q\<lparr>cwd := None\<rparr>) s in
       bnd (kacquire Ptable_lock s) (\<lambda>_ s.
       let s = wakeup1 (map_option Chan_proc (parent (ptable s ! i))) s;
           s = fold (reparent i) [0..<length (ptable s)] s;
           s = upd_proc i (\<lambda>q. q\<lparr>state := ZOMBIE\<rparr>) s
       in bnd (sched s :: (kstate, unit) outcome) (\<lambda>_ s. Panic ''zombie exit'')))))))))"

text \<open>Freeing what is left of an exited child.\<close>

definition reap :: "nat \<Rightarrow> kstate \<Rightarrow> (kstate, int) outcome" where
  "reap j s =
     (let n = pid (ptable s ! j) in
      bnd (kfree (kstack (ptable s ! j)) s) (\<lambda>_ s.
      let s = upd_proc j (\<lambda>q. q\<lparr>kstack := 0\<rparr>) s in
      bnd (freevm (pgdir (ptable s ! j)) s) (\<lambda>_ s.
      let s = upd_proc j (\<lambda>q. q\<lparr>pid := 0, shm := 0, parent := None, name := (name q)[0 := 0], killed := False,
                state := UNUSED\<rparr>) s
      in bnd (krelease Ptable_lock s) (\<lambda>_ s.
         Ret n s))))"

definition wait_loop :: "nat \<Rightarrow> kstate \<Rightarrow> (kstate, int) outcome" where
  "wait_loop i s =
     (case findi (\<lambda>p. parent p = Some i \<and> state p = ZOMBIE) (ptable s) of
        Some j \<Rightarrow> reap j s
      | None \<Rightarrow>
          if \<not> (\<exists>p\<in>set (ptable s). parent p = Some i) \<or> killed (ptable s ! i)
          then bnd (krelease Ptable_lock s) (\<lambda>_ s. Ret (- 1) s)
          else sleep (Some (Chan_proc i)) Ptable_lock s)"

definition wait :: "kstate \<Rightarrow> (kstate, int) outcome" where
  "wait s =
     bnd (myproc s) (\<lambda>p s.
     bnd (kacquire Ptable_lock s) (\<lambda>_ s. deref p (\<lambda>i. wait_loop i s)))"

definition wait_resume :: "nat \<Rightarrow> bool \<Rightarrow> kstate \<Rightarrow> (kstate, int) outcome" where
  "wait_resume i ie s = bnd (sleep_resume i ie Ptable_lock s) (\<lambda>_ s. wait_loop i s)"

section \<open>The first step of a new process\<close>

definition forkret :: "kstate \<Rightarrow> (kstate, unit) outcome" where
  "forkret s =
     bnd (krelease Ptable_lock s) (\<lambda>_ s.
     if forkret_first s
     then
       let s = s\<lparr>forkret_first := False\<rparr> in
       bnd (iinit ROOTDEV s) (\<lambda>_ s. initlog ROOTDEV s)
     else Ret () s)"

end
