(* ===== verification/Exec.thy ===== *)
theory Exec
  imports Proc
begin

text \<open>
  Program loading: \<open>exec\<close> of \<open>exec.c\<close>, \<open>loaduvm\<close> of \<open>vm.c\<close> and the counter reset of
  \<open>syscall.c\<close>. The path and the arguments are the bytes of the strings in the memory
  of the calling process. The result \<open>None\<close> of a step stands for the jump to \<open>bad\<close>.
\<close>

section \<open>Loading a segment\<close>

fun loaduvm_loop :: "u32 \<Rightarrow> u32 \<Rightarrow> nat \<Rightarrow> u32 \<Rightarrow> u32 \<Rightarrow> nat list \<Rightarrow> kstate \<Rightarrow> (kstate, int) outcome" where
  "loaduvm_loop pd a ip off len [] s = Ret 0 s"
| "loaduvm_loop pd a ip off len (i # is) s =
     bnd (walkpgdir pd (a + of_nat i) False s) (\<lambda>pte s.
     if pte = 0 then Panic ''loaduvm: address should exist''
     else
       let pa = PTE_ADDR (read32 (mem s) pte);
           n = (if len - of_nat i < PGSIZE then len - of_nat i else PGSIZE)
       in bnd (readi mem_sink ip (P2V pa) (off + of_nat i) n s) (\<lambda>(r, _) s.
          if word_of_int r \<noteq> n then Ret (- 1) s
          else loaduvm_loop pd a ip off len is s))"

definition loaduvm :: "u32 \<Rightarrow> u32 \<Rightarrow> nat \<Rightarrow> u32 \<Rightarrow> u32 \<Rightarrow> kstate \<Rightarrow> (kstate, int) outcome" where
  "loaduvm pd a ip off len s =
     (if a mod PGSIZE \<noteq> 0 then Panic ''loaduvm: addr must be page aligned''
      else loaduvm_loop pd a ip off len (map (\<lambda>k. 4096 * k) [0..<(unat len + 4095) div 4096]) s)"

section \<open>The program headers\<close>

record proghdr =
  ph_type :: u32
  ph_off :: u32
  ph_vaddr :: u32
  ph_filesz :: u32
  ph_memsz :: u32

definition read_ph :: "u8 list \<Rightarrow> proghdr" where
  "read_ph d = \<lparr>ph_type = ld32 d 0, ph_off = ld32 d 4, ph_vaddr = ld32 d 8, ph_filesz = ld32 d 16, ph_memsz = ld32 d 20\<rparr>"

fun exec_load :: "nat \<Rightarrow> u32 \<Rightarrow> nat \<Rightarrow> u32 \<Rightarrow> u32 \<Rightarrow> kstate \<Rightarrow> (kstate, u32 option) outcome" where
  "exec_load 0 off ip pd len s = Ret (Some len) s"
| "exec_load (Suc k) off ip pd len s =
     bnd (readi loc_sink ip [] off 32 s) (\<lambda>(r, d) s.
     let ph = read_ph d in
     if r \<noteq> 32 then Ret None s
     else if ph_type ph \<noteq> 1 then exec_load k (off + 32) ip pd len s
     else if ph_memsz ph < ph_filesz ph then Ret None s
     else if ph_vaddr ph + ph_memsz ph < ph_vaddr ph then Ret None s
     else
       bnd (allocuvm pd len (ph_vaddr ph + ph_memsz ph) s) (\<lambda>len s.
       if len = 0 then Ret None s
       else if ph_vaddr ph mod PGSIZE \<noteq> 0 then Ret None s
       else
         bnd (loaduvm pd (ph_vaddr ph) ip (ph_off ph) (ph_filesz ph) s) (\<lambda>r s.
         if r < 0 then Ret None s else exec_load k (off + 32) ip pd len s)))"

section \<open>The arguments\<close>

fun exec_args :: "u32 \<Rightarrow> u8 list list \<Rightarrow> u32 list \<Rightarrow> u32 \<Rightarrow> kstate \<Rightarrow> (kstate, (u32 \<times> u32 list) option) outcome" where
  "exec_args pd [] ptrs sp s = Ret (Some (sp, ptrs)) s"
| "exec_args pd (t # ts) ptrs sp s =
     (if length ptrs \<ge> MAXARG then Ret None s
      else
        let sp = (sp - of_nat (length t + 1)) AND NOT 3 in
        bnd (copyout pd sp (t @ [0]) s) (\<lambda>r s.
        if r < 0 then Ret None s else exec_args pd ts (ptrs @ [sp]) sp s))"

definition ustack_of :: "u32 \<Rightarrow> u32 list \<Rightarrow> u32 list" where
  "ustack_of sp ptrs = [0xffffffff, of_nat (length ptrs), sp - of_nat (length ptrs + 1) * 4] @ ptrs @ [0]"

definition last_elem :: "u8 list \<Rightarrow> u8 list" where
  "last_elem path = rev (takeWhile (\<lambda>c. c \<noteq> slash) (rev path))"

definition init_num_syscalls :: "kstate \<Rightarrow> kstate" where
  "init_num_syscalls s =
     s\<lparr>hw := (hw s)\<lparr>cpus := map (\<lambda>c. c\<lparr>cpu_executed_syscalls := 0\<rparr>) (cpus (hw s))\<rparr>, executed_syscalls := 0\<rparr>"

definition exec_bad :: "u32 \<Rightarrow> nat option \<Rightarrow> kstate \<Rightarrow> (kstate, int) outcome" where
  "exec_bad pd ip s =
     bnd (if pd \<noteq> 0 then freevm pd s else Ret () s) (\<lambda>_ s.
     case ip of None \<Rightarrow> Ret (- 1) s
     | Some _ \<Rightarrow> bnd (iunlockput ip s) (\<lambda>_ s. bnd (end_op s) (\<lambda>_ s. Ret (- 1) s)))"

text \<open>The part of \<open>exec\<close> behind the last use of the file.\<close>

definition exec_image :: "nat \<Rightarrow> u8 list \<Rightarrow> u8 list list \<Rightarrow> u32 \<Rightarrow> u32 \<Rightarrow> u32 \<Rightarrow> kstate \<Rightarrow> (kstate, int) outcome" where
  "exec_image i path argv entry pd len s =
     (let len = PGROUNDUP len in
      bnd (allocuvm pd len (len + 2 * PGSIZE) s) (\<lambda>len s.
      if len = 0 then exec_bad pd None s
      else
        bnd (clearpteu pd (len - 2 * PGSIZE) s) (\<lambda>_ s.
        bnd (exec_args pd argv [] len s) (\<lambda>r s.
        case r of None \<Rightarrow> exec_bad pd None s
        | Some (sp, ptrs) \<Rightarrow>
            let us = ustack_of sp ptrs;
                sp = sp - of_nat (length us) * 4
            in bnd (copyout pd sp (concat (map bytes32 us)) s) (\<lambda>r s.
               if r < 0 then exec_bad pd None s
               else
                 let oldpgdir = pgdir (ptable s ! i);
                     s = upd_proc i (\<lambda>q. q\<lparr>name := safestrcpy (name q) (last_elem path) 16\<rparr>) s;
                     s = upd_proc i (\<lambda>q. q\<lparr>pgdir := pd, sz := len, tf := (tf q)\<lparr>tf_eip := entry, tf_esp := sp\<rparr>\<rparr>) s
                 in bnd (switchuvm (Some i) s) (\<lambda>_ s.
                    bnd (freevm oldpgdir s) (\<lambda>_ s.
                    Ret 0 (init_num_syscalls s))))))))"

definition exec :: "u8 list \<Rightarrow> u8 list list \<Rightarrow> kstate \<Rightarrow> (kstate, int) outcome" where
  "exec path argv s =
     bnd (myproc s) (\<lambda>p s.
     bnd (begin_op s) (\<lambda>_ s.
     bnd (namei path s) (\<lambda>ip s.
     case ip of
       None \<Rightarrow> bnd (end_op s) (\<lambda>_ s. bnd (cprintf ''exec: fail\<newline>'' [] s) (\<lambda>_ s. Ret (- 1) s))
     | Some n \<Rightarrow>
         bnd (ilock ip s) (\<lambda>_ s.
         bnd (readi loc_sink n [] 0 52 s) (\<lambda>(r, elf) s.
         if r \<noteq> 52 then exec_bad 0 ip s
         else if ld32 elf 0 \<noteq> 0x464C457F then exec_bad 0 ip s
         else
           bnd (setupkvm s) (\<lambda>pd s.
           if pd = 0 then exec_bad 0 ip s
           else
             bnd (exec_load (unat (ld16 elf 44)) (ld32 elf 28) n pd 0 s) (\<lambda>len s.
             case len of None \<Rightarrow> exec_bad pd ip s
             | Some len \<Rightarrow>
                 bnd (iunlockput ip s) (\<lambda>_ s.
                 bnd (end_op s) (\<lambda>_ s. deref p (\<lambda>i.
                 exec_image i path argv (ld32 elf 24) pd len s))))))))))"

end
