(* ===== verification/Shared_Mem.thy ===== *)
theory Shared_Mem
  imports Proc
begin

text \<open>
  Pages shared between processes, \<open>shared_mem.c\<close>. A null result of the allocator is
  used as an address by the code; storing through it is an access to the first page
  of the running process.
\<close>

abbreviation (input) NUM_OF_SHARED_PAGES :: nat where "NUM_OF_SHARED_PAGES \<equiv> 8"

definition upd_shared :: "nat \<Rightarrow> (shared_page \<Rightarrow> shared_page) \<Rightarrow> kstate \<Rightarrow> kstate" where
  "upd_shared i f s = s\<lparr>shared_table := (shared_table s)[i := f (shared_table s ! i)]\<rparr>"

definition init_shared_mem :: "kstate \<Rightarrow> (kstate, unit) outcome" where
  "init_shared_mem s =
     bnd (kacquire Shared_memory_lock s) (\<lambda>_ s.
     krelease Shared_memory_lock (s\<lparr>shared_table := map (\<lambda>p. p\<lparr>num_of_refs := 0\<rparr>) (shared_table s)\<rparr>))"

definition find_shared_page :: "int \<Rightarrow> kstate \<Rightarrow> nat option \<times> kstate" where
  "find_shared_page n s =
     (case findi (\<lambda>p. sp_id p = n) (shared_table s) of
        Some i \<Rightarrow> (Some i, s)
      | None \<Rightarrow>
         (case findi (\<lambda>p. num_of_refs p = 0) (shared_table s) of
            Some i \<Rightarrow> (Some i, upd_shared i (\<lambda>p. p\<lparr>sp_id := n\<rparr>) s)
          | None \<Rightarrow> (None, s)))"

definition zero_page :: "u32 \<Rightarrow> kstate \<Rightarrow> (kstate, unit) outcome" where
  "zero_page a s =
     (if a = 0 then stores 0 (replicate 4096 0) s
      else Ret () (s\<lparr>mem := fill (mem s) a 0 PGSIZE\<rparr>))"

definition open_shared_mem :: "int \<Rightarrow> kstate \<Rightarrow> (kstate, u32) outcome" where
  "open_shared_mem n s =
     bnd (myproc s) (\<lambda>p s. deref p (\<lambda>i.
     let pd = pgdir (ptable s ! i) in
     if shm (ptable s ! i) \<noteq> 0 then Ret 0 s
     else
       bnd (kacquire Shared_memory_lock s) (\<lambda>_ s.
       let (idx, s) = find_shared_page n s in
       case idx of
         None \<Rightarrow> bnd (krelease Shared_memory_lock s) (\<lambda>_ s. Ret 0 s)
       | Some k \<Rightarrow>
           bnd (if num_of_refs (shared_table s ! k) = 0
                then bnd (kalloc s) (\<lambda>f s. zero_page f (upd_shared k (\<lambda>p. p\<lparr>frame := f\<rparr>) s))
                else Ret () s) (\<lambda>_ s.
           let start_mem = PGROUNDUP (sz (ptable s ! i)) in
           bnd (mappages pd start_mem PGSIZE (V2P (frame (shared_table s ! k))) (PTE_W OR PTE_U) s) (\<lambda>_ s.
           let s = upd_shared k (\<lambda>p. p\<lparr>num_of_refs := num_of_refs p + 1, sp_id := n\<rparr>) s;
               s = upd_proc i (\<lambda>q. q\<lparr>shm := start_mem, shm_id := n\<rparr>) s
           in bnd (krelease Shared_memory_lock s) (\<lambda>_ s.
              Ret start_mem s))))))"

definition close_shared_mem :: "int \<Rightarrow> kstate \<Rightarrow> (kstate, unit) outcome" where
  "close_shared_mem n s =
     bnd (myproc s) (\<lambda>p s. deref p (\<lambda>i.
     let q = ptable s ! i; pd = pgdir q in
     if shm_id q \<noteq> n \<or> shm q = 0 then Ret () s
     else
       bnd (kacquire Shared_memory_lock s) (\<lambda>_ s.
       let (idx, s) = find_shared_page n s in
       case idx of None \<Rightarrow> Fault ''shared_memory.table[-1]''
       | Some k \<Rightarrow>
           let s = upd_shared k (\<lambda>p. p\<lparr>num_of_refs := num_of_refs p - 1\<rparr>) s;
               a = PGROUNDUP (shm (ptable s ! i))
           in bnd (walkpgdir pd a False s) (\<lambda>pte s.
              let s = (if pte \<noteq> 0 \<and> read32 (mem s) pte AND PTE_P \<noteq> 0
                       then s\<lparr>mem := write32 (mem s) pte 0\<rparr> else s);
                  s = upd_proc i (\<lambda>q. q\<lparr>shm := 0, shm_id := 0\<rparr>) s
              in bnd (if num_of_refs (shared_table s ! k) = 0 then kfree (frame (shared_table s ! k)) s
                      else Ret () s) (\<lambda>_ s.
                 krelease Shared_memory_lock s)))))"

end
