(* ===== verification/Syscall.thy ===== *)
theory Syscall
  imports Exec Shared_Mem
begin

text \<open>
  System calls: fetching arguments (\<open>syscall.c\<close>), the process calls (\<open>sysproc.c\<close>),
  the file calls (\<open>sysfile.c\<close>) and the dispatcher. An argument that cannot be
  fetched is \<open>None\<close>, for the code's result -1. A string argument is read once, when
  its terminating zero is looked for.
\<close>

section \<open>Arguments\<close>

definition fetchint :: "u32 \<Rightarrow> kstate \<Rightarrow> (kstate, int option) outcome" where
  "fetchint a s =
     bnd (myproc s) (\<lambda>p s. deref p (\<lambda>i.
     let n = sz (ptable s ! i) in
     if a \<ge> n \<or> a + 4 > n then Ret None s
     else bnd (load32 a s) (\<lambda>v s. Ret (Some (sint v)) s)))"

fun scan_string :: "u32 \<Rightarrow> nat \<Rightarrow> kstate \<Rightarrow> (kstate, u8 list option) outcome" where
  "scan_string a 0 s = Ret None s"
| "scan_string a (Suc n) s =
     bnd (load8 a s) (\<lambda>c s.
     if c = 0 then Ret (Some []) s
     else bnd (scan_string (a + 1) n s) (\<lambda>r s. Ret (map_option (\<lambda>t. c # t) r) s))"

definition fetchstr :: "u32 \<Rightarrow> kstate \<Rightarrow> (kstate, u8 list option) outcome" where
  "fetchstr a s =
     bnd (myproc s) (\<lambda>p s. deref p (\<lambda>i.
     let n = sz (ptable s ! i) in
     if a \<ge> n then Ret None s else scan_string a (unat n - unat a) s))"

definition argint :: "nat \<Rightarrow> kstate \<Rightarrow> (kstate, int option) outcome" where
  "argint n s =
     bnd (myproc s) (\<lambda>p s. deref p (\<lambda>i.
     fetchint (tf_esp (tf (ptable s ! i)) + 4 + 4 * of_nat n) s))"

definition argptr :: "nat \<Rightarrow> int \<Rightarrow> kstate \<Rightarrow> (kstate, u32 option) outcome" where
  "argptr n len s =
     bnd (myproc s) (\<lambda>p s.
     bnd (argint n s) (\<lambda>v s. deref p (\<lambda>i.
     case v of None \<Rightarrow> Ret None s
     | Some v \<Rightarrow>
         let a = word_of_int v; z = sz (ptable s ! i) in
         if len < 0 \<or> a \<ge> z \<or> a + word_of_int len > z then Ret None s else Ret (Some a) s)))"

definition argstr :: "nat \<Rightarrow> kstate \<Rightarrow> (kstate, u8 list option) outcome" where
  "argstr n s =
     bnd (argint n s) (\<lambda>v s.
     case v of None \<Rightarrow> Ret None s | Some v \<Rightarrow> fetchstr (word_of_int v) s)"

text \<open>A call that fails with -1 when an argument is missing.\<close>

definition want :: "(kstate, 'a option) outcome \<Rightarrow> ('a \<Rightarrow> kstate \<Rightarrow> (kstate, int) outcome) \<Rightarrow> (kstate, int) outcome" where
  "want m f = bnd m (\<lambda>v s. case v of None \<Rightarrow> Ret (- 1) s | Some a \<Rightarrow> f a s)"

definition with_proc :: "kstate \<Rightarrow> (nat \<Rightarrow> kstate \<Rightarrow> (kstate, 'a) outcome) \<Rightarrow> (kstate, 'a) outcome" where
  "with_proc s f = bnd (myproc s) (\<lambda>p s. deref p (\<lambda>i. f i s))"

section \<open>Processes\<close>

definition sys_fork :: "kstate \<Rightarrow> (kstate, int) outcome" where
  "sys_fork s = fork s"

definition sys_exit :: "kstate \<Rightarrow> (kstate, int) outcome" where
  "sys_exit s = bnd (exit s :: (kstate, unit) outcome) (\<lambda>_ s. Ret 0 s)"

definition sys_wait :: "kstate \<Rightarrow> (kstate, int) outcome" where
  "sys_wait s = wait s"

definition sys_kill :: "kstate \<Rightarrow> (kstate, int) outcome" where
  "sys_kill s = want (argint 0 s) kill"

definition sys_getpid :: "kstate \<Rightarrow> (kstate, int) outcome" where
  "sys_getpid s = with_proc s (\<lambda>i s. Ret (pid (ptable s ! i)) s)"

definition sys_sbrk :: "kstate \<Rightarrow> (kstate, int) outcome" where
  "sys_sbrk s =
     want (argint 0 s) (\<lambda>n s.
     with_proc s (\<lambda>i s.
     let a = sint (sz (ptable s ! i)) in
     bnd (growproc n s) (\<lambda>r s.
     if r < 0 then Ret (- 1) s else Ret a s)))"

text \<open>The comparison of \<open>ticks - ticks0\<close> with the signed \<open>n\<close> is unsigned.\<close>

definition sys_sleep_loop :: "int \<Rightarrow> u32 \<Rightarrow> kstate \<Rightarrow> (kstate, int) outcome" where
  "sys_sleep_loop n ticks0 s =
     (if ticks s - ticks0 < word_of_int n
      then
        bnd (mykilled s) (\<lambda>k s.
        if k then bnd (krelease Ticks_lock s) (\<lambda>_ s. Ret (- 1) s)
        else sleep (Some Chan_ticks) Ticks_lock s)
      else bnd (krelease Ticks_lock s) (\<lambda>_ s. Ret 0 s))"

definition sys_sleep :: "kstate \<Rightarrow> (kstate, int) outcome" where
  "sys_sleep s =
     want (argint 0 s) (\<lambda>n s.
     bnd (kacquire Ticks_lock s) (\<lambda>_ s.
     sys_sleep_loop n (ticks s) s))"

definition sys_sleep_resume :: "nat \<Rightarrow> bool \<Rightarrow> int \<Rightarrow> u32 \<Rightarrow> kstate \<Rightarrow> (kstate, int) outcome" where
  "sys_sleep_resume i ie n ticks0 s = bnd (sleep_resume i ie Ticks_lock s) (\<lambda>_ s. sys_sleep_loop n ticks0 s)"

definition sys_uptime :: "kstate \<Rightarrow> (kstate, int) outcome" where
  "sys_uptime s =
     bnd (kacquire Ticks_lock s) (\<lambda>_ s.
     let xticks = ticks s in
     bnd (krelease Ticks_lock s) (\<lambda>_ s.
     Ret (sint xticks) s))"

function digit_sum :: "int \<Rightarrow> int \<Rightarrow> int" where
  "digit_sum n new_n = (if n = 0 then new_n else digit_sum (cdiv n 10) (new_n + crem n 10))"
  by pat_completeness auto
termination
  by (relation "measure (\<lambda>(n, new_n). nat \<bar>n\<bar>)") (auto simp: cdiv_def abs_mult)

declare digit_sum.simps [simp del]

lemma digit_sum_less: "0 \<le> n \<Longrightarrow> digit_sum n m \<le> n + m \<and> (9 < n \<longrightarrow> digit_sum n m < n + m) \<and> m \<le> digit_sum n m"
proof (induction n m rule: digit_sum.induct)
  case (1 n m)
  show ?case
  proof (cases "n = 0")
    case False
    then have "0 < n" using 1 by simp
    define q r where "q = n div 10" and "r = n mod 10"
    have c: "cdiv n 10 = q" "crem n 10 = r" using \<open>0 < n\<close> by (simp_all add: q_def r_def cdiv_nonneg crem_nonneg)
    have "0 \<le> q" "0 \<le> r" "q + r \<le> n" "9 < n \<longrightarrow> q + r < n"
      using \<open>0 < n\<close> unfolding q_def r_def by presburger+
    moreover have "digit_sum n m = digit_sum q (m + r)" using False c by (subst digit_sum.simps) simp
    ultimately show ?thesis using 1 False unfolding c by auto
  qed (simp add: digit_sum.simps)
qed

function digital_root_loop :: "int \<Rightarrow> int" where
  "digital_root_loop n = (if n > 9 then digital_root_loop (digit_sum n 0) else n)"
  by pat_completeness auto
termination
proof (relation "measure nat", goal_cases)
  case (2 n)
  then show ?case using digit_sum_less [of n 0] by simp
qed simp

declare digital_root_loop.simps [simp del]

definition find_digital_root :: "int \<Rightarrow> int" where
  "find_digital_root n = (if n \<le> 0 then - 1 else digital_root_loop n)"

definition sys_find_digital_root :: "kstate \<Rightarrow> (kstate, int) outcome" where
  "sys_find_digital_root s = with_proc s (\<lambda>i s. Ret (find_digital_root (sint (tf_ebx (tf (ptable s ! i))))) s)"

definition sys_get_uncle_count :: "kstate \<Rightarrow> (kstate, int) outcome" where
  "sys_get_uncle_count s = want (argint 0 s) uncle_count"

definition sys_get_process_lifetime :: "kstate \<Rightarrow> (kstate, int) outcome" where
  "sys_get_process_lifetime s = want (argint 0 s) find_process_lifetime"

definition sys_change_process_queue :: "kstate \<Rightarrow> (kstate, int) outcome" where
  "sys_change_process_queue s =
     want (argint 0 s) (\<lambda>n s.
     want (argint 1 s) (\<lambda>q s.
     change_process_queue n q s))"

definition sys_set_bjf_process :: "kstate \<Rightarrow> (kstate, int) outcome" where
  "sys_set_bjf_process s =
     want (argint 0 s) (\<lambda>n s.
     want (argint 1 s) (\<lambda>pr s.
     want (argint 2 s) (\<lambda>ar s.
     want (argint 3 s) (\<lambda>ec s.
     set_bjf_process n pr ar ec s))))"

definition sys_set_bjf_system :: "kstate \<Rightarrow> (kstate, int) outcome" where
  "sys_set_bjf_system s =
     want (argint 0 s) (\<lambda>pr s.
     want (argint 1 s) (\<lambda>ar s.
     want (argint 2 s) (\<lambda>ec s.
     bnd (set_bjf_system pr ar ec s) (\<lambda>_ s. Ret 0 s))))"

definition sys_print_schedule_info :: "kstate \<Rightarrow> (kstate, int) outcome" where
  "sys_print_schedule_info s = bnd (print_schedule_info s) (\<lambda>_ s. Ret 0 s)"

definition sys_get_num_syscalls :: "kstate \<Rightarrow> (kstate, int) outcome" where
  "sys_get_num_syscalls s =
     (let sum = sum_list (map cpu_executed_syscalls (cpus (hw s))) in
      bnd (cprintf ''shared: %d per: %d\<newline>'' [Num (executed_syscalls s), Num sum] s) (\<lambda>_ s.
      Ret sum s))"

definition sys_open_sharedmem :: "kstate \<Rightarrow> (kstate, int) outcome" where
  "sys_open_sharedmem s =
     bnd (argint 0 s) (\<lambda>v s.
     case v of None \<Rightarrow> Ret 0 s | Some n \<Rightarrow> bnd (open_shared_mem n s) (\<lambda>a s. Ret (sint a) s))"

text \<open>A call of type \<open>void\<close> leaves an arbitrary value in the result register; it is the parameter \<open>junk\<close>.\<close>

definition sys_acquire_user_lock :: "kstate \<Rightarrow> (kstate, int) outcome" where
  "sys_acquire_user_lock s = acquire_user_lock s"

definition sys_release_user_lock :: "kstate \<Rightarrow> (kstate, int) outcome" where
  "sys_release_user_lock s = release_user_lock s"

definition sys_print_queue :: "int \<Rightarrow> kstate \<Rightarrow> (kstate, int) outcome" where
  "sys_print_queue junk s = bnd (print_priority_queue s) (\<lambda>_ s. Ret junk s)"

definition sys_close_sharedmem :: "int \<Rightarrow> kstate \<Rightarrow> (kstate, int) outcome" where
  "sys_close_sharedmem junk s =
     bnd (argint 0 s) (\<lambda>v s.
     case v of None \<Rightarrow> Ret junk s | Some n \<Rightarrow> bnd (close_shared_mem n s) (\<lambda>_ s. Ret junk s))"

end
