(* ===== verification/Sysfile.thy ===== *)
theory Sysfile
  imports Syscall
begin

text \<open>
  The file system calls, \<open>sysfile.c\<close>, the dispatcher of \<open>syscall.c\<close> and the trap
  handler of \<open>trap.c\<close>.
\<close>

abbreviation (input) O_RDONLY :: int where "O_RDONLY \<equiv> 0"
abbreviation (input) O_WRONLY :: int where "O_WRONLY \<equiv> 1"
abbreviation (input) O_RDWR :: int where "O_RDWR \<equiv> 2"
abbreviation (input) O_CREATE :: int where "O_CREATE \<equiv> 0x200"

section \<open>Descriptors\<close>

definition argfd :: "nat \<Rightarrow> kstate \<Rightarrow> (kstate, (nat \<times> nat) option) outcome" where
  "argfd n s =
     bnd (argint n s) (\<lambda>v s.
     case v of None \<Rightarrow> Ret None s
     | Some fd \<Rightarrow>
         if fd < 0 \<or> fd \<ge> int NOFILE then Ret None s
         else with_proc s (\<lambda>i s. Ret (map_option (\<lambda>f. (nat fd, f)) (ofile (ptable s ! i) ! nat fd)) s))"

definition fdalloc :: "nat \<Rightarrow> kstate \<Rightarrow> (kstate, int) outcome" where
  "fdalloc f s =
     with_proc s (\<lambda>i s.
     case findi (\<lambda>x. x = None) (ofile (ptable s ! i)) of
       Some fd \<Rightarrow> Ret (int fd) (upd_proc i (\<lambda>q. q\<lparr>ofile := (ofile q)[fd := Some f]\<rparr>) s)
     | None \<Rightarrow> Ret (- 1) s)"

definition sys_dup :: "kstate \<Rightarrow> (kstate, int) outcome" where
  "sys_dup s =
     want (argfd 0 s) (\<lambda>(_, f) s.
     bnd (fdalloc f s) (\<lambda>fd s.
     if fd < 0 then Ret (- 1) s
     else bnd (filedup f s) (\<lambda>_ s. Ret fd s)))"

definition sys_read :: "kstate \<Rightarrow> (kstate, int) outcome" where
  "sys_read s =
     want (argfd 0 s) (\<lambda>(_, f) s.
     want (argint 2 s) (\<lambda>n s.
     want (argptr 1 n s) (\<lambda>p s.
     fileread f p n s)))"

definition sys_write :: "kstate \<Rightarrow> (kstate, int) outcome" where
  "sys_write s =
     want (argfd 0 s) (\<lambda>(_, f) s.
     want (argint 2 s) (\<lambda>n s.
     want (argptr 1 n s) (\<lambda>p s.
     filewrite f p n s)))"

definition sys_close :: "kstate \<Rightarrow> (kstate, int) outcome" where
  "sys_close s =
     want (argfd 0 s) (\<lambda>(fd, f) s.
     with_proc s (\<lambda>i s.
     bnd (fileclose f (upd_proc i (\<lambda>q. q\<lparr>ofile := (ofile q)[fd := None]\<rparr>) s)) (\<lambda>_ s.
     Ret 0 s)))"

definition sys_fstat :: "kstate \<Rightarrow> (kstate, int) outcome" where
  "sys_fstat s =
     want (argfd 0 s) (\<lambda>(_, f) s.
     want (argptr 1 20 s) (\<lambda>st s.
     filestat f st s))"

section \<open>Links\<close>

definition fail_op :: "kstate \<Rightarrow> (kstate, int) outcome" where
  "fail_op s = bnd (end_op s) (\<lambda>_ s. Ret (- 1) s)"

definition link_bad :: "nat \<Rightarrow> kstate \<Rightarrow> (kstate, int) outcome" where
  "link_bad ip s =
     bnd (ilock (Some ip) s) (\<lambda>_ s.
     bnd (iupdate ip (upd_inode ip (\<lambda>n. n\<lparr>i_nlink := i_nlink n - 1\<rparr>) s)) (\<lambda>_ s.
     bnd (iunlockput (Some ip) s) (\<lambda>_ s.
     fail_op s)))"

definition sys_link :: "kstate \<Rightarrow> (kstate, int) outcome" where
  "sys_link s =
     want (argstr 0 s) (\<lambda>old s.
     want (argstr 1 s) (\<lambda>new s.
     bnd (begin_op s) (\<lambda>_ s.
     bnd (namei old s) (\<lambda>ip s.
     case ip of None \<Rightarrow> fail_op s
     | Some ip \<Rightarrow>
         bnd (ilock (Some ip) s) (\<lambda>_ s.
         if i_type (icache s ! ip) = T_DIR
         then bnd (iunlockput (Some ip) s) (\<lambda>_ s. fail_op s)
         else
           bnd (iupdate ip (upd_inode ip (\<lambda>n. n\<lparr>i_nlink := i_nlink n + 1\<rparr>) s)) (\<lambda>_ s.
           bnd (iunlock (Some ip) s) (\<lambda>_ s.
           bnd (nameiparent new s) (\<lambda>(dp, nm) s.
           case dp of None \<Rightarrow> link_bad ip s
           | Some dp \<Rightarrow>
               bnd (ilock (Some dp) s) (\<lambda>_ s.
               bnd (if i_dev (icache s ! dp) \<noteq> i_dev (icache s ! ip) then Ret (- 1) s
                    else dirlink dp nm (i_inum (icache s ! ip)) s) (\<lambda>r s.
               if r < 0 then bnd (iunlockput (Some dp) s) (\<lambda>_ s. link_bad ip s)
               else
                 bnd (iunlockput (Some dp) s) (\<lambda>_ s.
                 bnd (iput (Some ip) s) (\<lambda>_ s.
                 bnd (end_op s) (\<lambda>_ s.
                 Ret 0 s)))))))))))))"

fun isdirempty_loop :: "nat \<Rightarrow> nat list \<Rightarrow> kstate \<Rightarrow> (kstate, bool) outcome" where
  "isdirempty_loop dp [] s = Ret True s"
| "isdirempty_loop dp (off # offs) s =
     bnd (read_dirent ''isdirempty: readi'' dp (of_nat off) s) (\<lambda>de s.
     if de_inum de \<noteq> 0 then Ret False s else isdirempty_loop dp offs s)"

definition isdirempty :: "nat \<Rightarrow> kstate \<Rightarrow> (kstate, bool) outcome" where
  "isdirempty dp s = isdirempty_loop dp (drop 2 (dir_offs (i_size (icache s ! dp)))) s"

definition unlink_bad :: "nat \<Rightarrow> kstate \<Rightarrow> (kstate, int) outcome" where
  "unlink_bad dp s = bnd (iunlockput (Some dp) s) (\<lambda>_ s. fail_op s)"

definition unlink_entry :: "nat \<Rightarrow> nat \<Rightarrow> u32 \<Rightarrow> kstate \<Rightarrow> (kstate, int) outcome" where
  "unlink_entry dp ip off s =
     bnd (writei loc_source dp (replicate 16 0) off 16 s) (\<lambda>r s.
     if r \<noteq> 16 then Panic ''unlink: writei''
     else
       bnd (if i_type (icache s ! ip) = T_DIR
            then iupdate dp (upd_inode dp (\<lambda>n. n\<lparr>i_nlink := i_nlink n - 1\<rparr>) s)
            else Ret () s) (\<lambda>_ s.
       bnd (iunlockput (Some dp) s) (\<lambda>_ s.
       bnd (iupdate ip (upd_inode ip (\<lambda>n. n\<lparr>i_nlink := i_nlink n - 1\<rparr>) s)) (\<lambda>_ s.
       bnd (iunlockput (Some ip) s) (\<lambda>_ s.
       bnd (end_op s) (\<lambda>_ s.
       Ret 0 s))))))"

definition sys_unlink :: "kstate \<Rightarrow> (kstate, int) outcome" where
  "sys_unlink s =
     want (argstr 0 s) (\<lambda>path s.
     bnd (begin_op s) (\<lambda>_ s.
     bnd (nameiparent path s) (\<lambda>(dp, nm) s.
     case dp of None \<Rightarrow> fail_op s
     | Some dp \<Rightarrow>
         bnd (ilock (Some dp) s) (\<lambda>_ s.
         if namecmp_eq nm (cstr ''.'') \<or> namecmp_eq nm (cstr ''..'') then unlink_bad dp s
         else
           bnd (dirlookup dp nm s) (\<lambda>r s.
           case r of None \<Rightarrow> unlink_bad dp s
           | Some (ip, off) \<Rightarrow>
               bnd (ilock (Some ip) s) (\<lambda>_ s.
               if i_nlink (icache s ! ip) < 1 then Panic ''unlink: nlink < 1''
               else
                 bnd (if i_type (icache s ! ip) = T_DIR
                      then bnd (isdirempty ip s) (\<lambda>e s. Ret (\<not> e) s) else Ret False s) (\<lambda>full s.
                 if full then bnd (iunlockput (Some ip) s) (\<lambda>_ s. unlink_bad dp s)
                 else unlink_entry dp ip off s)))))))"

section \<open>Creating and opening\<close>

definition create :: "u8 list \<Rightarrow> int \<Rightarrow> int \<Rightarrow> int \<Rightarrow> kstate \<Rightarrow> (kstate, nat option) outcome" where
  "create path ty major minor s =
     bnd (nameiparent path s) (\<lambda>(dp, nm) s.
     case dp of None \<Rightarrow> Ret None s
     | Some dp \<Rightarrow>
         bnd (ilock (Some dp) s) (\<lambda>_ s.
         bnd (dirlookup dp nm s) (\<lambda>r s.
         case r of
           Some (ip, _) \<Rightarrow>
             bnd (iunlockput (Some dp) s) (\<lambda>_ s.
             bnd (ilock (Some ip) s) (\<lambda>_ s.
             if ty = T_FILE \<and> i_type (icache s ! ip) = T_FILE then Ret (Some ip) s
             else bnd (iunlockput (Some ip) s) (\<lambda>_ s. Ret None s)))
         | None \<Rightarrow>
             bnd (ialloc (i_dev (icache s ! dp)) ty s) (\<lambda>ip s.
             bnd (ilock (Some ip) s) (\<lambda>_ s.
             let s = upd_inode ip (\<lambda>n. n\<lparr>i_major := major, i_minor := minor, i_nlink := 1\<rparr>) s in
             bnd (iupdate ip s) (\<lambda>_ s.
             bnd (if ty = T_DIR
                  then
                    bnd (iupdate dp (upd_inode dp (\<lambda>n. n\<lparr>i_nlink := i_nlink n + 1\<rparr>) s)) (\<lambda>_ s.
                    bnd (dirlink ip (cstr ''.'') (i_inum (icache s ! ip)) s) (\<lambda>r s.
                    if r < 0 then Panic ''create dots''
                    else
                      bnd (dirlink ip (cstr ''..'') (i_inum (icache s ! dp)) s) (\<lambda>r s.
                      if r < 0 then Panic ''create dots'' else Ret () s)))
                  else Ret () s) (\<lambda>_ s.
             bnd (dirlink dp nm (i_inum (icache s ! ip)) s) (\<lambda>r s.
             if r < 0 then Panic ''create: dirlink''
             else
               bnd (iunlockput (Some dp) s) (\<lambda>_ s.
               Ret (Some ip) s)))))))))"

definition open_file :: "nat \<Rightarrow> int \<Rightarrow> kstate \<Rightarrow> (kstate, int) outcome" where
  "open_file ip omode s =
     bnd (filealloc s) (\<lambda>f s.
     bnd (case f of None \<Rightarrow> Ret (- 1) s | Some f \<Rightarrow> fdalloc f s) (\<lambda>fd s.
     case f of
       None \<Rightarrow> bnd (iunlockput (Some ip) s) (\<lambda>_ s. fail_op s)
     | Some f \<Rightarrow>
         if fd < 0
         then bnd (fileclose f s) (\<lambda>_ s. bnd (iunlockput (Some ip) s) (\<lambda>_ s. fail_op s))
         else
           bnd (iunlock (Some ip) s) (\<lambda>_ s.
           bnd (end_op s) (\<lambda>_ s.
           Ret fd (upd_file f (\<lambda>r. r\<lparr>f_type := FD_INODE, f_ip := Some ip, f_off := 0,
             f_readable := (omode AND O_WRONLY = 0),
             f_writable := (omode AND O_WRONLY \<noteq> 0 \<or> omode AND O_RDWR \<noteq> 0)\<rparr>) s)))))"

definition sys_open :: "kstate \<Rightarrow> (kstate, int) outcome" where
  "sys_open s =
     want (argstr 0 s) (\<lambda>path s.
     want (argint 1 s) (\<lambda>omode s.
     bnd (begin_op s) (\<lambda>_ s.
     if omode AND O_CREATE \<noteq> 0
     then
       bnd (create path T_FILE 0 0 s) (\<lambda>ip s.
       case ip of None \<Rightarrow> fail_op s | Some ip \<Rightarrow> open_file ip omode s)
     else
       bnd (namei path s) (\<lambda>ip s.
       case ip of None \<Rightarrow> fail_op s
       | Some ip \<Rightarrow>
           bnd (ilock (Some ip) s) (\<lambda>_ s.
           if i_type (icache s ! ip) = T_DIR \<and> omode \<noteq> O_RDONLY
           then bnd (iunlockput (Some ip) s) (\<lambda>_ s. fail_op s)
           else open_file ip omode s)))))"

definition made :: "(kstate, nat option) outcome \<Rightarrow> (kstate, int) outcome" where
  "made m =
     bnd m (\<lambda>ip s.
     case ip of None \<Rightarrow> fail_op s
     | Some ip \<Rightarrow> bnd (iunlockput (Some ip) s) (\<lambda>_ s. bnd (end_op s) (\<lambda>_ s. Ret 0 s)))"

definition sys_mkdir :: "kstate \<Rightarrow> (kstate, int) outcome" where
  "sys_mkdir s =
     bnd (begin_op s) (\<lambda>_ s.
     made (bnd (argstr 0 s) (\<lambda>path s.
       case path of None \<Rightarrow> Ret None s | Some path \<Rightarrow> create path T_DIR 0 0 s)))"

text \<open>The device numbers are passed as \<open>short\<close>.\<close>

definition i16 :: "int \<Rightarrow> int" where
  "i16 x = signed_take_bit 15 x"

definition sys_mknod :: "kstate \<Rightarrow> (kstate, int) outcome" where
  "sys_mknod s =
     bnd (begin_op s) (\<lambda>_ s.
     made (bnd (argstr 0 s) (\<lambda>path s.
       case path of None \<Rightarrow> Ret None s
       | Some path \<Rightarrow>
           bnd (argint 1 s) (\<lambda>major s.
           case major of None \<Rightarrow> Ret None s
           | Some major \<Rightarrow>
               bnd (argint 2 s) (\<lambda>minor s.
               case minor of None \<Rightarrow> Ret None s
               | Some minor \<Rightarrow> create path T_DEV (i16 major) (i16 minor) s)))))"

definition sys_chdir :: "kstate \<Rightarrow> (kstate, int) outcome" where
  "sys_chdir s =
     bnd (myproc s) (\<lambda>p s.
     bnd (begin_op s) (\<lambda>_ s.
     bnd (bnd (argstr 0 s) (\<lambda>path s. case path of None \<Rightarrow> Ret None s | Some path \<Rightarrow> namei path s)) (\<lambda>ip s.
     case ip of None \<Rightarrow> fail_op s
     | Some ip \<Rightarrow>
         bnd (ilock (Some ip) s) (\<lambda>_ s.
         if i_type (icache s ! ip) \<noteq> T_DIR
         then bnd (iunlockput (Some ip) s) (\<lambda>_ s. fail_op s)
         else
           bnd (iunlock (Some ip) s) (\<lambda>_ s. deref p (\<lambda>i.
           bnd (iput (cwd (ptable s ! i)) s) (\<lambda>_ s.
           bnd (end_op s) (\<lambda>_ s.
           Ret 0 (upd_proc i (\<lambda>q. q\<lparr>cwd := Some ip\<rparr>) s)))))))))"

section \<open>Programs, pipes and copies\<close>

fun fetch_args :: "nat \<Rightarrow> u32 \<Rightarrow> kstate \<Rightarrow> (kstate, u8 list list option) outcome" where
  "fetch_args 0 uargv s = Ret None s"
| "fetch_args (Suc n) uargv s =
     bnd (fetchint uargv s) (\<lambda>uarg s.
     case uarg of None \<Rightarrow> Ret None s
     | Some uarg \<Rightarrow>
         if uarg = 0 then Ret (Some []) s
         else
           bnd (fetchstr (word_of_int uarg) s) (\<lambda>t s.
           case t of None \<Rightarrow> Ret None s
           | Some t \<Rightarrow>
               bnd (fetch_args n (uargv + 4) s) (\<lambda>ts s.
               Ret (map_option (\<lambda>ts. t # ts) ts) s)))"

definition sys_exec :: "kstate \<Rightarrow> (kstate, int) outcome" where
  "sys_exec s =
     want (argstr 0 s) (\<lambda>path s.
     want (argint 1 s) (\<lambda>uargv s.
     want (fetch_args MAXARG (word_of_int uargv) s) (\<lambda>argv s.
     exec path argv s)))"

definition sys_pipe :: "kstate \<Rightarrow> (kstate, int) outcome" where
  "sys_pipe s =
     want (argptr 0 8 s) (\<lambda>a s.
     want (pipealloc s) (\<lambda>(rf, wf) s.
     bnd (fdalloc rf s) (\<lambda>fd0 s.
     bnd (if fd0 < 0 then Ret (- 1) s else fdalloc wf s) (\<lambda>fd1 s.
     if fd0 < 0 \<or> fd1 < 0
     then
       bnd (if fd0 \<ge> 0
            then with_proc s (\<lambda>i s. Ret () (upd_proc i (\<lambda>q. q\<lparr>ofile := (ofile q)[nat fd0 := None]\<rparr>) s))
            else Ret () s) (\<lambda>_ s.
       bnd (fileclose rf s) (\<lambda>_ s.
       bnd (fileclose wf s) (\<lambda>_ s.
       Ret (- 1) s)))
     else
       bnd (store32 a (word_of_int fd0) s) (\<lambda>_ s.
       bnd (store32 (a + 4) (word_of_int fd1) s) (\<lambda>_ s.
       Ret 0 s))))))"

text \<open>The loop of \<open>sys_copy_file\<close>; the result says whether it ran to its end.\<close>

fun copy_loop :: "nat \<Rightarrow> nat \<Rightarrow> u32 \<Rightarrow> int \<Rightarrow> nat list \<Rightarrow> kstate \<Rightarrow> (kstate, bool) outcome" where
  "copy_loop src dst b len [] s = Ret True s"
| "copy_loop src dst b len (off # offs) s =
     (let diff = len - int off; n = (if diff > int BSIZE then int BSIZE else diff) in
      bnd (readi mem_sink src b (of_nat off) (word_of_int n) s) (\<lambda>(r, _) s.
      if r < 0 then Ret False s
      else
        bnd (writei mem_source dst b (of_nat off) (word_of_int n) s) (\<lambda>w s.
        if w < 0 then Ret False s else copy_loop src dst b len offs s)))"

definition copy_file :: "nat \<Rightarrow> nat \<Rightarrow> kstate \<Rightarrow> (kstate, int) outcome" where
  "copy_file src dst s =
     (let len = sint (i_size (icache s ! src)) in
      bnd (kalloc s) (\<lambda>b s.
      bnd (copy_loop src dst b len (map (\<lambda>k. BSIZE * k) [0..<(nat len + (BSIZE - 1)) div BSIZE]) s) (\<lambda>ok s.
      if \<not> ok
      then bnd (iunlockput (Some dst) s) (\<lambda>_ s. bnd (iunlock (Some src) s) (\<lambda>_ s. fail_op s))
      else
        bnd (iupdate dst (upd_inode dst (\<lambda>n. n\<lparr>i_size := word_of_int len\<rparr>) s)) (\<lambda>_ s.
        bnd (iunlock (Some dst) s) (\<lambda>_ s.
        bnd (iunlock (Some src) s) (\<lambda>_ s.
        bnd (end_op s) (\<lambda>_ s.
        bnd (kfree b s) (\<lambda>_ s.
        Ret 0 s))))))))"

definition sys_copy_file :: "kstate \<Rightarrow> (kstate, int) outcome" where
  "sys_copy_file s =
     want (argstr 0 s) (\<lambda>src s.
     want (argstr 1 s) (\<lambda>dest s.
     bnd (begin_op s) (\<lambda>_ s.
     bnd (namei src s) (\<lambda>ip s.
     case ip of None \<Rightarrow> fail_op s
     | Some ip \<Rightarrow>
         bnd (ilock (Some ip) s) (\<lambda>_ s.
         bnd (create dest T_FILE 0 0 s) (\<lambda>dp s.
         case dp of
           None \<Rightarrow> bnd (iunlock (Some ip) s) (\<lambda>_ s. fail_op s)
         | Some dp \<Rightarrow> copy_file ip dp s))))))"

section \<open>Dispatch\<close>

definition syscall_fn :: "int \<Rightarrow> int \<Rightarrow> (kstate \<Rightarrow> (kstate, int) outcome) option" where
  "syscall_fn junk num =
     (if num < 1 \<or> num > 35 then None
      else Some ([sys_fork, sys_exit, sys_wait, sys_pipe, sys_read, sys_kill, sys_exec, sys_fstat, sys_chdir, sys_dup,
        sys_getpid, sys_sbrk, sys_sleep, sys_uptime, sys_open, sys_write, sys_mknod, sys_unlink, sys_link, sys_mkdir,
        sys_close, sys_find_digital_root, sys_copy_file, sys_get_uncle_count, sys_get_process_lifetime,
        sys_change_process_queue, sys_set_bjf_system, sys_set_bjf_process, sys_print_schedule_info, sys_acquire_user_lock,
        sys_release_user_lock, sys_print_queue junk, sys_get_num_syscalls, sys_open_sharedmem, sys_close_sharedmem junk]
        ! nat (num - 1)))"

text \<open>\<open>mycpu()->executed_syscalls++\<close> with interrupts off.\<close>

definition count_syscall :: "hw \<Rightarrow> (hw, unit) outcome" where
  "count_syscall h =
     bnd (mycpu (cli h)) (\<lambda>c h.
     Ret () (sti (upd_cpu c (\<lambda>x. x\<lparr>cpu_executed_syscalls := cpu_executed_syscalls x + 1\<rparr>) h)))"

definition syscall :: "int \<Rightarrow> kstate \<Rightarrow> (kstate, unit) outcome" where
  "syscall junk s =
     bnd (myproc s) (\<lambda>p s.
     bnd (zoom (\<lambda>h s. s\<lparr>hw := h\<rparr>) (count_syscall (hw s)) s) (\<lambda>_ s. deref p (\<lambda>i.
     let s = s\<lparr>executed_syscalls := executed_syscalls s + 1\<rparr>;
         num = sint (tf_eax (tf (ptable s ! i)))
     in case syscall_fn junk num of
          Some f \<Rightarrow>
            bnd (f s) (\<lambda>r s. Ret () (upd_proc i (\<lambda>q. q\<lparr>tf := (tf q)\<lparr>tf_eax := word_of_int r\<rparr>\<rparr>) s))
        | None \<Rightarrow>
            bnd (cprintf ''%d %s: unknown sys call %d\<newline>''
              [Num (pid (ptable s ! i)), Str (Some (upto0 (name (ptable s ! i)))), Num num] s) (\<lambda>_ s.
            Ret () (upd_proc i (\<lambda>q. q\<lparr>tf := (tf q)\<lparr>tf_eax := - 1\<rparr>\<rparr>) s)))))"

section \<open>Traps\<close>

text \<open>What the devices deliver with an interrupt: characters of the keyboard or the serial line, and the faulting address.\<close>

record devices =
  dev_chars :: "int list"
  dev_cr2 :: u32

definition exit_if_killed :: "bool \<Rightarrow> kstate \<Rightarrow> (kstate, unit) outcome" where
  "exit_if_killed user s =
     bnd (myproc s) (\<lambda>p s.
     case p of None \<Rightarrow> Ret () s
     | Some i \<Rightarrow> if killed (ptable s ! i) \<and> user then exit s else Ret () s)"

definition kcpuid :: "kstate \<Rightarrow> (kstate, nat) outcome" where
  "kcpuid s = zoom (\<lambda>h s. s\<lparr>hw := h\<rparr>) (cpuid (hw s)) s"

definition timer_tick :: "kstate \<Rightarrow> (kstate, unit) outcome" where
  "timer_tick s =
     bnd (kcpuid s) (\<lambda>c s.
     if c = 0
     then
       bnd (kacquire Ticks_lock s) (\<lambda>_ s.
       bnd (wakeup (Some Chan_ticks) (s\<lparr>ticks := ticks s + 1\<rparr>)) (\<lambda>_ s.
       bnd (krelease Ticks_lock s) (\<lambda>_ s.
       age_processes s)))
     else Ret () s)"

definition bad_trap :: "devices \<Rightarrow> trapframe \<Rightarrow> kstate \<Rightarrow> (kstate, unit) outcome" where
  "bad_trap dv fr s =
     bnd (myproc s) (\<lambda>p s.
     bnd (kcpuid s) (\<lambda>c s.
     case p of
       Some i \<Rightarrow>
         if tf_cs fr AND 3 = 0 then Panic ''trap''
         else
           let q = ptable s ! i in
           bnd (cprintf ''pid %d %s: trap %d err %d on cpu %d eip 0x%x addr 0x%x--kill proc\<newline>''
             [Num (pid q), Str (Some (upto0 (name q))), Num (sint (tf_trapno fr)), Num (sint (tf_err fr)), Num (int c),
              Num (sint (tf_eip fr)), Num (sint (dev_cr2 dv))] s) (\<lambda>_ s.
           Ret () (upd_proc i (\<lambda>q. q\<lparr>killed := True\<rparr>) s))
     | None \<Rightarrow> Panic ''trap''))"

definition trap :: "int \<Rightarrow> devices \<Rightarrow> trapframe \<Rightarrow> kstate \<Rightarrow> (kstate, unit) outcome" where
  "trap junk dv fr s =
     (let no = tf_trapno fr; user = (tf_cs fr AND 3 = 3) in
      if no = 64
      then
        bnd (mykilled s) (\<lambda>k s.
        bnd (if k then exit s else Ret () s) (\<lambda>_ s.
        bnd (with_proc s (\<lambda>i s. Ret () (upd_proc i (\<lambda>q. q\<lparr>tf := fr\<rparr>) s))) (\<lambda>_ s.
        bnd (syscall junk s) (\<lambda>_ s.
        bnd (mykilled s) (\<lambda>k s.
        if k then exit s else Ret () s)))))
      else
        bnd (if no = 32 then timer_tick s
             else if no = 46 \<or> no = 47 then Ret () s
             else if no = 33 \<or> no = 36 then consoleintr (dev_chars dv) s
             else if no = 39 \<or> no = 63
             then bnd (kcpuid s) (\<lambda>c s. cprintf ''cpu%d: spurious interrupt at %x:%x\<newline>''
                    [Num (int c), Num (uint (tf_cs fr)), Num (sint (tf_eip fr))] s)
             else bad_trap dv fr s) (\<lambda>_ s.
        bnd (exit_if_killed user s) (\<lambda>_ s.
        bnd (bnd (myproc s) (\<lambda>p s.
             case p of None \<Rightarrow> Ret () s
             | Some i \<Rightarrow> if state (ptable s ! i) = RUNNING \<and> no = 32 then yield s else Ret () s)) (\<lambda>_ s.
        exit_if_killed user s))))"

text \<open>The rest of \<open>trap\<close> once a process that lost the processor on a clock tick runs again.\<close>

definition trap_resume :: "bool \<Rightarrow> trapframe \<Rightarrow> kstate \<Rightarrow> (kstate, unit) outcome" where
  "trap_resume ie fr s = bnd (yield_resume ie s) (\<lambda>_ s. exit_if_killed (tf_cs fr AND 3 = 3) s)"

end
