(* ===== verification/Syscall_Props.thy ===== *)
theory Syscall_Props
  imports Sysfile Usermem_Props Bio_Props
begin

text \<open>
  The system call boundary: what the kernel accepts from a process, and the digital
  root.
\<close>

section \<open>Arguments\<close>

text \<open>A process with index \<open>i\<close> runs here.\<close>

definition runs :: "kstate \<Rightarrow> nat \<Rightarrow> bool" where
  "runs s i \<longleftrightarrow> cpu_ok (hw s) \<and> cur (hw s) = Some i"

lemma runs_touch [simp]: "runs s i \<Longrightarrow> runs (s\<lparr>hw := touch (hw s)\<rparr>) i"
  by (simp add: runs_def)

lemma myproc_runs: "runs s i \<Longrightarrow> myproc s = Ret (Some i) (s\<lparr>hw := touch (hw s)\<rparr>)"
  by (simp add: runs_def myproc_ok)

text \<open>The bytes of a C string in the memory of the process, when its end is within \<open>n\<close> bytes.\<close>

definition user_string :: "u32 \<Rightarrow> nat \<Rightarrow> kstate \<Rightarrow> u8 list option" where
  "user_string a n s = (if 0 \<in> set (user_bytes a n s) then Some (takeWhile (\<lambda>c. c \<noteq> 0) (user_bytes a n s)) else None)"

lemma scan_string_eq: "readable a n s \<Longrightarrow> scan_string a n s = Ret (user_string a n s) s"
proof (induction n arbitrary: a)
  case (Suc n)
  then show ?case by (auto simp: readable_Suc load8_ok user_string_def user_bytes_Suc)
qed (simp add: user_string_def)

lemma fetchint_eq:
  assumes "runs s i" "readable a 4 s"
  defines "z \<equiv> sz (ptable s ! i)"
  shows "fetchint a s = Ret (if a \<ge> z \<or> a + 4 > z then None else Some (sint (ld32 (user_bytes a 4 s) 0))) (s\<lparr>hw := touch (hw s)\<rparr>)"
proof -
  let ?u = "s\<lparr>hw := touch (hw s)\<rparr>"
  have "loads a 4 ?u = Ret (user_bytes a 4 s) ?u"
    using loads_ok [of a 4 ?u] user_bytes_cong [of ?u s] readable_cong [of ?u s] assms(2) by simp
  then show ?thesis by (simp add: fetchint_def myproc_runs [OF assms(1)] deref_def z_def load32_def Let_def)
qed

lemma in_range:
  fixes a z :: u32
  assumes "\<not> a \<ge> z" "\<not> a + word_of_int len > z" "0 \<le> len" "len < 2 ^ 31" "z \<le> KERNBASE"
  shows "unat a + nat len \<le> unat z"
proof -
  have a: "unat a < unat z" "unat z \<le> 2 ^ 31" using assms(1,5) by (simp_all add: word_le_nat_alt not_le)
  have l: "unat (word_of_int len :: u32) = nat len"
    using assms(3,4) by (simp add: unsigned_of_int take_bit_int_eq_self nat_mono_iff take_bit_nat_eq_self unat_eq_nat_uint)
  have "unat (a + word_of_int len) = unat a + nat len"
    using a assms(3,4) l by (subst unat_plus_simple [THEN iffD1]) (auto simp: no_olen_add_nat)
  with assms(2) show ?thesis by (simp add: word_le_nat_alt not_less)
qed

lemma fetchint_Ret:
  assumes "runs s i" "fetchint a s = Ret (Some v) t"
  shows "a < sz (ptable s ! i) \<and> a + 4 \<le> sz (ptable s ! i) \<and> v = sint (ld32 (user_bytes a 4 s) 0)
    \<and> t = s\<lparr>hw := touch (hw s)\<rparr>"
proof -
  let ?u = "s\<lparr>hw := touch (hw s)\<rparr>"
  have "readable a 4 ?u"
    using assms loads_fault [of a 4 ?u]
    by (cases "readable a 4 ?u") (auto simp: fetchint_def myproc_runs deref_def load32_def Let_def split: if_splits)
  then have "readable a 4 s" by (simp add: readable_cong [of ?u s])
  from fetchint_eq [OF assms(1) this] assms(2) show ?thesis by (auto simp: not_le split: if_splits)
qed

lemma argint_Ret:
  assumes "runs s i" "argint n s = Ret (Some v) t"
  defines "a \<equiv> tf_esp (tf (ptable s ! i)) + 4 + 4 * of_nat n"
  shows "a < sz (ptable s ! i) \<and> a + 4 \<le> sz (ptable s ! i) \<and> v = sint (ld32 (user_bytes a 4 s) 0)
    \<and> runs t i \<and> mem t = mem s \<and> cr3 t = cr3 s \<and> ptable t = ptable s"
proof -
  let ?u = "s\<lparr>hw := touch (hw s)\<rparr>"
  have "fetchint a ?u = Ret (Some v) t" "runs ?u i"
    using assms by (simp_all add: argint_def myproc_runs deref_def)
  from fetchint_Ret [OF this(2,1)] assms(1) show ?thesis
    by (simp add: runs_def user_bytes_cong [of ?u s])
qed

lemma fetchstr_Ret:
  assumes "runs s i" "fetchstr a s = Ret (Some str) t"
  shows "unat a + length str < unat (sz (ptable s ! i)) \<and> user_bytes a (Suc (length str)) s = str @ [0] \<and> 0 \<notin> set str"
proof -
  let ?u = "s\<lparr>hw := touch (hw s)\<rparr>" and ?z = "sz (ptable s ! i)"
  have scan: "scan_string b k u = Ret (Some x) w \<Longrightarrow>
      length x < k \<and> user_bytes b (Suc (length x)) u = x @ [0] \<and> 0 \<notin> set x" for b k u x w
  proof (induction k arbitrary: b x w)
    case (Suc k)
    then show ?case using Suc.IH [of "b + 1"]
      by (auto simp: bnd_Ret_iff load8_Ret user_bytes_Suc split: if_splits)
  qed simp
  have "scan_string a (unat ?z - unat a) ?u = Ret (Some str) t"
    using assms by (auto simp: fetchstr_def myproc_runs deref_def Let_def split: if_splits)
  from scan [OF this] show ?thesis using user_bytes_cong [of ?u s] by auto
qed

text \<open>
  C13: The kernel follows only pointers into the memory of the calling process. When the
  size of the process is at most \<open>KERNBASE\<close>, an integer argument is fetched from four
  bytes below that size, a buffer accepted by \<open>argptr\<close> lies below it with its whole
  length, wrap-around included, and a string accepted by \<open>argstr\<close> ends below it with
  the zero byte that is found there.
\<close>

theorem syscall_arguments_in_range:
  assumes "runs s i" "sz (ptable s ! i) \<le> KERNBASE"
  shows "(argint n s = Ret (Some v) t \<longrightarrow>
      unat (tf_esp (tf (ptable s ! i)) + 4 + 4 * of_nat n) + 4 \<le> unat (sz (ptable s ! i)))
    \<and> (len < 2 ^ 31 \<longrightarrow> argptr n len s = Ret (Some a) t \<longrightarrow> 0 \<le> len \<and> unat a + nat len \<le> unat (sz (ptable s ! i)))
    \<and> (argstr n s = Ret (Some str) t \<longrightarrow> (\<exists>b. unat b + length str < unat (sz (ptable s ! i))
        \<and> user_bytes b (Suc (length str)) s = str @ [0] \<and> 0 \<notin> set str))"
proof (intro conjI impI)
  let ?b = "tf_esp (tf (ptable s ! i)) + 4 + 4 * of_nat n"
  assume "argint n s = Ret (Some v) t"
  from argint_Ret [OF assms(1) this] in_range [of "sz (ptable s ! i)" ?b 4] assms(2)
  show "unat ?b + 4 \<le> unat (sz (ptable s ! i))" by (simp add: not_le not_less)
next
  assume len: "len < 2 ^ 31" and *: "argptr n len s = Ret (Some a) t"
  let ?u = "s\<lparr>hw := touch (hw s)\<rparr>"
  from * obtain v w where v: "argint n ?u = Ret (Some v) w"
      "\<not> (len < 0 \<or> word_of_int v \<ge> sz (ptable w ! i) \<or> word_of_int v + word_of_int len > sz (ptable w ! i))" "a = word_of_int v"
    by (auto simp: argptr_def myproc_runs [OF assms(1)] deref_def bnd_Ret_iff Let_def split: option.splits if_splits)
  have "runs ?u i" using assms(1) by simp
  from argint_Ret [OF this v(1)] have "ptable w = ptable s" by simp
  with v(2,3) in_range [of "sz (ptable s ! i)" a len] len assms(2)
  show "0 \<le> len" "unat a + nat len \<le> unat (sz (ptable s ! i))" by auto
next
  assume "argstr n s = Ret (Some str) t"
  then obtain v w where v: "argint n s = Ret (Some v) w" "fetchstr (word_of_int v) w = Ret (Some str) t"
    by (auto simp: argstr_def bnd_Ret_iff split: option.splits)
  from argint_Ret [OF assms(1) v(1)] have w: "runs w i" "mem w = mem s" "cr3 w = cr3 s" "ptable w = ptable s" by auto
  from fetchstr_Ret [OF w(1) v(2)] user_bytes_cong [OF w(2,3)] w(4)
  show "\<exists>b. unat b + length str < unat (sz (ptable s ! i))
      \<and> user_bytes b (Suc (length str)) s = str @ [0] \<and> 0 \<notin> set str" by auto
qed

text \<open>
  A process with one page of memory: the page directory at physical address \<open>0x1000\<close>
  maps page 0 to \<open>0x3000\<close> through the page table at \<open>0x2000\<close>. The stack pointer is
  \<open>0x100\<close>, the first argument the address \<open>0x200\<close>, and a string stands there.
\<close>

definition demo_user_mem :: memory where
  "demo_user_mem = (write32 (write32 (write32 (write32 (\<lambda>_. 0) 0x80001000 0x2007) 0x80002000 0x3007) 0x80003104 0x200)
     0x80003200 0x00006261)"

definition demo_user :: kstate where
  "demo_user = demo_proc_state\<lparr>cr3 := 0x1000, mem := demo_user_mem, ptable := map (\<lambda>p. p\<lparr>sz := 4096,
     pgdir := 0x80001000, tf := zero_tf\<lparr>tf_esp := 0x100\<rparr>\<rparr>) (ptable demo_proc_state)\<rparr>"

lemma demo_user_sel [simp]:
  "mem demo_user = demo_user_mem" "cr3 demo_user = 0x1000" "hw demo_user = demo_running 2" "length (ptable demo_user) = 3"
  "ptable demo_user ! 2 = (demo_proc 3 BJF 7)\<lparr>sz := 4096, pgdir := 0x80001000, tf := zero_tf\<lparr>tf_esp := 0x100\<rparr>\<rparr>"
  by (simp_all add: demo_user_def demo_proc_state_def demo_procs_def)

lemma demo_user_runs: "runs demo_user 2"
  by (simp add: runs_def)

lemma demo_user_translate:
  assumes "v < 4096"
  shows "translate w v demo_user = Some (0x80003000 + v)"
proof -
  have small: "unat v < 2 ^ 12" using assms by (simp add: word_less_nat_alt)
  have d: "drop_bit k v = 0" if "12 \<le> k" for k
  proof -
    have "unat (drop_bit k v) = 0"
      unfolding unat_drop_bit_eq using small power_increasing [OF that, of "2 :: nat"] by (simp add: drop_bit_eq_div)
    then show ?thesis by (simp add: unat_eq_zero)
  qed
  then have "take_bit 12 v = v" by (simp add: take_bit_eq_self_iff_drop_bit_eq_0)
  moreover have "v AND 0xFFF = take_bit 12 v" by (simp add: take_bit_eq_mask mask_numeral)
  moreover have "\<not> KERNBASE \<le> v" using small by (simp add: word_le_nat_alt)
  moreover have "pte_of v demo_user = 0x3007"
    by (simp add: pte_of_def pde_at_def pte_in_def PDX_def PTX_def d P2V_def PTE_ADDR_def Let_def read32_def write32_def demo_user_mem_def)
  ultimately show ?thesis by (simp add: translate_def P2V_def PTE_ADDR_def Let_def)
qed

lemma demo_user_bytes:
  "user_bytes 0x104 4 demo_user = [0, 2, 0, 0]" "user_bytes 0x200 3 demo_user = [0x61, 0x62, 0]"
  by (simp_all add: user_bytes_def user_byte_def demo_user_translate upt_rec demo_user_mem_def write32_def)

lemma demo_user_readable: "unat a + n \<le> 4096 \<Longrightarrow> readable a n demo_user"
proof -
  assume "unat a + n \<le> 4096"
  then have "a + of_nat k < 4096" if "k < n" for k
    using that by (simp add: word_less_nat_alt unat_word_ariths unat_of_nat take_bit_nat_eq_self)
  then show ?thesis by (simp add: readable_def demo_user_translate)
qed

lemma demo_user_argint:
  assumes "runs s 2" "mem s = mem demo_user" "cr3 s = cr3 demo_user" "ptable s = ptable demo_user"
  shows "argint 0 s = Ret (Some 0x200) (s\<lparr>hw := touch (touch (hw s))\<rparr>)"
proof -
  let ?u = "s\<lparr>hw := touch (hw s)\<rparr>"
  have "runs ?u 2" using assms(1) by (rule runs_touch)
  moreover have "readable 0x104 4 ?u" using demo_user_readable [of "0x104" 4] readable_cong [of ?u demo_user] assms by simp
  moreover have "user_bytes 0x104 4 ?u = [0, 2, 0, 0]" using user_bytes_cong [of ?u demo_user] demo_user_bytes assms by simp
  ultimately have "fetchint 0x104 ?u = Ret (Some 0x200) (s\<lparr>hw := touch (touch (hw s))\<rparr>)"
    using fetchint_eq [of ?u 2 "0x104"] assms(4) by (simp add: ld32_def)
  then show ?thesis using assms(4) by (simp add: argint_def myproc_runs [OF assms(1)] deref_def zero_tf_def)
qed

lemma syscall_arguments_in_range_witness:
  "\<exists>t u. argint 0 demo_user = Ret (Some 0x200) t \<and> unat (0x104 :: u32) + 4 \<le> unat (4096 :: u32)
     \<and> argptr 0 8 demo_user = Ret (Some 0x200) u \<and> unat (0x200 :: u32) + nat 8 \<le> unat (4096 :: u32)"
proof -
  let ?t = "demo_user\<lparr>hw := touch (hw demo_user)\<rparr>"
  obtain t where t: "argint 0 demo_user = Ret (Some 0x200) t" using demo_user_argint [of demo_user] demo_user_runs by simp
  obtain u where u: "argint 0 ?t = Ret (Some 0x200) u" "ptable u = ptable demo_user"
    using demo_user_argint [OF runs_touch [OF demo_user_runs]] by simp
  then have p: "argptr 0 8 demo_user = Ret (Some 0x200) u"
    by (simp add: argptr_def myproc_runs [OF demo_user_runs] deref_def)
  have "sz (ptable demo_user ! 2) \<le> KERNBASE" by simp
  from syscall_arguments_in_range [OF demo_user_runs this, of 0 "0x200" t 8 "0x200" "[]"]
    syscall_arguments_in_range [OF demo_user_runs this, of 0 "0x200" u 8 "0x200" "[]"] t p
  show ?thesis by (intro exI [of _ t] exI [of _ u]) (simp add: zero_tf_def)
qed

section \<open>The digital root\<close>

lemma digit_sum_mod: "0 \<le> n \<Longrightarrow> digit_sum n m mod 9 = (n + m) mod 9"
proof (induction n m rule: digit_sum.induct)
  case (1 n m)
  show ?case
  proof (cases "n = 0")
    case False
    then have "0 < n" using 1 by simp
    then have "digit_sum n m mod 9 = (n div 10 + (m + n mod 10)) mod 9"
      using 1 by (subst digit_sum.simps) (simp add: cdiv_nonneg crem_nonneg)
    also have "\<dots> = ((n div 10 + (m + n mod 10)) + 9 * (n div 10)) mod 9"
      by (rule mod_mult_self2 [symmetric])
    also have "(n div 10 + (m + n mod 10)) + 9 * (n div 10) = n + m" using div_mult_mod_eq [of n 10] by linarith
    finally show ?thesis .
  qed (simp add: digit_sum.simps)
qed

lemma digit_sum_pos: "0 \<le> n \<Longrightarrow> 0 \<le> m \<Longrightarrow> 0 < n + m \<Longrightarrow> 0 < digit_sum n m"
proof (induction n m rule: digit_sum.induct)
  case (1 n m)
  show ?case
  proof (cases "n = 0")
    case False
    then have "0 < n" using 1 by simp
    moreover have "0 < n div 10 + (m + n mod 10)"
      using \<open>0 < n\<close> 1 div_mult_mod_eq [of n 10] pos_mod_sign [of 10 n] pos_imp_zdiv_nonneg_iff [of 10 n] by linarith
    ultimately show ?thesis using 1 by (subst digit_sum.simps) (simp add: cdiv_nonneg crem_nonneg)
  qed (use 1 in \<open>simp add: digit_sum.simps\<close>)
qed

text \<open>
  C14: Summing the digits again and again ends, and what it ends with is the closed form
  of the digital root: the residue modulo nine, with nine in the place of zero.
\<close>

theorem find_digital_root_closed_form:
  "find_digital_root n = (if n \<le> 0 then - 1 else 1 + (n - 1) mod 9)"
proof -
  have "digital_root_loop n = 1 + (n - 1) mod 9" if "0 < n" for n
    using that
  proof (induction n rule: digital_root_loop.induct)
    case (1 n)
    show ?case
    proof (cases "9 < n")
      case True
      then have "digital_root_loop n = 1 + (digit_sum n 0 - 1) mod 9"
        using 1 digit_sum_pos [of n 0] by (subst digital_root_loop.simps) simp
      also have "(digit_sum n 0 - 1) mod 9 = (n - 1) mod 9"
        using mod_diff_cong [OF digit_sum_mod [of n 0] refl, of 1] True by simp
      finally show ?thesis .
    next
      case False
      then show ?thesis using 1 by (subst digital_root_loop.simps) simp
    qed
  qed
  then show ?thesis by (simp add: find_digital_root_def)
qed

end
