(* ===== verification/Shell.thy ===== *)
theory Shell
  imports Xv6_Prelude
begin

text \<open>
  The parser of the shell (\<open>sh.c\<close>). The command line is a list of characters without
  the terminating zero; a pointer into it is a position, the end \<open>es\<close> its length.
  A word of a command is the pair of its start and of its end, as in the structures
  of the source, and \<open>nulterminate\<close> ends the words by zeros written into the line.
  Commands are trees; running out of memory in \<open>malloc\<close> is left out.
\<close>

section \<open>Commands\<close>

datatype 'w cmd =
    EXEC "'w list"
  | REDIR "'w cmd" 'w nat nat
  | PIPE "'w cmd" "'w cmd"
  | LIST "'w cmd" "'w cmd"
  | BACK "'w cmd"

abbreviation (input) MAXARGS :: nat where "MAXARGS \<equiv> 10"

type_synonym token = "nat \<times> nat"

text \<open>The arguments of a redirection besides the command: the file, the mode and the descriptor.\<close>

type_synonym redir = "token \<times> nat \<times> nat"

text \<open>\<open>O_RDONLY\<close> and \<open>O_WRONLY | O_CREATE\<close> of \<open>fcntl.h\<close>.\<close>

abbreviation (input) rdonly :: nat where "rdonly \<equiv> 0"
abbreviation (input) wronly_create :: nat where "wronly_create \<equiv> 0x201"

definition redircmd :: "'w cmd \<Rightarrow> 'w \<times> nat \<times> nat \<Rightarrow> 'w cmd" where
  "redircmd c r = (case r of (f, mode, fd) \<Rightarrow> REDIR c f mode fd)"

text \<open>A parse ends with a result or with the message of \<open>panic\<close>, which exits; None is out of fuel.\<close>

type_synonym 'a parse = "(string + 'a) option"

fun pbind :: "'a parse \<Rightarrow> ('a \<Rightarrow> 'b parse) \<Rightarrow> 'b parse" where
  "pbind None f = None"
| "pbind (Some (Inl e)) f = Some (Inl e)"
| "pbind (Some (Inr x)) f = f x"

abbreviation panic_sh :: "string \<Rightarrow> 'a parse" where "panic_sh e \<equiv> Some (Inl e)"
abbreviation ok :: "'a \<Rightarrow> 'a parse" where "ok x \<equiv> Some (Inr x)"

lemma pbind_cong [fundef_cong]: "m = m' \<Longrightarrow> (\<And>x. m' = Some (Inr x) \<Longrightarrow> f x = f' x) \<Longrightarrow> pbind m f = pbind m' f'"
  by (cases "(m, f)" rule: pbind.cases) auto

section \<open>Tokens\<close>

abbreviation (input) NUL :: char where "NUL \<equiv> CHR 0x00"

definition whitespace :: string where
  "whitespace = [CHR '' '', CHR 0x09, CHR 0x0D, CHR 0x0A, CHR 0x0B]"

definition symbols :: string where
  "symbols = ''<|>&;()''"

text \<open>\<open>strchr\<close> of \<open>ulib.c\<close> as a truth value; it does not find the terminating zero.\<close>

definition strchr :: "string \<Rightarrow> char \<Rightarrow> bool" where
  "strchr s c \<longleftrightarrow> c \<in> set s"

definition char_at :: "string \<Rightarrow> nat \<Rightarrow> char" where
  "char_at buf s = (if s < length buf then buf ! s else NUL)"

text \<open>The loops over white space and over a word.\<close>

function skip_while :: "(char \<Rightarrow> bool) \<Rightarrow> string \<Rightarrow> nat \<Rightarrow> nat" where
  "skip_while P buf s = (if s < length buf \<and> P (char_at buf s) then skip_while P buf (s + 1) else s)"
  by pat_completeness auto
termination
  by (relation "measure (\<lambda>(P, buf, s). length buf - s)") auto

declare skip_while.simps [simp del]

abbreviation skip_ws :: "string \<Rightarrow> nat \<Rightarrow> nat" where
  "skip_ws \<equiv> skip_while (strchr whitespace)"

abbreviation wordchar :: "char \<Rightarrow> bool" where
  "wordchar c \<equiv> \<not> strchr whitespace c \<and> \<not> strchr symbols c"

text \<open>The result is the kind of the token, its start, its end and the new position.\<close>

definition gettoken :: "string \<Rightarrow> nat \<Rightarrow> char \<times> token \<times> nat" where
  "gettoken buf s =
     (let q = skip_ws buf s;
          c = char_at buf q;
          (ret, eq) =
            (if c = NUL then (c, q)
             else if strchr ''|();&<'' c then (c, q + 1)
             else if c = CHR ''>'' then
               (if char_at buf (q + 1) = CHR ''>'' then (CHR ''+'', q + 2) else (c, q + 1))
             else (CHR ''a'', skip_while wordchar buf q))
      in (ret, (q, eq), skip_ws buf eq))"

definition peek :: "string \<Rightarrow> nat \<Rightarrow> string \<Rightarrow> bool \<times> nat" where
  "peek buf s toks =
     (let s = skip_ws buf s in (char_at buf s \<noteq> NUL \<and> strchr toks (char_at buf s), s))"

text \<open>Positions only grow.\<close>

lemma skip_while_le: "s \<le> skip_while P buf s"
  by (induction P buf s rule: skip_while.induct) (subst skip_while.simps, auto)

lemma skip_while_step: "s < length buf \<Longrightarrow> P (char_at buf s) \<Longrightarrow> s < skip_while P buf s"
  using skip_while_le [of "s + 1" P buf] by (subst skip_while.simps) auto

lemma gettoken_le:
  assumes "gettoken buf s = (ret, t, s')"
  shows "s \<le> s'" "ret \<noteq> NUL \<Longrightarrow> s < length buf \<and> s < s'"
proof -
  let ?q = "skip_ws buf s"
  have le: "s \<le> ?q" "?q \<le> s'" "fst t = ?q" "snd t \<le> s'"
    using assms skip_while_le [of s "strchr whitespace" buf] skip_while_le [of "snd t" "strchr whitespace" buf]
      skip_while_le [of ?q wordchar buf] by (auto simp: gettoken_def Let_def split: if_splits)
  then show "s \<le> s'" by simp
  assume "ret \<noteq> NUL"
  then have c: "char_at buf ?q \<noteq> NUL" using assms by (auto simp: gettoken_def Let_def split: if_splits)
  then have q: "?q < length buf" by (auto simp: char_at_def split: if_splits)
  have "\<not> strchr whitespace (char_at buf ?q)"
  proof
    assume "strchr whitespace (char_at buf ?q)"
    then have "?q < skip_ws buf ?q" using q by (intro skip_while_step)
    moreover have "skip_ws buf ?q = ?q"
      by (induction "strchr whitespace" buf s rule: skip_while.induct) (metis skip_while.simps)
    ultimately show False by simp
  qed
  then have "?q < snd t"
    using assms c skip_while_step [OF q, of wordchar] by (auto simp: gettoken_def Let_def strchr_def symbols_def split: if_splits)
  then show "s < length buf \<and> s < s'" using le q by linarith
qed

lemma peek_le: "peek buf s toks = (b, s') \<Longrightarrow> s \<le> s'"
  using skip_while_le [of s "strchr whitespace" buf] by (simp add: peek_def Let_def)

lemma skip_ws_idem [simp]: "skip_while P buf (skip_while P buf s) = skip_while P buf s"
  by (induction P buf s rule: skip_while.induct) (metis skip_while.simps)

lemma peek_token:
  assumes "peek buf s toks = (True, s1)" "gettoken buf s1 = (ret, t, s2)"
  shows "ret \<noteq> NUL" "strchr toks (char_at buf s1)" "skip_ws buf s1 = s1"
proof -
  show i: "skip_ws buf s1 = s1" and "strchr toks (char_at buf s1)" using assms(1) by (auto simp: peek_def Let_def)
  have "char_at buf s1 \<noteq> NUL" using assms(1) by (auto simp: peek_def Let_def)
  then show "ret \<noteq> NUL" using assms(2) i by (auto simp: gettoken_def Let_def split: if_splits)
qed

lemma token_advances:
  assumes "(True, s1) = peek buf s toks" "(ret, t, s2) = gettoken buf s1"
  shows "length buf - s2 < length buf - s" "s2 \<le> s3 \<Longrightarrow> length buf - s3 < length buf - s"
  using peek_token(1) [of buf s toks s1 ret t s2] gettoken_le [of buf s1 ret t s2] peek_le [of buf s toks True s1] assms by auto

section \<open>Parsing\<close>

text \<open>
  \<open>parseredirs\<close> wraps a command that its caller may still be filling with words; the
  model returns the redirections in their order, to be put around the command.
\<close>

function parseredirs :: "string \<Rightarrow> nat \<Rightarrow> (redir list \<times> nat) parse" where
  "parseredirs buf s =
     (case peek buf s ''<>'' of (p, s) \<Rightarrow>
      if \<not> p then ok ([], s)
      else case gettoken buf s of (tok, _, s) \<Rightarrow>
        case gettoken buf s of (tok2, t, s) \<Rightarrow>
        if tok2 \<noteq> CHR ''a'' then panic_sh ''missing file for redirection''
        else
          let r = (if tok = CHR ''<'' then (t, rdonly, 0) else (t, wronly_create, 1))
          in pbind (parseredirs buf s) (\<lambda>(rs, s). ok (r # rs, s)))"
  by pat_completeness auto
termination
  by (relation "measure (\<lambda>(buf, s). length buf - s)") (auto dest: token_advances gettoken_le(1) [OF sym])

declare parseredirs.simps [simp del]

text \<open>What a parse ends with, if it is not a panic; in any case it ends.\<close>

definition parses :: "'a parse \<Rightarrow> ('a \<Rightarrow> bool) \<Rightarrow> bool" where
  "parses m Q \<longleftrightarrow> (\<exists>r. m = Some r \<and> (\<forall>x. r = Inr x \<longrightarrow> Q x))"

lemma parses_simps [simp]: "parses (ok x) Q = Q x" "parses (panic_sh e) Q"
  "parses (pbind m f) Q = parses m (\<lambda>x. parses (f x) Q)"
  by (cases "(m, f)" rule: pbind.cases; simp add: parses_def)+

lemma parses_mono: "parses m Q \<Longrightarrow> (\<And>x. Q x \<Longrightarrow> R x) \<Longrightarrow> parses m R"
  by (auto simp: parses_def)

lemma parsesE [consumes 1, case_names panic ok]:
  assumes "parses m Q"
  obtains e where "m = panic_sh e" | x where "m = ok x" "Q x"
  using assms by (auto simp: parses_def) (metis obj_sumE)

text \<open>The loop of \<open>parseexec\<close> over the words of a command, and the redirections among them.\<close>

function parsewords :: "string \<Rightarrow> nat \<Rightarrow> nat \<Rightarrow> (token list \<times> redir list \<times> nat) parse" where
  "parsewords buf argc s =
     (case peek buf s ''|)&;'' of (p, s) \<Rightarrow>
      if p then ok ([], [], s)
      else case gettoken buf s of (tok, t, s) \<Rightarrow>
        if tok = NUL then ok ([], [], s)
        else if tok \<noteq> CHR ''a'' then panic_sh ''syntax''
        else if argc + 1 \<ge> MAXARGS then panic_sh ''too many args''
        else
          pbind (parseredirs buf s) (\<lambda>(rs, s).
          pbind (parsewords buf (argc + 1) s) (\<lambda>(ts, rs', s). ok (t # ts, rs @ rs', s))))"
  by pat_completeness auto
termination
  by (relation "measure (\<lambda>(buf, argc, s). MAXARGS - argc)") auto

declare parsewords.simps [simp del]

text \<open>The loop of \<open>parseline\<close> over ampersands.\<close>

function parseback :: "token cmd \<Rightarrow> string \<Rightarrow> nat \<Rightarrow> token cmd \<times> nat" where
  "parseback c buf s =
     (case peek buf s ''&'' of (p, s) \<Rightarrow>
      if \<not> p then (c, s) else case gettoken buf s of (_, _, s) \<Rightarrow> parseback (BACK c) buf s)"
  by pat_completeness auto
termination
  by (relation "measure (\<lambda>(c, buf, s). length buf - s)") (auto dest: token_advances)

declare parseback.simps [simp del]

text \<open>
  The functions that call each other; the first argument bounds the depth of their
  calls.
\<close>

fun parseline :: "nat \<Rightarrow> string \<Rightarrow> nat \<Rightarrow> (token cmd \<times> nat) parse"
  and parsepipe :: "nat \<Rightarrow> string \<Rightarrow> nat \<Rightarrow> (token cmd \<times> nat) parse"
  and parseexec :: "nat \<Rightarrow> string \<Rightarrow> nat \<Rightarrow> (token cmd \<times> nat) parse"
  and parseblock :: "nat \<Rightarrow> string \<Rightarrow> nat \<Rightarrow> (token cmd \<times> nat) parse" where
  "parseline 0 buf s = None"
| "parseline (Suc f) buf s =
     pbind (parsepipe f buf s) (\<lambda>(c, s).
     case parseback c buf s of (c, s) \<Rightarrow>
     case peek buf s '';'' of (p, s) \<Rightarrow>
     if \<not> p then ok (c, s)
     else case gettoken buf s of (_, _, s) \<Rightarrow>
       pbind (parseline f buf s) (\<lambda>(c', s). ok (LIST c c', s)))"
| "parsepipe 0 buf s = None"
| "parsepipe (Suc f) buf s =
     pbind (parseexec f buf s) (\<lambda>(c, s).
     case peek buf s ''|'' of (p, s) \<Rightarrow>
     if \<not> p then ok (c, s)
     else case gettoken buf s of (_, _, s) \<Rightarrow>
       pbind (parsepipe f buf s) (\<lambda>(c', s). ok (PIPE c c', s)))"
| "parseexec 0 buf s = None"
| "parseexec (Suc f) buf s =
     (case peek buf s ''('' of (p, s) \<Rightarrow>
      if p then parseblock f buf s
      else
        pbind (parseredirs buf s) (\<lambda>(rs, s).
        pbind (parsewords buf 0 s) (\<lambda>(ts, rs', s).
        ok (foldl redircmd (EXEC ts) (rs @ rs'), s))))"
| "parseblock 0 buf s = None"
| "parseblock (Suc f) buf s =
     (case peek buf s ''('' of (p, s) \<Rightarrow>
      if \<not> p then panic_sh ''parseblock''
      else case gettoken buf s of (_, _, s) \<Rightarrow>
        pbind (parseline f buf s) (\<lambda>(c, s).
        case peek buf s '')'' of (p, s) \<Rightarrow>
        if \<not> p then panic_sh ''syntax - missing )''
        else case gettoken buf s of (_, _, s) \<Rightarrow>
          pbind (parseredirs buf s) (\<lambda>(rs, s). ok (foldl redircmd c rs, s))))"

text \<open>
  A write at the end of the line changes nothing: the zero is already there.
\<close>

fun nulterminate :: "token cmd \<Rightarrow> string \<Rightarrow> string" where
  "nulterminate (EXEC ts) buf = foldl (\<lambda>buf t. buf[snd t := NUL]) buf ts"
| "nulterminate (REDIR c t mode fd) buf = (nulterminate c buf)[snd t := NUL]"
| "nulterminate (PIPE l r) buf = nulterminate r (nulterminate l buf)"
| "nulterminate (LIST l r) buf = nulterminate r (nulterminate l buf)"
| "nulterminate (BACK c) buf = nulterminate c buf"

text \<open>The result is the line with its words ended, and the command.\<close>

definition parsecmd :: "string \<Rightarrow> (string \<times> token cmd) parse" where
  "parsecmd buf =
     pbind (parseline (4 * length buf + 4) buf 0) (\<lambda>(c, s).
     case peek buf s [] of (_, s) \<Rightarrow>
     if s \<noteq> length buf then panic_sh ''syntax''
     else ok (nulterminate c buf, c))"

end
