(* ===== verification/Shell_Props.thy ===== *)
theory Shell_Props
  imports Shell
begin

text \<open>
  The shell's parser ends on every line, and what it returns is well formed: the words
  it marks are the words of the line, and ending them by zeros gives each of them as
  a string. Every sentence of the grammar of commands is parsed to its tree.
\<close>

section \<open>What lies ahead of a position\<close>

lemma skip_while_ahead:
  "drop (skip_while P buf s) buf = dropWhile P (drop s buf)" "s \<le> length buf \<Longrightarrow> skip_while P buf s \<le> length buf"
proof (induction P buf s rule: skip_while.induct)
  case (1 P buf s)
  {
    case 1
    then show ?case using "1.IH"(1)
      by (cases "s < length buf") (subst skip_while.simps, simp add: char_at_def Cons_nth_drop_Suc [symmetric])+
  next
    case 2
    then show ?case using "1.IH"(2) by (subst skip_while.simps) auto
  }
qed

lemma char_at_ahead: "char_at buf s = (case drop s buf of [] \<Rightarrow> NUL | c # _ \<Rightarrow> c)"
  by (auto simp: char_at_def Cons_nth_drop_Suc [symmetric])

lemma skip_while_in: "s \<le> i \<Longrightarrow> i < skip_while P buf s \<Longrightarrow> i < length buf \<and> P (buf ! i)"
proof (induction P buf s rule: skip_while.induct)
  case (1 P buf s)
  then have c: "s < length buf \<and> P (char_at buf s)" using skip_while.simps [of P buf s] by (auto split: if_splits)
  then show ?case using 1 skip_while.simps [of P buf s] by (cases "i = s") (auto simp: char_at_def)
qed

lemma skip_while_stop: "skip_while P buf s < length buf \<Longrightarrow> \<not> P (buf ! skip_while P buf s)"
  by (induction P buf s rule: skip_while.induct) (metis char_at_def skip_while.simps)

section \<open>The words of a line\<close>

definition word_at :: "string \<Rightarrow> token \<Rightarrow> bool" where
  "word_at buf t \<longleftrightarrow> fst t < snd t \<and> snd t \<le> length buf \<and> (\<forall>i. fst t \<le> i \<longrightarrow> i < snd t \<longrightarrow> wordchar (buf ! i))
     \<and> (snd t < length buf \<longrightarrow> \<not> wordchar (buf ! snd t))"

lemma gettoken_word:
  assumes "gettoken buf s = (ret, t, s')" "s \<le> length buf"
  shows "s' \<le> length buf" "ret = CHR ''a'' \<Longrightarrow> word_at buf t"
proof -
  let ?q = "skip_ws buf s"
  have q: "?q \<le> length buf" using skip_while_ahead(2) [OF assms(2)] .
  have c: "char_at buf i \<noteq> NUL \<Longrightarrow> i < length buf" for i by (auto simp: char_at_def split: if_splits)
  have "snd t \<le> length buf" using assms(1) q c [of ?q] c [of "?q + 1"] skip_while_ahead(2) [OF q]
    by (auto simp: gettoken_def Let_def split: if_splits)
  then show "s' \<le> length buf" using assms(1) skip_while_ahead(2) [of "snd t" buf] by (auto simp: gettoken_def Let_def split: if_splits)
  assume "ret = CHR ''a''"
  then have t: "t = (?q, skip_while wordchar buf ?q)" "char_at buf ?q \<noteq> NUL" "\<not> strchr symbols (char_at buf ?q)"
    using assms(1) by (auto simp: gettoken_def Let_def strchr_def symbols_def split: if_splits)
  then have "?q < length buf" using c by simp
  moreover from this have "\<not> strchr whitespace (buf ! ?q)" by (rule skip_while_stop)
  ultimately have "?q < skip_while wordchar buf ?q" using t(3) by (intro skip_while_step) (simp_all add: char_at_def)
  then show "word_at buf t" using t(1) q skip_while_in [of ?q _ wordchar buf] skip_while_stop [of wordchar buf ?q] skip_while_ahead(2) [OF q, of wordchar]
    by (simp add: word_at_def)
qed

fun args_ok :: "'w cmd \<Rightarrow> bool" where
  "args_ok (EXEC ts) \<longleftrightarrow> length ts < MAXARGS"
| "args_ok (REDIR c t mode fd) \<longleftrightarrow> args_ok c"
| "args_ok (PIPE l r) \<longleftrightarrow> args_ok l \<and> args_ok r"
| "args_ok (LIST l r) \<longleftrightarrow> args_ok l \<and> args_ok r"
| "args_ok (BACK c) \<longleftrightarrow> args_ok c"

definition cmd_ok :: "string \<Rightarrow> token cmd \<Rightarrow> bool" where
  "cmd_ok buf c \<longleftrightarrow> args_ok c \<and> (\<forall>t\<in>set_cmd c. word_at buf t)"

definition ahead :: "string \<Rightarrow> nat \<Rightarrow> nat \<Rightarrow> bool" where
  "ahead buf s s' \<longleftrightarrow> s \<le> s' \<and> s' \<le> length buf"

lemma ahead_trans: "ahead buf s s' \<Longrightarrow> ahead buf s' s'' \<Longrightarrow> ahead buf s s''"
  by (auto simp: ahead_def)

lemma cmd_ok_redirs: "cmd_ok buf (foldl redircmd c rs) \<longleftrightarrow> cmd_ok buf c \<and> (\<forall>r\<in>set rs. word_at buf (fst r))"
  by (induction rs arbitrary: c) (auto simp: cmd_ok_def redircmd_def split: prod.splits)

lemma peek_ahead: "peek buf s toks = (p, s') \<Longrightarrow> s \<le> length buf \<Longrightarrow> ahead buf s s'"
  using peek_le [of buf s toks p s'] skip_while_ahead(2) [of s buf] by (auto simp: ahead_def peek_def Let_def)

lemma gettoken_ahead: "gettoken buf s = (ret, t, s') \<Longrightarrow> s \<le> length buf \<Longrightarrow> ahead buf s s'"
  using gettoken_le(1) [of buf s ret t s'] gettoken_word(1) [of buf s ret t s'] by (auto simp: ahead_def)

lemma parseredirs_ends:
  "s \<le> length buf \<Longrightarrow> parses (parseredirs buf s) (\<lambda>(rs, s'). ahead buf s s' \<and> (\<forall>r\<in>set rs. word_at buf (fst r)))"
proof (induction buf s rule: parseredirs.induct)
  case (1 buf s)
  obtain p s1 where p: "peek buf s ''<>'' = (p, s1)" by fastforce
  obtain tok t s2 tok2 t2 s3 where g: "gettoken buf s1 = (tok, t, s2)" "gettoken buf s2 = (tok2, t2, s3)"
    by (metis prod_cases3)
  have a: "ahead buf s s1" using peek_ahead [OF p "1.prems"] .
  then have b: "ahead buf s1 s2" using gettoken_ahead [OF g(1)] by (simp add: ahead_def)
  then have c: "ahead buf s2 s3" using gettoken_ahead [OF g(2)] by (simp add: ahead_def)
  show ?case
  proof (cases "p \<and> tok2 = CHR ''a''")
    case True
    then have "parses (parseredirs buf s3) (\<lambda>(rs, s'). ahead buf s3 s' \<and> (\<forall>r\<in>set rs. word_at buf (fst r)))"
      using p g c by (intro "1.IH") (auto simp: ahead_def)
    moreover have "word_at buf t2" using gettoken_word(2) [OF g(2)] True b by (simp add: ahead_def)
    ultimately show ?thesis using p g True ahead_trans [OF ahead_trans [OF ahead_trans [OF a b] c]]
      by (subst parseredirs.simps) (auto elim!: parses_mono)
  qed (use p g a in \<open>subst parseredirs.simps, auto\<close>)
qed

lemma parsewords_ends:
  "s \<le> length buf \<Longrightarrow> argc < MAXARGS \<Longrightarrow> parses (parsewords buf argc s) (\<lambda>(ts, rs, s'). ahead buf s s' \<and> argc + length ts < MAXARGS
     \<and> (\<forall>t\<in>set ts. word_at buf t) \<and> (\<forall>r\<in>set rs. word_at buf (fst r)))"
proof (induction buf argc s rule: parsewords.induct)
  case (1 buf argc s)
  obtain p s1 where p: "peek buf s ''|)&;'' = (p, s1)" by fastforce
  obtain tok t s2 where g: "gettoken buf s1 = (tok, t, s2)" by (metis prod_cases3)
  have a: "ahead buf s s1" using peek_ahead [OF p "1.prems"(1)] .
  then have b: "ahead buf s1 s2" using gettoken_ahead [OF g] by (simp add: ahead_def)
  show ?case
  proof (cases "\<not> p \<and> tok = CHR ''a'' \<and> argc + 1 < MAXARGS")
    case True
    have w: "word_at buf t" using gettoken_word(2) [OF g] True a by (simp add: ahead_def)
    have "parses (parseredirs buf s2) (\<lambda>(rs, s'). ahead buf s2 s' \<and> (\<forall>r\<in>set rs. word_at buf (fst r)))"
      using b by (intro parseredirs_ends) (simp add: ahead_def)
    then show ?thesis
    proof (cases rule: parsesE)
      case (panic e)
      then show ?thesis using p g True by (subst parsewords.simps) simp
    next
      case (ok x)
      then obtain rs s3 where r: "parseredirs buf s2 = ok (rs, s3)" "ahead buf s2 s3" "\<forall>r\<in>set rs. word_at buf (fst r)" by (cases x) auto
      have "parses (parsewords buf (argc + 1) s3) (\<lambda>(ts, rs, s'). ahead buf s3 s' \<and> argc + 1 + length ts < MAXARGS
        \<and> (\<forall>t\<in>set ts. word_at buf t) \<and> (\<forall>r\<in>set rs. word_at buf (fst r)))"
        using p g r True by (intro "1.IH") (auto simp: ahead_def)
      then show ?thesis using p g True w r ahead_trans [OF ahead_trans [OF ahead_trans [OF a b] r(2)]]
        by (subst parsewords.simps) (auto elim!: parses_mono)
    qed
  qed (use p g a ahead_trans [OF a b] "1.prems"(2) in \<open>subst parsewords.simps, auto\<close>)
qed

lemma parseback_ok:
  "s \<le> length buf \<Longrightarrow> cmd_ok buf c \<Longrightarrow> case parseback c buf s of (c', s') \<Rightarrow> ahead buf s s' \<and> cmd_ok buf c'"
proof (induction c buf s rule: parseback.induct)
  case (1 c buf s)
  obtain p s1 where p: "peek buf s ''&'' = (p, s1)" by fastforce
  obtain tok t s2 where g: "gettoken buf s1 = (tok, t, s2)" by (metis prod_cases3)
  have a: "ahead buf s s1" using peek_ahead [OF p "1.prems"(1)] .
  then have b: "ahead buf s1 s2" using gettoken_ahead [OF g] by (simp add: ahead_def)
  show ?case
  proof (cases p)
    case True
    have "case parseback (BACK c) buf s2 of (c', s') \<Rightarrow> ahead buf s2 s' \<and> cmd_ok buf c'"
      using p g True b "1.prems"(2) by (intro "1.IH") (auto simp: ahead_def cmd_ok_def)
    then show ?thesis using p g True ahead_trans [OF ahead_trans [OF a b]] by (subst parseback.simps) auto
  qed (use p a "1.prems"(2) in \<open>subst parseback.simps, auto\<close>)
qed

text \<open>The depth of calls is bounded by what lies ahead.\<close>

definition parsed :: "string \<Rightarrow> nat \<Rightarrow> (token cmd \<times> nat) parse \<Rightarrow> bool" where
  "parsed buf s m \<longleftrightarrow> parses m (\<lambda>(c, s'). ahead buf s s' \<and> cmd_ok buf c)"

lemma parsed_bind:
  assumes "parsed buf s m" "\<And>c s1. ahead buf s s1 \<Longrightarrow> cmd_ok buf c \<Longrightarrow> parsed buf s1 (f (c, s1))"
  shows "parsed buf s (pbind m f)"
  using assms ahead_trans unfolding parsed_def by (auto elim!: parses_mono) (fastforce elim!: parses_mono)

lemma parsed_from: "parsed buf s1 m \<Longrightarrow> ahead buf s s1 \<Longrightarrow> parsed buf s m"
  using ahead_trans by (auto simp: parsed_def elim!: parses_mono)

lemma parsed_ok: "ahead buf s s1 \<Longrightarrow> cmd_ok buf c \<Longrightarrow> parsed buf s (ok (c, s1))" "parsed buf s (panic_sh e)"
  by (simp_all add: parsed_def)

lemma ahead_le: "ahead buf s s1 \<Longrightarrow> s1 \<le> length buf" "ahead buf s s1 \<Longrightarrow> length buf - s1 \<le> length buf - s"
  by (auto simp: ahead_def)

lemma peek_gettoken:
  assumes "peek buf s toks = (p, s1)" p "gettoken buf s1 = (tok, t, s2)" "s \<le> length buf"
  shows "ahead buf s s2" "length buf - s2 < length buf - s"
  using token_advances(1) [of s1 buf s toks tok t s2] ahead_trans [OF peek_ahead [OF assms(1,4)] gettoken_ahead [OF assms(3)]]
    peek_ahead [OF assms(1,4)] assms by (auto simp: ahead_def)

lemma parseline_step:
  assumes "parsed buf s (parsepipe f buf s)" "\<And>s1. s1 \<le> length buf \<Longrightarrow> length buf - s1 < length buf - s \<Longrightarrow> parsed buf s1 (parseline f buf s1)"
  shows "parsed buf s (parseline (Suc f) buf s)"
  unfolding parseline.simps
proof (rule parsed_bind [OF assms(1)])
  fix c s1 assume a: "ahead buf s s1" "cmd_ok buf c"
  obtain c2 s2 where bk: "parseback c buf s1 = (c2, s2)" "ahead buf s1 s2" "cmd_ok buf c2"
    using parseback_ok [OF ahead_le(1) [OF a(1)] a(2)] by (cases "parseback c buf s1") auto
  obtain p s3 where p: "peek buf s2 '';'' = (p, s3)" by fastforce
  obtain tok t s4 where g: "gettoken buf s3 = (tok, t, s4)" by (metis prod_cases3)
  note le = ahead_le(1) [OF bk(2)]
  have "parsed buf s1 (pbind (parseline f buf s4) (\<lambda>(c', s). ok (LIST c2 c', s)))" if p
  proof (rule parsed_from [OF parsed_bind])
    note k = peek_gettoken [OF p that g le]
    show "ahead buf s1 s4" by (rule ahead_trans [OF bk(2) k(1)])
    show "parsed buf s4 (parseline f buf s4)" using k(2) ahead_le [OF k(1)] ahead_le [OF a(1)] ahead_le [OF bk(2)] by (intro assms(2)) linarith+
  qed (use bk(3) in \<open>auto simp: parsed_def cmd_ok_def ahead_def\<close>)
  moreover have "parsed buf s1 (ok (c2, s3))" by (rule parsed_ok(1) [OF ahead_trans [OF bk(2) peek_ahead [OF p le]] bk(3)])
  ultimately show "parsed buf s1 (case (c, s1) of (c, s) \<Rightarrow> case parseback c buf s of (c, s) \<Rightarrow>
     case peek buf s '';'' of (p, s) \<Rightarrow> if \<not> p then ok (c, s) else case gettoken buf s of (_, _, s) \<Rightarrow>
       pbind (parseline f buf s) (\<lambda>(c', s). ok (LIST c c', s)))" using bk(1) p g by simp
qed

lemma parsepipe_step:
  assumes "parsed buf s (parseexec f buf s)" "\<And>s1. s1 \<le> length buf \<Longrightarrow> length buf - s1 < length buf - s \<Longrightarrow> parsed buf s1 (parsepipe f buf s1)"
  shows "parsed buf s (parsepipe (Suc f) buf s)"
  unfolding parsepipe.simps
proof (rule parsed_bind [OF assms(1)])
  fix c s1 assume a: "ahead buf s s1" "cmd_ok buf c"
  obtain p s3 where p: "peek buf s1 ''|'' = (p, s3)" by fastforce
  obtain tok t s4 where g: "gettoken buf s3 = (tok, t, s4)" by (metis prod_cases3)
  note le = ahead_le(1) [OF a(1)]
  have "parsed buf s1 (pbind (parsepipe f buf s4) (\<lambda>(c', s). ok (PIPE c c', s)))" if p
  proof (rule parsed_from [OF parsed_bind])
    note k = peek_gettoken [OF p that g le]
    show "ahead buf s1 s4" by (rule k(1))
    show "parsed buf s4 (parsepipe f buf s4)" using k(2) ahead_le [OF k(1)] ahead_le [OF a(1)] by (intro assms(2)) linarith+
  qed (use a(2) in \<open>auto simp: parsed_def cmd_ok_def ahead_def\<close>)
  moreover have "parsed buf s1 (ok (c, s3))" by (rule parsed_ok(1) [OF peek_ahead [OF p le] a(2)])
  ultimately show "parsed buf s1 (case (c, s1) of (c, s) \<Rightarrow> case peek buf s ''|'' of (p, s) \<Rightarrow>
     if \<not> p then ok (c, s) else case gettoken buf s of (_, _, s) \<Rightarrow>
       pbind (parsepipe f buf s) (\<lambda>(c', s). ok (PIPE c c', s)))" using p g by simp
qed

lemma parsed_redirs:
  assumes "s \<le> length buf" "cmd_ok buf c"
  shows "parsed buf s (pbind (parseredirs buf s) (\<lambda>(rs, s). ok (foldl redircmd c rs, s)))"
  using parseredirs_ends [OF assms(1)] assms(2) by (auto simp: parsed_def cmd_ok_redirs elim!: parses_mono)

lemma parseexec_step:
  assumes "s \<le> length buf" "\<And>s1. s1 \<le> length buf \<Longrightarrow> length buf - s1 \<le> length buf - s \<Longrightarrow> parsed buf s1 (parseblock f buf s1)"
  shows "parsed buf s (parseexec (Suc f) buf s)"
proof -
  obtain p s1 where p: "peek buf s ''('' = (p, s1)" by fastforce
  note a = peek_ahead [OF p assms(1)]
  have "parsed buf s1 (parseblock f buf s1)" by (rule assms(2) [OF ahead_le [OF a]])
  moreover have "parses (parsewords buf 0 s2) (\<lambda>(ts, rs', s3). parses (ok (foldl redircmd (EXEC ts) (rs @ rs'), s3)) (\<lambda>(c, s'). ahead buf s1 s' \<and> cmd_ok buf c))"
    if "ahead buf s1 s2" "\<forall>r\<in>set rs. word_at buf (fst r)" for rs s2
    using parsewords_ends [OF ahead_le(1) [OF that(1)], of 0] ahead_trans [OF that(1)] that(2)
    by (auto simp: cmd_ok_redirs cmd_ok_def [of _ "EXEC _"] elim!: parses_mono)
  then have "parsed buf s1 (pbind (parseredirs buf s1) (\<lambda>(rs, s). pbind (parsewords buf 0 s) (\<lambda>(ts, rs', s). ok (foldl redircmd (EXEC ts) (rs @ rs'), s))))"
    using parseredirs_ends [OF ahead_le(1) [OF a]] by (auto simp: parsed_def split_def elim!: parses_mono)
  ultimately have "parsed buf s1 (parseexec (Suc f) buf s)" using p by simp
  then show ?thesis by (rule parsed_from [OF _ a])
qed

lemma parseblock_step:
  assumes "s \<le> length buf" "\<And>s1. s1 \<le> length buf \<Longrightarrow> length buf - s1 < length buf - s \<Longrightarrow> parsed buf s1 (parseline f buf s1)"
  shows "parsed buf s (parseblock (Suc f) buf s)"
proof -
  obtain p s1 where p: "peek buf s ''('' = (p, s1)" by fastforce
  obtain tok t s2 where g: "gettoken buf s1 = (tok, t, s2)" by (metis prod_cases3)
  show ?thesis
  proof (cases p)
    case True
    note k = peek_gettoken [OF p True g assms(1)]
    have "parsed buf s2 (pbind (parseline f buf s2) (\<lambda>(c, s). case peek buf s '')'' of (p, s) \<Rightarrow>
        if \<not> p then panic_sh ''syntax - missing )'' else case gettoken buf s of (_, _, s) \<Rightarrow>
          pbind (parseredirs buf s) (\<lambda>(rs, s). ok (foldl redircmd c rs, s))))"
    proof (rule parsed_bind [OF assms(2) [OF ahead_le(1) [OF k(1)] k(2)]])
      fix c s3 assume a: "ahead buf s2 s3" "cmd_ok buf c"
      obtain p' s4 where p': "peek buf s3 '')'' = (p', s4)" by fastforce
      obtain tok' t' s5 where g': "gettoken buf s4 = (tok', t', s5)" by (metis prod_cases3)
      have "parsed buf s3 (pbind (parseredirs buf s5) (\<lambda>(rs, s). ok (foldl redircmd c rs, s)))" if p'
        using peek_gettoken(1) [OF p' that g' ahead_le(1) [OF a(1)]] parsed_redirs [OF _ a(2)] ahead_le(1) parsed_from by blast
      then show "parsed buf s3 (case (c, s3) of (c, s) \<Rightarrow> case peek buf s '')'' of (p, s) \<Rightarrow>
          if \<not> p then panic_sh ''syntax - missing )'' else case gettoken buf s of (_, _, s) \<Rightarrow>
            pbind (parseredirs buf s) (\<lambda>(rs, s). ok (foldl redircmd c rs, s)))" using p' g' parsed_ok(2) by simp
    qed
    then show ?thesis using p g True parsed_from [OF _ k(1)] by simp
  qed (use p parsed_ok(2) in simp)
qed

lemma parse_ends:
  "s \<le> length buf \<Longrightarrow> 4 * (length buf - s) + 4 \<le> f \<Longrightarrow> parsed buf s (parseline f buf s)"
  "s \<le> length buf \<Longrightarrow> 4 * (length buf - s) + 3 \<le> f \<Longrightarrow> parsed buf s (parsepipe f buf s)"
  "s \<le> length buf \<Longrightarrow> 4 * (length buf - s) + 2 \<le> f \<Longrightarrow> parsed buf s (parseexec f buf s)"
  "s \<le> length buf \<Longrightarrow> 4 * (length buf - s) + 1 \<le> f \<Longrightarrow> parsed buf s (parseblock f buf s)"
proof (induction f arbitrary: s)
  case (Suc f)
  {
    case 1
    then show ?case by (intro parseline_step Suc.IH) simp_all
  next
    case 2
    then show ?case by (intro parsepipe_step Suc.IH) simp_all
  next
    case 3
    then show ?case by (intro parseexec_step Suc.IH) simp_all
  next
    case 4
    then show ?case by (intro parseblock_step Suc.IH) simp_all
  }
qed simp_all

section \<open>Ending the words\<close>

definition cstr :: "string \<Rightarrow> nat \<Rightarrow> string" where
  "cstr buf q = takeWhile (\<lambda>c. c \<noteq> NUL) (drop q buf)"

definition text_of :: "string \<Rightarrow> token \<Rightarrow> string" where
  "text_of buf t = take (snd t - fst t) (drop (fst t) buf)"

lemma nth_upd: "i < length xs \<Longrightarrow> xs[j := v] ! i = (if i = j then v else xs ! i)"
  by simp

lemma foldl_nul: "length (foldl (\<lambda>buf t. buf[snd t := NUL]) buf ts) = length buf"
  "i < length buf \<Longrightarrow> foldl (\<lambda>buf t. buf[snd t := NUL]) buf ts ! i = (if i \<in> snd ` set ts then NUL else buf ! i)"
  by (induction ts arbitrary: buf) (auto simp: nth_upd)

lemma nulterminate_nth: "length (nulterminate c buf) = length buf"
  "i < length buf \<Longrightarrow> nulterminate c buf ! i = (if i \<in> snd ` set_cmd c then NUL else buf ! i)"
  by (induction c arbitrary: buf) (auto simp: foldl_nul nth_upd)

lemma nulterminate_word:
  assumes c: "\<forall>t\<in>set_cmd c. word_at buf t" and t: "t \<in> set_cmd c" and z: "NUL \<notin> set buf"
  shows "cstr (nulterminate c buf) (fst t) = text_of buf t"
proof -
  let ?b = "nulterminate c buf" and ?n = "snd t - fst t"
  have w: "word_at buf t" using c t by blast
  have nz: "?b ! i = buf ! i" "buf ! i \<noteq> NUL" if "fst t \<le> i" "i < snd t" for i
  proof -
    have i: "i < length buf" "wordchar (buf ! i)" using w that by (auto simp: word_at_def)
    then have "i \<notin> snd ` set_cmd c" using c by (auto simp: word_at_def)
    then show "?b ! i = buf ! i" using nulterminate_nth(2) [OF i(1)] by simp
    show "buf ! i \<noteq> NUL" using z i(1) nth_mem by metis
  qed
  have e: "snd t < length buf \<Longrightarrow> ?b ! snd t = NUL" using t nulterminate_nth(2) by auto
  have "cstr ?b (fst t) = take ?n (drop (fst t) ?b)" unfolding cstr_def
  proof (rule takeWhile_eq_take_P_nth)
    fix i assume "i < ?n" "i < length (drop (fst t) ?b)"
    then show "drop (fst t) ?b ! i \<noteq> NUL" using nz [of "fst t + i"] by simp
  next
    assume "?n < length (drop (fst t) ?b)"
    then show "\<not> drop (fst t) ?b ! ?n \<noteq> NUL" using e w by (simp add: nulterminate_nth(1) word_at_def)
  qed
  also have "\<dots> = text_of buf t" unfolding text_of_def
    by (rule nth_equalityI) (use w nz in \<open>auto simp: nulterminate_nth(1) word_at_def\<close>)
  finally show ?thesis .
qed

lemma parsecmd_result:
  assumes "NUL \<notin> set buf"
  shows "parses (parsecmd buf) (\<lambda>(b, c). cmd_ok buf c \<and> map_cmd (\<lambda>t. cstr b (fst t)) c = map_cmd (text_of buf) c)"
proof -
  have "parses (parseline (4 * length buf + 4) buf 0) (\<lambda>(c, s). cmd_ok buf c)"
    using parse_ends(1) [of 0 buf "4 * length buf + 4"] by (auto simp: parsed_def elim!: parses_mono)
  moreover have "map_cmd (\<lambda>t. cstr (nulterminate c buf) (fst t)) c = map_cmd (text_of buf) c" if "cmd_ok buf c" for c
    by (rule cmd.map_cong0) (use that nulterminate_word [OF _ _ assms] in \<open>simp add: cmd_ok_def\<close>)
  ultimately show ?thesis unfolding parsecmd_def by (auto split: prod.split elim!: parses_mono)
qed

section \<open>The grammar of commands\<close>

text \<open>
  Redirections are \<open><\<close>, \<open>>\<close> and \<open>>>\<close> with a file, a simple command has redirections
  before its first word and behind every word. A sentence is written with a space
  behind every token.
\<close>

datatype direction = From | To | Append

type_synonym redirection = "direction \<times> string"

datatype line = Last pipeline nat | Seq pipeline nat line
  and pipeline = Single element | Piped element pipeline
  and element = Simple "redirection list" "(string \<times> redirection list) list" | Block line "redirection list"

fun show_redir :: "redirection \<Rightarrow> string" where
  "show_redir (d, w) = (case d of From \<Rightarrow> ''< '' | To \<Rightarrow> ''> '' | Append \<Rightarrow> ''>> '') @ w @ '' ''"

definition show_word :: "string \<times> redirection list \<Rightarrow> string" where
  "show_word x = fst x @ '' '' @ concat (map show_redir (snd x))"

primrec show_line :: "line \<Rightarrow> string" and show_pipe :: "pipeline \<Rightarrow> string" and show_element :: "element \<Rightarrow> string" where
  "show_line (Last p n) = show_pipe p @ concat (replicate n ''& '')"
| "show_line (Seq p n l) = show_pipe p @ concat (replicate n ''& '') @ ''; '' @ show_line l"
| "show_pipe (Single e) = show_element e"
| "show_pipe (Piped e p) = show_element e @ ''| '' @ show_pipe p"
| "show_element (Simple rs ws) = concat (map show_redir rs) @ concat (map show_word ws)"
| "show_element (Block l rs) = ''( '' @ show_line l @ '') '' @ concat (map show_redir rs)"

text \<open>The command that a sentence stands for: a file is opened for reading as descriptor 0 or for writing as 1.\<close>

definition tree_redir :: "redirection \<Rightarrow> string \<times> nat \<times> nat" where
  "tree_redir r = (snd r, if fst r = From then (rdonly, 0) else (wronly_create, 1))"

primrec tree_line :: "line \<Rightarrow> string cmd" and tree_pipe :: "pipeline \<Rightarrow> string cmd" and tree_element :: "element \<Rightarrow> string cmd" where
  "tree_line (Last p n) = (BACK ^^ n) (tree_pipe p)"
| "tree_line (Seq p n l) = LIST ((BACK ^^ n) (tree_pipe p)) (tree_line l)"
| "tree_pipe (Single e) = tree_element e"
| "tree_pipe (Piped e p) = PIPE (tree_element e) (tree_pipe p)"
| "tree_element (Simple rs ws) = foldl redircmd (EXEC (map fst ws)) (map tree_redir (rs @ concat (map snd ws)))"
| "tree_element (Block l rs) = foldl redircmd (tree_line l) (map tree_redir rs)"

definition is_word :: "string \<Rightarrow> bool" where
  "is_word w \<longleftrightarrow> w \<noteq> [] \<and> (\<forall>c\<in>set w. wordchar c \<and> c \<noteq> NUL)"

definition redirs_ok :: "redirection list \<Rightarrow> bool" where
  "redirs_ok rs \<longleftrightarrow> (\<forall>r\<in>set rs. is_word (snd r))"

primrec line_ok :: "line \<Rightarrow> bool" and pipe_ok :: "pipeline \<Rightarrow> bool" and element_ok :: "element \<Rightarrow> bool" where
  "line_ok (Last p n) \<longleftrightarrow> pipe_ok p"
| "line_ok (Seq p n l) \<longleftrightarrow> pipe_ok p \<and> line_ok l"
| "pipe_ok (Single e) \<longleftrightarrow> element_ok e"
| "pipe_ok (Piped e p) \<longleftrightarrow> element_ok e \<and> pipe_ok p"
| "element_ok (Simple rs ws) \<longleftrightarrow> redirs_ok rs \<and> length ws < MAXARGS \<and> (\<forall>x\<in>set ws. is_word (fst x) \<and> redirs_ok (snd x))"
| "element_ok (Block l rs) \<longleftrightarrow> line_ok l \<and> redirs_ok rs"

text \<open>What lies ahead of a position.\<close>

definition here :: "string \<Rightarrow> nat \<Rightarrow> string \<Rightarrow> bool" where
  "here buf s r \<longleftrightarrow> s \<le> length buf \<and> drop s buf = r"

definition clean :: "string \<Rightarrow> bool" where
  "clean r \<longleftrightarrow> (case r of [] \<Rightarrow> True | c # _ \<Rightarrow> \<not> strchr whitespace c)"

lemma here_skip: "here buf s r \<Longrightarrow> here buf (skip_while P buf s) (dropWhile P r)"
  by (simp add: here_def skip_while_ahead)

lemma here_clean: "here buf s r \<Longrightarrow> clean r \<Longrightarrow> skip_ws buf s = s"
  by (subst skip_while.simps) (auto simp: here_def clean_def char_at_ahead split: list.splits)

lemma here_char: "here buf s (c # r) \<Longrightarrow> char_at buf s = c" "here buf s [] \<Longrightarrow> char_at buf s = NUL"
  "here buf s (c # r) \<Longrightarrow> here buf (s + 1) r"
  by (auto simp: here_def char_at_ahead drop_Suc tl_drop [symmetric]) (metis Suc_leI drop_eq_Nil2 list.distinct(1) not_less)

lemma here_space: "here buf s (CHR '' '' # r) \<Longrightarrow> clean r \<Longrightarrow> here buf (skip_ws buf s) r"
  using here_skip [of buf s "CHR '' '' # r" "strchr whitespace"]
  by (auto simp: clean_def strchr_def whitespace_def split: list.splits)

lemma peek_here: "here buf s r \<Longrightarrow> clean r \<Longrightarrow> NUL \<notin> set toks \<Longrightarrow> peek buf s toks = (r \<noteq> [] \<and> hd r \<in> set toks, s)"
  by (cases r) (auto simp: peek_def Let_def here_clean here_char strchr_def)

lemma symbol_here:
  assumes "here buf s (c # CHR '' '' # r)" "clean r" "c \<in> set ''|();&<>''"
  shows "\<exists>t s'. gettoken buf s = (c, t, s') \<and> here buf s' r"
proof -
  have "clean (c # CHR '' '' # r)" using assms(3) by (auto simp: clean_def strchr_def whitespace_def)
  then show ?thesis using here_clean [OF assms(1)] here_char(1) [OF assms(1)] here_char(3) [OF assms(1)] assms(2,3)
    by (auto simp: gettoken_def Let_def strchr_def here_space here_char)
qed

lemma append_here:
  assumes "here buf s (CHR ''>'' # CHR ''>'' # CHR '' '' # r)" "clean r"
  shows "\<exists>t s'. gettoken buf s = (CHR ''+'', t, s') \<and> here buf s' r"
proof -
  have "clean (CHR ''>'' # CHR ''>'' # CHR '' '' # r)" by (simp add: clean_def strchr_def whitespace_def)
  then show ?thesis using here_clean [OF assms(1)] here_char(1,3) [OF assms(1)] here_char(1,3) [OF here_char(3) [OF assms(1)]] assms(2)
    by (auto simp: gettoken_def Let_def strchr_def here_space)
qed

lemma word_here:
  assumes "here buf s (w @ CHR '' '' # r)" "clean r" "is_word w"
  shows "\<exists>t s'. gettoken buf s = (CHR ''a'', t, s') \<and> text_of buf t = w \<and> here buf s' r"
proof -
  obtain c w' where w: "w = c # w'" using assms(3) by (cases w) (auto simp: is_word_def)
  then have c: "wordchar c" "c \<noteq> NUL" "here buf s (c # w' @ CHR '' '' # r)" using assms by (auto simp: is_word_def)
  then have "skip_ws buf s = s" by (intro here_clean) (auto simp: clean_def)
  moreover let ?e = "skip_while wordchar buf s"
  have "dropWhile wordchar (w @ CHR '' '' # r) = CHR '' '' # r"
    using assms(3) by (simp add: is_word_def dropWhile_append2 strchr_def whitespace_def)
  then have e: "here buf ?e (CHR '' '' # r)" using here_skip [OF assms(1), of wordchar] by simp
  have "text_of buf (s, ?e) = w"
  proof -
    have "length (drop s buf) = length w + length (drop ?e buf)" "?e \<le> length buf" using assms(1) e by (simp_all add: here_def)
    then have "?e - s = length w" using skip_while_le [of s wordchar buf] unfolding length_drop by linarith
    then show ?thesis using assms(1) by (simp add: text_of_def here_def)
  qed
  moreover have "\<not> strchr ''|();&<'' c" "c \<noteq> CHR ''>''" using c(1) by (auto simp: strchr_def symbols_def)
  ultimately show ?thesis using here_char(1) [OF c(3)] c(2) here_space [OF e assms(2)] by (auto simp: gettoken_def Let_def)
qed

section \<open>Sentences are parsed to their trees\<close>

definition on_file :: "('a \<Rightarrow> 'b) \<Rightarrow> 'a \<times> nat \<times> nat \<Rightarrow> 'b \<times> nat \<times> nat" where
  "on_file g r = (g (fst r), snd r)"

lemma map_redirs: "map_cmd g (foldl redircmd c rs) = foldl redircmd (map_cmd g c) (map (on_file g) rs)"
  by (induction rs arbitrary: c) (auto simp: redircmd_def on_file_def split: prod.split)

lemma is_word_hd: "is_word w \<Longrightarrow> w \<noteq> [] \<and> \<not> strchr whitespace (hd w) \<and> hd w \<notin> set symbols"
  by (cases w) (auto simp: is_word_def strchr_def)

lemma clean_simps [simp]: "clean []" "c \<in> set ''|();&<>'' \<Longrightarrow> clean (c # r)" "is_word w \<Longrightarrow> clean (w @ r)"
proof -
  show "is_word w \<Longrightarrow> clean (w @ r)" using is_word_hd [of w] by (cases w) (simp_all add: clean_def)
qed (auto simp: clean_def strchr_def whitespace_def)

lemma hd_show_word:
  "is_word (fst x) \<Longrightarrow> show_word x @ r \<noteq> [] \<and> hd (show_word x @ r) \<notin> set symbols" "is_word (fst x) \<Longrightarrow> clean (show_word x @ r)"
  using is_word_hd [of "fst x"] by (simp_all add: show_word_def)

lemma clean_hd: "r = [] \<or> hd r \<in> set ''|();&<>'' \<Longrightarrow> clean r"
  by (cases r) (auto simp: clean_def strchr_def whitespace_def)

lemma redir_here:
  assumes "here buf s (show_redir r @ rest)" "is_word (snd r)" "clean rest"
  shows "\<exists>s1 tok t s2 t' s3. peek buf s ''<>'' = (True, s) \<and> gettoken buf s = (tok, t, s2) \<and> gettoken buf s2 = (CHR ''a'', t', s3)
    \<and> here buf s3 rest \<and> on_file (text_of buf) (if tok = CHR ''<'' then (t', rdonly, 0) else (t', wronly_create, 1)) = tree_redir r"
proof -
  obtain d w where r: "r = (d, w)" by fastforce
  have k: "clean (w @ CHR '' '' # rest)" using assms(2) r by simp
  obtain tok t s2 where g: "gettoken buf s = (tok, t, s2)" "here buf s2 (w @ CHR '' '' # rest)" "tok = CHR ''<'' \<longleftrightarrow> d = From"
    using symbol_here [OF _ k, of buf s] append_here [OF _ k, of buf s] assms(1) r by (cases d) (auto, blast+)
  obtain t' s3 where "gettoken buf s2 = (CHR ''a'', t', s3)" "text_of buf t' = w" "here buf s3 rest"
    using word_here [OF g(2) assms(3)] assms(2) r by auto
  moreover have "peek buf s ''<>'' = (True, s)"
    using peek_here [OF assms(1), of "''<>''"] r by (cases d) (auto simp: clean_def strchr_def whitespace_def)
  ultimately show ?thesis using g r by (cases t') (auto simp: tree_redir_def on_file_def)
qed

lemma clean_redirs: "clean r \<Longrightarrow> clean (concat (map show_redir rs) @ r)"
proof (cases rs)
  case (Cons x rs')
  obtain d w where "x = (d, w)" by fastforce
  then show ?thesis using Cons by (cases d) simp_all
qed simp

lemma redirs_here:
  assumes "here buf s (concat (map show_redir rs) @ r)" "redirs_ok rs" "clean r" "r = [] \<or> hd r \<notin> set ''<>''"
  shows "\<exists>rs' s'. parseredirs buf s = ok (rs', s') \<and> here buf s' r \<and> map (on_file (text_of buf)) rs' = map tree_redir rs"
  using assms
proof (induction rs arbitrary: s)
  case Nil
  then show ?case using peek_here [of buf s r "''<>''"] by (subst parseredirs.simps) auto
next
  case (Cons x rs)
  have "clean (concat (map show_redir rs) @ r)" by (rule clean_redirs [OF Cons.prems(3)])
  then obtain tok t s2 t' s3 where x: "peek buf s ''<>'' = (True, s)" "gettoken buf s = (tok, t, s2)" "gettoken buf s2 = (CHR ''a'', t', s3)"
      "here buf s3 (concat (map show_redir rs) @ r)" "on_file (text_of buf) (if tok = CHR ''<'' then (t', rdonly, 0) else (t', wronly_create, 1)) = tree_redir x"
    using redir_here [of buf s x "concat (map show_redir rs) @ r"] Cons.prems(1,2) by (auto simp: redirs_ok_def)
  obtain rs' s' where "parseredirs buf s3 = ok (rs', s')" "here buf s' r" "map (on_file (text_of buf)) rs' = map tree_redir rs"
    using Cons.IH [OF x(4)] Cons.prems(2-) by (auto simp: redirs_ok_def)
  then show ?case using x by (subst parseredirs.simps) (auto simp: Let_def)
qed

lemma words_here:
  assumes "here buf s (concat (map show_word ws) @ r)" "\<forall>x\<in>set ws. is_word (fst x) \<and> redirs_ok (snd x)"
    "argc + length ws < MAXARGS" "r = [] \<or> hd r \<in> set ''|)&;''"
  shows "\<exists>ts rs s'. parsewords buf argc s = ok (ts, rs, s') \<and> here buf s' r \<and> map (text_of buf) ts = map fst ws
    \<and> map (on_file (text_of buf)) rs = map tree_redir (concat (map snd ws))"
  using assms
proof (induction ws arbitrary: s argc)
  case Nil
  have k: "clean r" using clean_hd [of r] Nil.prems(4) by auto
  obtain tok t s1 where g: "gettoken buf s = (tok, t, s1)" by (metis prod_cases3)
  have "r = [] \<Longrightarrow> tok = NUL \<and> here buf s1 []"
    using g Nil.prems(1) here_clean [of buf s "[]"] here_char(2) [of buf s] by (auto simp: gettoken_def Let_def)
  then show ?case using Nil.prems peek_here [OF _ k, of buf s "''|)&;''"] g by (subst parsewords.simps) (auto split: if_splits)
next
  case (Cons x ws)
  obtain w rs where x: "x = (w, rs)" "is_word w" "redirs_ok rs" using Cons.prems(2) by (cases x) auto
  let ?r = "concat (map show_word ws) @ r"
  have r: "clean ?r \<and> (?r = [] \<or> hd ?r \<notin> set ''<>'')"
  proof (cases ws)
    case Nil
    then show ?thesis using clean_hd [of r] Cons.prems(4) by auto
  next
    case (Cons y ys)
    then show ?thesis using hd_show_word [of y "concat (map show_word ys) @ r"] \<open>\<forall>x\<in>set (x # ws). is_word (fst x) \<and> redirs_ok (snd x)\<close>
      by (simp add: symbols_def)
  qed
  have h: "here buf s (w @ CHR '' '' # concat (map show_redir rs) @ ?r)" using Cons.prems(1) x(1) by (simp add: show_word_def [of "(w, rs)"])
  have "hd (w @ CHR '' '' # concat (map show_redir rs) @ ?r) \<notin> set ''|)&;''" using x(2) by (cases w) (auto simp: is_word_def strchr_def symbols_def)
  then have p: "peek buf s ''|)&;'' = (False, s)" using peek_here [OF h, of "''|)&;''"] x(2) by simp
  obtain t s1 where t: "gettoken buf s = (CHR ''a'', t, s1)" "text_of buf t = w" "here buf s1 (concat (map show_redir rs) @ ?r)"
    using word_here [OF h clean_redirs [OF conjunct1 [OF r]] x(2)] by auto
  obtain rs' s2 where q: "parseredirs buf s1 = ok (rs', s2)" "here buf s2 ?r" "map (on_file (text_of buf)) rs' = map tree_redir rs"
    using redirs_here [OF t(3) x(3) conjunct1 [OF r] conjunct2 [OF r]] by auto
  obtain ts rs2 s' where "parsewords buf (argc + 1) s2 = ok (ts, rs2, s')" "here buf s' r" "map (text_of buf) ts = map fst ws"
      "map (on_file (text_of buf)) rs2 = map tree_redir (concat (map snd ws))"
    using Cons.IH [OF q(2), of "argc + 1"] Cons.prems by auto
  then show ?case using p t q x(1) Cons.prems(3) by (subst parsewords.simps) auto
qed

lemma backs_here:
  assumes "here buf s (concat (replicate n ''& '') @ r)" "clean r" "r = [] \<or> hd r \<noteq> CHR ''&''"
  shows "\<exists>c' s'. parseback c buf s = (c', s') \<and> here buf s' r \<and> map_cmd g c' = (BACK ^^ n) (map_cmd g c)"
  using assms
proof (induction n arbitrary: c s)
  case 0
  then show ?case using peek_here [of buf s r "''&''"] by (subst parseback.simps) auto
next
  case (Suc n)
  let ?r = "concat (replicate n ''& '') @ r"
  have k: "clean ?r" using Suc.prems(2) by (cases n) auto
  have h: "here buf s (CHR ''&'' # CHR '' '' # ?r)" using Suc.prems(1) by simp
  obtain t s1 where t: "gettoken buf s = (CHR ''&'', t, s1)" "here buf s1 ?r" using symbol_here [OF h k] by auto
  obtain c' s' where "parseback (BACK c) buf s1 = (c', s')" "here buf s' r" "map_cmd g c' = (BACK ^^ n) (map_cmd g (BACK c))"
    using Suc.IH [OF t(2) Suc.prems(2,3)] by blast
  then show ?case using peek_here [OF h, of "''&''"] t by (subst parseback.simps) (auto simp: funpow_swap1)
qed

text \<open>A sentence ahead, followed by the end or by what may follow it, and enough depth for it.\<close>

definition reads :: "string \<Rightarrow> nat \<Rightarrow> string \<Rightarrow> (token cmd \<times> nat) parse \<Rightarrow> string cmd \<Rightarrow> bool" where
  "reads buf s r m c \<longleftrightarrow> (\<exists>c' s'. m = ok (c', s') \<and> here buf s' r \<and> map_cmd (text_of buf) c' = c)"

lemma element_read:
  assumes h: "here buf s (show_element (Simple rs ws) @ r)" and e: "element_ok (Simple rs ws)" and r: "r = [] \<or> hd r \<in> set ''|)&;''"
  shows "reads buf s r (parseexec (Suc f) buf s) (tree_element (Simple rs ws))"
proof -
  let ?w = "concat (map show_word ws) @ r"
  have h': "here buf s (concat (map show_redir rs) @ ?w)" using h by simp
  have w: "clean ?w \<and> (?w = [] \<or> hd ?w \<notin> set ''<>('')"
  proof (cases ws)
    case Nil
    then show ?thesis using clean_hd [of r] r by auto
  next
    case (Cons y ys)
    then show ?thesis using hd_show_word [of y "concat (map show_word ys) @ r"] e by (simp add: symbols_def)
  qed
  have "concat (map show_redir rs) @ ?w = [] \<or> hd (concat (map show_redir rs) @ ?w) \<noteq> CHR ''(''"
  proof (cases rs)
    case (Cons x rs')
    then show ?thesis by (cases x; cases "fst x") simp_all
  qed (use w in auto)
  then have p: "peek buf s ''('' = (False, s)" using peek_here [OF h' clean_redirs, of "''(''"] w by auto
  obtain rs' s1 where q: "parseredirs buf s = ok (rs', s1)" "here buf s1 ?w" "map (on_file (text_of buf)) rs' = map tree_redir rs"
    using redirs_here [OF h'] e w by auto
  obtain ts rs2 s' where "parsewords buf 0 s1 = ok (ts, rs2, s')" "here buf s' r" "map (text_of buf) ts = map fst ws"
      "map (on_file (text_of buf)) rs2 = map tree_redir (concat (map snd ws))"
    using words_here [OF q(2) _ _ r, of 0] e by auto
  then show ?thesis using p q unfolding reads_def by (simp add: map_redirs)
qed

lemma block_read:
  assumes h: "here buf s (show_element (Block l rs) @ r)" and e: "redirs_ok rs" and r: "r = [] \<or> hd r \<in> set ''|)&;''"
    and l: "\<And>s1. here buf s1 (show_line l @ '') '' @ concat (map show_redir rs) @ r) \<Longrightarrow>
      reads buf s1 ('') '' @ concat (map show_redir rs) @ r) (parseline f buf s1) (tree_line l)"
    and k: "clean (show_line l @ '') '' @ concat (map show_redir rs) @ r)"
  shows "reads buf s r (parseexec (Suc (Suc f)) buf s) (tree_element (Block l rs))"
proof -
  let ?r = "concat (map show_redir rs) @ r"
  have c: "clean r" using clean_hd [of r] r by auto
  have h': "here buf s (CHR ''('' # CHR '' '' # show_line l @ '') '' @ ?r)" using h by simp
  have p: "peek buf s ''('' = (True, s)" using peek_here [OF h', of "''(''"] by simp
  obtain t s1 where g: "gettoken buf s = (CHR ''('', t, s1)" "here buf s1 (show_line l @ '') '' @ ?r)" using symbol_here [OF h' k] by auto
  obtain c1 s2 where a: "parseline f buf s1 = ok (c1, s2)" "here buf s2 (CHR '')'' # CHR '' '' # ?r)" "map_cmd (text_of buf) c1 = tree_line l"
    using l [OF g(2)] by (auto simp: reads_def)
  have p': "peek buf s2 '')'' = (True, s2)" using peek_here [OF a(2), of "'')''"] by simp
  obtain t' s3 where g': "gettoken buf s2 = (CHR '')'', t', s3)" "here buf s3 ?r" using symbol_here [OF a(2) clean_redirs [OF c]] by auto
  obtain rs' s' where "parseredirs buf s3 = ok (rs', s')" "here buf s' r" "map (on_file (text_of buf)) rs' = map tree_redir rs"
    using redirs_here [OF g'(2) e c] r by auto
  then show ?thesis using p g a p' g' unfolding reads_def by (simp add: map_redirs)
qed

lemma clean_show:
  "line_ok l \<Longrightarrow> clean r \<Longrightarrow> clean (show_line l @ r)" "pipe_ok p \<Longrightarrow> clean r \<Longrightarrow> clean (show_pipe p @ r)"
  "element_ok e \<Longrightarrow> clean r \<Longrightarrow> clean (show_element e @ r)"
proof (induction l and p and e arbitrary: r and r and r)
  case (Last p n)
  then show ?case by (cases n) simp_all
next
  case (Seq p n l)
  then show ?case by (cases n) simp_all
next
  case (Simple rs ws)
  then have "clean (concat (map show_word ws) @ r)" by (cases ws) (simp_all add: hd_show_word)
  then show ?case using clean_redirs by simp
qed simp_all

lemma pipe_read:
  assumes e: "\<And>r. here buf s (show_element e @ r) \<Longrightarrow> r = [] \<or> hd r \<in> set ''|)&;'' \<Longrightarrow> reads buf s r (parseexec f buf s) (tree_element e)"
    and p: "\<And>s1. here buf s1 (show_pipe p @ r) \<Longrightarrow> reads buf s1 r (parsepipe f buf s1) (tree_pipe p)"
    and k: "clean (show_pipe p @ r)" and h: "here buf s (show_pipe (Piped e p) @ r)"
  shows "reads buf s r (parsepipe (Suc f) buf s) (tree_pipe (Piped e p))"
proof -
  obtain c s1 where c: "parseexec f buf s = ok (c, s1)" "here buf s1 (CHR ''|'' # CHR '' '' # show_pipe p @ r)" "map_cmd (text_of buf) c = tree_element e"
    using e [of "''| '' @ show_pipe p @ r"] h by (auto simp: reads_def)
  obtain t s2 where "gettoken buf s1 = (CHR ''|'', t, s2)" "here buf s2 (show_pipe p @ r)" using symbol_here [OF c(2) k] by auto
  then show ?thesis using peek_here [OF c(2), of "''|''"] p [of s2] c by (auto simp: reads_def)
qed

lemma line_read:
  assumes p: "\<And>r. here buf s (show_pipe p @ r) \<Longrightarrow> r = [] \<or> hd r \<in> set '')&;'' \<Longrightarrow> reads buf s r (parsepipe f buf s) (tree_pipe p)"
    and l: "\<And>s1. here buf s1 (show_line l @ r) \<Longrightarrow> reads buf s1 r (parseline f buf s1) (tree_line l)"
    and k: "clean (show_line l @ r)" and h: "here buf s (show_line (Seq p n l) @ r)"
  shows "reads buf s r (parseline (Suc f) buf s) (tree_line (Seq p n l))"
proof -
  let ?r = "CHR '';'' # CHR '' '' # show_line l @ r"
  have "hd (concat (replicate n ''& '') @ ?r) \<in> set '')&;''" by (cases n) simp_all
  then obtain c s1 where c: "parsepipe f buf s = ok (c, s1)" "here buf s1 (concat (replicate n ''& '') @ ?r)" "map_cmd (text_of buf) c = tree_pipe p"
    using p [of "concat (replicate n ''& '') @ ?r"] h by (auto simp: reads_def)
  obtain c' s2 where b: "parseback c buf s1 = (c', s2)" "here buf s2 ?r" "map_cmd (text_of buf) c' = (BACK ^^ n) (tree_pipe p)"
    using backs_here [OF c(2), of c "text_of buf"] c(3) by auto
  obtain t s3 where "gettoken buf s2 = (CHR '';'', t, s3)" "here buf s3 (show_line l @ r)" using symbol_here [OF b(2) k] by auto
  then show ?thesis using peek_here [OF b(2), of "'';''"] l [of s3] b c(1) by (auto simp: reads_def)
qed

lemma last_read:
  assumes p: "\<And>r. here buf s (show_pipe p @ r) \<Longrightarrow> r = [] \<or> hd r \<in> set '')&;'' \<Longrightarrow> reads buf s r (parsepipe f buf s) (tree_pipe p)"
    and r: "r = [] \<or> hd r = CHR '')''" and h: "here buf s (show_line (Last p n) @ r)"
  shows "reads buf s r (parseline (Suc f) buf s) (tree_line (Last p n))"
proof -
  have a: "concat (replicate n ''& '') @ r = [] \<or> hd (concat (replicate n ''& '') @ r) \<in> set '')&;''" using r by (cases n) auto
  then obtain c s1 where c: "parsepipe f buf s = ok (c, s1)" "here buf s1 (concat (replicate n ''& '') @ r)" "map_cmd (text_of buf) c = tree_pipe p"
    using p [OF _ a] h by (auto simp: reads_def)
  have k: "clean r" using clean_hd [of r] r by auto
  obtain c' s2 where b: "parseback c buf s1 = (c', s2)" "here buf s2 r" "map_cmd (text_of buf) c' = (BACK ^^ n) (tree_pipe p)"
    using backs_here [OF c(2) k, of c "text_of buf"] c(3) r by auto
  then show ?thesis using peek_here [OF b(2) k, of "'';''"] c(1) r by (auto simp: reads_def)
qed

lemma sentence_read:
  "line_ok l \<Longrightarrow> here buf s (show_line l @ r) \<Longrightarrow> r = [] \<or> hd r = CHR '')'' \<Longrightarrow> 4 * length (show_line l @ r) + 4 \<le> f \<Longrightarrow>
    reads buf s r (parseline f buf s) (tree_line l)"
  "pipe_ok p \<Longrightarrow> here buf s (show_pipe p @ r) \<Longrightarrow> r = [] \<or> hd r \<in> set '')&;'' \<Longrightarrow> 4 * length (show_pipe p @ r) + 3 \<le> f \<Longrightarrow>
    reads buf s r (parsepipe f buf s) (tree_pipe p)"
  "element_ok e \<Longrightarrow> here buf s (show_element e @ r) \<Longrightarrow> r = [] \<or> hd r \<in> set ''|)&;'' \<Longrightarrow> 4 * length (show_element e @ r) + 2 \<le> f \<Longrightarrow>
    reads buf s r (parseexec f buf s) (tree_element e)"
proof (induction l and p and e arbitrary: s r f and s r f and s r f)
  case (Last p n)
  then obtain g where f: "f = Suc g" by (cases f) auto
  show ?case unfolding f by (rule last_read [OF _ Last.prems(3,2)]) (use Last f in \<open>auto simp: here_def\<close>)
next
  case (Seq p n l)
  then obtain g where f: "f = Suc g" by (cases f) auto
  have "clean r" using clean_hd [of r] Seq.prems(3) by auto
  then have k: "clean (show_line l @ r)" using clean_show(1) Seq.prems(1) by simp
  show ?case unfolding f by (rule line_read [OF _ _ k Seq.prems(2)]) (use Seq f in \<open>auto simp: here_def\<close>)
next
  case (Single e)
  then obtain g where f: "f = Suc g" by (cases f) auto
  have k: "clean r" using clean_hd [of r] Single.prems(3) by auto
  have "reads buf s r (parseexec g buf s) (tree_element e)"
    using Single.prems f by (intro Single.IH) (simp_all, blast)
  then obtain c' s' where c: "parseexec g buf s = ok (c', s')" "here buf s' r" "map_cmd (text_of buf) c' = tree_element e"
    unfolding reads_def by blast
  show ?case unfolding f using peek_here [OF c(2) k, of "''|''"] c Single.prems(3) by (auto simp: reads_def)
next
  case (Piped e p)
  then obtain g where f: "f = Suc g" by (cases f) auto
  have "clean r" using clean_hd [of r] Piped.prems(3) by auto
  then have k: "clean (show_pipe p @ r)" using clean_show(2) Piped.prems(1) by simp
  show ?case unfolding f by (rule pipe_read [OF _ _ k Piped.prems(2)]) (use Piped f in \<open>auto simp: here_def\<close>)
next
  case (Simple rs ws)
  then obtain g where f: "f = Suc g" by (cases f) auto
  show ?case unfolding f by (rule element_read [OF Simple.prems(2,1,3)])
next
  case (Block l rs)
  then obtain g where f: "f = Suc (Suc g)" by (cases f; cases "f - 1") auto
  have "clean r" using clean_hd [of r] Block.prems(3) by auto
  then have k: "clean (show_line l @ '') '' @ concat (map show_redir rs) @ r)" using clean_show(1) Block.prems(1) by simp
  show ?case unfolding f by (rule block_read [OF Block.prems(2) _ Block.prems(3) _ k]) (use Block f in auto)
qed

lemma no_NUL_redirs: "redirs_ok rs \<Longrightarrow> NUL \<notin> set (concat (map show_redir rs))"
proof -
  have "NUL \<notin> set (show_redir r)" if "is_word (snd r)" for r
    using that by (cases r; cases "fst r") (auto simp: is_word_def)
  then show "redirs_ok rs \<Longrightarrow> ?thesis" by (auto simp: redirs_ok_def)
qed

lemma no_NUL: "line_ok l \<Longrightarrow> NUL \<notin> set (show_line l)" "pipe_ok p \<Longrightarrow> NUL \<notin> set (show_pipe p)" "element_ok e \<Longrightarrow> NUL \<notin> set (show_element e)"
proof (induction l and p and e)
  case (Simple rs ws)
  have "NUL \<notin> set (show_word x)" if "is_word (fst x) \<and> redirs_ok (snd x)" for x
    using that no_NUL_redirs [of "snd x"] by (auto simp: show_word_def is_word_def)
  then show ?case using Simple no_NUL_redirs [of rs] by auto
next
  case (Block l rs)
  then show ?case using no_NUL_redirs [of rs] by auto
qed auto

section \<open>Properties\<close>

text \<open>
  C29: The shell's parser ends on every command line: with a message, or with a tree in
  which no command has more than nine words, every word is a maximal run of word
  characters of the line, and the string that starts at a word once
  \<open>nulterminate\<close> has written its zeros is exactly that word, so that ending one word
  does not damage another.
\<close>

theorem parsecmd_ends_well_formed:
  assumes "NUL \<notin> set buf"
  shows "case parsecmd buf of
      None \<Rightarrow> False
    | Some (Inl e) \<Rightarrow> True
    | Some (Inr (b, c)) \<Rightarrow> args_ok c \<and> (\<forall>t\<in>set_cmd c. word_at buf t) \<and> map_cmd (\<lambda>t. cstr b (fst t)) c = map_cmd (text_of buf) c"
  using parsecmd_result [OF assms] by (cases rule: parsesE) (auto simp: cmd_ok_def)

theorem parsecmd_ends_well_formed_witness:
  "\<exists>b c. parsecmd ''ls|wc>f'' = Some (Inr (b, c)) \<and> map_cmd (\<lambda>t. cstr b (fst t)) c = map_cmd (text_of ''ls|wc>f'') c \<and> args_ok c"
proof -
  have "parsecmd ''ls|wc>f'' = Some (Inr ([CHR ''l'', CHR ''s'', NUL, CHR ''w'', CHR ''c'', NUL, CHR ''f''], PIPE (EXEC [(0, 2)]) (REDIR (EXEC [(3, 5)]) (6, 7) 513 1)))" by code_simp
  then show ?thesis using parsecmd_ends_well_formed [of "''ls|wc>f''"] by (simp add: args_ok.simps)
qed

text \<open>
  C28: Every sentence of the grammar of commands, with its lists, pipelines, background
  commands, blocks, words and redirections, is parsed to the command it stands for,
  the words being the strings the programs will see.
\<close>

theorem parsecmd_reads_sentence:
  assumes "line_ok l"
  shows "\<exists>b c. parsecmd (show_line l) = Some (Inr (b, c)) \<and> map_cmd (\<lambda>t. cstr b (fst t)) c = tree_line l"
proof -
  let ?buf = "show_line l"
  obtain c s where c: "parseline (4 * length ?buf + 4) ?buf 0 = ok (c, s)" "here ?buf s []" "map_cmd (text_of ?buf) c = tree_line l"
    using sentence_read(1) [OF assms, of ?buf 0 "[]" "4 * length ?buf + 4"] by (auto simp: reads_def here_def)
  have "peek ?buf s [] = (False, s)" using peek_here [OF c(2), of "[]"] by simp
  moreover have "s = length ?buf" using c(2) by (simp add: here_def)
  ultimately have p: "parsecmd ?buf = ok (nulterminate c ?buf, c)" using c(1) by (simp add: parsecmd_def)
  then show ?thesis using parsecmd_result [OF no_NUL(1) [OF assms]] c(3) by auto
qed

theorem parsecmd_reads_sentence_witness:
  "\<exists>b c. parsecmd ''ls | wc > f & ; ( a ) '' = Some (Inr (b, c))
     \<and> map_cmd (\<lambda>t. cstr b (fst t)) c = LIST (BACK (PIPE (EXEC [''ls'']) (REDIR (EXEC [''wc'']) ''f'' 513 1))) (EXEC [''a''])"
proof -
  let ?l = "Seq (Piped (Simple [] [(''ls'', [])]) (Single (Simple [] [(''wc'', [(To, ''f'')])]))) 1
    (Last (Single (Block (Last (Single (Simple [] [(''a'', [])])) 0) [])) 0)"
  have ok: "line_ok ?l" by (simp add: redirs_ok_def is_word_def strchr_def whitespace_def symbols_def)
  have sh: "show_line ?l = ''ls | wc > f & ; ( a ) ''" by (simp add: show_word_def)
  have tr: "tree_line ?l = LIST (BACK (PIPE (EXEC [''ls'']) (REDIR (EXEC [''wc'']) ''f'' 513 1))) (EXEC [''a''])"
    by (simp add: tree_redir_def redircmd_def)
  show ?thesis using parsecmd_reads_sentence [OF ok] unfolding sh tr .
qed

end
