(* ===== verification/Grep.thy ===== *)
theory Grep
  imports Xv6_Prelude
begin

text \<open>
  The program \<open>grep.c\<close>: its matcher for patterns with \<open>^\<close>, \<open>.\<close>, \<open>*\<close> and \<open>$\<close>, and the
  loop that cuts the input into lines. Patterns and texts are strings without the
  terminating zero, which the tests for the zero see as the empty list.
\<close>

section \<open>The matcher\<close>

text \<open>The two functions that call each other, the second one with the loop of the source.\<close>

function (sequential) matchhere :: "string \<Rightarrow> string \<Rightarrow> bool"
  and matchstar :: "char \<Rightarrow> string \<Rightarrow> string \<Rightarrow> bool" where
  "matchhere [] ts = True"
| "matchhere (c # re) ts =
     (if re \<noteq> [] \<and> hd re = CHR ''*'' then matchstar c (tl re) ts
      else if c = CHR ''$'' \<and> re = [] then ts = []
      else if ts \<noteq> [] \<and> (c = CHR ''.'' \<or> c = hd ts) then matchhere re (tl ts)
      else False)"
| "matchstar c re ts =
     (if matchhere re ts then True
      else if ts \<noteq> [] \<and> (hd ts = c \<or> c = CHR ''.'') then matchstar c re (tl ts)
      else False)"
  by pat_completeness auto
termination
  by (relation "measures [\<lambda>x. case x of Inl (re, ts) \<Rightarrow> length re | Inr (c, re, ts) \<Rightarrow> length re + 1,
        \<lambda>x. case x of Inl (re, ts) \<Rightarrow> length ts | Inr (c, re, ts) \<Rightarrow> length ts]") (auto simp: neq_Nil_conv)

declare matchstar.simps [simp del]

fun match_loop :: "string \<Rightarrow> string \<Rightarrow> bool" where
  "match_loop re ts = (if matchhere re ts then True else case ts of [] \<Rightarrow> False | _ # ts \<Rightarrow> match_loop re ts)"

declare match_loop.simps [simp del]

definition match :: "string \<Rightarrow> string \<Rightarrow> bool" where
  "match re ts = (if re \<noteq> [] \<and> hd re = CHR ''^'' then matchhere (tl re) ts else match_loop re ts)"

section \<open>The lines of the input\<close>

abbreviation (input) newline :: char where "newline \<equiv> CHR 0x0A"

abbreviation (input) nul :: char where "nul \<equiv> CHR 0x00"

text \<open>\<open>strchr\<close> of \<open>ulib.c\<close>, as the distance to the first occurrence; the search ends at a zero byte.\<close>

fun strchr_pos :: "string \<Rightarrow> char \<Rightarrow> nat option" where
  "strchr_pos [] c = None"
| "strchr_pos (x # s) c = (if x = nul then None else if x = c then Some 0 else map_option Suc (strchr_pos s c))"

text \<open>
  The inner loop takes the complete lines off the buffer: what is written for them,
  and what remains. The bytes of the buffer are followed by the zero that the code puts
  there; a zero byte among them ends the search for a newline early.
\<close>

lemma strchr_length: "strchr_pos s c = Some q \<Longrightarrow> q < length s"
  by (induction s arbitrary: q) (auto split: if_splits)

function take_lines :: "string \<Rightarrow> string \<Rightarrow> string \<times> string" where
  "take_lines pattern p =
     (case strchr_pos p newline of
        Some q \<Rightarrow>
          let l = take q p;
              (out, rest) = take_lines pattern (drop (q + 1) p)
          in ((if match pattern l then l @ [newline] else []) @ out, rest)
      | None \<Rightarrow> ([], p))"
  by pat_completeness auto
termination
  by (relation "measure (\<lambda>(pattern, p). length p)") (auto dest: strchr_length)

declare take_lines.simps [simp del]

text \<open>
  The outer loop. \<open>data\<close> is what is still to come from the file; the list has, for
  each call of \<open>read\<close>, the number of bytes the file would give, of which the call takes
  what fits behind the \<open>m\<close> bytes kept in the buffer. A buffer without a complete line
  is thrown away.
\<close>

abbreviation (input) sizeof_buf :: nat where "sizeof_buf \<equiv> 1024"

fun grep_loop :: "string \<Rightarrow> string \<Rightarrow> string \<Rightarrow> nat list \<Rightarrow> string" where
  "grep_loop pattern buf data [] = []"
| "grep_loop pattern buf data (k # ks) =
     (let n = take (min k (sizeof_buf - length buf - 1)) data in
      if n = [] then []
      else
        let buf = buf @ n;
            (out, p) = take_lines pattern buf
        in out @ grep_loop pattern (if p = buf then [] else p) (drop (length n) data) ks)"

definition grep :: "string \<Rightarrow> string \<Rightarrow> nat list \<Rightarrow> string" where
  "grep pattern data ks = grep_loop pattern [] data ks"

section \<open>What a pattern stands for\<close>

datatype atom = One char | Many char

text \<open>The atoms of a pattern, and whether it must end where the text ends.\<close>

fun atoms :: "string \<Rightarrow> atom list \<times> bool" where
  "atoms [] = ([], False)"
| "atoms [c] = (if c = CHR ''$'' then ([], True) else ([One c], False))"
| "atoms (c # d # re) =
     (if d = CHR ''*'' then (Many c # fst (atoms re), snd (atoms re))
      else (One c # fst (atoms (d # re)), snd (atoms (d # re))))"

definition fits :: "char \<Rightarrow> char \<Rightarrow> bool" where
  "fits c x \<longleftrightarrow> c = CHR ''.'' \<or> x = c"

fun lang :: "atom list \<Rightarrow> string set" where
  "lang [] = {[]}"
| "lang (One c # as) = {x # u | x u. fits c x \<and> u \<in> lang as}"
| "lang (Many c # as) = {v @ u | v u. (\<forall>x\<in>set v. fits c x) \<and> u \<in> lang as}"

text \<open>The strings that begin with a match, and those that contain one.\<close>

definition at_start :: "atom list \<times> bool \<Rightarrow> string \<Rightarrow> bool" where
  "at_start a ts \<longleftrightarrow> (\<exists>u v. ts = u @ v \<and> u \<in> lang (fst a) \<and> (snd a \<longrightarrow> v = []))"

lemma at_start_One: "at_start (One c # as, e) ts \<longleftrightarrow> ts \<noteq> [] \<and> fits c (hd ts) \<and> at_start (as, e) (tl ts)"
proof
  assume "at_start (One c # as, e) ts"
  then obtain w v where w: "ts = w @ v" "w \<in> lang (One c # as)" "e \<longrightarrow> v = []" unfolding at_start_def fst_conv snd_conv by blast
  then obtain x u where "w = x # u" "fits c x" "u \<in> lang as" by auto
  then show "ts \<noteq> [] \<and> fits c (hd ts) \<and> at_start (as, e) (tl ts)" using w unfolding at_start_def by auto
next
  assume *: "ts \<noteq> [] \<and> fits c (hd ts) \<and> at_start (as, e) (tl ts)"
  then obtain u v where "tl ts = u @ v" "u \<in> lang as" "e \<longrightarrow> v = []" by (auto simp: at_start_def)
  then have "ts = (hd ts # u) @ v" "hd ts # u \<in> lang (One c # as)" using * by (cases ts; auto)+
  then show "at_start (One c # as, e) ts" using \<open>e \<longrightarrow> v = []\<close> unfolding at_start_def fst_conv snd_conv by blast
qed

lemma at_start_Many: "at_start (Many c # as, e) ts \<longleftrightarrow> at_start (as, e) ts \<or> (ts \<noteq> [] \<and> fits c (hd ts) \<and> at_start (Many c # as, e) (tl ts))"
proof
  assume "at_start (Many c # as, e) ts"
  then obtain w' v where "ts = w' @ v" "w' \<in> lang (Many c # as)" "e \<longrightarrow> v = []" unfolding at_start_def fst_conv snd_conv by blast
  moreover from this obtain w u where "w' = w @ u" "\<forall>x\<in>set w. fits c x" "u \<in> lang as" by auto
  ultimately have *: "ts = w @ u @ v" "\<forall>x\<in>set w. fits c x" "u \<in> lang as" "e \<longrightarrow> v = []" by simp_all
  show "at_start (as, e) ts \<or> (ts \<noteq> [] \<and> fits c (hd ts) \<and> at_start (Many c # as, e) (tl ts))"
  proof (cases w)
    case Nil
    then show ?thesis using * unfolding at_start_def by auto
  next
    case (Cons x w')
    then have "tl ts = (w' @ u) @ v" "w' @ u \<in> lang (Many c # as)" using * by auto
    then have "at_start (Many c # as, e) (tl ts)" using *(4) unfolding at_start_def fst_conv snd_conv by blast
    then show ?thesis using * Cons by simp
  qed
next
  assume "at_start (as, e) ts \<or> (ts \<noteq> [] \<and> fits c (hd ts) \<and> at_start (Many c # as, e) (tl ts))"
  then obtain w u v where "ts = (w @ u) @ v" "\<forall>x\<in>set w. fits c x" "u \<in> lang as" "e \<longrightarrow> v = []"
  proof
    assume "at_start (as, e) ts"
    then obtain u v where "ts = u @ v" "u \<in> lang as" "e \<longrightarrow> v = []" unfolding at_start_def fst_conv snd_conv by blast
    then show ?thesis by (intro that [of "[]" u v]) simp_all
  next
    assume *: "ts \<noteq> [] \<and> fits c (hd ts) \<and> at_start (Many c # as, e) (tl ts)"
    then obtain w' v where "tl ts = w' @ v" "w' \<in> lang (Many c # as)" "e \<longrightarrow> v = []" unfolding at_start_def fst_conv snd_conv by blast
    moreover from this obtain w u where "w' = w @ u" "\<forall>x\<in>set w. fits c x" "u \<in> lang as" by auto
    moreover have "ts = hd ts # tl ts" using * by simp
    ultimately have "ts = ((hd ts # w) @ u) @ v" by simp
    then show ?thesis using * \<open>\<forall>x\<in>set w. fits c x\<close> \<open>u \<in> lang as\<close> \<open>e \<longrightarrow> v = []\<close> by (intro that [of "hd ts # w" u v]) auto
  qed
  moreover from this have "w @ u \<in> lang (Many c # as)" by auto
  ultimately show "at_start (Many c # as, e) ts" unfolding at_start_def fst_conv snd_conv by blast
qed

definition starts :: "string \<Rightarrow> string \<Rightarrow> bool" where
  "starts re ts \<longleftrightarrow> at_start (atoms re) ts"

definition contains :: "string \<Rightarrow> string \<Rightarrow> bool" where
  "contains re ts \<longleftrightarrow> (\<exists>u v. ts = u @ v \<and> starts re v)"

lemma starts_simps:
  "starts [] ts" "starts [c] ts \<longleftrightarrow> (if c = CHR ''$'' then ts = [] else ts \<noteq> [] \<and> fits c (hd ts))"
  "d \<noteq> CHR ''*'' \<Longrightarrow> starts (c # d # re) ts \<longleftrightarrow> ts \<noteq> [] \<and> fits c (hd ts) \<and> starts (d # re) (tl ts)"
  "starts (c # CHR ''*'' # re) ts \<longleftrightarrow> starts re ts \<or> (ts \<noteq> [] \<and> fits c (hd ts) \<and> starts (c # CHR ''*'' # re) (tl ts))"
proof -
  have nil: "at_start ([], False) ts" "at_start ([], True) ts = (ts = [])" for ts by (simp_all add: at_start_def)
  show "starts [] ts" "starts [c] ts \<longleftrightarrow> (if c = CHR ''$'' then ts = [] else ts \<noteq> [] \<and> fits c (hd ts))"
    by (simp_all add: starts_def nil at_start_One)
  show "d \<noteq> CHR ''*'' \<Longrightarrow> starts (c # d # re) ts \<longleftrightarrow> ts \<noteq> [] \<and> fits c (hd ts) \<and> starts (d # re) (tl ts)"
    by (simp add: starts_def at_start_One)
  show "starts (c # CHR ''*'' # re) ts \<longleftrightarrow> starts re ts \<or> (ts \<noteq> [] \<and> fits c (hd ts) \<and> starts (c # CHR ''*'' # re) (tl ts))"
    using at_start_Many [of c "fst (atoms re)" "snd (atoms re)" ts] by (simp add: starts_def)
qed

lemma matchhere_starts: "matchhere re ts \<longleftrightarrow> starts re ts" "matchstar c re ts \<longleftrightarrow> starts (c # CHR ''*'' # re) ts"
proof (induction re ts and c re ts rule: matchhere_matchstar.induct)
  case (2 c re ts)
  then show ?case by (cases re) (auto simp: starts_simps(1-3) fits_def)
next
  case (3 c re ts)
  then show ?case by (subst matchstar.simps, subst starts_simps(4)) (auto simp: fits_def)
qed (simp add: starts_simps(1))

lemma match_loop_contains: "match_loop re ts \<longleftrightarrow> contains re ts"
proof (induction re ts rule: match_loop.induct)
  case (1 re ts)
  have "contains re ts \<longleftrightarrow> starts re ts \<or> (ts \<noteq> [] \<and> contains re (tl ts))"
    by (cases ts) (auto simp: contains_def Cons_eq_append_conv)
  then show ?case using 1 by (subst match_loop.simps) (auto simp: matchhere_starts split: list.splits)
qed

section \<open>The complete lines of a text\<close>

fun lines_of :: "string \<Rightarrow> string \<Rightarrow> string list" where
  "lines_of l [] = []"
| "lines_of l (c # t) = (if c = newline then l # lines_of [] t else lines_of (l @ [c]) t)"

definition printed :: "string \<Rightarrow> string list \<Rightarrow> string" where
  "printed pattern ls = concat (map (\<lambda>l. l @ [newline]) (filter (match pattern) ls))"

lemma lines_of_append: "newline \<notin> set l \<Longrightarrow> newline \<notin> set p \<Longrightarrow> lines_of l (p @ t) = lines_of (l @ p) t"
  by (induction p arbitrary: l) auto

lemma strchr_newline:
  assumes "nul \<notin> set p"
  shows "strchr_pos p newline = (if newline \<in> set p then Some (length (takeWhile (\<lambda>c. c \<noteq> newline) p)) else None)"
  using assms by (induction p) auto

lemma first_line:
  assumes "newline \<in> set p"
  shows "p = takeWhile (\<lambda>c. c \<noteq> newline) p @ newline # drop (length (takeWhile (\<lambda>c. c \<noteq> newline) p) + 1) p"
    (is "p = ?l @ newline # ?q")
proof -
  let ?d = "dropWhile (\<lambda>c. c \<noteq> newline) p"
  have "?d \<noteq> []" using assms by (simp add: dropWhile_eq_Nil_conv)
  moreover from this have "hd ?d = newline" using hd_dropWhile [of "\<lambda>c. c \<noteq> newline" p] by simp
  moreover have "tl ?d = ?q" by (simp add: dropWhile_eq_drop drop_Suc tl_drop)
  ultimately have "?d = newline # ?q" by (metis list.collapse)
  then show ?thesis using takeWhile_dropWhile_id [of "\<lambda>c. c \<noteq> newline" p] by metis
qed

lemma take_lines_ok:
  "nul \<notin> set p \<Longrightarrow> case take_lines pattern p of (out, rest) \<Rightarrow> newline \<notin> set rest
     \<and> (newline \<in> set p \<longleftrightarrow> rest \<noteq> p) \<and> (newline \<in> set p \<longrightarrow> length rest < length p)
     \<and> (\<exists>ls. \<forall>t. lines_of [] (p @ t) = ls @ lines_of [] (rest @ t) \<and> out = printed pattern ls)
     \<and> set rest \<subseteq> set p"
proof (induction pattern p rule: take_lines.induct)
  case (1 pattern p)
  note nul = 1(2)
  show ?case
  proof (cases "newline \<in> set p")
    case True
    let ?l = "takeWhile (\<lambda>c. c \<noteq> newline) p"
    let ?q = "drop (length ?l + 1) p"
    obtain out rest where q: "take_lines pattern ?q = (out, rest)" by fastforce
    note p = first_line [OF True]
    have l: "newline \<notin> set ?l" "take (length ?l) p = ?l"
      by (auto dest: set_takeWhileD) (metis takeWhile_eq_take)
    have ln: "lines_of [] (p @ t) = ?l # lines_of [] (?q @ t)" for t
      using lines_of_append [of "[]" ?l "newline # ?q @ t"] l by (subst p) simp
    have st: "strchr_pos p newline = Some (length ?l)" using strchr_newline [OF nul] True by simp
    have sub: "set ?q \<subseteq> set p" by (rule set_drop_subset)
    then obtain ls where IH: "newline \<notin> set rest" "length rest \<le> length ?q" "set rest \<subseteq> set ?q"
        "\<And>t. lines_of [] (?q @ t) = ls @ lines_of [] (rest @ t)" "out = printed pattern ls"
      using 1(1) [OF st] nul q by (cases "rest = ?q") (force simp: l)+
    have "length ?q < length p" using length_pos_if_in_set [OF True] by simp
    then have "length rest < length p" using IH(2) by linarith
    moreover have "take_lines pattern p = ((if match pattern ?l then ?l @ [newline] else []) @ out, rest)"
      using st q l(2) by (subst take_lines.simps) simp
    moreover have "\<forall>t. lines_of [] (p @ t) = (?l # ls) @ lines_of [] (rest @ t)
        \<and> (if match pattern ?l then ?l @ [newline] else []) @ out = printed pattern (?l # ls)"
      unfolding ln IH(4) IH(5) by (simp add: printed_def)
    ultimately show ?thesis using IH(1,3) sub True by (auto intro: exI [of _ "?l # ls"])
  next
    case False
    then have "take_lines pattern p = ([], p)" using strchr_newline [OF nul] by (subst take_lines.simps) simp
    then show ?thesis using False by (auto intro: exI [of _ "[]"] simp: printed_def)
  qed
qed

lemma lines_of_no_newline: "newline \<notin> set p \<Longrightarrow> newline \<notin> set l \<Longrightarrow> lines_of l p = []"
  by (induction p arbitrary: l) auto

text \<open>A text whose lines are short has a newline among its first \<open>m\<close> bytes, or none at all.\<close>

lemma short_lines:
  assumes "\<forall>l\<in>set (lines_of [] t). length l < m" "newline \<notin> set (take m t)"
  shows "newline \<notin> set t"
proof
  assume t: "newline \<in> set t"
  let ?l = "takeWhile (\<lambda>c. c \<noteq> newline) t"
  have "newline \<notin> set ?l" by (auto dest: set_takeWhileD)
  then have "?l \<in> set (lines_of [] t)"
    using lines_of_append [of "[]" ?l] first_line [OF t] by (metis append_Nil empty_iff empty_set lines_of.simps(2) list.set_intros(1))
  then have "length ?l < m" using assms(1) by blast
  then have "newline \<in> set (take m (?l @ newline # drop (length ?l + 1) t))" by (cases "m - length ?l") auto
  then show False using assms(2) by (simp only: first_line [OF t, symmetric])
qed

lemma grep_loop_ok:
  assumes "newline \<notin> set buf" "length buf < sizeof_buf - 1" "nul \<notin> set (buf @ data)"
    "\<forall>l\<in>set (lines_of [] (buf @ data)). length l < sizeof_buf - 1" "\<forall>k\<in>set ks. sizeof_buf \<le> k" "length data < length ks"
  shows "grep_loop pattern buf data ks = printed pattern (lines_of [] (buf @ data))"
  using assms
proof (induction ks arbitrary: buf data)
  case (Cons k ks)
  let ?n = "take (sizeof_buf - length buf - 1) data"
  let ?d = "drop (length ?n) data"
  have n: "take (min k (sizeof_buf - length buf - 1)) data = ?n"
  proof -
    have "sizeof_buf - length buf - 1 \<le> k" using Cons.prems(5) by fastforce
    then show ?thesis by (simp only: min.absorb2)
  qed
  have d: "?n @ ?d = data" by (metis append_take_drop_id length_take min.commute take_take append_eq_conv_conj)
  show ?case
  proof (cases "data = []")
    case True
    then show ?thesis using Cons.prems(1) lines_of_no_newline [of buf "[]"] by (simp add: printed_def)
  next
    case False
    then have ne: "?n \<noteq> []" using Cons.prems(2) by simp
    have "length ?n + length ?d = length data" by (simp only: length_append [symmetric] d)
    moreover have "0 < length ?n" using ne by blast
    ultimately have ks: "length ?d < length ks" using Cons.prems(6) unfolding list.size by linarith
    obtain out rest where t: "take_lines pattern (buf @ ?n) = (out, rest)" by fastforce
    have nul: "nul \<notin> set (buf @ ?n)" "nul \<notin> set ?d" using Cons.prems(3) by (auto dest: in_set_takeD in_set_dropD)
    note r = take_lines_ok [OF nul(1), of pattern, unfolded t prod.case]
    have g: "grep_loop pattern buf data (k # ks) = out @ grep_loop pattern (if rest = buf @ ?n then [] else rest) ?d ks"
      using n ne t by simp
    have ks': "\<forall>k\<in>set ks. sizeof_buf \<le> k" using Cons.prems(5) by simp
    show ?thesis
    proof (cases "newline \<in> set (buf @ ?n)")
      case True
      obtain ls where ls: "\<And>u. lines_of [] ((buf @ ?n) @ u) = ls @ lines_of [] (rest @ u)" "out = printed pattern ls"
        using r by blast
      have all: "lines_of [] (buf @ data) = ls @ lines_of [] (rest @ ?d)" using ls(1) [of ?d] d by simp
      have "length rest < sizeof_buf - 1" using r True Cons.prems(2) by (auto simp: min_def split: if_splits)
      then have "grep_loop pattern rest ?d ks = printed pattern (lines_of [] (rest @ ?d))"
        using r nul True all Cons.prems(4) ks ks' by (intro Cons.IH) auto
      then show ?thesis using g r True all ls(2) by (simp add: printed_def)
    next
      case no: False
      then have "newline \<notin> set (take (sizeof_buf - 1) (buf @ data))" using Cons.prems(2) by simp
      then have nn: "newline \<notin> set (buf @ data)" using short_lines Cons.prems(4) by blast
      then have nd: "newline \<notin> set ?d" by (auto dest: in_set_dropD)
      then have "grep_loop pattern [] ?d ks = printed pattern (lines_of [] ([] @ ?d))"
        using nul ks ks' lines_of_no_newline [of ?d "[]"] by (intro Cons.IH) auto
      moreover have "take_lines pattern (buf @ ?n) = ([], buf @ ?n)"
        using no strchr_newline [OF nul(1)] by (subst take_lines.simps) simp
      ultimately show ?thesis
        using g t nn nd lines_of_no_newline [of "buf @ data" "[]"] lines_of_no_newline [of ?d "[]"] by (simp add: printed_def)
    qed
  qed
qed simp

text \<open>
  A read that ends within a line and brings no newline is lost, and so is everything
  after a zero byte.
\<close>

lemma grep_loses_partial_line:
  "grep ''abc'' (''abc'' @ [newline]) [2, 2] = [] \<and> grep ''abc'' (''abc'' @ [newline]) [4] = ''abc'' @ [newline]"
  "grep ''b'' ([nul] @ ''b'' @ [newline]) [3] = []"
  by code_simp+

section \<open>Properties\<close>

text \<open>
  C30: The matcher decides the language of the pattern: a text matches when it
  contains, or for a pattern that begins with \<open>^\<close> starts with, a string of the
  language of the pattern's atoms, which must reach to the end of the text when the
  pattern ends in \<open>$\<close>.
\<close>

theorem match_decides_pattern:
  "match re ts \<longleftrightarrow> (if re \<noteq> [] \<and> hd re = CHR ''^'' then starts (tl re) ts else contains re ts)"
  by (simp add: match_def matchhere_starts match_loop_contains)

text \<open>
  C31: On a file without zero bytes, whose reads fill the buffer as far as the file goes,
  \<open>grep\<close> writes exactly the complete lines that match, in order, each with its newline,
  if every line with its newline fits into the 1023 bytes that a read may bring: lines
  that span reads are put together again, and the code never drops one.
\<close>

theorem grep_prints_matching_lines:
  assumes "nul \<notin> set data" "\<forall>l\<in>set (lines_of [] data). length l + 1 \<le> 1023"
    and "\<forall>k\<in>set ks. 1024 \<le> k" "length data < length ks"
  shows "grep pattern data ks = concat (map (\<lambda>l. l @ [newline]) (filter (match pattern) (lines_of [] data)))"
proof -
  have "\<forall>l\<in>set (lines_of [] data). length l < sizeof_buf - 1" using assms(2) by fastforce
  then show ?thesis using grep_loop_ok [of "[]" data ks pattern] assms by (simp add: grep_def printed_def)
qed

theorem grep_prints_matching_lines_witness:
  "grep ''b*c$'' (''ab'' @ [newline] @ ''xbc'' @ [newline]) (replicate 9 1024) = ''xbc'' @ [newline]"
proof -
  have "grep ''b*c$'' (''ab'' @ [newline] @ ''xbc'' @ [newline]) (replicate 9 1024) =
      concat (map (\<lambda>l. l @ [newline]) (filter (match ''b*c$'') (lines_of [] (''ab'' @ [newline] @ ''xbc'' @ [newline]))))"
    by (rule grep_prints_matching_lines) simp_all
  also have "\<dots> = ''xbc'' @ [newline]" by code_simp
  finally show ?thesis .
qed

end
