(* ===== verification/Spec2Isabelle.thy ===== *)
theory Spec2Isabelle
  imports Sleep_Steps Prioritylock Vm_Props Fs_Names Pipe_Props Syscall_Props Shell_Props Grep
begin

text \<open>
  A verification development for the xv6 kernel of this repository, and for two of its
  user programs (\<open>src/xv6-public\<close>).

  \<^bold>\<open>The program.\<close> A small Unix-like kernel for multiprocessor x86 machines. Processors run
  a scheduler that switches between processes of three queues (\<open>proc.c\<close>); spin locks
  with interrupts off protect shared data (\<open>spinlock.c\<close>), sleep locks and a priority
  lock make processes wait (\<open>sleeplock.c\<close>, \<open>prioritylock.c\<close>). Physical pages come from
  a free list (\<open>kalloc.c\<close>), and page tables map them into processes (\<open>vm.c\<close>,
  \<open>exec.c\<close>, \<open>shared_mem.c\<close>). Files are inodes with blocks (\<open>fs.c\<close>) that are read and
  written through a cache (\<open>bio.c\<close>) inside transactions of a write-ahead log
  (\<open>log.c\<close>). System calls and traps (\<open>syscall.c\<close>, \<open>sysproc.c\<close>, \<open>sysfile.c\<close>,
  \<open>trap.c\<close>) tie these parts together; the console edits lines and prints
  (\<open>console.c\<close>). The shell (\<open>sh.c\<close>) and \<open>grep.c\<close> are programs on top.

  \<^bold>\<open>The model.\<close> The whole kernel state is one record, \<open>kstate\<close> (\<open>Kernel_State\<close>), with a
  component per global variable of the sources, the byte memory of the machine and
  the state of the processors. A C function becomes a HOL function of the same name
  from its arguments and a state to an \<open>outcome\<close> (\<open>Xv6_Prelude\<close>): a result and a new
  state, a switch to the scheduler, spinning for ever, the \<open>panic\<close> of the sources with
  its message, or a fault where C leaves the behaviour undefined. A function that waits
  ends in \<open>Swtch\<close>; what it does after being woken is a function with the suffix
  \<open>_resume\<close>. Machine integers are words of their width and wrap around; page
  directories, tables, free pages, user buffers and stacks are bytes of the memory.

  \<^item> \<open>Spinlock\<close>: \<open>acquire\<close>, \<open>release\<close>, \<open>pushcli\<close>, \<open>popcli\<close>, \<open>mycpu\<close> as whole calls of
    one processor. \<open>Spin_Steps\<close>: the same code cut at every access to a lock, with the
    atomic \<open>xchg\<close> as one step, for processors that run at the same time; run without
    interruption the steps are the whole calls. \<open>Sleeplock\<close>, \<open>Prioritylock\<close>: the two
    waiting locks, the second one with its queue.
  \<^item> \<open>Sched\<close>, \<open>Proc\<close>, \<open>Proc_Info\<close>: the process table, the scheduler with its queues and
    ageing, \<open>sleep\<close>, \<open>wakeup\<close>, \<open>kill\<close>, \<open>fork\<close>, \<open>exit\<close>, \<open>wait\<close>, and the listings.
    \<open>Sleep_Steps\<close>: \<open>sleep\<close> and \<open>wakeup\<close> cut between their lock operations, on any number
    of processors; run without interruption the steps are \<open>sleep\<close> and \<open>wakeup\<close>.
  \<^item> \<open>Pages\<close>, \<open>Kalloc\<close>, \<open>Vm\<close>, \<open>Usermem\<close>, \<open>Exec\<close>, \<open>Shared_Mem\<close>: page arithmetic, the page
    allocator, page tables, loads and stores through them, program loading.
  \<^item> \<open>Bio\<close>, \<open>Log\<close>, \<open>Blocks\<close>, \<open>Fs_Inode\<close>, \<open>Fs_Dir\<close>, \<open>File\<close>, \<open>Pipe\<close>: the block cache over the
    memory disk of \<open>memide.c\<close>, the log, inodes and block allocation, file content,
    directories and paths, open files, pipes.
  \<^item> \<open>Console_Out\<close>, \<open>Console_In\<close>: the screen, formatted printing, line editing, history.
  \<^item> \<open>Syscall\<close>, \<open>Sysfile\<close>: arguments, every system call, the dispatcher, the trap handler.
  \<^item> \<open>Shell\<close>, \<open>Grep\<close>: the shell's parser, and the search program.

  \<^bold>\<open>Interfaces.\<close> \<open>page_pool\<close> (\<open>Kalloc\<close>) is what clients of the page allocator rely on,
  \<open>prio_queue\<close> (\<open>Prioritylock\<close>) the queue of the priority lock, \<open>fifo\<close> (\<open>Ring\<close>) a
  bounded queue, provided by the pipe's ring, \<open>block_cache\<close> (\<open>Block_Cache\<close>) a cache of
  disk blocks, provided by \<open>bio.c\<close> and used by the log, \<open>block_txn\<close> (\<open>Block_Txn\<close>) a
  transaction, provided by the log and used by the file system, \<open>byte_sink\<close> and
  \<open>byte_source\<close> (\<open>Fs_Rw\<close>) the two ends of a transfer of file content. Each is
  interpreted on the definitions of the model.

  \<^bold>\<open>What is shown.\<close>
  \<^item> Locks: mutual exclusion in every interleaving of the instructions of the lock code,
    interrupts off from the \<open>xchg\<close> to the store, no wrong panic from racing reads
    (\<open>Spin_Steps\<close>), nesting of interrupt disabling, exclusion of sleep locks over every
    history, order of service and exclusion of the priority lock.
  \<^item> Scheduling: the choice follows the policy, a waiting process is eventually chosen
    (\<open>Sched_Policy\<close>), and no wakeup is lost in any interleaving of sleepers and wakers
    (\<open>Sleep_Steps\<close>).
  \<^item> Memory: pages are neither handed out twice nor lost over every history;
    initialisation frees exactly the whole pages of its range; a page directory is a
    map from pages to entries, which \<open>mappages\<close> extends (\<open>Vm_Props\<close>).
  \<^item> Disk: the cache never drops a pending change, a commit interrupted after any
    number of disk writes recovers to all of the old or all of the new content, and a
    recovery interrupted after any of its writes is completed by the next one (\<open>Bio_Props\<close>, \<open>Log_Props\<close>).
  \<^item> Files, layer by layer above the transaction (\<open>Fs_Txn\<close>): the bit map is a set of
    free blocks (\<open>Fs_Alloc\<close>), the inode blocks are a table of inodes (\<open>Fs_Table\<close>), the
    block map of an inode grows without overlapping anything in use (\<open>Fs_Map\<close>), \<open>readi\<close>
    and \<open>writei\<close> read and overwrite the content as a list of bytes (\<open>Fs_Rw\<close>), a
    directory is a map from names to inode numbers, which \<open>dirlookup\<close> consults and
    \<open>dirlink\<close> extends, and a path is the list of its elements (\<open>Fs_Names\<close>).
  \<^item> Pipes are queues of bytes (\<open>Pipe_Props\<close>); accepted system call arguments lie in the
    memory of the process (\<open>Syscall_Props\<close>); printed numbers read back as themselves
    and the cursor stays on the screen wherever the 32-bit arithmetic of the code keeps
    the end of the edited line on it (\<open>Console_Out\<close>).
  \<^item> Programs: the shell's parser ends on every line with well-formed commands and
    parses every sentence of its grammar to its tree (\<open>Shell_Props\<close>); \<open>grep\<close>'s matcher
    decides the language of a pattern and its loop prints the matching lines of a file
    whose lines fit its buffer (\<open>Grep\<close>).
  \<^item> Some theorems state what the code does where it does not do what it means to: the
    priority queue at the end of its ring, searches of the process table that find
    nothing, a lock that is not released, input that \<open>grep\<close> drops.

  The steps of processors that run at the same time are interleaved on one memory, in
  which a store is seen by all at once; the locked \<open>xchg\<close> and the barriers of the code are
  there to give this. Everywhere else a function is the run of one processor, and a lock
  that another processor holds makes it spin.

  The theorems about the disk and the files speak of one process inside a transaction,
  with the locks it needs free; waiting for another process ends an operation in
  \<open>Swtch\<close>. The content of files is that of the logical disk, cache and log included.

  \<^bold>\<open>Bounds.\<close> Loops are structural recursion, or recursion with a termination proof; a loop
  through a list of offsets, blocks or entries takes the list, computed from the bounds
  that the code's loop tests. The search of the round-robin queue, which need not end, is
  a partial function, and is shown to end when a process can run. The functions of the
  shell's parser call each other and take a bound on the depth of their calls; four
  times the length of the line, and four, is shown to be enough.

  \<^bold>\<open>Not modelled.\<close> The disk controller driver \<open>ide.c\<close>, the interrupt controllers and the
  timer (\<open>lapic.c\<close>, \<open>ioapic.c\<close>, \<open>picirq.c\<close>), the keyboard's scan codes (\<open>kbd.c\<close>) and the
  serial port's initialisation are device programming; the model starts at the interface
  above them. The firmware tables (\<open>mp.c\<close>), the boot code, \<open>main.c\<close> and the assembly
  files have effects below the level of the state. Segment descriptors and the
  descriptor table of traps are set once and not looked at again. Of the user programs,
  those that only pass their arguments to system calls, the test programs, the user
  library's allocator and printing, the part of the shell that runs commands, and the
  host tools (\<open>mkfs.c\<close>) are left out. Lock names and the call stacks recorded in locks
  serve debugging only. The ring of a pipe is a record at the address of its page and not
  bytes of the page; nothing reads it once the page is freed. The translation cache of the processor is always up to date.
\<close>

end
